(* ===== verification/Prelude.thy ===== *)
theory Prelude
  imports Main "HOL-Library.Word"
begin

text \<open>
  Shared vocabulary of the development: the machine integers of the C code, the outcome
  type of code that can reach \<open>panic()\<close>, the checked arithmetic macros of
  \<^verbatim>\<open>src/common/lib/misc.h\<close>, and the generic lemmas on words and on arrays modelled as
  lists (swap-with-last removal, in-place update) that every component uses.
\<close>

unbundle bit_operations_syntax

section \<open>Machine integers\<close>

type_synonym u8 = "8 word"
type_synonym u16 = "16 word"
type_synonym u32 = "32 word"
type_synonym u64 = "64 word"

text \<open>
  A computation that can reach \<open>panic()\<close> yields \<open>Inl\<close> of the message, or \<open>Inr\<close> of
  its result: \<open>panic\<close> never returns to its caller.
\<close>

type_synonym 'a outcome = "string + 'a"

named_theorems checked_simps \<open>characterisations of the checked arithmetic macros\<close>

section \<open>Checked arithmetic (\<open>lib/misc.h\<close>)\<close>

text \<open>
  The macros take a statement that runs on overflow. The model returns \<^const>\<open>None\<close>
  there, and each use supplies the branch.
\<close>

definition CHECKED_ADD :: "'a::len word \<Rightarrow> 'a word \<Rightarrow> 'a word option" where
  "CHECKED_ADD a b = (if unat a + unat b < 2 ^ LENGTH('a) then Some (a + b) else None)"

definition CHECKED_MUL :: "'a::len word \<Rightarrow> 'a word \<Rightarrow> 'a word option" where
  "CHECKED_MUL a b = (if unat a * unat b < 2 ^ LENGTH('a) then Some (a * b) else None)"

definition DIV_ROUNDUP :: "'a::len word \<Rightarrow> 'a word \<Rightarrow> 'a word option" where
  "DIV_ROUNDUP a b = (case CHECKED_ADD a (b - 1) of None \<Rightarrow> None | Some s \<Rightarrow> Some (s div b))"

definition ALIGN_UP :: "'a::len word \<Rightarrow> 'a word \<Rightarrow> 'a word option" where
  "ALIGN_UP x a = (case DIV_ROUNDUP x a of None \<Rightarrow> None | Some q \<Rightarrow> Some (q * a))"

definition ALIGN_DOWN :: "'a::len word \<Rightarrow> 'a word \<Rightarrow> 'a word" where
  "ALIGN_DOWN x a = (x div a) * a"

lemma CHECKED_ADD_eq [checked_simps, code]:
  "CHECKED_ADD a b = (if a \<le> a + b then Some (a + b) else None)"
proof -
  have "(unat a + unat b < 2 ^ LENGTH('a)) \<longleftrightarrow> a \<le> a + b" for a b :: "'a::len word"
    by (simp add: no_olen_add_nat)
  then show ?thesis by (simp add: CHECKED_ADD_def)
qed

lemma CHECKED_MUL_eq [code]:
  "CHECKED_MUL a b = (if uint a * uint b < 2 ^ LENGTH('a) then Some (a * b) else None)"
  for a b :: "'a::len word"
proof -
  have "unat a * unat b < 2 ^ LENGTH('a) \<longleftrightarrow> int (unat a * unat b) < int (2 ^ LENGTH('a))" by linarith
  then show ?thesis by (simp add: CHECKED_MUL_def)
qed

lemma CHECKED_ADD_0 [simp]: "CHECKED_ADD a 0 = Some a"
  by (simp add: CHECKED_ADD_eq)

lemma CHECKED_ADD_SomeD: "CHECKED_ADD a b = Some c \<Longrightarrow> c = a + b \<and> a \<le> c"
  by (auto simp: CHECKED_ADD_eq split: if_splits)

lemma CHECKED_ADD_unat: "CHECKED_ADD a b = Some c \<Longrightarrow> unat c = unat a + unat b"
  by (auto simp: CHECKED_ADD_def unat_word_ariths split: if_splits)

lemma CHECKED_MUL_unat: "CHECKED_MUL a b = Some c \<Longrightarrow> unat c = unat a * unat b"
  by (auto simp: CHECKED_MUL_def unat_word_ariths split: if_splits)

lemma unat_ALIGN_DOWN:
  fixes x a :: "'a::len word"
  shows "unat (ALIGN_DOWN x a) = unat x div unat a * unat a"
proof -
  have "unat x < 2 ^ LENGTH('a)" by (rule unsigned_less)
  moreover have "unat x div unat a * unat a \<le> unat x" by simp
  moreover have "unat x div unat a \<le> unat x" by (rule div_le_dividend)
  ultimately have "unat x div unat a * unat a < 2 ^ LENGTH('a)"
    and "unat x div unat a < 2 ^ LENGTH('a)" by linarith+
  then show ?thesis
    by (simp add: ALIGN_DOWN_def unat_word_ariths)
qed

lemma ALIGN_DOWN_le: "ALIGN_DOWN x a \<le> x"
  by (simp add: word_le_nat_alt unat_ALIGN_DOWN)

lemma ALIGN_DOWN_dvd: "unat a dvd unat (ALIGN_DOWN x a)"
  by (simp add: unat_ALIGN_DOWN)

lemma ALIGN_DOWN_greater:
  "0 < unat a \<Longrightarrow> unat x < unat (ALIGN_DOWN x a) + unat a"
  using div_mult_mod_eq [of "unat x" "unat a"] mod_less_divisor [of "unat a" "unat x"]
  unfolding unat_ALIGN_DOWN by linarith

text \<open>
  \<open>ALIGN_UP\<close> yields the least multiple of the alignment that is not below its argument.
\<close>

lemma unat_ALIGN_UP:
  fixes x a :: "'a::len word"
  assumes "ALIGN_UP x a = Some y" and "0 < unat a"
  shows "unat y = (unat x + (unat a - 1)) div unat a * unat a"
proof -
  from assms(2) have pred: "unat (a - 1) = unat a - 1"
    by (simp add: unat_minus_one unat_gt_0)
  from assms(1) obtain s where s: "CHECKED_ADD x (a - 1) = Some s" and y: "y = s div a * a"
    by (auto simp: ALIGN_UP_def DIV_ROUNDUP_def split: option.splits)
  from y have "unat y = unat s div unat a * unat a"
    using unat_ALIGN_DOWN [of s a] by (simp add: ALIGN_DOWN_def)
  with CHECKED_ADD_unat [OF s] pred show ?thesis by simp
qed

lemma ALIGN_UP_props:
  assumes "ALIGN_UP x a = Some y" and "0 < unat a"
  shows "x \<le> y" and "unat a dvd unat y" and "unat y < unat x + unat a"
proof -
  let ?s = "unat x + (unat a - 1)"
  note y = unat_ALIGN_UP [OF assms]
  have "?s = ?s div unat a * unat a + ?s mod unat a" by simp
  moreover have "?s mod unat a < unat a" using assms(2) by simp
  ultimately show "x \<le> y" and "unat y < unat x + unat a"
    using assms(2) unfolding word_le_nat_alt y by linarith+
  show "unat a dvd unat y" by (simp add: y)
qed

section \<open>Widening\<close>

lemma unat_ucast_up:
  fixes w :: "'a::len word"
  assumes "LENGTH('a) \<le> LENGTH('b::len)"
  shows "unat (ucast w :: 'b word) = unat w"
proof -
  have "unat w < 2 ^ LENGTH('a)" by (rule unsigned_less)
  also have "(2 :: nat) ^ LENGTH('a) \<le> 2 ^ LENGTH('b)" using assms by simp
  finally show ?thesis by (simp add: unsigned_ucast_eq take_bit_nat_eq_self)
qed

lemma ucast_up_inj:
  fixes v w :: "'a::len word"
  assumes "(ucast v :: 'b::len word) = ucast w" and "LENGTH('a) \<le> LENGTH('b)"
  shows "v = w"
  using assms by (metis unat_ucast_up word_unat_eq_iff)

lemma uint_word_of_int_id:
  "0 \<le> k \<Longrightarrow> k < 2 ^ LENGTH('a) \<Longrightarrow> uint (word_of_int k :: 'a::len word) = k"
  by (simp add: uint_word_of_int_eq take_bit_int_eq_self)

lemma uint_u64_less: "uint (n :: u64) < 2 ^ 64"
  using uint_bounded [of n] by simp

lemma unat_shift_div: "unat (drop_bit k (w :: 'a::len word)) = unat w div 2 ^ k"
  by (simp only: unat_drop_bit_eq drop_bit_eq_div [where 'a = nat])

lemma unat_mask_mod: "unat (take_bit k (w :: 'a::len word)) = unat w mod 2 ^ k"
  by (simp only: unsigned_take_bit_eq take_bit_eq_mod [where 'a = nat])

end
