(* ===== verification/Memmap.thy ===== *)
theory Memmap
  imports Prelude
begin

text \<open>
  The memory map of \<^verbatim>\<open>src/common/mm/pmm.s2.c\<close>: its entries, \<open>align_entry\<close> and the
  sanitiser \<open>pmm_sanitise_entries\<close>. The C array \<open>m\<close> with its \<open>count\<close> is a list whose
  length is the count; \<open>memmap_max_entries\<close> is the argument \<open>limit\<close>. The field
  \<open>unused\<close> of the C struct is padding that no code reads and is left out.
\<close>

section \<open>Entries\<close>

record memmap_entry =
  mbase :: u64
  mlength :: u64
  mtype :: u32

type_synonym memmap = "memmap_entry list"

abbreviation MEMMAP_USABLE :: u32 where "MEMMAP_USABLE \<equiv> 1"
abbreviation MEMMAP_RESERVED :: u32 where "MEMMAP_RESERVED \<equiv> 2"
abbreviation MEMMAP_ACPI_RECLAIMABLE :: u32 where "MEMMAP_ACPI_RECLAIMABLE \<equiv> 3"
abbreviation MEMMAP_ACPI_NVS :: u32 where "MEMMAP_ACPI_NVS \<equiv> 4"
abbreviation MEMMAP_BAD_MEMORY :: u32 where "MEMMAP_BAD_MEMORY \<equiv> 5"
abbreviation MEMMAP_BOOTLOADER_RECLAIMABLE :: u32 where "MEMMAP_BOOTLOADER_RECLAIMABLE \<equiv> 0x1000"
abbreviation MEMMAP_KERNEL_AND_MODULES :: u32 where "MEMMAP_KERNEL_AND_MODULES \<equiv> 0x1001"
abbreviation MEMMAP_FRAMEBUFFER :: u32 where "MEMMAP_FRAMEBUFFER \<equiv> 0x1002"
abbreviation MEMMAP_RESERVED_MAPPED :: u32 where "MEMMAP_RESERVED_MAPPED \<equiv> 0x1003"
abbreviation MEMMAP_EFI_RECLAIMABLE :: u32 where "MEMMAP_EFI_RECLAIMABLE \<equiv> 0x2000"

abbreviation PAGE_SIZE :: u64 where "PAGE_SIZE \<equiv> 4096"

text \<open>The one-past-the-end address; it is below the base exactly when the sum wraps.\<close>

definition mtop :: "memmap_entry \<Rightarrow> u64" where
  "mtop e = mbase e + mlength e"

lemma checked_top [checked_simps]:
  "CHECKED_ADD (mbase e) (mlength e) = (if mbase e \<le> mtop e then Some (mtop e) else None)"
  by (simp add: CHECKED_ADD_eq mtop_def)

lemma checked_top_Some [simp]:
  "mbase e \<le> mtop e \<Longrightarrow> CHECKED_ADD (mbase e) (mlength e) = Some (mtop e)"
  by (simp add: checked_top)

lemma checked_top_None [simp]:
  "mtop e < mbase e \<Longrightarrow> CHECKED_ADD (mbase e) (mlength e) = None"
  by (simp add: checked_top)

section \<open>\<open>align_entry\<close>\<close>

text \<open>
  The C function updates base and length through pointers and returns whether the entry
  survives; the model returns the updated pair, or \<^const>\<open>None\<close> for \<open>false\<close>, after
  which the caller deletes the entry.
\<close>

definition align_entry :: "u64 \<Rightarrow> u64 \<Rightarrow> (u64 \<times> u64) option" where
  "align_entry base len =
     (if len < PAGE_SIZE then None
      else case ALIGN_UP base PAGE_SIZE of
        None \<Rightarrow> None
      | Some base' \<Rightarrow>
          (let len' = ALIGN_DOWN (len - (base' - base)) PAGE_SIZE
           in if len' = 0 then None else Some (base', len')))"

section \<open>\<open>pmm_sanitise_entries\<close>\<close>

text \<open>Removal of slot \<open>i\<close>: the last entry moves into it and the count drops.\<close>

definition remove_entry :: "nat \<Rightarrow> 'a list \<Rightarrow> 'a list" where
  "remove_entry i m = butlast (if i < length m - 1 then m[i := m ! (length m - 1)] else m)"

text \<open>
  One usable entry \<open>i\<close> against entry \<open>j\<close> with a nonempty, representable range. The
  result is the new map and whether the \<open>break\<close> was taken.
\<close>

definition trim_against :: "nat \<Rightarrow> memmap \<Rightarrow> nat \<Rightarrow> nat \<Rightarrow> (memmap \<times> bool) outcome" where
  "trim_against limit m i j =
     (let base = mbase (m ! i); top = mtop (m ! i);
          res_base = mbase (m ! j); res_top = mtop (m ! j)
      in if res_base \<le> base \<and> res_top \<ge> top
         then Inr (m[i := (m ! i)\<lparr>mbase := top, mlength := 0\<rparr>], True)
         else
           (let split = (res_base \<ge> base \<and> res_base < top) \<and> (res_top \<ge> base \<and> res_top < top)
            in if split \<and> length m \<ge> limit then Inl ''Memory map exhausted.''
               else
                 (let m1 = (if split
                            then m @ [(m ! i)\<lparr>mbase := res_top, mlength := top - res_top\<rparr>]
                            else m);
                      top1 = (if split then res_base else top);
                      top2 = (if res_base \<ge> base \<and> res_base < top1 then res_base else top1);
                      base2 = (if res_top \<ge> base \<and> res_top < top2 then res_top else base)
                  in Inr (m1[i := (m ! i)\<lparr>mbase := base2, mlength := top2 - base2\<rparr>], False))))"

text \<open>
  The measure behind both loops below: the number of bytes the entries claim. A split
  removes at least one byte from it, because entries of length zero are skipped.
\<close>

definition total_length :: "memmap \<Rightarrow> nat" where
  "total_length m = sum_list (map (\<lambda>e. unat (mlength e)) m)"

lemma total_length_simps [simp]:
  "total_length [] = 0"
  "total_length (e # m) = unat (mlength e) + total_length m"
  "total_length (m @ m') = total_length m + total_length m'"
  by (simp_all add: total_length_def)

lemma total_length_update:
  "i < length m \<Longrightarrow>
     total_length (m[i := e]) + unat (mlength (m ! i)) = total_length m + unat (mlength e)"
  by (induction m arbitrary: i) (auto split: nat.splits)

text \<open>What one trimming step does to the map, case by case.\<close>

lemma trim_against_cases:
  assumes "trim_against limit m i j = Inr (m', stop)" and "i < length m"
    and "mbase (m ! i) \<le> mtop (m ! i)" and "mbase (m ! j) \<le> mtop (m ! j)"
    and "mlength (m ! j) \<noteq> 0"
  obtains
    (contained) "mbase (m ! j) \<le> mbase (m ! i)" "mtop (m ! i) \<le> mtop (m ! j)" "stop"
      "m' = m[i := (m ! i)\<lparr>mbase := mtop (m ! i), mlength := 0\<rparr>]"
  | (split) "mbase (m ! i) \<le> mbase (m ! j)" "mtop (m ! j) < mtop (m ! i)" "\<not> stop"
      "length m < limit"
      "m' = (m @ [(m ! i)\<lparr>mbase := mtop (m ! j), mlength := mtop (m ! i) - mtop (m ! j)\<rparr>])
              [i := (m ! i)\<lparr>mlength := mbase (m ! j) - mbase (m ! i)\<rparr>]"
  | (top) "mbase (m ! i) < mbase (m ! j)" "mbase (m ! j) < mtop (m ! i)"
      "mtop (m ! i) \<le> mtop (m ! j)" "\<not> stop"
      "m' = m[i := (m ! i)\<lparr>mlength := mbase (m ! j) - mbase (m ! i)\<rparr>]"
  | (bottom) "mbase (m ! j) < mbase (m ! i)" "mbase (m ! i) \<le> mtop (m ! j)"
      "mtop (m ! j) < mtop (m ! i)" "\<not> stop"
      "m' = m[i := (m ! i)\<lparr>mbase := mtop (m ! j), mlength := mtop (m ! i) - mtop (m ! j)\<rparr>]"
  | (apart) "mtop (m ! j) < mbase (m ! i) \<or> mtop (m ! i) \<le> mbase (m ! j)" "\<not> stop" "m' = m"
proof -
  have len_i: "mtop (m ! i) - mbase (m ! i) = mlength (m ! i)"
    by (simp add: mtop_def)
  have nonempty: "mbase (m ! j) < mtop (m ! j)"
    using assms(4,5) by (auto simp: mtop_def order_less_le)
  have same: "m[i := (m ! i)\<lparr>mbase := mbase (m ! i), mlength := mlength (m ! i)\<rparr>] = m"
    by simp
  consider "mbase (m ! j) \<le> mbase (m ! i) \<and> mtop (m ! i) \<le> mtop (m ! j)"
    | "mbase (m ! i) \<le> mbase (m ! j) \<and> mtop (m ! j) < mtop (m ! i)"
    | "mbase (m ! i) < mbase (m ! j) \<and> mbase (m ! j) < mtop (m ! i) \<and> mtop (m ! i) \<le> mtop (m ! j)"
    | "mbase (m ! j) < mbase (m ! i) \<and> mbase (m ! i) \<le> mtop (m ! j) \<and> mtop (m ! j) < mtop (m ! i)"
    | "(mtop (m ! j) < mbase (m ! i) \<or> mtop (m ! i) \<le> mbase (m ! j)) \<and>
         \<not> (mbase (m ! j) \<le> mbase (m ! i) \<and> mtop (m ! i) \<le> mtop (m ! j))"
    by (meson linorder_not_le order_less_le_trans linorder_le_cases order_le_less)
  then show thesis
  proof cases
    case 1
    with assms(1) show ?thesis
      by (intro contained) (auto simp: trim_against_def Let_def)
  next
    case 2
    with assms(1) nonempty show ?thesis
      by (intro split) (auto simp: trim_against_def Let_def split: if_splits)
  next
    case 3
    with assms(1) show ?thesis
      by (intro top) (auto simp: trim_against_def Let_def split: if_splits)
  next
    case 4
    with assms(1) show ?thesis
      by (intro bottom) (auto simp: trim_against_def Let_def split: if_splits)
  next
    case 5
    with assms(1,3) nonempty len_i same show ?thesis
      by (intro apart) (auto simp: trim_against_def Let_def split: if_splits)
  qed
qed

lemma unat_diff_split:
  fixes a b c d :: "'a::len word"
  assumes "a \<le> b" and "b < c" and "c \<le> d"
  shows "unat (b - a) + unat (d - c) < unat (d - a)"
  using assms by (simp add: unat_sub word_le_nat_alt word_less_nat_alt)

lemma unat_diff_le:
  fixes a b c d :: "'a::len word"
  assumes "a \<le> b" and "b \<le> c" and "c \<le> d"
  shows "unat (c - b) \<le> unat (d - a)"
  using assms by (simp add: unat_sub word_le_nat_alt)

lemma mtop_diff: "mtop e - mbase e = mlength e"
  by (simp add: mtop_def)

lemma trim_against_total:
  assumes "trim_against limit m i j = Inr (m', stop)" and "i < length m" and "j < length m"
    and "mbase (m ! i) \<le> mtop (m ! i)" and "mbase (m ! j) \<le> mtop (m ! j)"
    and "mlength (m ! j) \<noteq> 0"
  shows "total_length m' < total_length m \<or>
         total_length m' \<le> total_length m \<and> length m' = length m"
  using assms(1,2,4,5,6)
proof (cases rule: trim_against_cases)
  case contained
  then show ?thesis
    using total_length_update [OF assms(2), of "(m ! i)\<lparr>mbase := mtop (m ! i), mlength := 0\<rparr>"]
    by simp
next
  case split
  have "mbase (m ! j) < mtop (m ! j)"
    using assms(5,6) by (auto simp: mtop_def order_less_le)
  with split have "unat (mbase (m ! j) - mbase (m ! i)) + unat (mtop (m ! i) - mtop (m ! j))
      < unat (mlength (m ! i))"
    using unat_diff_split mtop_diff by (metis order_less_imp_le)
  with split show ?thesis
    using total_length_update [OF assms(2), of "(m ! i)\<lparr>mlength := mbase (m ! j) - mbase (m ! i)\<rparr>"]
      assms(2) by (simp add: list_update_append)
next
  case top
  then have "unat (mbase (m ! j) - mbase (m ! i)) \<le> unat (mlength (m ! i))"
    using unat_diff_le [of "mbase (m ! i)" "mbase (m ! i)" "mbase (m ! j)" "mtop (m ! i)"]
    by (simp add: mtop_diff)
  with top show ?thesis
    using total_length_update [OF assms(2), of "(m ! i)\<lparr>mlength := mbase (m ! j) - mbase (m ! i)\<rparr>"]
    by simp
next
  case bottom
  then have "unat (mtop (m ! i) - mtop (m ! j)) \<le> unat (mlength (m ! i))"
    using unat_diff_le [of "mbase (m ! i)" "mtop (m ! j)" "mtop (m ! i)" "mtop (m ! i)"]
    by (simp add: mtop_diff)
  with bottom show ?thesis
    using total_length_update [OF assms(2), of
        "(m ! i)\<lparr>mbase := mtop (m ! j), mlength := mtop (m ! i) - mtop (m ! j)\<rparr>"]
    by simp
next
  case apart
  then show ?thesis by simp
qed

text \<open>
  The inner loop over \<open>j\<close>. The \<open>Inr (m', del)\<close> result says whether \<open>goto del_mm0\<close> was
  taken because the usable entry's own range is not representable.
\<close>

function overlap_walk :: "nat \<Rightarrow> memmap \<Rightarrow> nat \<Rightarrow> nat \<Rightarrow> (memmap \<times> bool) outcome" where
  "overlap_walk limit m i j =
     (if i < length m \<and> j < length m then
        if j = i then overlap_walk limit m i (Suc j)
        else case CHECKED_ADD (mbase (m ! i)) (mlength (m ! i)) of
          None \<Rightarrow> Inr (m, True)
        | Some e_top \<Rightarrow>
            (case CHECKED_ADD (mbase (m ! j)) (mlength (m ! j)) of
               None \<Rightarrow> overlap_walk limit m i (Suc j)
             | Some res_top \<Rightarrow>
                 if mlength (m ! j) = 0 then overlap_walk limit m i (Suc j)
                 else (case trim_against limit m i j of
                   Inl e \<Rightarrow> Inl e
                 | Inr (m', stop) \<Rightarrow>
                     if stop then Inr (m', False) else overlap_walk limit m' i (Suc j)))
      else Inr (m, False))"
  by pat_completeness auto
termination
proof (relation "measures [\<lambda>(limit, m, i, j). total_length m, \<lambda>(limit, m, i, j). length m - j]",
    goal_cases)
  case (5 limit m i j top res_top ms m' stop)
  then have "total_length m' < total_length m \<or>
      total_length m' \<le> total_length m \<and> length m' = length m"
    by (intro trim_against_total) (auto simp: CHECKED_ADD_eq mtop_def split: if_splits)
  with 5 show ?case by auto
qed auto

declare overlap_walk.simps [simp del]

text \<open>
  The proof rule of the inner loop: \<open>Q\<close> is its invariant at index \<open>j\<close>, \<open>R\<close> holds
  when it ends normally or by \<open>break\<close>, \<open>D\<close> when it leaves for \<open>del_mm0\<close>.
\<close>

definition trimmable :: "memmap \<Rightarrow> nat \<Rightarrow> nat \<Rightarrow> bool" where
  "trimmable m i j \<longleftrightarrow> i < length m \<and> j < length m \<and> j \<noteq> i \<and> mbase (m ! i) \<le> mtop (m ! i)
     \<and> mbase (m ! j) \<le> mtop (m ! j) \<and> mlength (m ! j) \<noteq> 0"

lemma overlap_walk_rule:
  assumes "overlap_walk limit m i j = Inr (m', del)" and "Q m j"
    and skip: "\<And>m j. \<lbrakk>Q m j; i < length m; j < length m;
          j = i \<or> mtop (m ! j) < mbase (m ! j) \<or> mlength (m ! j) = 0\<rbrakk> \<Longrightarrow> Q m (Suc j)"
    and step: "\<And>m j m1. \<lbrakk>Q m j; trimmable m i j; trim_against limit m i j = Inr (m1, False)\<rbrakk>
          \<Longrightarrow> Q m1 (Suc j)"
    and stop: "\<And>m j m1. \<lbrakk>Q m j; trimmable m i j; trim_against limit m i j = Inr (m1, True)\<rbrakk>
          \<Longrightarrow> R m1"
    and del: "\<And>m j. \<lbrakk>Q m j; i < length m; mtop (m ! i) < mbase (m ! i)\<rbrakk> \<Longrightarrow> D m"
    and fin: "\<And>m j. \<lbrakk>Q m j; \<not> (i < length m \<and> j < length m)\<rbrakk> \<Longrightarrow> R m"
  shows "if del then D m' else R m'"
  using assms
proof (induction limit m i j rule: overlap_walk.induct)
  case (1 limit m i j)
  note IH = "1.IH" and ret = "1.prems"(1) and Q = "1.prems"(2)
    and skip = "1.prems"(3) and step = "1.prems"(4) and stop = "1.prems"(5)
    and del = "1.prems"(6) and fin = "1.prems"(7)
  note unfold = overlap_walk.simps [of limit m i j]
  show ?case
  proof (cases "i < length m \<and> j < length m")
    case False
    with ret have "m' = m" "\<not> del" by (simp_all add: unfold)
    with fin [OF Q False] show ?thesis by simp
  next
    case bounds: True
    show ?thesis
    proof (cases "j \<noteq> i \<and> mtop (m ! i) < mbase (m ! i)")
      case True
      with ret bounds have "m' = m" "del" by (auto simp: unfold)
      with del [OF Q] True bounds show ?thesis by simp
    next
      case nodel: False
      show ?thesis
      proof (cases "trimmable m i j")
        case False
        with bounds nodel have nx: "j = i \<or> mtop (m ! j) < mbase (m ! j) \<or> mlength (m ! j) = 0"
          by (auto simp: trimmable_def)
        with ret bounds nodel have "overlap_walk limit m i (Suc j) = Inr (m', del)"
          by (auto simp: unfold linorder_not_less split: if_splits option.splits)
        moreover from skip [OF Q _ _ nx] bounds have "Q m (Suc j)" by simp
        ultimately show ?thesis
          using IH(1-3) bounds nodel nx skip step stop del fin
          by (cases "j = i"; cases "mtop (m ! j) < mbase (m ! j)") (simp_all add: linorder_not_less)
      next
        case tr: True
        then have ch: "CHECKED_ADD (mbase (m ! i)) (mlength (m ! i)) = Some (mtop (m ! i))"
          "CHECKED_ADD (mbase (m ! j)) (mlength (m ! j)) = Some (mtop (m ! j))"
          by (simp_all add: trimmable_def)
        from ret tr obtain m1 b where t: "trim_against limit m i j = Inr (m1, b)"
          by (auto simp: unfold ch trimmable_def split: sum.splits)
        show ?thesis
        proof (cases b)
          case True
          with ret tr t have "m' = m1" "\<not> del" by (auto simp: unfold ch trimmable_def)
          with stop [OF Q tr] t True show ?thesis by simp
        next
          case False
          with ret tr t have "overlap_walk limit m1 i (Suc j) = Inr (m', del)"
            by (auto simp: unfold ch trimmable_def)
          moreover from step [OF Q tr] t False have "Q m1 (Suc j)" by simp
          ultimately show ?thesis
            using IH(4) tr ch t False skip step stop del fin by (simp add: trimmable_def)
        qed
      qed
    qed
  qed
qed

text \<open>A walk never claims more bytes, and grows the map only while it gives bytes up.\<close>

definition shrinks :: "memmap \<Rightarrow> memmap \<Rightarrow> bool" where
  "shrinks m' m \<longleftrightarrow> length m \<le> length m' \<and>
     (total_length m' < total_length m \<or> total_length m' \<le> total_length m \<and> length m' = length m)"

lemma shrinks_refl [simp]: "shrinks m m"
  by (simp add: shrinks_def)

lemma shrinks_trim:
  assumes "shrinks m1 m" and "trimmable m1 i j" and "trim_against limit m1 i j = Inr (m2, b)"
  shows "shrinks m2 m"
proof -
  have "length m1 \<le> length m2"
    using assms(2,3) by (auto simp: trimmable_def elim!: trim_against_cases)
  with trim_against_total [OF assms(3)] assms(1,2) show ?thesis
    by (auto simp: trimmable_def shrinks_def)
qed

lemma overlap_walk_shrinks:
  assumes "overlap_walk limit m i j = Inr (m', del)"
  shows "shrinks m' m"
proof -
  have "if del then shrinks m' m else shrinks m' m"
    by (rule overlap_walk_rule [OF assms, of "\<lambda>m1 _. shrinks m1 m"]) (auto intro: shrinks_trim)
  then show ?thesis by (simp split: if_splits)
qed

text \<open>
  What follows the inner loop: an emptied entry, one whose range wraps, or one that
  alignment rejects is removed and the outer loop restarts (\<open>i = (size_t)-1\<close>); otherwise
  the loop goes on with the entry aligned when the caller asked for it.
\<close>

definition settle_entry :: "bool \<Rightarrow> memmap \<Rightarrow> nat \<Rightarrow> bool \<Rightarrow> memmap option" where
  "settle_entry align m i del =
     (if del \<or> mlength (m ! i) = 0 then None
      else if align then
        (case align_entry (mbase (m ! i)) (mlength (m ! i)) of
           None \<Rightarrow> None
         | Some (b, l) \<Rightarrow> Some (m[i := (m ! i)\<lparr>mbase := b, mlength := l\<rparr>]))
      else Some m)"

lemma align_entry_le:
  assumes "align_entry b l = Some (b', l')"
  shows "unat l' \<le> unat l"
proof -
  from assms obtain u where u: "ALIGN_UP b PAGE_SIZE = Some u"
    and l: "PAGE_SIZE \<le> l" and l': "l' = ALIGN_DOWN (l - (u - b)) PAGE_SIZE"
    by (auto simp: align_entry_def Let_def split: if_splits option.splits)
  from ALIGN_UP_props [OF u] have "b \<le> u" "unat u < unat b + 4096" by simp_all
  then have "u - b \<le> l"
    using l by (simp add: word_le_nat_alt unat_sub)
  then have "unat (l - (u - b)) \<le> unat l" by (simp add: unat_sub)
  with ALIGN_DOWN_le [of "l - (u - b)" PAGE_SIZE] show ?thesis
    by (simp add: l' word_le_nat_alt)
qed

lemma settle_entry_SomeD:
  assumes "settle_entry align m i del = Some m'"
  shows "\<not> del \<and> mlength (m ! i) \<noteq> 0 \<and>
    (\<not> align \<and> m' = m \<or>
     align \<and> (\<exists>b l. align_entry (mbase (m ! i)) (mlength (m ! i)) = Some (b, l) \<and>
       m' = m[i := (m ! i)\<lparr>mbase := b, mlength := l\<rparr>]))"
proof (cases "align_entry (mbase (m ! i)) (mlength (m ! i))")
  case None
  with assms show ?thesis by (simp add: settle_entry_def split: if_splits)
next
  case (Some bl)
  with assms show ?thesis by (cases bl) (simp add: settle_entry_def split: if_splits)
qed

lemma settle_entry_total:
  assumes "settle_entry align m i del = Some m'" and "i < length m"
  shows "total_length m' \<le> total_length m" and "length m' = length m"
proof -
  from settle_entry_SomeD [OF assms(1)] consider "m' = m"
    | b l where "align_entry (mbase (m ! i)) (mlength (m ! i)) = Some (b, l)"
        "m' = m[i := (m ! i)\<lparr>mbase := b, mlength := l\<rparr>]"
    by blast
  then have "total_length m' \<le> total_length m \<and> length m' = length m"
  proof cases
    case 2
    from align_entry_le [OF 2(1)] 2(2)
      total_length_update [OF assms(2), of "(m ! i)\<lparr>mbase := b, mlength := l\<rparr>"]
    show ?thesis by simp
  qed simp
  then show "total_length m' \<le> total_length m" and "length m' = length m" by simp_all
qed

lemma length_remove_entry [simp]: "length (remove_entry i m) = length m - 1"
  by (simp add: remove_entry_def)

lemma total_length_butlast: "total_length (butlast m) \<le> total_length m"
  by (induction m) auto

lemma total_length_remove_entry: "i < length m \<Longrightarrow> total_length (remove_entry i m) \<le> total_length m"
proof (cases "i < length m - 1")
  case True
  then obtain xs e where m: "m = xs @ [e]" and i: "i < length xs"
    by (cases m rule: rev_cases) auto
  then have "remove_entry i m = xs[i := e]"
    by (simp add: remove_entry_def list_update_append butlast_append nth_append)
  with total_length_update [OF i, of e] m show ?thesis by simp
next
  case False
  then show ?thesis by (simp add: remove_entry_def total_length_butlast)
qed

function sanitise_overlaps :: "bool \<Rightarrow> nat \<Rightarrow> memmap \<Rightarrow> nat \<Rightarrow> memmap outcome" where
  "sanitise_overlaps align limit m i =
     (if i < length m then
        if mtype (m ! i) \<noteq> MEMMAP_USABLE then sanitise_overlaps align limit m (Suc i)
        else case overlap_walk limit m i 0 of
          Inl e \<Rightarrow> Inl e
        | Inr (m', del) \<Rightarrow>
            (case settle_entry align m' i del of
               None \<Rightarrow> sanitise_overlaps align limit (remove_entry i m') 0
             | Some m'' \<Rightarrow> sanitise_overlaps align limit m'' (Suc i))
      else Inr m)"
  by pat_completeness auto
termination
proof (relation "measures [\<lambda>(a, l, m, i). total_length m, \<lambda>(a, l, m, i). length m,
    \<lambda>(a, l, m, i). length m - i]", goal_cases)
  case (3 align limit m i r m' del)
  then have "shrinks m' m" by (auto intro: overlap_walk_shrinks)
  moreover have "total_length (remove_entry i m') \<le> total_length m'"
    using 3 \<open>shrinks m' m\<close> by (intro total_length_remove_entry) (auto simp: shrinks_def)
  ultimately show ?case using 3 by (auto simp: shrinks_def)
next
  case (4 align limit m i r m' del m'')
  then have "shrinks m' m" by (auto intro: overlap_walk_shrinks)
  then show ?case
    using settle_entry_total [OF 4(5)] 4 by (auto simp: shrinks_def)
qed auto

declare sanitise_overlaps.simps [simp del]

text \<open>
  The second loop removes empty entries of any type and clips usable ones below the
  first page boundary unless \<open>pmm_sanitiser_keep_first_page\<close> (\<open>keep\<close>) is set.
\<close>

definition clip_entry :: "bool \<Rightarrow> memmap_entry \<Rightarrow> memmap_entry option" where
  "clip_entry keep e =
     (if mtype e = MEMMAP_USABLE \<and> \<not> keep \<and> mbase e < 0x1000 then
        case CHECKED_ADD (mbase e) (mlength e) of
          None \<Rightarrow> None
        | Some entry_top \<Rightarrow>
            if entry_top \<le> 0x1000 then None
            else (let e' = e\<lparr>mlength := mlength e - (0x1000 - mbase e), mbase := 0x1000\<rparr>
                  in if mlength e' = 0 then None else Some e')
      else if mlength e = 0 then None else Some e)"

function sanitise_clip :: "bool \<Rightarrow> memmap \<Rightarrow> nat \<Rightarrow> memmap" where
  "sanitise_clip keep m i =
     (if i < length m then
        case clip_entry keep (m ! i) of
          None \<Rightarrow> sanitise_clip keep (remove_entry i m) i
        | Some e \<Rightarrow> sanitise_clip keep (m[i := e]) (Suc i)
      else m)"
  by pat_completeness auto
termination
  by (relation "measure (\<lambda>(k, m, i). length m - i)") auto

declare sanitise_clip.simps [simp del]

text \<open>The third loop is a selection sort by base address.\<close>

function min_scan :: "memmap \<Rightarrow> nat \<Rightarrow> u64 \<Rightarrow> nat \<Rightarrow> nat" where
  "min_scan m i mn min_index =
     (if i < length m then
        if mbase (m ! i) < mn then min_scan m (Suc i) (mbase (m ! i)) i
        else min_scan m (Suc i) mn min_index
      else min_index)"
  by pat_completeness auto
termination
  by (relation "measure (\<lambda>(m, i, mn, k). length m - i)") auto

declare min_scan.simps [simp del]

function sanitise_sort :: "memmap \<Rightarrow> nat \<Rightarrow> memmap" where
  "sanitise_sort m p =
     (if p + 1 < length m then
        let min_index = min_scan m p (mbase (m ! p)) p;
            min_e = m ! min_index
        in sanitise_sort (m[min_index := m ! p, p := min_e]) (Suc p)
      else m)"
  by pat_completeness auto
termination
  by (relation "measure (\<lambda>(m, p). length m - p)") (auto simp: Let_def)

declare sanitise_sort.simps [simp del]

text \<open>The fourth loop merges neighbours of the same mergeable type.\<close>

definition mergeable :: "u32 \<Rightarrow> bool" where
  "mergeable t \<longleftrightarrow> t = MEMMAP_BOOTLOADER_RECLAIMABLE \<or> t = MEMMAP_RESERVED_MAPPED
     \<or> t = MEMMAP_KERNEL_AND_MODULES \<or> t = MEMMAP_USABLE"

definition merge_length :: "memmap_entry \<Rightarrow> memmap_entry \<Rightarrow> u64 option" where
  "merge_length e e' =
     (if \<not> mergeable (mtype e) then None
      else case CHECKED_ADD (mbase e) (mlength e) of
        None \<Rightarrow> None
      | Some merge_top \<Rightarrow>
          if mtype e' = mtype e \<and> mbase e' = merge_top
          then CHECKED_ADD (mlength e) (mlength e') else None)"

function sanitise_merge :: "memmap \<Rightarrow> nat \<Rightarrow> memmap" where
  "sanitise_merge m i =
     (if i + 1 < length m then
        case merge_length (m ! i) (m ! (i + 1)) of
          None \<Rightarrow> sanitise_merge m (Suc i)
        | Some l \<Rightarrow>
            sanitise_merge (take (i + 1) (m[i := (m ! i)\<lparr>mlength := l\<rparr>]) @ drop (i + 2) m) i
      else m)"
  by pat_completeness auto
termination
  by (relation "measure (\<lambda>(m, i). length m - i)") auto

declare sanitise_merge.simps [simp del]

definition pmm_sanitise_entries :: "bool \<Rightarrow> nat \<Rightarrow> memmap \<Rightarrow> bool \<Rightarrow> memmap outcome" where
  "pmm_sanitise_entries keep limit m align_entries =
     (case sanitise_overlaps align_entries limit m 0 of
        Inl e \<Rightarrow> Inl e
      | Inr m1 \<Rightarrow>
          Inr (sanitise_merge (sanitise_sort (sanitise_clip keep m1 0) 0) 0))"

section \<open>What a map covers\<close>

text \<open>
  The addresses of an entry. A range whose end wraps is empty here, as it is ignored by
  the code's checked additions.
\<close>

definition erange :: "memmap_entry \<Rightarrow> u64 set" where
  "erange e = {mbase e ..< mtop e}"

definition covered :: "(u32 \<Rightarrow> bool) \<Rightarrow> memmap \<Rightarrow> u64 set" where
  "covered P m = (\<Union>e \<in> {e \<in> set m. P (mtype e)}. erange e)"

definition cover :: "u32 \<Rightarrow> memmap \<Rightarrow> u64 set" where
  "cover t m = covered (\<lambda>t'. t' = t) m"

abbreviation usable :: "memmap \<Rightarrow> u64 set" where
  "usable m \<equiv> cover MEMMAP_USABLE m"

abbreviation unusable :: "memmap \<Rightarrow> u64 set" where
  "unusable m \<equiv> covered (\<lambda>t. t \<noteq> MEMMAP_USABLE) m"

abbreviation all_covered :: "memmap \<Rightarrow> u64 set" where
  "all_covered m \<equiv> covered (\<lambda>_. True) m"

lemma all_covered_split: "all_covered m = usable m \<union> unusable m"
  by (auto simp: covered_def cover_def)

lemma covered_simps [simp]:
  "covered P [] = {}"
  "covered P (e # m) = (if P (mtype e) then erange e else {}) \<union> covered P m"
  "covered P (m @ m') = covered P m \<union> covered P m'"
  by (auto simp: covered_def)

lemma in_covered_iff:
  "a \<in> covered P m \<longleftrightarrow> (\<exists>k < length m. P (mtype (m ! k)) \<and> a \<in> erange (m ! k))"
  by (auto simp: covered_def in_set_conv_nth)

end
