(* ===== verification/Memmap_Correct.thy ===== *)
theory Memmap_Correct
  imports Memmap "HOL-Library.Multiset"
begin

text \<open>
  Correctness of the sanitiser: which addresses are usable afterwards, that usable
  entries overlap nothing, that the other entries survive, and that the result is sorted.
\<close>

section \<open>One trimming step\<close>

lemma in_erange [simp]: "a \<in> erange e \<longleftrightarrow> mbase e \<le> a \<and> a < mtop e"
  by (auto simp: erange_def)

lemma mtop_update [simp]:
  "mtop (e\<lparr>mbase := b, mlength := t - b\<rparr>) = t"
  "mtop (e\<lparr>mlength := t - mbase e\<rparr>) = t"
  "mtop (e\<lparr>mbase := b, mlength := 0\<rparr>) = b"
  by (simp_all add: mtop_def)

text \<open>An entry whose end does not wrap around the address space.\<close>

definition representable :: "memmap_entry \<Rightarrow> bool" where
  "representable e \<longleftrightarrow> mbase e \<le> mtop e"

text \<open>
  Everything the later proofs need of \<open>trim_against\<close>: only slot \<open>i\<close> changes, what is
  appended comes out of slot \<open>i\<close>, slot \<open>i\<close> ends up disjoint from slot \<open>j\<close>, and no
  covered address is lost.
\<close>

definition trims :: "memmap \<Rightarrow> memmap \<Rightarrow> nat \<Rightarrow> bool" where
  "trims m m' i \<longleftrightarrow>
     length m \<le> length m' \<and>
     (\<forall>k < length m. k \<noteq> i \<longrightarrow> m' ! k = m ! k) \<and>
     mtype (m' ! i) = mtype (m ! i) \<and>
     erange (m' ! i) \<subseteq> erange (m ! i) \<and>
     (representable (m ! i) \<longrightarrow> representable (m' ! i)) \<and>
     (\<forall>k < length m'. length m \<le> k \<longrightarrow>
        mtype (m' ! k) = mtype (m ! i) \<and> erange (m' ! k) \<subseteq> erange (m ! i) \<and>
        representable (m' ! k))"

lemma trim_against_trims:
  assumes "trim_against limit m i j = Inr (m', stop)" and "trimmable m i j"
  shows "trims m m' i"
proof -
  from assms(2) have i: "i < length m" and "mbase (m ! i) \<le> mtop (m ! i)"
    "mbase (m ! j) \<le> mtop (m ! j)" "mlength (m ! j) \<noteq> 0" by (auto simp: trimmable_def)
  from assms(1) this show ?thesis
  proof (cases rule: trim_against_cases)
    case split
    then have "mbase (m ! j) \<le> mtop (m ! i)" "mbase (m ! i) \<le> mtop (m ! j)"
      using \<open>mbase (m ! j) \<le> mtop (m ! j)\<close> by order+
    with split i show ?thesis
      by (auto simp: trims_def representable_def nth_append list_update_append less_Suc_eq)
  qed (use i in \<open>auto simp: trims_def representable_def\<close>)
qed

lemma trim_against_disjoint:
  assumes "trim_against limit m i j = Inr (m', stop)" and "trimmable m i j"
  shows "erange (m' ! i) \<inter> erange (m ! j) = {}" and "stop \<longrightarrow> mlength (m' ! i) = 0"
proof -
  from assms(2) have i: "i < length m" "mbase (m ! i) \<le> mtop (m ! i)"
    "mbase (m ! j) \<le> mtop (m ! j)" "mlength (m ! j) \<noteq> 0" by (auto simp: trimmable_def)
  from assms(1) i show "erange (m' ! i) \<inter> erange (m ! j) = {}"
    by (cases rule: trim_against_cases) (use i in \<open>auto simp: list_update_append nth_append\<close>)
  from assms(1) i show "stop \<longrightarrow> mlength (m' ! i) = 0"
    by (cases rule: trim_against_cases) (use i in auto)
qed

lemma trim_against_keeps:
  assumes "trim_against limit m i j = Inr (m', stop)" and "trimmable m i j"
    and "a \<in> erange (m ! i)"
  shows "a \<in> erange (m ! j) \<or> a \<in> erange (m' ! i) \<or>
    length m < length m' \<and> a \<in> erange (m' ! length m)"
proof -
  from assms(2) have i: "i < length m" "mbase (m ! i) \<le> mtop (m ! i)"
    "mbase (m ! j) \<le> mtop (m ! j)" "mlength (m ! j) \<noteq> 0" by (auto simp: trimmable_def)
  from assms(1) i show ?thesis
    by (cases rule: trim_against_cases)
       (use i assms(3) in \<open>auto simp: list_update_append nth_append\<close>)
qed

lemma trim_against_all_covered:
  assumes t: "trim_against limit m i j = Inr (m', stop)" and tr: "trimmable m i j"
  shows "all_covered m' = all_covered m"
proof (intro set_eqI iffI)
  from trim_against_trims [OF t tr] have T: "trims m m' i" .
  from tr have ij: "i < length m" "j < length m" "j \<noteq> i" by (auto simp: trimmable_def)
  fix a
  {
    assume "a \<in> all_covered m'"
    then obtain k where k: "k < length m'" "a \<in> erange (m' ! k)"
      by (auto simp only: in_covered_iff)
    with T ij(1) have "a \<in> erange (m ! k) \<and> k < length m \<or> a \<in> erange (m ! i)"
      by (cases "k < length m"; cases "k = i") (auto simp: trims_def simp del: in_erange)
    with ij show "a \<in> all_covered m" by (auto simp only: in_covered_iff)
  next
    assume "a \<in> all_covered m"
    then obtain k where k: "k < length m" "a \<in> erange (m ! k)"
      by (auto simp only: in_covered_iff)
    show "a \<in> all_covered m'"
    proof (cases "k = i")
      case True
      with trim_against_keeps [OF t tr] k have "a \<in> erange (m ! j) \<or> a \<in> erange (m' ! i) \<or>
          length m < length m' \<and> a \<in> erange (m' ! length m)" by blast
      moreover have "m' ! j = m ! j" "j < length m'" "i < length m'"
        using T ij by (auto simp: trims_def)
      ultimately have "\<exists>k < length m'. a \<in> erange (m' ! k)" by metis
      then show ?thesis by (auto simp only: in_covered_iff)
    next
      case False
      with T k have "m' ! k = m ! k" "k < length m'" by (auto simp: trims_def)
      with k show ?thesis by (auto simp only: in_covered_iff)
    qed
  }
qed

section \<open>The inner loop\<close>

definition others :: "memmap \<Rightarrow> memmap_entry multiset" where
  "others m = filter_mset (\<lambda>e. mtype e \<noteq> MEMMAP_USABLE) (mset m)"

definition apart :: "memmap_entry \<Rightarrow> memmap_entry \<Rightarrow> bool" where
  "apart e e' \<longleftrightarrow> erange e \<inter> erange e' = {}"

text \<open>The usable entries below index \<open>i\<close> overlap no other entry.\<close>

definition clean_upto :: "memmap \<Rightarrow> nat \<Rightarrow> bool" where
  "clean_upto m i \<longleftrightarrow> (\<forall>k < length m. k < i \<longrightarrow> mtype (m ! k) = MEMMAP_USABLE \<longrightarrow>
     (\<forall>l < length m. l \<noteq> k \<longrightarrow> apart (m ! k) (m ! l)))"

lemma apart_sym: "apart e e' = apart e' e"
  by (auto simp: apart_def)

lemma apart_subset: "apart e e' \<Longrightarrow> erange d \<subseteq> erange e' \<Longrightarrow> apart e d"
  by (auto simp: apart_def simp del: in_erange)

lemma apart_empty: "mlength e' = 0 \<or> mtop e' < mbase e' \<Longrightarrow> apart e e'"
  by (auto simp: apart_def mtop_def)

lemma trims_shape:
  assumes "trims m m' i" and "i < length m"
  obtains e es where "m' = m[i := e] @ es" and "mtype e = mtype (m ! i)"
    and "\<forall>e' \<in> set es. mtype e' = mtype (m ! i)"
proof (rule that)
  show "m' = m[i := m' ! i] @ drop (length m) m'"
    using assms by (intro nth_equalityI) (auto simp: trims_def nth_append nth_list_update)
  show "mtype (m' ! i) = mtype (m ! i)" using assms by (simp add: trims_def)
  show "\<forall>e' \<in> set (drop (length m) m'). mtype e' = mtype (m ! i)"
    using assms by (auto simp: trims_def in_set_conv_nth)
qed

lemma others_update:
  assumes "i < length m" and "mtype (m ! i) = MEMMAP_USABLE" and "mtype e = MEMMAP_USABLE"
  shows "others (m[i := e]) = others m"
  using assms by (simp add: others_def mset_update filter_diff_mset multiset_filter_mono)

lemma others_append: "others (m @ m') = others m + others m'"
  by (simp add: others_def)

lemma others_usable: "\<forall>e \<in> set m. mtype e = MEMMAP_USABLE \<Longrightarrow> others m = {#}"
  by (simp add: others_def filter_mset_eq_mempty_iff)

lemma trims_others:
  assumes "trims m m' i" and "i < length m" and "mtype (m ! i) = MEMMAP_USABLE"
  shows "others m' = others m"
  using assms by (elim trims_shape) (simp_all add: others_append others_update others_usable)

lemma trims_clean_upto:
  assumes T: "trims m m' i" and i: "i < length m" and c: "clean_upto m i"
  shows "clean_upto m' i"
  unfolding clean_upto_def
proof (intro allI impI)
  fix k l
  assume k: "k < length m'" "k < i" "mtype (m' ! k) = MEMMAP_USABLE"
    and l: "l < length m'" "l \<noteq> k"
  with T i have mk: "m' ! k = m ! k" by (simp add: trims_def)
  define l0 where "l0 = (if l < length m \<and> l \<noteq> i then l else i)"
  have "erange (m' ! l) \<subseteq> erange (m ! l0)"
    using T l(1) by (auto simp: l0_def trims_def not_less simp del: in_erange)
  moreover have "apart (m ! k) (m ! l0)"
    using c k l i mk by (auto simp: clean_upto_def l0_def)
  ultimately show "apart (m' ! k) (m' ! l)" unfolding mk by (rule apart_subset [rotated])
qed

lemma trims_representable:
  assumes "trims m m' i" and "i < length m" and "\<forall>e \<in> set m. representable e"
  shows "\<forall>e \<in> set m'. representable e"
proof -
  have "representable (m' ! k)" if "k < length m'" for k
    using assms that by (cases "k < length m"; cases "k = i") (auto simp: trims_def)
  then show ?thesis by (metis in_set_conv_nth)
qed

definition walked :: "memmap \<Rightarrow> memmap \<Rightarrow> nat \<Rightarrow> bool" where
  "walked m m1 i \<longleftrightarrow> i < length m1 \<and> mtype (m1 ! i) = MEMMAP_USABLE \<and> others m1 = others m \<and>
     all_covered m1 = all_covered m \<and> clean_upto m1 i \<and>
     ((\<forall>e \<in> set m. representable e) \<longrightarrow> (\<forall>e \<in> set m1. representable e))"

lemma walked_trim:
  assumes "walked m m1 i" and "trimmable m1 i j" and "trim_against limit m1 i j = Inr (m2, b)"
  shows "walked m m2 i"
proof -
  from assms have T: "trims m1 m2 i" by (intro trim_against_trims)
  with assms show ?thesis
    using trims_others [OF T] trims_clean_upto [OF T] trim_against_all_covered [OF assms(3,2)]
      trims_representable [OF T]
    by (simp add: walked_def) (auto simp: trims_def)
qed

lemma trim_against_apart:
  assumes t: "trim_against limit m i j = Inr (m', b)" and tr: "trimmable m i j"
    and prev: "\<forall>l < j. l \<noteq> i \<longrightarrow> apart (m ! i) (m ! l)" and l: "l < Suc j" "l \<noteq> i"
  shows "apart (m' ! i) (m' ! l)"
proof -
  from trim_against_trims [OF t tr] have T: "trims m m' i" .
  from tr l have "l < length m" by (auto simp: trimmable_def)
  with T l have ml: "m' ! l = m ! l" by (auto simp: trims_def)
  show ?thesis
  proof (cases "l = j")
    case True
    with trim_against_disjoint(1) [OF t tr] ml show ?thesis by (simp add: apart_def)
  next
    case False
    with l have "l < j" by simp
    with prev l(2) have "apart (m ! l) (m ! i)" by (simp add: apart_sym [of "m ! l"])
    then have "apart (m ! l) (m' ! i)" by (rule apart_subset) (use T in \<open>simp add: trims_def\<close>)
    then show ?thesis by (simp add: ml apart_sym [of "m' ! i"])
  qed
qed

lemma overlap_walk_correct:
  assumes "overlap_walk limit m i 0 = Inr (m', del)" and "i < length m"
    and "mtype (m ! i) = MEMMAP_USABLE" and "clean_upto m i"
  shows "walked m m' i \<and> (if del then mtop (m' ! i) < mbase (m' ! i)
    else mlength (m' ! i) = 0 \<or> clean_upto m' (Suc i))"
proof -
  define Q where "Q m1 j \<longleftrightarrow> walked m m1 i \<and> (\<forall>l < j. l < length m1 \<longrightarrow> l \<noteq> i \<longrightarrow> apart (m1 ! i) (m1 ! l))"
    for m1 and j :: nat
  have "if del then walked m m' i \<and> mtop (m' ! i) < mbase (m' ! i)
    else walked m m' i \<and> (mlength (m' ! i) = 0 \<or> clean_upto m' (Suc i))"
  proof (rule overlap_walk_rule [OF assms(1), of Q])
    show "Q m 0" using assms by (simp add: Q_def walked_def)
  next
    fix m1 j
    assume "Q m1 j" "j = i \<or> mtop (m1 ! j) < mbase (m1 ! j) \<or> mlength (m1 ! j) = 0"
    then show "Q m1 (Suc j)" by (auto simp: Q_def less_Suc_eq intro: apart_empty)
  next
    fix m1 j m2
    assume "Q m1 j" and tr: "trimmable m1 i j" and t: "trim_against limit m1 i j = Inr (m2, False)"
    moreover from tr have "j < length m1" by (simp add: trimmable_def)
    ultimately show "Q m2 (Suc j)"
      using walked_trim [OF _ tr t] trim_against_apart [OF t tr] by (auto simp: Q_def)
  next
    fix m1 j m2
    assume "Q m1 j" and tr: "trimmable m1 i j" and t: "trim_against limit m1 i j = Inr (m2, True)"
    then show "walked m m2 i \<and> (mlength (m2 ! i) = 0 \<or> clean_upto m2 (Suc i))"
      using walked_trim [OF _ tr t] trim_against_disjoint(2) [OF t tr] by (simp add: Q_def)
  next
    fix m1 j
    assume "Q m1 j" "mtop (m1 ! i) < mbase (m1 ! i)"
    then show "walked m m1 i \<and> mtop (m1 ! i) < mbase (m1 ! i)" by (simp add: Q_def)
  next
    fix m1 j
    assume "Q m1 j" "\<not> (i < length m1 \<and> j < length m1)"
    then show "walked m m1 i \<and> (mlength (m1 ! i) = 0 \<or> clean_upto m1 (Suc i))"
      by (auto simp: Q_def walked_def clean_upto_def less_Suc_eq)
  qed
  then show ?thesis by (simp split: if_splits)
qed

section \<open>The outer loop\<close>

lemma mset_remove_entry: "i < length m \<Longrightarrow> mset m = add_mset (m ! i) (mset (remove_entry i m))"
proof (cases "i < length m - 1")
  case True
  then obtain xs e where m: "m = xs @ [e]" and i: "i < length xs"
    by (cases m rule: rev_cases) auto
  then have "remove_entry i m = xs[i := e]"
    by (simp add: remove_entry_def list_update_append butlast_append nth_append)
  with m i show ?thesis by (simp add: mset_update nth_append)
next
  case False
  moreover assume "i < length m"
  ultimately obtain xs where "m = xs @ [m ! i]" and "remove_entry i m = xs"
    by (cases m rule: rev_cases) (auto simp: remove_entry_def nth_append)
  then show ?thesis by (metis mset_append mset_single_iff_right add_mset_add_single mset.simps)
qed

lemma set_remove_entry: "i < length m \<Longrightarrow> set (remove_entry i m) \<subseteq> set m"
  by (metis mset_remove_entry set_mset_add_mset_insert set_mset_mset subset_insertI)

lemma covered_mset: "covered P m = (\<Union>e \<in> {e. e \<in># mset m \<and> P (mtype e)}. erange e)"
  by (simp add: covered_def)

lemma covered_remove_entry:
  assumes "i < length m"
  shows "covered P m = (if P (mtype (m ! i)) then erange (m ! i) else {}) \<union> covered P (remove_entry i m)"
  unfolding covered_mset mset_remove_entry [OF assms] by auto

lemma others_remove_entry:
  "i < length m \<Longrightarrow> mtype (m ! i) = MEMMAP_USABLE \<Longrightarrow> others (remove_entry i m) = others m"
  by (simp add: others_def mset_remove_entry [of i m])

lemma covered_others: "unusable m = (\<Union>e \<in> set_mset (others m). erange e)"
  by (auto simp: covered_def others_def)

text \<open>Aligning an entry moves its base up and its end down, both to page boundaries.\<close>

lemma align_entry_range:
  assumes "align_entry b l = Some (b', l')" and "b \<le> b + l"
  shows "b \<le> b'" and "b' + l' \<le> b + l" and "b' \<le> b' + l'"
    and "4096 dvd unat b'" and "4096 dvd unat l'" and "l' \<noteq> 0"
proof -
  from assms(1) have u: "ALIGN_UP b PAGE_SIZE = Some b'" and l: "PAGE_SIZE \<le> l"
    and l': "l' = ALIGN_DOWN (l - (b' - b)) PAGE_SIZE" and "l' \<noteq> 0"
    by (auto simp: align_entry_def Let_def split: if_splits option.splits)
  note up = ALIGN_UP_props [OF u]
  have "b \<le> b'" and lt: "unat b' < unat b + 4096" and "4096 dvd unat b'"
    using up by simp_all
  have "b' - b \<le> l"
    using l lt \<open>b \<le> b'\<close> by (simp add: word_le_nat_alt unat_sub)
  have top: "unat (b + l) = unat b + unat l"
    using assms(2) by (intro CHECKED_ADD_unat) (simp add: CHECKED_ADD_eq)
  have "unat (l - (b' - b)) = unat l - (unat b' - unat b)"
    using \<open>b' - b \<le> l\<close> \<open>b \<le> b'\<close> by (simp add: unat_sub word_le_nat_alt)
  moreover have "unat l' \<le> unat (l - (b' - b))"
    using ALIGN_DOWN_le [of "l - (b' - b)" PAGE_SIZE] by (simp add: l' word_le_nat_alt)
  moreover have "unat b' - unat b \<le> unat l"
    using \<open>b' - b \<le> l\<close> \<open>b \<le> b'\<close> by (simp add: unat_sub word_le_nat_alt)
  ultimately have sum: "unat b' + unat l' \<le> unat (b + l)"
    using \<open>b \<le> b'\<close> by (simp add: top word_le_nat_alt)
  then have nowrap: "unat b' + unat l' < 2 ^ LENGTH(64)"
    using unsigned_less [of "b + l", where 'a = nat] by linarith
  then show "b' \<le> b' + l'" by (simp add: no_olen_add_nat)
  from nowrap have "unat (b' + l') = unat b' + unat l'" by (simp add: unat_word_ariths)
  with sum show "b' + l' \<le> b + l" by (simp add: word_le_nat_alt)
  show "b \<le> b'" "4096 dvd unat b'" "l' \<noteq> 0" by fact+
  show "4096 dvd unat l'" using ALIGN_DOWN_dvd [of PAGE_SIZE] by (simp add: l')
qed

lemma add_div_mult_aligned:
  fixes a b l p :: nat
  assumes "p dvd a" and "b \<le> a" and "a - b \<le> l"
  shows "a + (l - (a - b)) div p * p = (b + l) div p * p"
proof -
  obtain k where k: "a = p * k" using assms(1) by (elim dvdE)
  define r where "r = l - (a - b)"
  have "b + l = p * k + r" using assms(2,3) k by (simp add: r_def)
  then have "(b + l) div p * p = a + r div p * p"
    by (cases "p = 0") (simp_all add: k algebra_simps)
  then show ?thesis by (simp add: r_def)
qed

lemma align_entry_wrap:
  assumes "align_entry b l = Some (b', l')" and "b + l < b"
  shows "b' + l' < b'"
proof -
  from assms(1) have u: "ALIGN_UP b PAGE_SIZE = Some b'" and l: "PAGE_SIZE \<le> l"
    and l': "l' = ALIGN_DOWN (l - (b' - b)) PAGE_SIZE"
    by (auto simp: align_entry_def Let_def split: if_splits option.splits)
  note up = ALIGN_UP_props [OF u]
  have b: "b \<le> b'" and lt: "unat b' < unat b + 4096" and dvd: "4096 dvd unat b'"
    using up by simp_all
  have "b' - b \<le> l"
    using l lt b by (simp add: word_le_nat_alt unat_sub)
  have "\<not> b \<le> b + l" using assms(2) by simp
  then have "\<not> unat b + unat l < 2 ^ 64" by (simp only: no_olen_add_nat) simp
  moreover have len: "unat l' = (unat l - (unat b' - unat b)) div 4096 * 4096"
    using \<open>b' - b \<le> l\<close> b by (simp add: l' unat_ALIGN_DOWN unat_sub)
  moreover have "unat b' - unat b \<le> unat l"
    using \<open>b' - b \<le> l\<close> b by (simp add: unat_sub word_le_nat_alt)
  ultimately have "unat b' + unat l' = (unat b + unat l) div 4096 * 4096"
    and ge: "2 ^ 64 \<le> unat b + unat l"
    using add_div_mult_aligned [OF dvd] b by (simp_all add: word_le_nat_alt)
  moreover from div_le_mono [OF ge, of 4096] have "2 ^ 52 \<le> (unat b + unat l) div 4096" by simp
  ultimately have "\<not> unat b' + unat l' < 2 ^ 64" by simp
  then have "\<not> b' \<le> b' + l'" by (simp only: no_olen_add_nat) simp
  then show ?thesis by simp
qed

lemma settle_entry_trims:
  assumes "settle_entry align m i del = Some m'" and "i < length m"
  shows "trims m m' i" and "length m' = length m" and "\<not> align \<longrightarrow> m' = m"
proof -
  let ?e = "m ! i"
  from settle_entry_SomeD [OF assms(1)] consider "\<not> align" "m' = m"
    | b l where "align" "align_entry (mbase ?e) (mlength ?e) = Some (b, l)"
        "m' = m[i := ?e\<lparr>mbase := b, mlength := l\<rparr>]"
    by blast
  then have "trims m m' i \<and> length m' = length m \<and> (\<not> align \<longrightarrow> m' = m)"
  proof cases
    case 1
    then show ?thesis by (simp add: trims_def)
  next
    case 2
    have "erange (?e\<lparr>mbase := b, mlength := l\<rparr>) \<subseteq> erange ?e"
    proof (cases "mbase ?e \<le> mtop ?e")
      case True
      then show ?thesis
        using align_entry_range(1,2) [OF 2(2)] by (auto simp: erange_def mtop_def)
    next
      case False
      then have "b + l < b" using align_entry_wrap [OF 2(2)] by (simp add: mtop_def)
      then show ?thesis by (simp add: erange_def mtop_def)
    qed
    moreover have "representable ?e \<longrightarrow> representable (?e\<lparr>mbase := b, mlength := l\<rparr>)"
      using align_entry_range(3) [OF 2(2)] by (simp add: representable_def mtop_def)
    ultimately show ?thesis using 2 assms(2) by (simp add: trims_def)
  qed
  then show "trims m m' i" and "length m' = length m" and "\<not> align \<longrightarrow> m' = m" by simp_all
qed

lemma clean_upto_mono:
  assumes "clean_upto m i" and "length m' = length m"
    and "\<And>k. k < length m \<Longrightarrow> erange (m' ! k) \<subseteq> erange (m ! k) \<and> mtype (m' ! k) = mtype (m ! k)"
  shows "clean_upto m' i"
  unfolding clean_upto_def
proof (intro allI impI)
  fix k l
  assume k: "k < length m'" "k < i" "mtype (m' ! k) = MEMMAP_USABLE" and l: "l < length m'" "l \<noteq> k"
  with assms have "apart (m ! k) (m ! l)" by (simp add: clean_upto_def)
  moreover have "erange (m' ! k) \<subseteq> erange (m ! k)" "erange (m' ! l) \<subseteq> erange (m ! l)"
    using assms(2,3) k l by (simp_all del: in_erange)
  ultimately show "apart (m' ! k) (m' ! l)" unfolding apart_def by blast
qed

lemma trims_all_covered:
  assumes "trims m m' i" and "i < length m"
  shows "all_covered m' \<subseteq> all_covered m"
proof
  fix a
  assume "a \<in> all_covered m'"
  then obtain k where k: "k < length m'" "a \<in> erange (m' ! k)"
    by (auto simp only: in_covered_iff)
  with assms have "a \<in> erange (m ! k) \<and> k < length m \<or> a \<in> erange (m ! i)"
    by (cases "k < length m"; cases "k = i") (auto simp: trims_def simp del: in_erange)
  with assms(2) show "a \<in> all_covered m" by (auto simp only: in_covered_iff)
qed

text \<open>
  The outer loop ends with every usable entry apart from every other entry, keeps the
  entries of all other types, and (without alignment) covers what it covered before.
\<close>

lemma sanitise_overlaps_correct:
  assumes "sanitise_overlaps align limit m i = Inr m'" and "clean_upto m i"
  shows "others m' = others m \<and> clean_upto m' (length m') \<and> all_covered m' \<subseteq> all_covered m \<and>
    (\<not> align \<longrightarrow> all_covered m' = all_covered m) \<and>
    ((\<forall>e \<in> set m. representable e) \<longrightarrow> (\<forall>e \<in> set m'. representable e))"
  using assms
proof (induction align limit m i rule: sanitise_overlaps.induct)
  case (1 align limit m i)
  note unfold = sanitise_overlaps.simps [of align limit m i]
  show ?case
  proof (cases "i < length m")
    case False
    with "1.prems" show ?thesis by (auto simp: unfold clean_upto_def)
  next
    case i: True
    show ?thesis
    proof (cases "mtype (m ! i) = MEMMAP_USABLE")
      case False
      with i "1.prems" show ?thesis
        using "1.IH"(1) by (simp add: unfold clean_upto_def less_Suc_eq)
    next
      case us: True
      from "1.prems"(1) i us obtain m1 del where w: "overlap_walk limit m i 0 = Inr (m1, del)"
        by (auto simp: unfold split: sum.splits)
      note wc = overlap_walk_correct [OF w i us "1.prems"(2)]
      then have i1: "i < length m1" and us1: "mtype (m1 ! i) = MEMMAP_USABLE"
        and o1: "others m1 = others m" and a1: "all_covered m1 = all_covered m"
        and r1: "(\<forall>e \<in> set m. representable e) \<longrightarrow> (\<forall>e \<in> set m1. representable e)"
        by (auto simp: walked_def)
      show ?thesis
      proof (cases "settle_entry align m1 i del")
        case None
        let ?m2 = "remove_entry i m1"
        from "1.prems"(1) i us w None have "sanitise_overlaps align limit ?m2 0 = Inr m'"
          by (simp add: unfold)
        moreover have "clean_upto ?m2 0" by (simp add: clean_upto_def)
        ultimately have IH: "others m' = others ?m2 \<and>
          clean_upto m' (length m') \<and> all_covered m' \<subseteq> all_covered ?m2 \<and>
          (\<not> align \<longrightarrow> all_covered m' = all_covered ?m2) \<and>
          ((\<forall>e \<in> set ?m2. representable e) \<longrightarrow> (\<forall>e \<in> set m'. representable e))"
          using us w None by (intro "1.IH"(2) [OF i]) auto
        have "all_covered m1 = erange (m1 ! i) \<union> all_covered ?m2"
          using covered_remove_entry [OF i1] by simp
        moreover have "\<not> align \<longrightarrow> erange (m1 ! i) = {}"
          using None wc by (auto simp: settle_entry_def erange_def mtop_def split: if_splits)
        moreover have "set ?m2 \<subseteq> set m1" by (rule set_remove_entry) (rule i1)
        ultimately show ?thesis
          using IH others_remove_entry [OF i1 us1] o1 a1 r1 by auto
      next
        case (Some m2)
        note tr = settle_entry_trims [OF Some i1]
        have "clean_upto m1 (Suc i)"
          using wc settle_entry_SomeD [OF Some] by (auto split: if_splits)
        then have c2: "clean_upto m2 (Suc i)"
          by (rule clean_upto_mono) (use tr in \<open>auto simp: trims_def simp del: in_erange\<close>)
        from "1.prems"(1) i us w Some have "sanitise_overlaps align limit m2 (Suc i) = Inr m'"
          by (simp add: unfold)
        with us w Some c2 have "others m' = others m2 \<and>
          clean_upto m' (length m') \<and> all_covered m' \<subseteq> all_covered m2 \<and>
          (\<not> align \<longrightarrow> all_covered m' = all_covered m2) \<and>
          ((\<forall>e \<in> set m2. representable e) \<longrightarrow> (\<forall>e \<in> set m'. representable e))"
          by (intro "1.IH"(3) [OF i]) auto
        moreover note trims_others [OF tr(1) i1 us1] and trims_all_covered [OF tr(1) i1]
          and trims_representable [OF tr(1) i1] and tr(3)
        ultimately show ?thesis using o1 a1 r1 by (metis subset_trans)
      qed
    qed
  qed
qed

section \<open>Cleanliness as a property of the multiset of entries\<close>

definition clean :: "memmap_entry multiset \<Rightarrow> bool" where
  "clean M \<longleftrightarrow> (\<forall>e M'. M = add_mset e M' \<longrightarrow> mtype e = MEMMAP_USABLE \<longrightarrow> (\<forall>e' \<in># M'. apart e e'))"

lemma clean_upto_clean:
  assumes c: "clean_upto m (length m)"
  shows "clean (mset m)"
  unfolding clean_def
proof (intro allI ballI impI)
  fix e M' e'
  assume M: "mset m = add_mset e M'" and u: "mtype e = MEMMAP_USABLE" and e': "e' \<in># M'"
  from M have "e \<in> set m" by (metis set_mset_mset union_single_eq_member)
  then obtain k where k: "k < length m" "e = m ! k" by (auto simp: in_set_conv_nth)
  from k have "m = take k m @ e # drop (Suc k) m" by (simp add: id_take_nth_drop)
  then have "mset m = add_mset e (mset (take k m) + mset (drop (Suc k) m))"
    by (metis mset.simps(2) mset_append union_mset_add_mset_right)
  with M have "M' = mset (take k m) + mset (drop (Suc k) m)" by simp
  with e' have "e' \<in> set (take k m) \<or> e' \<in> set (drop (Suc k) m)" by auto
  then have "\<exists>l < length m. l \<noteq> k \<and> e' = m ! l"
  proof
    assume "e' \<in> set (take k m)"
    then obtain l where "l < k" "e' = m ! l" using k by (auto simp: in_set_conv_nth)
    with k show ?thesis by (intro exI [of _ l]) simp
  next
    assume "e' \<in> set (drop (Suc k) m)"
    then obtain l where "l < length m - Suc k" "e' = m ! (Suc k + l)"
      using k by (auto simp: in_set_conv_nth)
    then show ?thesis by (intro exI [of _ "Suc k + l"]) simp
  qed
  with c k u show "apart e e'" by (auto simp: clean_upto_def)
qed

lemma clean_add_iff:
  "clean (add_mset e M) \<longleftrightarrow> clean M \<and>
     (\<forall>e' \<in># M. mtype e = MEMMAP_USABLE \<or> mtype e' = MEMMAP_USABLE \<longrightarrow> apart e e')"
  (is "?l \<longleftrightarrow> ?r")
proof
  assume l: ?l
  have "clean M" unfolding clean_def
  proof (intro allI ballI impI)
    fix x X y
    assume "M = add_mset x X" "mtype x = MEMMAP_USABLE" "y \<in># X"
    moreover from this have "add_mset e M = add_mset x (add_mset e X)" by simp
    ultimately show "apart x y" using l unfolding clean_def by auto
  qed
  moreover have "apart e y" if y: "y \<in># M" "mtype e = MEMMAP_USABLE \<or> mtype y = MEMMAP_USABLE" for y
  proof (cases "mtype e = MEMMAP_USABLE")
    case True
    with l y show ?thesis unfolding clean_def by blast
  next
    case False
    from y obtain Y where "M = add_mset y Y" by (metis multi_member_split)
    then have "add_mset e M = add_mset y (add_mset e Y)" by simp
    with l False y have "apart y e" unfolding clean_def by auto
    then show ?thesis by (simp add: apart_sym [of e])
  qed
  ultimately show ?r by blast
next
  assume r: ?r
  show ?l unfolding clean_def
  proof (intro allI ballI impI)
    fix x X y
    assume eq: "add_mset e M = add_mset x X" and x: "mtype x = MEMMAP_USABLE" and y: "y \<in># X"
    from eq consider "e = x" "M = X" | Y where "M = add_mset x Y" "X = add_mset e Y"
      by (auto simp: add_eq_conv_ex)
    then show "apart x y"
    proof cases
      case 1
      with r x y show ?thesis by auto
    next
      case 2
      with r x have "apart e x" by auto
      moreover have "apart x y" if "y \<in># Y" using r 2 x that unfolding clean_def by blast
      ultimately show ?thesis using 2 y by (auto simp: apart_sym [of x e])
    qed
  qed
qed

lemma clean_narrow:
  assumes c: "clean (add_mset e M)" and r: "erange e' \<subseteq> erange e" and t: "mtype e' = mtype e"
  shows "clean (add_mset e' M)"
  unfolding clean_add_iff
proof (intro conjI ballI impI)
  show "clean M" using c by (simp add: clean_add_iff)
  fix x
  assume "x \<in># M" "mtype e' = MEMMAP_USABLE \<or> mtype x = MEMMAP_USABLE"
  with c t have "apart e x" by (auto simp: clean_add_iff)
  with r show "apart e' x" by (auto simp: apart_def simp del: in_erange)
qed

lemma clean_join:
  assumes c: "clean (add_mset e (add_mset e' M))" and r: "erange d \<subseteq> erange e \<union> erange e'"
    and t: "mtype d = mtype e" and t': "mtype e' = mtype e"
  shows "clean (add_mset d M)"
  unfolding clean_add_iff
proof (intro conjI ballI impI)
  show "clean M" using c by (simp add: clean_add_iff)
  fix x
  assume "x \<in># M" "mtype d = MEMMAP_USABLE \<or> mtype x = MEMMAP_USABLE"
  with c t t' have "apart e x" "apart e' x" by (auto simp: clean_add_iff)
  with r show "apart d x" by (auto simp: apart_def simp del: in_erange)
qed

section \<open>Clipping\<close>

lemma clip_entry_Some:
  assumes "clip_entry keep e = Some e'"
  shows "mtype e' = mtype e" and "mlength e' \<noteq> 0"
    and "erange e' = (if mtype e = MEMMAP_USABLE \<and> \<not> keep then erange e - {0 ..< 0x1000} else erange e)"
    and "representable e \<longrightarrow> representable e'"
    and "mtype e = MEMMAP_USABLE \<and> \<not> keep \<longrightarrow> 0x1000 \<le> mbase e'"
proof -
  consider (clip) "mtype e = MEMMAP_USABLE" "\<not> keep" "mbase e < 0x1000"
    | (asis) "\<not> (mtype e = MEMMAP_USABLE \<and> \<not> keep \<and> mbase e < 0x1000)" by blast
  then have "mtype e' = mtype e \<and> mlength e' \<noteq> 0 \<and>
    erange e' = (if mtype e = MEMMAP_USABLE \<and> \<not> keep then erange e - {0 ..< 0x1000} else erange e) \<and>
    (representable e \<longrightarrow> representable e') \<and>
    (mtype e = MEMMAP_USABLE \<and> \<not> keep \<longrightarrow> 0x1000 \<le> mbase e')"
  proof cases
    case clip
    with assms have rep: "mbase e \<le> mtop e" and tp: "0x1000 < mtop e"
      and e': "e' = e\<lparr>mlength := mlength e - (0x1000 - mbase e), mbase := 0x1000\<rparr>"
      and ne: "mlength e - (0x1000 - mbase e) \<noteq> 0"
      by (auto simp: clip_entry_def checked_top Let_def not_le split: if_splits)
    from e' have "mtop e' = mtop e" "mbase e' = 0x1000" "mtype e' = mtype e" "mlength e' \<noteq> 0"
      using ne by (simp_all add: mtop_def)
    with clip rep tp show ?thesis
      by (auto simp: erange_def representable_def)
  next
    case asis
    with assms have "e' = e" "mlength e \<noteq> 0"
      by (auto simp: clip_entry_def split: if_splits)
    with asis show ?thesis by (auto simp: erange_def)
  qed
  then show "mtype e' = mtype e" and "mlength e' \<noteq> 0"
    and "erange e' = (if mtype e = MEMMAP_USABLE \<and> \<not> keep then erange e - {0 ..< 0x1000} else erange e)"
    and "representable e \<longrightarrow> representable e'"
    and "mtype e = MEMMAP_USABLE \<and> \<not> keep \<longrightarrow> 0x1000 \<le> mbase e'"
    by auto
qed

lemma clip_entry_None:
  assumes "clip_entry keep e = None"
  shows "erange e \<subseteq> (if mtype e = MEMMAP_USABLE \<and> \<not> keep then {0 ..< 0x1000} else {})"
  using assms
  by (auto simp: clip_entry_def checked_top Let_def erange_def mtop_def split: if_splits)

lemma mset_update_entry:
  "i < length m \<Longrightarrow> mset (m[i := e]) = add_mset e (mset (remove_entry i m))"
  using mset_remove_entry [of i m] by (simp add: mset_update)

lemma covered_update_entry:
  assumes "i < length m"
  shows "covered P (m[i := e]) = (if P (mtype e) then erange e else {}) \<union> covered P (remove_entry i m)"
  unfolding covered_mset mset_update_entry [OF assms] by auto

definition low_page :: "bool \<Rightarrow> u64 set" where
  "low_page keep = (if keep then {} else {0 ..< 0x1000})"

lemma sanitise_clip_covered:
  "covered P (sanitise_clip keep m i) \<subseteq> covered P m \<and>
   covered P m - (if P MEMMAP_USABLE then low_page keep else {}) \<subseteq> covered P (sanitise_clip keep m i)"
proof (induction keep m i rule: sanitise_clip.induct)
  case (1 keep m i)
  show ?case
  proof (cases "i < length m")
    case i: True
    show ?thesis
    proof (cases "clip_entry keep (m ! i)")
      case None
      with i "1.IH"(1) covered_remove_entry [OF i, of P] clip_entry_None [OF None] show ?thesis
        unfolding sanitise_clip.simps [of keep m i] by (auto simp: low_page_def simp del: in_erange split: if_splits)
    next
      case (Some e)
      with i "1.IH"(2) covered_remove_entry [OF i, of P] covered_update_entry [OF i, of P e]
        clip_entry_Some(1,3) [OF Some] show ?thesis
        unfolding sanitise_clip.simps [of keep m i] by (auto simp: low_page_def simp del: in_erange split: if_splits)
    qed
  next
    case False
    then show ?thesis by (simp add: sanitise_clip.simps [of keep m i])
  qed
qed

lemma sanitise_clip_clean: "clean (mset m) \<Longrightarrow> clean (mset (sanitise_clip keep m i))"
proof (induction keep m i rule: sanitise_clip.induct)
  case (1 keep m i)
  show ?case
  proof (cases "i < length m")
    case i: True
    show ?thesis
    proof (cases "clip_entry keep (m ! i)")
      case None
      with i "1.IH"(1) "1.prems" show ?thesis
        by (simp add: sanitise_clip.simps [of keep m i] mset_remove_entry [OF i] clean_add_iff)
    next
      case (Some e)
      have "clean (mset (m[i := e]))"
        using "1.prems" unfolding mset_update_entry [OF i] mset_remove_entry [OF i]
        by (rule clean_narrow) (use clip_entry_Some(1,3) [OF Some] in \<open>auto simp del: in_erange\<close>)
      with i Some "1.IH"(2) show ?thesis by (simp add: sanitise_clip.simps [of keep m i])
    qed
  next
    case False
    with "1.prems" show ?thesis by (simp add: sanitise_clip.simps [of keep m i])
  qed
qed

text \<open>After clipping no entry is empty and, unless asked for, no usable entry starts in page zero.\<close>

definition clipped :: "bool \<Rightarrow> memmap_entry \<Rightarrow> bool" where
  "clipped keep e \<longleftrightarrow> mlength e \<noteq> 0 \<and> (mtype e = MEMMAP_USABLE \<and> \<not> keep \<longrightarrow> 0x1000 \<le> mbase e)"

lemma nth_remove_entry: "k < i \<Longrightarrow> i < length m \<Longrightarrow> remove_entry i m ! k = m ! k"
  by (simp add: remove_entry_def nth_butlast)

lemma sanitise_clip_entries:
  assumes "\<forall>e \<in> set m. representable e" and "\<forall>k < i. k < length m \<longrightarrow> clipped keep (m ! k)"
  shows "\<forall>e \<in> set (sanitise_clip keep m i). representable e \<and> clipped keep e"
  using assms
proof (induction keep m i rule: sanitise_clip.induct)
  case (1 keep m i)
  show ?case
  proof (cases "i < length m")
    case i: True
    show ?thesis
    proof (cases "clip_entry keep (m ! i)")
      case None
      with i "1.IH"(1) "1.prems" set_remove_entry [OF i] show ?thesis
        by (auto simp: sanitise_clip.simps [of keep m i] nth_remove_entry)
    next
      case (Some e)
      then have e: "representable e" "clipped keep e"
        using clip_entry_Some [OF Some] "1.prems"(1) i by (auto simp: clipped_def)
      then have "\<forall>e' \<in> set (m[i := e]). representable e'"
        using "1.prems"(1) set_update_subset_insert [of m i e] by auto
      moreover have "\<forall>k < Suc i. k < length (m[i := e]) \<longrightarrow> clipped keep (m[i := e] ! k)"
        using "1.prems"(2) e by (auto simp: less_Suc_eq)
      ultimately have "\<forall>e \<in> set (sanitise_clip keep (m[i := e]) (Suc i)). representable e \<and> clipped keep e"
        by (rule "1.IH"(2) [OF i Some])
      then show ?thesis
        unfolding sanitise_clip.simps [of keep m i] using i Some by simp
    qed
  next
    case False
    then have "sanitise_clip keep m i = m" by (simp add: sanitise_clip.simps [of keep m i])
    moreover have "clipped keep e" if "e \<in> set m" for e
      using that "1.prems"(2) False by (auto simp: in_set_conv_nth)
    ultimately show ?thesis using "1.prems"(1) by simp
  qed
qed

section \<open>Sorting\<close>

lemma min_scan_correct:
  assumes "i \<le> length m" and "k < length m" and "mn = mbase (m ! k)"
  shows "min_scan m i mn k < length m \<and>
    (min_scan m i mn k = k \<or> i \<le> min_scan m i mn k) \<and>
    mbase (m ! min_scan m i mn k) \<le> mn \<and>
    (\<forall>l. i \<le> l \<and> l < length m \<longrightarrow> mbase (m ! min_scan m i mn k) \<le> mbase (m ! l))"
  using assms
proof (induction m i mn k rule: min_scan.induct)
  case (1 m i mn k)
  show ?case
  proof (cases "i < length m")
    case False
    then have "min_scan m i mn k = k" by (simp add: min_scan.simps [of m i mn k])
    with False "1.prems" show ?thesis by auto
  next
    case i: True
    define r where "r = (if mbase (m ! i) < mn then min_scan m (Suc i) (mbase (m ! i)) i
      else min_scan m (Suc i) mn k)"
    have eq: "min_scan m i mn k = r" using i by (simp add: min_scan.simps [of m i mn k] r_def)
    have "r < length m \<and> (r = k \<or> i \<le> r) \<and> mbase (m ! r) \<le> mn \<and> mbase (m ! r) \<le> mbase (m ! i) \<and>
      (\<forall>l. Suc i \<le> l \<and> l < length m \<longrightarrow> mbase (m ! r) \<le> mbase (m ! l))"
      using "1.IH" i "1.prems" by (cases "mbase (m ! i) < mn") (auto simp: r_def)
    then show ?thesis unfolding eq by (metis Suc_leI le_neq_implies_less)
  qed
qed

lemma sanitise_sort_mset: "mset (sanitise_sort m p) = mset m"
proof (induction m p rule: sanitise_sort.induct)
  case (1 m p)
  show ?case
  proof (cases "p + 1 < length m")
    case True
    let ?k = "min_scan m p (mbase (m ! p)) p"
    have k: "?k < length m" using min_scan_correct [of p m p] True by simp
    have "mset (m[?k := m ! p, p := m ! ?k]) = mset m"
      using k True by (simp add: mset_swap)
    with True "1.IH" show ?thesis by (simp add: sanitise_sort.simps [of m p] Let_def)
  next
    case False
    then show ?thesis by (simp add: sanitise_sort.simps [of m p])
  qed
qed

lemma sanitise_sort_sorted:
  assumes "\<forall>a b. a < b \<and> a < p \<and> b < length m \<longrightarrow> mbase (m ! a) \<le> mbase (m ! b)"
  shows "sorted (map mbase (sanitise_sort m p))"
  using assms
proof (induction m p rule: sanitise_sort.induct)
  case (1 m p)
  show ?case
  proof (cases "p + 1 < length m")
    case p: True
    let ?k = "min_scan m p (mbase (m ! p)) p"
    let ?m = "m[?k := m ! p, p := m ! ?k]"
    have k: "?k < length m" "p \<le> ?k"
      and least: "\<And>l. p \<le> l \<Longrightarrow> l < length m \<Longrightarrow> mbase (m ! ?k) \<le> mbase (m ! l)"
      using min_scan_correct [of p m p] p by auto
    have "mbase (?m ! a) \<le> mbase (?m ! b)" if "a < b" "a < Suc p" "b < length ?m" for a b
      using that k p "1.prems" least by (auto simp: nth_list_update less_Suc_eq)
    then show ?thesis
      using "1.IH" p by (simp add: sanitise_sort.simps [of m p] Let_def)
  next
    case False
    with "1.prems" have "mbase (m ! a) \<le> mbase (m ! b)" if "a < b" "b < length m" for a b
      using that by auto
    then have "sorted (map mbase m)" by (simp add: sorted_iff_nth_mono_less)
    with False show ?thesis by (simp add: sanitise_sort.simps [of m p])
  qed
qed

section \<open>Merging\<close>

lemma merge_length_SomeD:
  assumes "merge_length e e' = Some l"
  shows "mergeable (mtype e)" and "mtype e' = mtype e" and "mbase e' = mtop e" and "representable e"
    and "mtop (e\<lparr>mlength := l\<rparr>) = mtop e'" and "mlength e \<le> l"
  using assms
  by (auto simp: merge_length_def checked_top representable_def mtop_def add_ac
      dest: CHECKED_ADD_SomeD split: if_splits)

text \<open>
  An invariant of the merge loop holds of its result if joining two neighbours keeps it.
\<close>

lemma sanitise_merge_rule:
  assumes "I m"
    and step: "\<And>xs e e' l ys. I (xs @ e # e' # ys) \<Longrightarrow> merge_length e e' = Some l \<Longrightarrow>
      I (xs @ e\<lparr>mlength := l\<rparr> # ys)"
  shows "I (sanitise_merge m i)"
  using assms(1)
proof (induction m i rule: sanitise_merge.induct)
  case (1 m i)
  show ?case
  proof (cases "i + 1 < length m")
    case False
    with "1.prems" show ?thesis by (simp add: sanitise_merge.simps [of m i])
  next
    case i: True
    show ?thesis
    proof (cases "merge_length (m ! i) (m ! (i + 1))")
      case None
      with i "1.IH"(1) "1.prems" show ?thesis by (simp add: sanitise_merge.simps [of m i])
    next
      case (Some l)
      let ?m = "take (i + 1) (m[i := (m ! i)\<lparr>mlength := l\<rparr>]) @ drop (i + 2) m"
      have m: "m = take i m @ m ! i # m ! (i + 1) # drop (i + 2) m"
        using i by (simp add: Cons_nth_drop_Suc)
      have "?m = take i m @ (m ! i)\<lparr>mlength := l\<rparr> # drop (i + 2) m"
        using i by (simp add: take_Suc_conv_app_nth)
      with step [of "take i m" "m ! i" "m ! (i + 1)" "drop (i + 2) m" l] m Some "1.prems"
      have "I ?m" by simp
      with i Some "1.IH"(2) show ?thesis by (simp add: sanitise_merge.simps [of m i])
    qed
  qed
qed

lemma erange_merge:
  assumes "merge_length e e' = Some l" and "representable e'"
  shows "erange (e\<lparr>mlength := l\<rparr>) = erange e \<union> erange e'"
  using merge_length_SomeD [OF assms(1)] assms(2)
  by (auto simp: erange_def representable_def ivl_disj_un)

definition merge_inv :: "bool \<Rightarrow> memmap \<Rightarrow> memmap \<Rightarrow> bool" where
  "merge_inv keep m m' \<longleftrightarrow> (\<forall>P. covered P m' = covered P m) \<and> clean (mset m') \<and>
     sorted (map mbase m') \<and> (\<forall>e \<in> set m'. representable e \<and> clipped keep e)"

lemma merge_inv_step:
  assumes inv: "merge_inv keep m (xs @ e # e' # ys)" and l: "merge_length e e' = Some l"
  shows "merge_inv keep m (xs @ e\<lparr>mlength := l\<rparr> # ys)"
proof -
  note D = merge_length_SomeD [OF l]
  have rep: "representable e'" and cl: "clipped keep e" using inv by (auto simp: merge_inv_def)
  note rng = erange_merge [OF l rep]
  have "mlength e \<noteq> 0" using cl by (simp add: clipped_def)
  with D(6) have "l \<noteq> 0" by auto
  have "clean (add_mset (e\<lparr>mlength := l\<rparr>) (mset xs + mset ys))"
    by (rule clean_join [of e e']) (use inv D rng in \<open>simp_all add: merge_inv_def\<close>)
  moreover have "covered P (xs @ e\<lparr>mlength := l\<rparr> # ys) = covered P m" for P
  proof -
    have "covered P (xs @ e\<lparr>mlength := l\<rparr> # ys) = covered P (xs @ e # e' # ys)"
      using D(2) rng by auto
    with inv show ?thesis by (simp only: merge_inv_def)
  qed
  moreover have "representable (e\<lparr>mlength := l\<rparr>)"
    using D(3,4,5) rep by (simp add: representable_def)
  moreover have "clipped keep (e\<lparr>mlength := l\<rparr>)"
    using cl \<open>l \<noteq> 0\<close> by (simp add: clipped_def)
  ultimately show ?thesis using inv by (auto simp: merge_inv_def sorted_append)
qed

section \<open>The sanitiser\<close>

lemma clean_disjoint:
  assumes "clean (mset m)"
  shows "usable m \<inter> unusable m = {}"
proof -
  have "apart e e'" if "e \<in> set m" "e' \<in> set m" "mtype e = MEMMAP_USABLE" "mtype e' \<noteq> MEMMAP_USABLE"
    for e e'
  proof -
    from that obtain M where M: "mset m = add_mset e M" by (metis multi_member_split set_mset_mset)
    with that have "e' \<in># M" by (metis insert_iff set_mset_add_mset_insert set_mset_mset)
    with assms M that show ?thesis unfolding clean_def by blast
  qed
  then show ?thesis by (fastforce simp: cover_def covered_def apart_def)
qed

lemma covered_others_eq:
  "others m' = others m \<Longrightarrow> \<not> P MEMMAP_USABLE \<Longrightarrow> covered P m' = covered P m"
proof -
  have eq: "covered P m = (\<Union>e \<in> {e. e \<in># others m \<and> P (mtype e)}. erange e)"
    if "\<not> P MEMMAP_USABLE" for m
    using that by (auto simp: covered_def others_def)
  assume "others m' = others m" "\<not> P MEMMAP_USABLE"
  then show ?thesis by (simp add: eq)
qed

lemma sanitise_inv:
  assumes ret: "pmm_sanitise_entries keep limit m align = Inr m'"
    and rep: "\<forall>e \<in> set m. representable e"
  obtains m1 where "others m1 = others m" and "clean (mset m1)"
    and "all_covered m1 \<subseteq> all_covered m" and "\<not> align \<longrightarrow> all_covered m1 = all_covered m"
    and "merge_inv keep (sanitise_clip keep m1 0) m'"
proof -
  from ret obtain m1 where ov: "sanitise_overlaps align limit m 0 = Inr m1"
    and m': "m' = sanitise_merge (sanitise_sort (sanitise_clip keep m1 0) 0) 0"
    by (auto simp: pmm_sanitise_entries_def split: sum.splits)
  have "clean_upto m 0" by (simp add: clean_upto_def)
  note o = sanitise_overlaps_correct [OF ov this]
  then have c1: "clean (mset m1)" by (blast intro: clean_upto_clean)
  let ?m2 = "sanitise_clip keep m1 0"
  let ?m3 = "sanitise_sort ?m2 0"
  have ms: "mset ?m3 = mset ?m2" by (rule sanitise_sort_mset)
  then have "set ?m3 = set ?m2" by (metis set_mset_mset)
  moreover have "\<forall>e \<in> set ?m2. representable e \<and> clipped keep e"
    using o rep by (intro sanitise_clip_entries) auto
  moreover have "clean (mset ?m3)" using sanitise_clip_clean [OF c1] ms by simp
  moreover have "covered P ?m3 = covered P ?m2" for P by (simp add: covered_mset ms)
  ultimately have "merge_inv keep ?m2 ?m3"
    using sanitise_sort_sorted [of 0 ?m2] by (simp add: merge_inv_def)
  then have "merge_inv keep ?m2 m'"
    unfolding m' by (rule sanitise_merge_rule) (rule merge_inv_step)
  with that o c1 show thesis by blast
qed

text \<open>The functional specification: what is usable, what every other type covers, and the order.\<close>

lemma sanitise_usable:
  assumes "pmm_sanitise_entries keep limit m False = Inr m'" and "\<forall>e \<in> set m. representable e"
  shows "usable m' = usable m - unusable m - low_page keep"
  using assms
proof (rule sanitise_inv)
  fix m1
  assume o: "others m1 = others m" and c: "clean (mset m1)"
    and a: "\<not> False \<longrightarrow> all_covered m1 = all_covered m"
    and inv: "merge_inv keep (sanitise_clip keep m1 0) m'"
  have "usable m1 = usable m - unusable m"
    using a [unfolded all_covered_split] covered_others_eq [OF o, of "\<lambda>t. t \<noteq> MEMMAP_USABLE"]
      clean_disjoint [OF c] by blast
  moreover have "usable m' \<inter> low_page keep = {}"
  proof (cases keep)
    case False
    have "0x1000 \<le> a" if "a \<in> usable m'" for a
      using that inv False unfolding merge_inv_def cover_def covered_def clipped_def
      by (auto intro: order_trans)
    then have "a \<notin> {0 ..< 0x1000}" if "a \<in> usable m'" for a
      using that by (metis atLeastLessThan_iff leD)
    with False show ?thesis by (auto simp: low_page_def)
  qed (simp add: low_page_def)
  moreover have "usable m' \<subseteq> usable m1" "usable m1 - low_page keep \<subseteq> usable m'"
    using sanitise_clip_covered [of "\<lambda>t. t = MEMMAP_USABLE" keep m1 0] inv
    unfolding cover_def merge_inv_def by auto
  ultimately show ?thesis by blast
qed

lemma sanitise_covered:
  assumes "pmm_sanitise_entries keep limit m align = Inr m'" and "\<forall>e \<in> set m. representable e"
    and "\<not> P MEMMAP_USABLE"
  shows "covered P m' = covered P m"
  using assms(1,2)
proof (rule sanitise_inv)
  fix m1
  assume "others m1 = others m" and "merge_inv keep (sanitise_clip keep m1 0) m'"
  then show ?thesis
    using assms(3) covered_others_eq [of m1 m P] sanitise_clip_covered [of P keep m1 0]
    unfolding merge_inv_def by auto
qed

lemma sanitise_result:
  assumes "pmm_sanitise_entries keep limit m align = Inr m'" and "\<forall>e \<in> set m. representable e"
  shows "sorted (map mbase m')" and "clean (mset m')" and "\<forall>e \<in> set m'. representable e \<and> clipped keep e"
  by (rule sanitise_inv [OF assms], simp add: merge_inv_def)+

end
