(* ===== verification/Pmm.thy ===== *)
theory Pmm
  imports Memmap_Correct
begin

text \<open>
  The physical memory allocator of \<^verbatim>\<open>src/common/mm/pmm.s2.c\<close> (x86-64 build): carving a
  range out of the map (\<open>pmm_new_entry\<close>, \<open>memmap_alloc_range_in\<close>), the top-down
  allocator \<open>ext_mem_alloc*\<close>, the conventional-memory allocator, \<open>pmm_free\<close> and
  \<open>pmm_realloc\<close>. The allocator's globals and the physical memory it clears are a record.
\<close>

section \<open>Carving a range out of the map\<close>

text \<open>
  The walk of \<open>pmm_new_entry\<close> over the existing entries. The guard \<open>base \<le> rtop\<close> is what
  the checked addition before the loop establishes.
\<close>

definition straddles :: "u64 \<Rightarrow> u64 \<Rightarrow> memmap_entry \<Rightarrow> bool" where
  "straddles base rtop e \<longleftrightarrow> mbase e \<le> mtop e \<and> base > mbase e \<and> rtop < mtop e"

definition walk_weight :: "u64 \<Rightarrow> u64 \<Rightarrow> memmap \<Rightarrow> nat" where
  "walk_weight base rtop m = sum_list (map (\<lambda>e. if straddles base rtop e then 2 else 1) m)"

lemma mset_drop_remove_entry:
  assumes "i < length m"
  shows "mset (drop i m) = add_mset (m ! i) (mset (drop i (remove_entry i m)))"
proof -
  have "take i (remove_entry i m) = take i m"
    using assms by (intro nth_equalityI) (auto simp: nth_remove_entry)
  then have "mset (take i m) + mset (drop i m) =
      mset (take i m) + add_mset (m ! i) (mset (drop i (remove_entry i m)))"
    using mset_remove_entry [OF assms]
    by (metis append_take_drop_id mset_append union_mset_add_mset_right)
  then show ?thesis by simp
qed

lemma walk_weight_drop:
  assumes "i < length m"
  shows "walk_weight b t (drop i m) =
    (if straddles b t (m ! i) then 2 else 1) + walk_weight b t (drop (Suc i) m)"
  using assms by (simp add: walk_weight_def flip: Cons_nth_drop_Suc)

lemma walk_weight_remove_entry:
  assumes "i < length m"
  shows "walk_weight b t (drop i (remove_entry i m)) < walk_weight b t (drop i m)"
proof -
  have "walk_weight b t m = sum_mset (image_mset (\<lambda>e. if straddles b t e then 2 else 1) (mset m))" for m
    by (simp add: walk_weight_def flip: sum_mset_sum_list)
  then show ?thesis using mset_drop_remove_entry [OF assms] by simp
qed

lemma drop_Suc_update: "i < length m \<Longrightarrow> drop (Suc i) (m[i := e]) = drop (Suc i) m"
  by simp

function new_entry_walk :: "nat \<Rightarrow> u64 \<Rightarrow> u64 \<Rightarrow> memmap \<Rightarrow> nat \<Rightarrow> memmap outcome" where
  "new_entry_walk limit base rtop m i =
     (if i < length m \<and> base \<le> rtop then
        let e = m ! i; entry_base = mbase e
        in case CHECKED_ADD (mbase e) (mlength e) of
             None \<Rightarrow> new_entry_walk limit base rtop m (Suc i)
           | Some entry_top \<Rightarrow>
               if base \<le> entry_base \<and> rtop \<ge> entry_top then
                 new_entry_walk limit base rtop (remove_entry i m) i
               else if base \<le> entry_base \<and> rtop < entry_top \<and> rtop > entry_base then
                 new_entry_walk limit base rtop
                   (m[i := e\<lparr>mbase := mbase e + (rtop - entry_base),
                             mlength := mlength e - (rtop - entry_base)\<rparr>]) (Suc i)
               else if base > entry_base \<and> base < entry_top \<and> rtop \<ge> entry_top then
                 new_entry_walk limit base rtop
                   (m[i := e\<lparr>mlength := mlength e - (entry_top - base)\<rparr>]) (Suc i)
               else if base > entry_base \<and> rtop < entry_top then
                 if length m \<ge> limit then Inl ''Memory map exhausted.''
                 else new_entry_walk limit base rtop
                   (m[i := e\<lparr>mlength := mlength e - (entry_top - base)\<rparr>] @
                    [\<lparr>mbase = rtop, mlength = entry_top - rtop, mtype = mtype e\<rparr>]) (Suc i)
               else new_entry_walk limit base rtop m (Suc i)
      else Inr m)"
  by pat_completeness auto
termination
proof (relation "measure (\<lambda>(limit, base, rtop, m, i). walk_weight base rtop (drop i m))", goal_cases)
  case 3
  then show ?case by (simp add: walk_weight_remove_entry)
next
  case (6 limit base rtop m i e entry_base entry_top)
  let ?new = "\<lparr>mbase = rtop, mlength = entry_top - rtop, mtype = mtype e\<rparr>"
  from 6 have i: "i < length m" and "\<not> straddles base rtop ?new" and "straddles base rtop (m ! i)"
    by (auto simp: straddles_def checked_top split: if_splits)
  then show ?case
    using walk_weight_drop [OF i, of base rtop] 6(1)
    by (simp add: walk_weight_def)
qed (auto simp: walk_weight_drop walk_weight_remove_entry)

declare new_entry_walk.simps [simp del]

definition pmm_new_entry :: "nat \<Rightarrow> memmap \<Rightarrow> u64 \<Rightarrow> u64 \<Rightarrow> u32 \<Rightarrow> memmap outcome" where
  "pmm_new_entry limit m base len type =
     (case CHECKED_ADD base len of
        None \<Rightarrow> Inl ''pmm: Integer overflow in memory range calculation''
      | Some rtop \<Rightarrow>
          (case new_entry_walk limit base rtop m 0 of
             Inl e \<Rightarrow> Inl e
           | Inr m' \<Rightarrow>
               if length m' \<ge> limit then Inl ''Memory map exhausted.''
               else Inr (m' @ [\<lparr>mbase = base, mlength = len, mtype = type\<rparr>])))"

text \<open>An entry that \<open>memmap_alloc_range_in\<close> accepts for the range.\<close>

definition range_fits :: "u64 \<Rightarrow> u64 \<Rightarrow> u32 \<Rightarrow> memmap_entry \<Rightarrow> bool" where
  "range_fits base rtop overlay_type e \<longleftrightarrow>
     (overlay_type = 0 \<or> mtype e = overlay_type) \<and>
     (case CHECKED_ADD (mbase e) (mlength e) of
        None \<Rightarrow> False
      | Some entry_top \<Rightarrow> base \<ge> mbase e \<and> base < entry_top \<and> rtop \<le> entry_top)"

definition memmap_alloc_range_in ::
  "bool \<Rightarrow> nat \<Rightarrow> memmap \<Rightarrow> u64 \<Rightarrow> u64 \<Rightarrow> u32 \<Rightarrow> u32 \<Rightarrow> bool \<Rightarrow> bool \<Rightarrow> bool \<Rightarrow>
     (bool \<times> memmap) outcome" where
  "memmap_alloc_range_in keep limit m base len type overlay_type do_panic simulation new_entry =
     (if len = 0 then Inr (True, m)
      else if simulation \<and> new_entry then Inr (True, m)
      else case CHECKED_ADD base len of
        None \<Rightarrow> if do_panic then Inl ''Memory allocation overflow.'' else Inr (False, m)
      | Some rtop \<Rightarrow>
          (let fits = list_ex (range_fits base rtop overlay_type) m
           in if fits \<and> simulation then Inr (True, m)
              else if \<not> fits \<and> \<not> new_entry \<and> do_panic then Inl ''Memory allocation failure.''
              else if \<not> fits \<and> \<not> new_entry then Inr (False, m)
              else case pmm_new_entry limit m base len type of
                Inl e \<Rightarrow> Inl e
              | Inr m1 \<Rightarrow>
                  (case pmm_sanitise_entries keep limit m1 False of
                     Inl e \<Rightarrow> Inl e
                   | Inr m2 \<Rightarrow> Inr (True, m2))))"

section \<open>Correctness of carving\<close>

text \<open>One slot of the walk: its entry is replaced by the parts outside the new range.\<close>

lemma new_entry_walk_cases:
  assumes ret: "new_entry_walk limit base rtop m i = Inr m'" and i: "i < length m" and le: "base \<le> rtop"
  obtains
    (skip) "erange (m ! i) \<inter> {base ..< rtop} = {}" "new_entry_walk limit base rtop m (Suc i) = Inr m'"
  | (drop) "erange (m ! i) \<subseteq> {base ..< rtop}"
      "new_entry_walk limit base rtop (remove_entry i m) i = Inr m'"
  | (shave) e es where "erange e \<union> (\<Union>d \<in> set es. erange d) = erange (m ! i) - {base ..< rtop}"
      "\<forall>d \<in> insert e (set es). mtype d = mtype (m ! i) \<and> representable d"
      "walk_weight base rtop es < (if straddles base rtop (m ! i) then 2 else 1)"
      "new_entry_walk limit base rtop (m[i := e] @ es) (Suc i) = Inr m'"
proof -
  let ?e = "m ! i"
  note unf = new_entry_walk.simps [of limit base rtop m i]
  consider (wrap) "mtop ?e < mbase ?e"
    | (full) "mbase ?e \<le> mtop ?e" "base \<le> mbase ?e" "mtop ?e \<le> rtop"
    | (bottom) "mbase ?e \<le> mtop ?e" "base \<le> mbase ?e" "rtop < mtop ?e" "mbase ?e < rtop"
    | (tp) "mbase ?e \<le> mtop ?e" "mbase ?e < base" "base < mtop ?e" "mtop ?e \<le> rtop"
    | (nested) "mbase ?e \<le> mtop ?e" "mbase ?e < base" "rtop < mtop ?e"
    | (out) "mbase ?e \<le> mtop ?e" "rtop \<le> mbase ?e \<or> mtop ?e \<le> base"
        "\<not> (base \<le> mbase ?e \<and> mtop ?e \<le> rtop)" "\<not> (mbase ?e < base \<and> rtop < mtop ?e)"
    by (meson linorder_not_le)
  then show thesis
  proof cases
    case wrap
    with ret i le show ?thesis by (intro skip) (auto simp: unf Let_def)
  next
    case full
    with ret i le show ?thesis by (intro drop) (auto simp: unf Let_def)
  next
    case bottom
    let ?e' = "?e\<lparr>mbase := mbase ?e + (rtop - mbase ?e), mlength := mlength ?e - (rtop - mbase ?e)\<rparr>"
    have e': "mbase ?e' = rtop" "mtop ?e' = mtop ?e" by (simp_all add: mtop_def)
    from bottom bottom(3) [folded not_le] i le have "new_entry_walk limit base rtop m i =
        new_entry_walk limit base rtop (m[i := ?e']) (Suc i)" by (simp add: unf Let_def)
    with bottom ret e' show ?thesis
      by (intro shave [of ?e' "[]"]) (auto simp: representable_def walk_weight_def)
  next
    case tp
    let ?e' = "?e\<lparr>mlength := mlength ?e - (mtop ?e - base)\<rparr>"
    have e': "mbase ?e' = mbase ?e" "mtop ?e' = base" by (simp_all add: mtop_def)
    from tp tp(2) [folded not_le] i le have "new_entry_walk limit base rtop m i =
        new_entry_walk limit base rtop (m[i := ?e']) (Suc i)" by (simp add: unf Let_def)
    with tp ret e' show ?thesis
      by (intro shave [of ?e' "[]"]) (auto simp: representable_def walk_weight_def)
  next
    case nested
    let ?e' = "?e\<lparr>mlength := mlength ?e - (mtop ?e - base)\<rparr>"
    let ?d = "\<lparr>mbase = rtop, mlength = mtop ?e - rtop, mtype = mtype ?e\<rparr>"
    have e': "mbase ?e' = mbase ?e" "mtop ?e' = base" "mtop ?d = mtop ?e" by (simp_all add: mtop_def)
    from nested nested(2) [folded not_le] nested(3) [folded not_le] i le ret
    have "new_entry_walk limit base rtop m i =
        new_entry_walk limit base rtop (m[i := ?e'] @ [?d]) (Suc i)"
      by (simp add: unf Let_def split: if_splits)
    with nested ret e' le show ?thesis
      by (intro shave [of ?e' "[?d]"]) (auto simp: representable_def walk_weight_def straddles_def)
  next
    case out
    then have "\<not> (base \<le> mbase ?e \<and> rtop < mtop ?e \<and> mbase ?e < rtop)"
      "\<not> (mbase ?e < base \<and> base < mtop ?e \<and> mtop ?e \<le> rtop)"
      using le by auto
    with out i le have "new_entry_walk limit base rtop m i = new_entry_walk limit base rtop m (Suc i)"
      by (simp only: unf Let_def checked_top_Some option.case if_False simp_thms if_True)
    with out ret show ?thesis by (intro skip) auto
  qed
qed

lemma new_entry_walk_covered:
  assumes "new_entry_walk limit base rtop m i = Inr m'" and "base \<le> rtop"
    and "\<forall>k < i. k < length m \<longrightarrow> erange (m ! k) \<inter> {base ..< rtop} = {}"
  shows "(\<forall>P. covered P m' = covered P m - {base ..< rtop}) \<and>
    ((\<forall>e \<in> set m. representable e) \<longrightarrow> (\<forall>e \<in> set m'. representable e))"
  using assms
proof (induction "walk_weight base rtop (drop i m)" arbitrary: m i rule: less_induct)
  case less
  note IH = less.hyps [OF _ _ less.prems(2)]
  show ?case
  proof (cases "i < length m")
    case False
    with less.prems have "m' = m" by (simp add: new_entry_walk.simps [of limit base rtop m i])
    moreover have "covered P m \<inter> {base ..< rtop} = {}" for P
    proof (intro equals0I)
      fix a
      assume a: "a \<in> covered P m \<inter> {base ..< rtop}"
      then have "a \<in> covered P m" by blast
      then obtain k where "k < length m" "a \<in> erange (m ! k)" unfolding in_covered_iff by blast
      moreover from this False less.prems(3) have "erange (m ! k) \<inter> {base ..< rtop} = {}" by simp
      ultimately show False using a by blast
    qed
    ultimately show ?thesis by blast
  next
    case i: True
    from less.prems(1) i less.prems(2) show ?thesis
    proof (cases rule: new_entry_walk_cases)
      case skip
      with less.prems(3) show ?thesis
        by (intro IH [of "Suc i" m])
           (auto simp: walk_weight_drop [OF i] less_Suc_eq simp del: in_erange)
    next
      case drop
      have "\<forall>k < i. k < length (remove_entry i m) \<longrightarrow> erange (remove_entry i m ! k) \<inter> {base ..< rtop} = {}"
        using less.prems(3) i by (simp add: nth_remove_entry)
      from IH [OF walk_weight_remove_entry [OF i] drop(2) this]
      show ?thesis using drop(1) covered_remove_entry [OF i] set_remove_entry [OF i] by auto
    next
      case (shave e es)
      let ?m = "m[i := e] @ es"
      have w: "walk_weight base rtop (drop (Suc i) ?m) < walk_weight base rtop (drop i m)"
        using shave(3) i walk_weight_drop [OF i, of base rtop] by (simp add: walk_weight_def)
      have "\<forall>k < Suc i. k < length ?m \<longrightarrow> erange (?m ! k) \<inter> {base ..< rtop} = {}"
        using shave(1) less.prems(3) i
        by (auto simp: nth_append nth_list_update less_Suc_eq simp del: in_erange)
      from IH [OF w shave(4) this] have R: "(\<forall>P. covered P m' = covered P ?m - {base ..< rtop}) \<and>
        ((\<forall>e \<in> set ?m. representable e) \<longrightarrow> (\<forall>e \<in> set m'. representable e))" .
      have "covered P es = (if P (mtype (m ! i)) then \<Union>d \<in> set es. erange d else {})" for P
        using shave(2) by (auto simp: covered_def simp del: in_erange)
      then have "covered P ?m = (if P (mtype (m ! i)) then erange (m ! i) - {base ..< rtop} else {})
          \<union> covered P (remove_entry i m)" for P
        using shave(1,2) covered_update_entry [OF i, of P e] by auto
      with R covered_remove_entry [OF i] have "covered P m' = covered P m - {base ..< rtop}" for P
        by (auto simp del: in_erange)
      moreover have "\<forall>e \<in> set ?m. representable e" if "\<forall>e \<in> set m. representable e"
        using that shave(2) set_update_subset_insert [of m i e] by auto
      ultimately show ?thesis using R by blast
    qed
  qed
qed

lemma pmm_new_entry_covered:
  assumes "pmm_new_entry limit m base len ty = Inr m'"
  shows "base \<le> base + len"
    and "covered P m' = (covered P m - {base ..< base + len}) \<union> (if P ty then {base ..< base + len} else {})"
    and "\<forall>e \<in> set m. representable e \<Longrightarrow> \<forall>e \<in> set m'. representable e"
proof -
  let ?d = "\<lparr>mbase = base, mlength = len, mtype = ty\<rparr>"
  from assms obtain m1 where le: "base \<le> base + len"
    and w: "new_entry_walk limit base (base + len) m 0 = Inr m1" and m': "m' = m1 @ [?d]"
    by (auto simp: pmm_new_entry_def CHECKED_ADD_eq split: sum.splits if_splits)
  note c = new_entry_walk_covered [OF w le]
  have d: "erange ?d = {base ..< base + len}" by (simp add: erange_def mtop_def)
  show "base \<le> base + len" by (rule le)
  show "covered P m' = (covered P m - {base ..< base + len}) \<union> (if P ty then {base ..< base + len} else {})"
    using c d by (auto simp: m')
  show "\<forall>e \<in> set m'. representable e" if "\<forall>e \<in> set m. representable e"
    using c that le by (auto simp: m' representable_def mtop_def)
qed

text \<open>
  The invariant the allocator keeps between calls: no range wraps, a usable entry overlaps
  no other entry, and (on BIOS) page zero is not handed out.
\<close>

definition wf_map :: "bool \<Rightarrow> memmap \<Rightarrow> bool" where
  "wf_map keep m \<longleftrightarrow> (\<forall>e \<in> set m. representable e) \<and> clean (mset m) \<and> usable m \<inter> low_page keep = {}"

lemma wf_map_disjoint: "wf_map keep m \<Longrightarrow> usable m \<inter> unusable m = {}"
  by (simp add: wf_map_def clean_disjoint)

lemma sanitise_wf_map:
  assumes "pmm_sanitise_entries keep limit m False = Inr m'" and "\<forall>e \<in> set m. representable e"
  shows "wf_map keep m'"
  using sanitise_result [OF assms] sanitise_usable [OF assms] clean_disjoint
  by (auto simp: wf_map_def)

lemma alloc_range_False:
  "memmap_alloc_range_in keep limit m base len ty ov dp sim ne = Inr (False, m') \<Longrightarrow> m' = m"
  "memmap_alloc_range_in keep limit m base len ty ov dp True ne = Inr (b, m') \<Longrightarrow> m' = m"
  by (auto simp: memmap_alloc_range_in_def Let_def split: option.splits sum.splits if_splits)

lemma alloc_range_True:
  assumes "memmap_alloc_range_in keep limit m base len ty ov dp False ne = Inr (True, m')"
    and "len \<noteq> 0"
  obtains m1 where "pmm_new_entry limit m base len ty = Inr m1"
    and "pmm_sanitise_entries keep limit m1 False = Inr m'"
    and "ne \<or> list_ex (range_fits base (base + len) ov) m"
  using assms
  by (auto simp: memmap_alloc_range_in_def Let_def CHECKED_ADD_eq split: sum.splits if_splits)

lemma range_fits_covered:
  assumes "list_ex (range_fits base (base + len) ov) m" and "ov \<noteq> 0"
  shows "{base ..< base + len} \<subseteq> cover ov m"
proof -
  from assms(1) obtain e where "e \<in> set m" and f: "range_fits base (base + len) ov e"
    by (auto simp: list_ex_iff)
  then have "mtype e = ov" "{base ..< base + len} \<subseteq> erange e"
    using assms(2) by (auto simp: range_fits_def checked_top split: if_splits)
  with \<open>e \<in> set m\<close> show ?thesis by (auto simp: cover_def covered_def simp del: in_erange)
qed

text \<open>
  A successful, non-simulated allocation of a nonempty range hands exactly that range to
  the new type: every other type loses it and nothing else changes.
\<close>

lemma alloc_range_covered:
  assumes ret: "memmap_alloc_range_in keep limit m base len ty ov dp False ne = Inr (True, m')"
    and len: "len \<noteq> 0" and wf: "wf_map keep m"
  shows "base \<le> base + len" and "wf_map keep m'"
    and "t \<noteq> MEMMAP_USABLE \<Longrightarrow> cover t m' =
      (cover t m - {base ..< base + len}) \<union> (if t = ty then {base ..< base + len} else {})"
    and "usable m' = (if ty = MEMMAP_USABLE then usable m \<union> {base ..< base + len} - low_page keep
      else usable m - {base ..< base + len})"
proof -
  from ret len obtain m1 where n: "pmm_new_entry limit m base len ty = Inr m1"
    and s: "pmm_sanitise_entries keep limit m1 False = Inr m'"
    by (rule alloc_range_True)
  note c = pmm_new_entry_covered [OF n]
  from wf c(3) have rep: "\<forall>e \<in> set m1. representable e" by (simp add: wf_map_def)
  show "base \<le> base + len" by (rule c(1))
  show "wf_map keep m'" using s rep by (rule sanitise_wf_map)
  show "cover t m' = (cover t m - {base ..< base + len}) \<union> (if t = ty then {base ..< base + len} else {})"
    if "t \<noteq> MEMMAP_USABLE"
    using that sanitise_covered [OF s rep, of "\<lambda>t'. t' = t"] c(2) [of "\<lambda>t'. t' = t"]
    by (auto simp: cover_def)
  show "usable m' = (if ty = MEMMAP_USABLE then usable m \<union> {base ..< base + len} - low_page keep
      else usable m - {base ..< base + len})"
    using sanitise_usable [OF s rep] c(2) [of "\<lambda>t'. t' = MEMMAP_USABLE"]
      c(2) [of "\<lambda>t'. t' \<noteq> MEMMAP_USABLE"] wf wf_map_disjoint [OF wf]
    unfolding wf_map_def cover_def by (cases "ty = MEMMAP_USABLE") auto
qed

section \<open>Checking the invariant on a given map\<close>

text \<open>A sufficient test of \<^const>\<open>wf_map\<close> that evaluates.\<close>

definition separate :: "memmap_entry \<Rightarrow> memmap_entry \<Rightarrow> bool" where
  "separate e e' \<longleftrightarrow> mtop e \<le> mbase e' \<or> mtop e' \<le> mbase e"

definition wf_check :: "bool \<Rightarrow> memmap \<Rightarrow> bool" where
  "wf_check keep m \<longleftrightarrow> list_all (\<lambda>e. mbase e \<le> mtop e \<and> (mtype e = MEMMAP_USABLE \<longrightarrow> keep \<or> 0x1000 \<le> mbase e)) m \<and>
     sorted_wrt (\<lambda>e e'. mtype e = MEMMAP_USABLE \<or> mtype e' = MEMMAP_USABLE \<longrightarrow> separate e e') m"

lemma separate_apart: "separate e e' \<Longrightarrow> apart e e'"
  by (auto simp: separate_def apart_def)

lemma clean_list:
  "sorted_wrt (\<lambda>e e'. mtype e = MEMMAP_USABLE \<or> mtype e' = MEMMAP_USABLE \<longrightarrow> separate e e') m \<Longrightarrow> clean (mset m)"
proof (induction m)
  case Nil
  then show ?case by (simp add: clean_def)
next
  case (Cons e m)
  then show ?case by (auto simp: clean_add_iff intro: separate_apart)
qed

lemma wf_check_wf_map:
  assumes "wf_check keep m"
  shows "wf_map keep m"
proof -
  have a: "\<forall>e \<in> set m. mbase e \<le> mtop e \<and> (mtype e = MEMMAP_USABLE \<longrightarrow> keep \<or> 0x1000 \<le> mbase e)"
    using assms by (simp add: wf_check_def list_all_iff)
  have "\<forall>e \<in> set m. mtype e = MEMMAP_USABLE \<longrightarrow> erange e \<inter> low_page keep = {}"
  proof (intro ballI impI)
    fix e assume "e \<in> set m" and "mtype e = MEMMAP_USABLE"
    with a have "keep \<or> 0x1000 \<le> mbase e" by blast
    then show "erange e \<inter> low_page keep = {}"
      unfolding low_page_def by (cases keep) (simp_all add: erange_def leD)
  qed
  then have "usable m \<inter> low_page keep = {}" unfolding cover_def covered_def by blast
  with a assms show ?thesis by (simp add: wf_map_def representable_def wf_check_def clean_list)
qed

end
