(* ===== verification/Allocator.thy ===== *)
theory Allocator
  imports Pmm
begin

text \<open>
  The allocation entry points of \<^verbatim>\<open>src/common/mm/pmm.s2.c\<close> and the queries on the map
  (\<open>pmm_check_type\<close>, \<open>mmap_get_info\<close>, \<open>check_usable_memory\<close>), as operations on the
  allocator's state, with a locale for what any caller of an allocator relies on.
\<close>

section \<open>State\<close>

record pmm_state =
  memmap :: memmap                    \<comment> \<open>\<open>memmap[]\<close> and \<open>memmap_entries\<close>\<close>
  memmap_max_entries :: nat
  keep_first_page :: bool             \<comment> \<open>\<open>pmm_sanitiser_keep_first_page\<close>\<close>
  allocations_disallowed :: bool
  conv_base :: u64                    \<comment> \<open>the static \<open>base\<close> of \<open>conv_mem_alloc\<close>\<close>
  mem :: "u64 \<Rightarrow> u8"                  \<comment> \<open>physical memory\<close>

definition memset0 :: "u64 \<Rightarrow> u64 \<Rightarrow> (u64 \<Rightarrow> u8) \<Rightarrow> u64 \<Rightarrow> u8" where
  "memset0 dst cnt mm = (\<lambda>a. if a - dst < cnt then 0 else mm a)"

definition memcpy :: "u64 \<Rightarrow> u64 \<Rightarrow> u64 \<Rightarrow> (u64 \<Rightarrow> u8) \<Rightarrow> u64 \<Rightarrow> u8" where
  "memcpy dst src cnt mm = (\<lambda>a. if a - dst < cnt then mm (src + (a - dst)) else mm a)"

definition memmap_alloc_range ::
  "pmm_state \<Rightarrow> u64 \<Rightarrow> u64 \<Rightarrow> u32 \<Rightarrow> u32 \<Rightarrow> bool \<Rightarrow> bool \<Rightarrow> bool \<Rightarrow> (bool \<times> pmm_state) outcome" where
  "memmap_alloc_range s base len type overlay_type do_panic simulation new_entry =
     (case memmap_alloc_range_in (keep_first_page s) (memmap_max_entries s) (memmap s)
         base len type overlay_type do_panic simulation new_entry of
        Inl e \<Rightarrow> Inl e
      | Inr (b, m) \<Rightarrow> Inr (b, s\<lparr>memmap := m\<rparr>))"

definition sanitise_state :: "pmm_state \<Rightarrow> bool \<Rightarrow> pmm_state outcome" where
  "sanitise_state s align =
     (case pmm_sanitise_entries (keep_first_page s) (memmap_max_entries s) (memmap s) align of
        Inl e \<Rightarrow> Inl e
      | Inr m \<Rightarrow> Inr (s\<lparr>memmap := m\<rparr>))"

section \<open>The top-down allocator\<close>

text \<open>
  One turn of the search loop: the base and length to reserve inside an entry, or
  \<^const>\<open>None\<close> for \<open>continue\<close>.
\<close>

definition alloc_candidate :: "u64 \<Rightarrow> u64 \<Rightarrow> u64 \<Rightarrow> memmap_entry \<Rightarrow> (u64 \<times> u64) option" where
  "alloc_candidate limit cnt alignment e =
     (if mtype e \<noteq> MEMMAP_USABLE then None
      else case CHECKED_ADD (mbase e) (mlength e) of
        None \<Rightarrow> None
      | Some e_top \<Rightarrow>
          (let entry_base = mbase e;
               entry_top = (if e_top > limit then limit else e_top)
           in if e_top > limit \<and> entry_base \<ge> entry_top then None
              else if entry_top - entry_base < cnt then None
              else (let alloc_base = ALIGN_DOWN (entry_top - cnt) alignment
                    in if alloc_base < entry_base then None
                       else Some (alloc_base, entry_top - alloc_base))))"

fun first_some :: "('a \<Rightarrow> 'b option) \<Rightarrow> 'a list \<Rightarrow> 'b option" where
  "first_some f [] = None"
| "first_some f (x # xs) = (case f x of None \<Rightarrow> first_some f xs | Some y \<Rightarrow> Some y)"

definition find_candidate :: "u64 \<Rightarrow> u64 \<Rightarrow> u64 \<Rightarrow> memmap \<Rightarrow> (u64 \<times> u64) option" where
  "find_candidate limit cnt alignment m = first_some (alloc_candidate limit cnt alignment) (rev m)"

definition reserve_block :: "pmm_state \<Rightarrow> u64 \<Rightarrow> u64 \<Rightarrow> u32 \<Rightarrow> u64 \<Rightarrow> (u64 \<times> pmm_state) outcome" where
  "reserve_block s alloc_base aligned_length type cnt =
     (case memmap_alloc_range s alloc_base aligned_length type MEMMAP_USABLE True False False of
        Inl e \<Rightarrow> Inl e
      | Inr (_, s1) \<Rightarrow>
          (case sanitise_state (s1\<lparr>mem := memset0 alloc_base cnt (mem s1)\<rparr>) False of
             Inl e \<Rightarrow> Inl e
           | Inr s2 \<Rightarrow> Inr (alloc_base, s2)))"

definition ext_mem_alloc_type_aligned_mode ::
  "pmm_state \<Rightarrow> u64 \<Rightarrow> u32 \<Rightarrow> u64 \<Rightarrow> bool \<Rightarrow> (u64 \<times> pmm_state) outcome" where
  "ext_mem_alloc_type_aligned_mode s cnt type alignment allow_high_allocs =
     (case CHECKED_ADD (if cnt = 0 then 1 else cnt) (alignment - 1) of
        None \<Rightarrow> Inl ''ext_mem_alloc: count overflows when aligning''
      | Some c \<Rightarrow>
          (let cnt' = ALIGN_DOWN c alignment
           in if allocations_disallowed s then Inl ''Memory allocations disallowed''
              else case find_candidate 0x100000000 cnt' alignment (memmap s) of
                Some (b, l) \<Rightarrow> reserve_block s b l type cnt'
              | None \<Rightarrow>
                  if allow_high_allocs then
                    (case find_candidate (-1) cnt' alignment (memmap s) of
                       Some (b, l) \<Rightarrow> reserve_block s b l type cnt'
                     | None \<Rightarrow> Inl ''High memory allocator: Out of memory'')
                  else Inl ''High memory allocator: Out of memory''))"

definition ext_mem_alloc_type_aligned ::
  "pmm_state \<Rightarrow> u64 \<Rightarrow> u32 \<Rightarrow> u64 \<Rightarrow> (u64 \<times> pmm_state) outcome" where
  "ext_mem_alloc_type_aligned s cnt type alignment =
     ext_mem_alloc_type_aligned_mode s cnt type alignment False"

definition ext_mem_alloc_type :: "pmm_state \<Rightarrow> u64 \<Rightarrow> u32 \<Rightarrow> (u64 \<times> pmm_state) outcome" where
  "ext_mem_alloc_type s cnt type = ext_mem_alloc_type_aligned s cnt type 4096"

definition ext_mem_alloc :: "pmm_state \<Rightarrow> u64 \<Rightarrow> (u64 \<times> pmm_state) outcome" where
  "ext_mem_alloc s cnt = ext_mem_alloc_type s cnt MEMMAP_BOOTLOADER_RECLAIMABLE"

definition ext_mem_alloc_counted :: "pmm_state \<Rightarrow> u64 \<Rightarrow> u64 \<Rightarrow> (u64 \<times> pmm_state) outcome" where
  "ext_mem_alloc_counted s cnt elem_size =
     (case CHECKED_MUL cnt elem_size of
        None \<Rightarrow> Inl ''ext_mem_alloc_counted: allocation size overflow''
      | Some n \<Rightarrow> ext_mem_alloc s n)"

section \<open>The conventional-memory allocator\<close>

function conv_alloc_loop :: "pmm_state \<Rightarrow> u64 \<Rightarrow> (u64 \<times> pmm_state) outcome" where
  "conv_alloc_loop s cnt =
     (if conv_base s + cnt > 0x100000 then Inl ''Conventional memory allocation failed''
      else case memmap_alloc_range s (conv_base s) cnt MEMMAP_BOOTLOADER_RECLAIMABLE MEMMAP_USABLE
          False False False of
        Inl e \<Rightarrow> Inl e
      | Inr (True, s1) \<Rightarrow>
          (case sanitise_state (s1\<lparr>mem := memset0 (conv_base s) cnt (mem s1),
                                   conv_base := conv_base s + cnt\<rparr>) False of
             Inl e \<Rightarrow> Inl e
           | Inr s2 \<Rightarrow> Inr (conv_base s, s2))
      | Inr (False, s1) \<Rightarrow> conv_alloc_loop (s1\<lparr>conv_base := conv_base s + 4096\<rparr>) cnt)"
  by pat_completeness auto
termination
proof (relation "measure (\<lambda>(s, cnt). 0x102000 - unat (conv_base s + cnt))", goal_cases)
  case (2 s cnt r b s1)
  let ?x = "conv_base s + cnt"
  have "unat ?x \<le> 0x100000" using 2(1) by (simp add: word_less_nat_alt)
  then have "unat (?x + 4096) = unat ?x + 4096" by (simp add: unat_word_ariths)
  with \<open>unat ?x \<le> 0x100000\<close> show ?case by (simp add: add_ac)
qed simp

declare conv_alloc_loop.simps [simp del]

definition conv_mem_alloc :: "pmm_state \<Rightarrow> u64 \<Rightarrow> (u64 \<times> pmm_state) outcome" where
  "conv_mem_alloc s cnt =
     (if allocations_disallowed s then Inl ''Memory allocations disallowed''
      else case ALIGN_UP (if cnt = 0 then 1 else cnt) 4096 of
        None \<Rightarrow> Inl ''Alignment overflow''
      | Some c \<Rightarrow> conv_alloc_loop s c)"

section \<open>Freeing and reallocating\<close>

definition pmm_free :: "pmm_state \<Rightarrow> u64 \<Rightarrow> u64 \<Rightarrow> pmm_state outcome" where
  "pmm_free s ptr cnt =
     (if ptr = 0 then Inr s
      else if ptr mod 4096 \<noteq> 0 then Inl ''pmm_free: Unaligned pointer''
      else case ALIGN_UP (if cnt = 0 then 1 else cnt) 4096 of
        None \<Rightarrow> Inl ''Alignment overflow''
      | Some c \<Rightarrow>
          if allocations_disallowed s then Inl ''Memory allocations disallowed''
          else (case memmap_alloc_range s ptr c MEMMAP_USABLE 0 False False True of
                  Inl e \<Rightarrow> Inl e
                | Inr (_, s') \<Rightarrow> Inr s'))"

definition pmm_realloc :: "pmm_state \<Rightarrow> u64 \<Rightarrow> u64 \<Rightarrow> u64 \<Rightarrow> (u64 \<times> pmm_state) outcome" where
  "pmm_realloc s old_ptr old_size new_size =
     (if old_ptr = 0 then ext_mem_alloc s new_size
      else case ext_mem_alloc s new_size of
        Inl e \<Rightarrow> Inl e
      | Inr (new_ptr, s1) \<Rightarrow>
          (case pmm_free (s1\<lparr>mem := memcpy new_ptr old_ptr (min new_size old_size) (mem s1)\<rparr>)
                 old_ptr old_size of
             Inl e \<Rightarrow> Inl e
           | Inr s2 \<Rightarrow> Inr (new_ptr, s2)))"

section \<open>Correctness of the allocators\<close>

definition pmm_ok :: "pmm_state \<Rightarrow> bool" where
  "pmm_ok s \<longleftrightarrow> wf_map (keep_first_page s) (memmap s)"

abbreviation avail :: "pmm_state \<Rightarrow> u64 set" where
  "avail s \<equiv> usable (memmap s)"

lemma first_some_SomeD: "first_some f xs = Some y \<Longrightarrow> \<exists>x \<in> set xs. f x = Some y"
  by (induction xs) (auto split: option.splits)

lemma first_some_None: "first_some f xs = None \<longleftrightarrow> (\<forall>x \<in> set xs. f x = None)"
  by (induction xs) (auto split: option.splits)

lemma alloc_candidate_SomeD:
  assumes "alloc_candidate limit cnt al e = Some (b, l)"
  shows "mtype e = MEMMAP_USABLE" and "b \<le> b + l" and "b + l \<le> limit" and "cnt \<le> l"
    and "{b ..< b + l} \<subseteq> erange e" and "unat al dvd unat b"
proof -
  define t where "t = (if mtop e > limit then limit else mtop e)"
  from assms have u: "mtype e = MEMMAP_USABLE" and le: "mbase e \<le> mtop e" "mbase e \<le> t"
    and room: "cnt \<le> t - mbase e" and b: "b = ALIGN_DOWN (t - cnt) al" "mbase e \<le> b"
    and l: "l = t - b"
    by (auto simp: alloc_candidate_def checked_top t_def Let_def not_less split: if_splits)
  have "cnt \<le> t" using room le(2)
    by (metis order_trans word_sub_le)
  then have bt: "b \<le> t - cnt" "t - cnt \<le> t"
    unfolding b by (simp_all add: ALIGN_DOWN_le word_sub_le)
  then have "b \<le> t" by order
  have lim: "t \<le> limit" "t \<le> mtop e" by (auto simp: t_def)
  show "mtype e = MEMMAP_USABLE" by (rule u)
  show "b \<le> b + l" "b + l \<le> limit" using \<open>b \<le> t\<close> lim by (simp_all add: l)
  show "cnt \<le> l" unfolding l
    using bt \<open>b \<le> t\<close> \<open>cnt \<le> t\<close> by (simp add: word_le_nat_alt unat_sub)
  show "{b ..< b + l} \<subseteq> erange e" using b(2) lim by (auto simp: l erange_def)
  show "unat al dvd unat b" by (simp add: b(1) ALIGN_DOWN_dvd)
qed

lemma find_candidate_SomeD:
  assumes "find_candidate limit cnt al m = Some (b, l)"
  shows "b \<le> b + l" and "b + l \<le> limit" and "cnt \<le> l" and "{b ..< b + l} \<subseteq> usable m"
    and "unat al dvd unat b"
proof -
  from assms obtain e where e: "e \<in> set m" "alloc_candidate limit cnt al e = Some (b, l)"
    by (auto simp: find_candidate_def dest!: first_some_SomeD)
  note c = alloc_candidate_SomeD [OF e(2)]
  show "b \<le> b + l" "b + l \<le> limit" "cnt \<le> l" "unat al dvd unat b" by (fact c)+
  show "{b ..< b + l} \<subseteq> usable m"
    using c(1,5) e(1) by (auto simp: cover_def covered_def simp del: in_erange)
qed

text \<open>A sanitised map is left as it is, as far as the covered addresses go.\<close>

lemma sanitise_state_ok:
  assumes "sanitise_state s False = Inr s'" and "pmm_ok s"
  shows "pmm_ok s'" and "avail s' = avail s" and "t \<noteq> MEMMAP_USABLE \<Longrightarrow> cover t (memmap s') = cover t (memmap s)"
    and "mem s' = mem s" and "allocations_disallowed s' = allocations_disallowed s"
    and "conv_base s' = conv_base s" and "keep_first_page s' = keep_first_page s"
proof -
  from assms(1) obtain m where m: "pmm_sanitise_entries (keep_first_page s) (memmap_max_entries s) (memmap s) False = Inr m"
    and s': "s' = s\<lparr>memmap := m\<rparr>"
    by (auto simp: sanitise_state_def split: sum.splits)
  from assms(2) have rep: "\<forall>e \<in> set (memmap s). representable e" by (simp add: pmm_ok_def wf_map_def)
  show "pmm_ok s'" using sanitise_wf_map [OF m rep] by (simp add: pmm_ok_def s')
  show "avail s' = avail s"
    using sanitise_usable [OF m rep] assms(2) wf_map_disjoint [of "keep_first_page s" "memmap s"]
    by (auto simp: s' pmm_ok_def wf_map_def)
  show "t \<noteq> MEMMAP_USABLE \<Longrightarrow> cover t (memmap s') = cover t (memmap s)"
    using sanitise_covered [OF m rep, of "\<lambda>t'. t' = t"] by (simp add: s' cover_def)
  show "mem s' = mem s" "allocations_disallowed s' = allocations_disallowed s"
    "conv_base s' = conv_base s" "keep_first_page s' = keep_first_page s"
    by (simp_all add: s')
qed

lemma memmap_alloc_range_ok:
  assumes "memmap_alloc_range s base len ty ov dp False ne = Inr (True, s')" and "len \<noteq> 0" and "pmm_ok s"
  shows "pmm_ok s'" and "base \<le> base + len"
    and "t \<noteq> MEMMAP_USABLE \<Longrightarrow> cover t (memmap s') =
      (cover t (memmap s) - {base ..< base + len}) \<union> (if t = ty then {base ..< base + len} else {})"
    and "avail s' = (if ty = MEMMAP_USABLE then avail s \<union> {base ..< base + len} - low_page (keep_first_page s)
      else avail s - {base ..< base + len})"
    and "s' = s\<lparr>memmap := memmap s'\<rparr>"
    and "ne \<or> list_ex (range_fits base (base + len) ov) (memmap s)"
proof -
  from assms(1) obtain m where m: "memmap_alloc_range_in (keep_first_page s) (memmap_max_entries s)
      (memmap s) base len ty ov dp False ne = Inr (True, m)" and s': "s' = s\<lparr>memmap := m\<rparr>"
    by (auto simp: memmap_alloc_range_def split: sum.splits)
  note c = alloc_range_covered [OF m assms(2) assms(3) [unfolded pmm_ok_def]]
  show "pmm_ok s'" "base \<le> base + len" using c(1,2) by (simp_all add: pmm_ok_def s')
  show "cover t (memmap s') =
      (cover t (memmap s) - {base ..< base + len}) \<union> (if t = ty then {base ..< base + len} else {})"
    if "t \<noteq> MEMMAP_USABLE" using c(3) [OF that] by (simp add: s')
  show "avail s' = (if ty = MEMMAP_USABLE then avail s \<union> {base ..< base + len} - low_page (keep_first_page s)
      else avail s - {base ..< base + len})" using c(4) by (simp add: s')
  show "s' = s\<lparr>memmap := memmap s'\<rparr>" by (simp add: s')
  from m assms(2) show "ne \<or> list_ex (range_fits base (base + len) ov) (memmap s)"
    by (rule alloc_range_True)
qed

lemma memmap_alloc_range_False:
  "memmap_alloc_range s base len ty ov dp sim ne = Inr (False, s') \<Longrightarrow> s' = s"
  by (auto simp: memmap_alloc_range_def dest: alloc_range_False split: sum.splits)

text \<open>
  What a successful allocation of \<open>{p ..< p + l}\<close> for type \<open>ty\<close> does: the block was
  usable, only it changes hands, and only its first \<open>cnt\<close> bytes are cleared.
\<close>

definition grants :: "pmm_state \<Rightarrow> u32 \<Rightarrow> u64 \<Rightarrow> u64 \<Rightarrow> u64 \<Rightarrow> pmm_state \<Rightarrow> bool" where
  "grants s ty p cnt l s' \<longleftrightarrow>
     p \<le> p + l \<and> 0 < cnt \<and> cnt \<le> l \<and> {p ..< p + l} \<subseteq> avail s \<and> pmm_ok s' \<and>
     avail s' = avail s - {p ..< p + l} \<and>
     (\<forall>t. t \<noteq> MEMMAP_USABLE \<longrightarrow>
        cover t (memmap s') = cover t (memmap s) \<union> (if t = ty then {p ..< p + l} else {})) \<and>
     mem s' = memset0 p cnt (mem s) \<and>
     allocations_disallowed s' = allocations_disallowed s \<and> keep_first_page s' = keep_first_page s"

lemma cover_disjoint_avail:
  assumes "pmm_ok s" and "t \<noteq> MEMMAP_USABLE" and "A \<subseteq> avail s"
  shows "cover t (memmap s) - A = cover t (memmap s)"
proof -
  have "cover t (memmap s) \<subseteq> unusable (memmap s)"
    using assms(2) by (auto simp: cover_def covered_def simp del: in_erange)
  with assms(1,3) wf_map_disjoint [of "keep_first_page s" "memmap s"] show ?thesis
    by (auto simp: pmm_ok_def)
qed

lemma memmap_frame:
  "s' = s\<lparr>memmap := m\<rparr> \<Longrightarrow> mem s' = mem s \<and> allocations_disallowed s' = allocations_disallowed s \<and>
     keep_first_page s' = keep_first_page s \<and> conv_base s' = conv_base s"
  by simp

lemma alloc_then_sanitise:
  assumes "memmap_alloc_range s p l ty MEMMAP_USABLE dp False False = Inr (True, s1)"
    and "sanitise_state (s1\<lparr>mem := memset0 p cnt (mem s1), conv_base := cb\<rparr>) False = Inr s2"
    and ok: "pmm_ok s" and l: "0 < cnt" "cnt \<le> l" and ty: "ty \<noteq> MEMMAP_USABLE"
  shows "grants s ty p cnt l s2"
proof -
  from l have "l \<noteq> 0" by auto
  note c = memmap_alloc_range_ok [OF assms(1) this ok]
  let ?s = "s1\<lparr>mem := memset0 p cnt (mem s1), conv_base := cb\<rparr>"
  have "pmm_ok ?s" using c(1) by (simp add: pmm_ok_def)
  note d = sanitise_state_ok [OF assms(2) this]
  have sub: "{p ..< p + l} \<subseteq> avail s" using c(6) by (auto dest!: range_fits_covered)
  have f: "mem s1 = mem s" "allocations_disallowed s1 = allocations_disallowed s"
    "keep_first_page s1 = keep_first_page s" using memmap_frame [OF c(5)] by blast+
  have cov: "cover t (memmap s2) = cover t (memmap s) \<union> (if t = ty then {p ..< p + l} else {})"
    if "t \<noteq> MEMMAP_USABLE" for t
    using d(3) [OF that] c(3) [OF that] cover_disjoint_avail [OF ok that sub] by simp
  have av: "avail s2 = avail s - {p ..< p + l}" using d(2) c(4) ty by simp
  show ?thesis
    unfolding grants_def using c(2) l sub d(1) av cov d(4,5,7) f by simp
qed

lemma reserve_block_grants:
  assumes "reserve_block s b l ty cnt = Inr (p, s')" and "pmm_ok s" and "0 < cnt" "cnt \<le> l"
    and "ty \<noteq> MEMMAP_USABLE"
  shows "p = b" and "grants s ty b cnt l s'"
proof -
  from assms(1) obtain r s1 where a: "memmap_alloc_range s b l ty MEMMAP_USABLE True False False = Inr (r, s1)"
    and z: "sanitise_state (s1\<lparr>mem := memset0 b cnt (mem s1)\<rparr>) False = Inr s'" and p: "p = b"
    by (auto simp: reserve_block_def split: sum.splits)
  show "p = b" by (rule p)
  have r: r
    using a by (auto simp: memmap_alloc_range_def memmap_alloc_range_in_def Let_def
        split: sum.splits option.splits if_splits)
  have "sanitise_state (s1\<lparr>mem := memset0 b cnt (mem s1), conv_base := conv_base s1\<rparr>) False = Inr s'"
    using z by simp
  moreover from a r have "memmap_alloc_range s b l ty MEMMAP_USABLE True False False = Inr (True, s1)" by simp
  ultimately show "grants s ty b cnt l s'"
    using assms(2-) by (blast intro: alloc_then_sanitise)
qed

text \<open>The size an allocation of \<open>cnt\<close> bytes is rounded to: at least one, a multiple of the alignment.\<close>

lemma rounded_size:
  fixes cnt al :: u64
  assumes "CHECKED_ADD (if cnt = 0 then 1 else cnt) (al - 1) = Some c" and "0 < al"
  shows "cnt \<le> ALIGN_DOWN c al" and "0 < ALIGN_DOWN c al" and "unat al dvd unat (ALIGN_DOWN c al)"
proof -
  let ?n = "if cnt = 0 then 1 else cnt"
  from assms(2) have "unat (al - 1) = unat al - 1" "0 < unat al"
    by (simp_all add: unat_minus_one word_less_nat_alt unat_gt_0)
  then have "unat ?n \<le> unat (ALIGN_DOWN c al)"
    using CHECKED_ADD_unat [OF assms(1)] ALIGN_DOWN_greater [of al c] by linarith
  moreover have "0 < unat ?n" "unat cnt \<le> unat ?n" by (auto simp: unat_gt_0)
  ultimately show "cnt \<le> ALIGN_DOWN c al" "0 < ALIGN_DOWN c al"
    unfolding word_le_nat_alt word_less_nat_alt by simp_all
qed (rule ALIGN_DOWN_dvd)

lemma ext_mem_alloc_mode_grants:
  assumes "ext_mem_alloc_type_aligned_mode s cnt ty al high = Inr (p, s')"
    and ok: "pmm_ok s" and al: "0 < al" and ty: "ty \<noteq> MEMMAP_USABLE"
  obtains c l where "grants s ty p c l s'" and "cnt \<le> c" and "unat al dvd unat c" and "unat al dvd unat p"
    and "\<not> high \<Longrightarrow> p + l \<le> 0x100000000"
    and "\<not> allocations_disallowed s"
    and "c = ALIGN_DOWN ((if cnt = 0 then 1 else cnt) + (al - 1)) al"
proof -
  from assms(1) obtain c0 where c0: "CHECKED_ADD (if cnt = 0 then 1 else cnt) (al - 1) = Some c0"
    by (auto simp: ext_mem_alloc_type_aligned_mode_def split: option.splits)
  let ?c = "ALIGN_DOWN c0 al"
  note c = rounded_size [OF c0 al]
  from assms(1) c0 obtain limit b l where f: "find_candidate limit ?c al (memmap s) = Some (b, l)"
    and "\<not> high \<Longrightarrow> limit = 0x100000000" and r: "reserve_block s b l ty ?c = Inr (p, s')"
    and da: "\<not> allocations_disallowed s"
    by (auto simp: ext_mem_alloc_type_aligned_mode_def Let_def split: option.splits if_splits)
  note d = find_candidate_SomeD [OF f]
  note g = reserve_block_grants [OF r ok c(2) d(3) ty]
  have "c0 = (if cnt = 0 then 1 else cnt) + (al - 1)" using CHECKED_ADD_SomeD [OF c0] by simp
  with that [of ?c l] g c d da \<open>\<not> high \<Longrightarrow> limit = _\<close> show thesis by metis
qed

lemma conv_alloc_loop_grants:
  assumes "conv_alloc_loop s c = Inr (p, s')" and "pmm_ok s" and "0 < c"
  shows "grants s MEMMAP_BOOTLOADER_RECLAIMABLE p c c s' \<and> p + c \<le> 0x100000 \<and> conv_base s' = p + c \<and>
    (\<exists>k. p = conv_base s + of_nat k * 4096)"
  using assms
proof (induction s c rule: conv_alloc_loop.induct)
  case (1 s c)
  note unf = conv_alloc_loop.simps [of s c]
  from "1.prems"(1) obtain b s1 where le: "\<not> conv_base s + c > 0x100000" and
    a: "memmap_alloc_range s (conv_base s) c MEMMAP_BOOTLOADER_RECLAIMABLE MEMMAP_USABLE False False False = Inr (b, s1)"
    by (auto simp: unf split: if_splits sum.splits)
  show ?case
  proof (cases b)
    case True
    let ?s = "s1\<lparr>mem := memset0 (conv_base s) c (mem s1), conv_base := conv_base s + c\<rparr>"
    from "1.prems"(1) le a True have z: "sanitise_state ?s False = Inr s'" and p: "p = conv_base s"
      by (auto simp: unf split: sum.splits)
    from sanitise_state_def [of ?s] z have "conv_base s' = conv_base s + c"
      by (auto split: sum.splits)
    moreover have "\<exists>k. p = conv_base s + of_nat k * 4096" by (rule exI [of _ 0]) (simp add: p)
    moreover have "grants s MEMMAP_BOOTLOADER_RECLAIMABLE p c c s'"
      using a True z "1.prems" p by (auto intro: alloc_then_sanitise)
    ultimately show ?thesis using le by (simp add: p)
  next
    case False
    with a have s1: "s1 = s" by (simp add: memmap_alloc_range_False)
    let ?s = "s\<lparr>conv_base := conv_base s + 4096\<rparr>"
    from "1.prems"(1) le a False s1 have r: "conv_alloc_loop ?s c = Inr (p, s')" by (simp add: unf)
    have "pmm_ok ?s" using "1.prems"(2) by (simp add: pmm_ok_def)
    with "1.IH" [OF le a, of False s1] r s1 False "1.prems"(3)
    have IH: "grants ?s MEMMAP_BOOTLOADER_RECLAIMABLE p c c s'" "p + c \<le> 0x100000" "conv_base s' = p + c"
      "\<exists>k. p = conv_base s + 4096 + of_nat k * 4096" by simp_all
    from IH(4) obtain k where "p = conv_base s + 4096 + of_nat k * 4096" by blast
    then have "p = conv_base s + of_nat (Suc k) * 4096" by (simp add: algebra_simps)
    then have "\<exists>k. p = conv_base s + of_nat k * 4096" by blast
    moreover have "grants s MEMMAP_BOOTLOADER_RECLAIMABLE p c c s'" using IH(1) by (simp add: grants_def)
    ultimately show ?thesis using IH(2,3) by blast
  qed
qed

lemma page_rounding:
  fixes cnt :: u64
  assumes "ALIGN_UP (if cnt = 0 then 1 else cnt) 4096 = Some c"
  shows "0 < c" and "cnt \<le> c" and "4096 dvd unat c"
proof -
  note p = ALIGN_UP_props [OF assms]
  have "0 < (if cnt = 0 then 1 else cnt)" "cnt \<le> (if cnt = 0 then 1 else cnt)"
    by (auto simp: word_gt_0)
  with p(1) show "0 < c" "cnt \<le> c" by (auto split: if_splits)
  from p(2) show "4096 dvd unat c" by simp
qed

lemma conv_mem_alloc_grants:
  assumes "conv_mem_alloc s cnt = Inr (p, s')" and "pmm_ok s"
  obtains c where "grants s MEMMAP_BOOTLOADER_RECLAIMABLE p c c s'" and "cnt \<le> c" and "p + c \<le> 0x100000"
    and "4096 dvd unat c" and "\<not> allocations_disallowed s"
proof -
  from assms(1) obtain c where c: "ALIGN_UP (if cnt = 0 then 1 else cnt) 4096 = Some c"
    and l: "conv_alloc_loop s c = Inr (p, s')" and "\<not> allocations_disallowed s"
    by (auto simp: conv_mem_alloc_def split: option.splits if_splits)
  with that page_rounding [OF c] conv_alloc_loop_grants [OF l assms(2)] show thesis by blast
qed

lemma pmm_free_ok:
  assumes "pmm_free s p cnt = Inr s'" and "pmm_ok s" and "p \<noteq> 0"
  obtains c where "ALIGN_UP (if cnt = 0 then 1 else cnt) 4096 = Some c"
    and "pmm_ok s'" and "mem s' = mem s"
    and "p \<le> p + c \<Longrightarrow> avail s' = avail s \<union> {p ..< p + c} - low_page (keep_first_page s)"
    and "p \<le> p + c \<Longrightarrow> \<forall>t. t \<noteq> MEMMAP_USABLE \<longrightarrow> cover t (memmap s') = cover t (memmap s) - {p ..< p + c}"
    and "\<not> p \<le> p + c \<Longrightarrow> s' = s"
    and "keep_first_page s' = keep_first_page s" and "\<not> allocations_disallowed s'"
proof -
  from assms obtain c b where c: "ALIGN_UP (if cnt = 0 then 1 else cnt) 4096 = Some c"
    and a: "memmap_alloc_range s p c MEMMAP_USABLE 0 False False True = Inr (b, s')"
    and da: "\<not> allocations_disallowed s"
    by (auto simp: pmm_free_def split: option.splits if_splits sum.splits)
  from page_rounding [OF c] have cn: "c \<noteq> 0" by auto
  show thesis
  proof (cases b)
    case True
    with a have a': "memmap_alloc_range s p c MEMMAP_USABLE 0 False False True = Inr (True, s')" by simp
    note k = memmap_alloc_range_ok [OF a' cn assms(2)]
    note f = memmap_frame [OF k(5)]
    have "\<forall>t. t \<noteq> MEMMAP_USABLE \<longrightarrow> cover t (memmap s') = cover t (memmap s) - {p ..< p + c}"
      using k(3) by simp
    with that [OF c] k(1,2,4) f da show thesis by simp
  next
    case False
    with a have "s' = s" by (simp add: memmap_alloc_range_False)
    moreover from a False cn have "\<not> p \<le> p + c"
      by (auto simp: memmap_alloc_range_def memmap_alloc_range_in_def Let_def CHECKED_ADD_eq
          split: sum.splits if_splits)
    ultimately show thesis using that [OF c] assms(2) da by simp
  qed
qed

section \<open>The contract of an allocator\<close>

text \<open>A run of requests, each answered by the allocator or ending in its panic.\<close>

fun alloc_many :: "('s \<Rightarrow> 'r \<Rightarrow> (u64 \<times> 's) outcome) \<Rightarrow> 's \<Rightarrow> 'r list \<Rightarrow> (u64 list \<times> 's) outcome" where
  "alloc_many f s [] = Inr ([], s)"
| "alloc_many f s (r # rs) =
     (case f s r of
        Inl e \<Rightarrow> Inl e
      | Inr (p, s1) \<Rightarrow> (case alloc_many f s1 rs of Inl e \<Rightarrow> Inl e | Inr (ps, s2) \<Rightarrow> Inr (p # ps, s2)))"

locale allocator =
  fixes alloc :: "'s \<Rightarrow> 'r \<Rightarrow> (u64 \<times> 's) outcome"
    and size_of :: "'r \<Rightarrow> u64"
    and request_ok :: "'r \<Rightarrow> bool"
    and invar :: "'s \<Rightarrow> bool"
    and free_mem :: "'s \<Rightarrow> u64 set"
  assumes alloc_keeps: "\<lbrakk>alloc s r = Inr (p, s'); invar s; request_ok r\<rbrakk> \<Longrightarrow> invar s'"
    and alloc_fresh: "\<lbrakk>alloc s r = Inr (p, s'); invar s; request_ok r\<rbrakk> \<Longrightarrow> {p ..< p + size_of r} \<subseteq> free_mem s"
    and alloc_taken: "\<lbrakk>alloc s r = Inr (p, s'); invar s; request_ok r\<rbrakk>
          \<Longrightarrow> free_mem s' \<subseteq> free_mem s - {p ..< p + size_of r}"
begin

lemma alloc_many_fresh:
  assumes "alloc_many alloc s rs = Inr (ps, s')" and "invar s" and "\<forall>r \<in> set rs. request_ok r"
  shows "length ps = length rs \<and> invar s' \<and> free_mem s' \<subseteq> free_mem s \<and>
    (\<forall>i < length rs. {ps ! i ..< ps ! i + size_of (rs ! i)} \<subseteq> free_mem s - free_mem s')"
  using assms
proof (induction rs arbitrary: s ps)
  case (Cons r rs)
  from Cons.prems(1) obtain p s1 qs where a: "alloc s r = Inr (p, s1)"
    and m: "alloc_many alloc s1 rs = Inr (qs, s')" and ps: "ps = p # qs"
    by (auto split: sum.splits)
  have r: "request_ok r" using Cons.prems(3) by simp
  note law = alloc_keeps [OF a Cons.prems(2) r] alloc_fresh [OF a Cons.prems(2) r]
    alloc_taken [OF a Cons.prems(2) r]
  from Cons.IH [OF m law(1)] Cons.prems(3) have IH: "length qs = length rs" "invar s'" "free_mem s' \<subseteq> free_mem s1"
    "\<forall>i < length rs. {qs ! i ..< qs ! i + size_of (rs ! i)} \<subseteq> free_mem s1 - free_mem s'" by simp_all
  have "{ps ! i ..< ps ! i + size_of ((r # rs) ! i)} \<subseteq> free_mem s - free_mem s'" if "i < length (r # rs)" for i
  proof (cases i)
    case 0
    with law(2,3) IH(3) show ?thesis by (auto simp: ps)
  next
    case (Suc j)
    with IH(4) that law(3) show ?thesis by (fastforce simp: ps)
  qed
  with IH(1-3) law(3) show ?case by (auto simp: ps)
qed simp

lemma alloc_many_disjoint:
  assumes "alloc_many alloc s rs = Inr (ps, s')" and "invar s" and "\<forall>r \<in> set rs. request_ok r"
    and "i < j" and "j < length rs"
  shows "{ps ! i ..< ps ! i + size_of (rs ! i)} \<inter> {ps ! j ..< ps ! j + size_of (rs ! j)} = {}"
  using assms
proof (induction rs arbitrary: s ps i j)
  case (Cons r rs)
  from Cons.prems(1) obtain p s1 qs where a: "alloc s r = Inr (p, s1)"
    and m: "alloc_many alloc s1 rs = Inr (qs, s')" and ps: "ps = p # qs"
    by (auto split: sum.splits)
  have r: "request_ok r" using Cons.prems(3) by simp
  note law = alloc_keeps [OF a Cons.prems(2) r] alloc_taken [OF a Cons.prems(2) r]
  from Cons.prems(4) obtain j' where j': "j = Suc j'" by (cases j) auto
  have fr: "{qs ! j' ..< qs ! j' + size_of (rs ! j')} \<subseteq> free_mem s1"
    using alloc_many_fresh [OF m law(1)] Cons.prems(3,5) j' by auto
  show ?case
  proof (cases i)
    case 0
    have "{p ..< p + size_of r} \<inter> {qs ! j' ..< qs ! j' + size_of (rs ! j')} = {}"
      using fr law(2) by blast
    with 0 show ?thesis by (simp add: ps j')
  next
    case (Suc i')
    with Cons.IH [OF m law(1), of i' j'] Cons.prems j' show ?thesis by (simp add: ps)
  qed
qed simp

end

record ext_request =
  req_count :: u64
  req_type :: u32
  req_alignment :: u64
  req_high :: bool

definition ext_alloc_request :: "pmm_state \<Rightarrow> ext_request \<Rightarrow> (u64 \<times> pmm_state) outcome" where
  "ext_alloc_request s r =
     ext_mem_alloc_type_aligned_mode s (req_count r) (req_type r) (req_alignment r) (req_high r)"

definition ext_request_ok :: "ext_request \<Rightarrow> bool" where
  "ext_request_ok r \<longleftrightarrow> 0 < req_alignment r \<and> req_type r \<noteq> MEMMAP_USABLE"

lemma block_prefix:
  fixes p c l :: u64
  assumes "p \<le> p + l" and "c \<le> l"
  shows "{p ..< p + c} \<subseteq> {p ..< p + l}"
proof -
  have "p + c \<le> p + l" using assms by (simp add: word_plus_mono_right)
  then show ?thesis by auto
qed

lemma grants_prefix:
  assumes "grants s ty p c l s'" and "cnt \<le> c"
  shows "{p ..< p + cnt} \<subseteq> avail s" and "avail s' \<subseteq> avail s - {p ..< p + cnt}"
proof -
  from assms(1) have "p \<le> p + l" "c \<le> l" unfolding grants_def by blast+
  with assms(2) have "{p ..< p + cnt} \<subseteq> {p ..< p + l}" by (intro block_prefix) simp_all
  moreover from assms(1) have "{p ..< p + l} \<subseteq> avail s" "avail s' = avail s - {p ..< p + l}"
    by (simp_all only: grants_def)
  ultimately show "{p ..< p + cnt} \<subseteq> avail s" and "avail s' \<subseteq> avail s - {p ..< p + cnt}" by blast+
qed

interpretation ext_pmm: allocator ext_alloc_request req_count ext_request_ok pmm_ok "\<lambda>s. usable (memmap s)"
proof
  fix s :: pmm_state and r p s'
  assume a: "ext_alloc_request s r = Inr (p, s')" "pmm_ok s" "ext_request_ok r"
  from a(3) have r: "0 < req_alignment r" "req_type r \<noteq> MEMMAP_USABLE" by (simp_all add: ext_request_ok_def)
  from a(1) [unfolded ext_alloc_request_def] a(2) r
  obtain c l where g: "grants s (req_type r) p c l s'" "req_count r \<le> c"
    by (rule ext_mem_alloc_mode_grants)
  show "pmm_ok s'" using g(1) by (simp add: grants_def)
  show "{p ..< p + req_count r} \<subseteq> avail s" "avail s' \<subseteq> avail s - {p ..< p + req_count r}"
    by (rule grants_prefix [OF g])+
qed

interpretation conv_pmm: allocator conv_mem_alloc "\<lambda>c. c" "\<lambda>_. True" pmm_ok "\<lambda>s. usable (memmap s)"
proof
  fix s :: pmm_state and r p s'
  assume a: "conv_mem_alloc s r = Inr (p, s')" "pmm_ok s"
  then obtain c where g: "grants s MEMMAP_BOOTLOADER_RECLAIMABLE p c c s'" "r \<le> c"
    by (rule conv_mem_alloc_grants)
  show "pmm_ok s'" using g(1) by (simp add: grants_def)
  show "{p ..< p + r} \<subseteq> avail s" "avail s' \<subseteq> avail s - {p ..< p + r}"
    by (rule grants_prefix [OF g])+
qed

section \<open>Memory contents\<close>

lemma offset_in_block:
  fixes a p l :: u64
  assumes "p \<le> p + l"
  shows "a - p < l \<longleftrightarrow> a \<in> {p ..< p + l}"
proof -
  have lt: "unat p + unat l < 2 ^ 64" using assms no_olen_add_nat [of p l] by simp
  then have "unat (p + l) = unat p + unat l" by (simp add: unat_word_ariths)
  moreover have "unat a < 2 ^ 64" using unsigned_less [of a] by simp
  ultimately show ?thesis using lt
    by (auto simp: word_less_nat_alt word_le_nat_alt unat_sub_if_size word_size)
qed

text \<open>
  \<open>pmm_realloc\<close> carries the old contents over: the new block never overlaps the old one,
  so neither clearing nor freeing disturbs the copied bytes.
\<close>

lemma realloc_copies:
  assumes ret: "pmm_realloc s old osz nsz = Inr (p, s')" and ok: "pmm_ok s" and "old \<noteq> 0"
    and live: "{old ..< old + osz} \<inter> avail s = {}" and "old \<le> old + osz"
    and i: "i < min nsz osz"
  shows "mem s' (p + i) = mem s (old + i)"
proof -
  from ret \<open>old \<noteq> 0\<close> obtain s1 where a: "ext_mem_alloc s nsz = Inr (p, s1)"
    and fr: "pmm_free (s1\<lparr>mem := memcpy p old (min nsz osz) (mem s1)\<rparr>) old osz = Inr s'"
    by (auto simp: pmm_realloc_def split: sum.splits)
  from a have "ext_mem_alloc_type_aligned_mode s nsz MEMMAP_BOOTLOADER_RECLAIMABLE 4096 False = Inr (p, s1)"
    by (simp add: ext_mem_alloc_def ext_mem_alloc_type_def ext_mem_alloc_type_aligned_def)
  from this ok obtain c l where g: "grants s MEMMAP_BOOTLOADER_RECLAIMABLE p c l s1"
    by (rule ext_mem_alloc_mode_grants) auto
  then have pl: "p \<le> p + l" "c \<le> l" and sub: "{p ..< p + l} \<subseteq> avail s"
    and m1: "mem s1 = memset0 p c (mem s)" and ok1: "pmm_ok s1" by (simp_all only: grants_def)
  have "mem s' = memcpy p old (min nsz osz) (mem s1)"
    by (rule pmm_free_ok [OF fr]) (use ok1 \<open>old \<noteq> 0\<close> in \<open>simp_all add: pmm_ok_def\<close>)
  then have "mem s' (p + i) = mem s1 (old + i)" using i by (simp add: memcpy_def)
  also have "\<dots> = mem s (old + i)"
  proof -
    have "old + i \<in> {old ..< old + osz}"
      using i offset_in_block [OF \<open>old \<le> old + osz\<close>, of "old + i"] by simp
    with live sub have "\<not> old + i - p < l" using offset_in_block [OF pl(1)] by blast
    with pl(2) have "\<not> old + i - p < c" by order
    then show ?thesis by (simp add: m1 memset0_def)
  qed
  finally show ?thesis .
qed

end
