(* ===== verification/Memory_Queries.thy ===== *)
theory Memory_Queries
  imports Allocator
begin

text \<open>
  The read-only queries on a memory map: \<open>pmm_check_type\<close> and \<open>mmap_get_info\<close> of
  \<^verbatim>\<open>src/common/mm/pmm.s2.c\<close>, \<open>check_usable_memory\<close> of \<^verbatim>\<open>src/common/mm/pmm.c\<close>.
\<close>

section \<open>The type of an address\<close>

definition entry_has :: "u64 \<Rightarrow> memmap_entry \<Rightarrow> bool" where
  "entry_has addr e \<longleftrightarrow>
     (case CHECKED_ADD (mbase e) (mlength e) of
        None \<Rightarrow> False
      | Some entry_top \<Rightarrow> addr \<ge> mbase e \<and> addr < entry_top)"

fun check_type_in :: "memmap \<Rightarrow> u64 \<Rightarrow> u64" where
  "check_type_in [] addr = -1"
| "check_type_in (e # m) addr = (if entry_has addr e then ucast (mtype e) else check_type_in m addr)"

definition pmm_check_type :: "pmm_state \<Rightarrow> u64 \<Rightarrow> u64" where
  "pmm_check_type s addr = check_type_in (memmap s) addr"

lemma entry_has_iff: "entry_has a e \<longleftrightarrow> a \<in> erange e"
  by (auto simp: entry_has_def checked_top)

lemma ucast_not_minus_1: "ucast (t :: u32) \<noteq> (-1 :: u64)"
proof
  assume eq: "ucast t = (-1 :: u64)"
  have "\<not> bit t 40" using bit_imp_le_length [of t 40] by auto
  moreover have "bit (ucast t :: u64) 40" unfolding eq by simp
  ultimately show False by (simp add: bit_ucast_iff)
qed

lemma check_type_in_minus_1: "check_type_in m a = -1 \<longleftrightarrow> a \<notin> all_covered m"
  by (induction m) (auto simp: entry_has_iff ucast_not_minus_1 simp del: in_erange)

lemma check_type_in_cover:
  "check_type_in m a = ucast t \<Longrightarrow> a \<in> cover t m"
proof (induction m)
  case (Cons e m)
  have inj: "ucast t1 = (ucast t2 :: u64) \<Longrightarrow> t1 = t2" for t1 t2 :: u32
    using ucast_up_inj [where 'a = 32 and 'b = 64] by simp
  show ?case
  proof (cases "entry_has a e")
    case True
    with Cons.prems inj have "mtype e = t" by simp
    with True show ?thesis by (simp add: cover_def entry_has_iff del: in_erange)
  next
    case False
    with Cons show ?thesis by (simp add: cover_def)
  qed
qed (use ucast_not_minus_1 [of t] in simp)

section \<open>Contiguous memory from 0 and from 1 MiB\<close>

record meminfo =
  lowermem :: u64
  uppermem :: u64

text \<open>One turn of the inner loop, on both frontiers and the progress flag.\<close>

definition extend_step :: "memmap_entry \<Rightarrow> u64 \<times> u64 \<times> bool \<Rightarrow> u64 \<times> u64 \<times> bool" where
  "extend_step e = (\<lambda>(lower_end, upper_end, progress).
     if mtype e \<noteq> MEMMAP_USABLE then (lower_end, upper_end, progress)
     else case CHECKED_ADD (mbase e) (mlength e) of
       None \<Rightarrow> (lower_end, upper_end, progress)
     | Some t \<Rightarrow>
         (let ext_l = (mbase e \<le> lower_end \<and> t > lower_end);
              ext_u = (mbase e \<le> upper_end \<and> t > upper_end)
          in (if ext_l then t else lower_end, if ext_u then t else upper_end,
              progress \<or> ext_l \<or> ext_u)))"

definition extend_pass :: "memmap \<Rightarrow> u64 \<Rightarrow> u64 \<Rightarrow> u64 \<times> u64 \<times> bool" where
  "extend_pass m lower_end upper_end = fold extend_step m (lower_end, upper_end, False)"

lemma fold_extend_mono:
  "fold extend_step m (l, u, p) = (l', u', p') \<Longrightarrow>
     l \<le> l' \<and> u \<le> u' \<and> (p \<longrightarrow> p') \<and> (p' \<longrightarrow> p \<or> l < l' \<or> u < u') \<and> (\<not> p' \<longrightarrow> l' = l \<and> u' = u)"
proof (induction m arbitrary: l u p)
  case (Cons e m)
  obtain l1 u1 p1 where e: "extend_step e (l, u, p) = (l1, u1, p1)" by (cases "extend_step e (l, u, p)")
  then have "l \<le> l1" "u \<le> u1" "p \<longrightarrow> p1" "p1 \<longrightarrow> p \<or> l < l1 \<or> u < u1" "\<not> p1 \<longrightarrow> l1 = l \<and> u1 = u"
    by (auto simp: extend_step_def Let_def split: if_splits option.splits)
  moreover from Cons.IH [of l1 u1 p1] Cons.prems e have "l1 \<le> l' \<and> u1 \<le> u' \<and> (p1 \<longrightarrow> p') \<and> (p' \<longrightarrow> p1 \<or> l1 < l' \<or> u1 < u') \<and>
      (\<not> p' \<longrightarrow> l' = l1 \<and> u' = u1)" by simp
  ultimately show ?case by auto
qed auto

function extend_loop :: "memmap \<Rightarrow> u64 \<Rightarrow> u64 \<Rightarrow> u64 \<times> u64" where
  "extend_loop m lower_end upper_end =
     (case extend_pass m lower_end upper_end of
        (l, u, progress) \<Rightarrow> if progress then extend_loop m l u else (l, u))"
  by pat_completeness auto
termination
proof (relation "measure (\<lambda>(m, l, u). (2 ^ 64 - unat l) + (2 ^ 64 - unat u))", goal_cases)
  case (2 m l u l' y u' p)
  then have "fold extend_step m (l, u, False) = (l', u', True)" by (simp add: extend_pass_def)
  from fold_extend_mono [OF this] have "unat l \<le> unat l'" "unat u \<le> unat u'"
    "unat l < unat l' \<or> unat u < unat u'"
    by (auto simp: word_le_nat_alt word_less_nat_alt)
  moreover have "unat l' < 2 ^ 64" "unat u' < 2 ^ 64"
    using unsigned_less [of l'] unsigned_less [of u'] by simp_all
  ultimately show ?case by auto
qed simp

declare extend_loop.simps [simp del]

definition mmap_get_info :: "memmap \<Rightarrow> meminfo" where
  "mmap_get_info m =
     (case extend_loop m 0 0x100000 of
        (l, u) \<Rightarrow> \<lparr>lowermem = (if l > 0x100000 then 0x100000 else l), uppermem = u - 0x100000\<rparr>)"

text \<open>
  What the frontiers stay: everything between the start and the frontier is usable. When a
  pass makes no progress no usable entry holds the frontier itself.
\<close>

definition frontier_ok :: "memmap \<Rightarrow> u64 \<Rightarrow> u64 \<Rightarrow> bool" where
  "frontier_ok m start f \<longleftrightarrow> start \<le> f \<and> {start ..< f} \<subseteq> usable m"

lemma frontier_extend:
  assumes "frontier_ok m start f" and "e \<in> set m" and "mtype e = MEMMAP_USABLE" and "mbase e \<le> f" and "f < mtop e"
  shows "frontier_ok m start (mtop e)"
proof -
  have "erange e \<subseteq> usable m"
    using assms(2,3) by (auto simp: cover_def covered_def simp del: in_erange)
  moreover have "{start ..< mtop e} \<subseteq> {start ..< f} \<union> erange e"
    using assms(4,5) by (auto simp: erange_def)
  moreover have "start \<le> mtop e" using assms(1,5) by (auto simp: frontier_ok_def)
  ultimately show ?thesis using assms(1) unfolding frontier_ok_def by blast
qed

lemma fold_extend_ok:
  assumes "set es \<subseteq> set m" and "frontier_ok m a l" and "frontier_ok m b u"
    and "fold extend_step es (l, u, p) = (l', u', p')"
  shows "frontier_ok m a l' \<and> frontier_ok m b u'"
  using assms
proof (induction es arbitrary: l u p)
  case (Cons e es)
  obtain l1 u1 p1 where e: "extend_step e (l, u, p) = (l1, u1, p1)" by (cases "extend_step e (l, u, p)")
  have "l1 = l \<or> mtype e = MEMMAP_USABLE \<and> mbase e \<le> l \<and> l < mtop e \<and> l1 = mtop e"
    "u1 = u \<or> mtype e = MEMMAP_USABLE \<and> mbase e \<le> u \<and> u < mtop e \<and> u1 = mtop e"
    using e by (auto simp: extend_step_def checked_top Let_def split: if_splits)
  with Cons.prems frontier_extend have "frontier_ok m a l1" "frontier_ok m b u1" by auto
  with Cons.IH [OF _ this] Cons.prems(1,4) e show ?case by simp
qed simp

lemma fold_extend_done:
  assumes "fold extend_step es (l, u, False) = (l', u', False)"
  shows "l \<notin> usable es \<and> u \<notin> usable es"
  using assms
proof (induction es)
  case (Cons e es)
  obtain l1 u1 p1 where e: "extend_step e (l, u, False) = (l1, u1, p1)"
    by (cases "extend_step e (l, u, False)")
  with Cons.prems have f: "fold extend_step es (l1, u1, p1) = (l', u', False)" by simp
  with fold_extend_mono [OF f] have "\<not> p1" by simp
  with e have "l1 = l" "u1 = u" and no: "mtype e = MEMMAP_USABLE \<Longrightarrow> l \<notin> erange e \<and> u \<notin> erange e"
    by (auto simp: extend_step_def checked_top Let_def not_less split: if_splits)
  with Cons.IH f \<open>\<not> p1\<close> show ?case by (auto simp: cover_def simp del: in_erange)
qed (simp add: cover_def)

lemma extend_loop_frontier:
  assumes "extend_loop m l u = (l', u')" and "frontier_ok m a l" and "frontier_ok m b u"
  shows "frontier_ok m a l' \<and> frontier_ok m b u' \<and> l' \<notin> usable m \<and> u' \<notin> usable m"
  using assms
proof (induction m l u rule: extend_loop.induct)
  case (1 m l u)
  obtain l1 u1 p1 where p: "fold extend_step m (l, u, False) = (l1, u1, p1)"
    by (cases "fold extend_step m (l, u, False)")
  from fold_extend_ok [OF _ "1.prems"(2,3) p] have ok: "frontier_ok m a l1" "frontier_ok m b u1" by simp_all
  show ?case
  proof (cases p1)
    case True
    with "1.prems"(1) p have "extend_loop m l1 u1 = (l', u')"
      by (simp add: extend_loop.simps [of m l u] extend_pass_def)
    with "1.IH" [of l1 "(u1, p1)" u1 p1] p ok True show ?thesis by (simp add: extend_pass_def)
  next
    case False
    with "1.prems"(1) p have "l' = l1" "u' = u1"
      by (simp_all add: extend_loop.simps [of m l u] extend_pass_def)
    moreover from fold_extend_mono [OF p] False have "l1 = l" "u1 = u" by simp_all
    moreover from p False have "fold extend_step m (l, u, False) = (l1, u1, False)" by simp
    then have "l \<notin> usable m \<and> u \<notin> usable m" by (rule fold_extend_done)
    ultimately show ?thesis using ok by simp
  qed
qed

section \<open>Is a range backed by RAM? (\<open>pmm.c\<close>)\<close>

definition full_overlap_check :: "u64 \<Rightarrow> u64 \<Rightarrow> u64 \<Rightarrow> u64 \<Rightarrow> bool" where
  "full_overlap_check base1 top1 base2 top2 \<longleftrightarrow>
     (base1 \<ge> base2 \<and> base1 < top2) \<and> (top1 > base2 \<and> top1 \<le> top2)"

text \<open>The types that count as RAM; the UEFI build adds one.\<close>

definition ram_type :: "bool \<Rightarrow> u32 \<Rightarrow> bool" where
  "ram_type uefi t \<longleftrightarrow> t = MEMMAP_USABLE \<or> uefi \<and> t = MEMMAP_EFI_RECLAIMABLE \<or>
     t = MEMMAP_BOOTLOADER_RECLAIMABLE \<or> t = MEMMAP_KERNEL_AND_MODULES"

fun check_usable_loop :: "bool \<Rightarrow> memmap \<Rightarrow> u64 \<Rightarrow> u64 \<Rightarrow> u64 \<Rightarrow> bool" where
  "check_usable_loop uefi [] base rtop overlap_remaining = False"
| "check_usable_loop uefi (e # m) base rtop overlap_remaining =
     (if \<not> ram_type uefi (mtype e) then check_usable_loop uefi m base rtop overlap_remaining
      else case CHECKED_ADD (mbase e) (mlength e) of
        None \<Rightarrow> check_usable_loop uefi m base rtop overlap_remaining
      | Some memmap_top \<Rightarrow>
          if full_overlap_check base rtop (mbase e) memmap_top then True
          else if mbase e < rtop \<and> memmap_top > base then
            (let overlap_bottom = (if mbase e > base then mbase e else base);
                 overlap_top = (if memmap_top < rtop then memmap_top else rtop);
                 overlap_size = overlap_top - overlap_bottom;
                 remaining = overlap_remaining - overlap_size
             in if remaining = 0 then True else check_usable_loop uefi m base rtop remaining)
          else check_usable_loop uefi m base rtop overlap_remaining)"

definition check_usable_memory :: "bool \<Rightarrow> pmm_state \<Rightarrow> u64 \<Rightarrow> u64 \<Rightarrow> bool" where
  "check_usable_memory uefi s base rtop = check_usable_loop uefi (memmap s) base rtop (rtop - base)"

lemma card_word_ivl: "card {a ..< b :: u64} = unat b - unat a"
proof -
  have "unat ` {a ..< b} = {unat a ..< unat b}"
  proof (intro equalityI subsetI)
    fix n assume n: "n \<in> {unat a ..< unat b}"
    moreover have "unat b < 2 ^ 64" using unsigned_less [of b] by simp
    ultimately have "unat (of_nat n :: u64) = n" by (simp add: unat_of_nat)
    with n have "of_nat n \<in> {a ..< b}" by (simp add: word_le_nat_alt word_less_nat_alt)
    then show "n \<in> unat ` {a ..< b}" using \<open>unat (of_nat n :: u64) = n\<close> by force
  qed (auto simp: word_le_nat_alt word_less_nat_alt)
  moreover have "inj_on unat {a ..< b}" by (auto simp: inj_on_def word_unat_eq_iff)
  ultimately show ?thesis by (metis card_image card_atLeastLessThan)
qed

lemma overlap_card:
  fixes base rtop b t :: u64
  assumes "b < rtop" and "base < t" and "base \<le> rtop" and "b \<le> t"
  shows "unat ((if t < rtop then t else rtop) - (if b > base then b else base)) =
    card ({base ..< rtop} \<inter> {b ..< t})"
proof -
  let ?x = "if b > base then b else base" and ?y = "if t < rtop then t else rtop"
  have "{base ..< rtop} \<inter> {b ..< t} = {?x ..< ?y}" by auto
  moreover have "?x \<le> ?y" using assms by auto
  ultimately show ?thesis by (simp only: card_word_ivl unat_sub)
qed

definition ram_disjoint :: "bool \<Rightarrow> memmap \<Rightarrow> bool" where
  "ram_disjoint uefi m \<longleftrightarrow>
     sorted_wrt (\<lambda>e e'. ram_type uefi (mtype e) \<and> ram_type uefi (mtype e') \<longrightarrow> erange e \<inter> erange e' = {}) m"

lemma check_usable_loop_correct:
  assumes "base < rtop" and "ram_disjoint uefi m"
    and "\<forall>e \<in> set m. ram_type uefi (mtype e) \<longrightarrow> erange e \<inter> S = {}"
    and "unat r = card ({base ..< rtop} - S)" and "{base ..< rtop} - S \<noteq> {}"
  shows "check_usable_loop uefi m base rtop r \<longleftrightarrow> {base ..< rtop} - S \<subseteq> covered (ram_type uefi) m"
  using assms(2-)
proof (induction m arbitrary: S r)
  case (Cons e m)
  let ?D = "{base ..< rtop}" and ?ram = "ram_type uefi"
  have tl: "ram_disjoint uefi m" "\<forall>e \<in> set m. ?ram (mtype e) \<longrightarrow> erange e \<inter> S = {}"
    and sep: "\<forall>e' \<in> set m. ?ram (mtype e) \<and> ?ram (mtype e') \<longrightarrow> erange e \<inter> erange e' = {}"
    using Cons.prems(1,2) by (simp_all add: ram_disjoint_def)
  note IH = Cons.IH [OF tl Cons.prems(3,4)]
  show ?case
  proof (cases "?ram (mtype e) \<and> mbase e \<le> mtop e")
    case False
    then have "(if ?ram (mtype e) then erange e else {}) = {}" by (auto simp: erange_def)
    with False IH show ?thesis by (auto simp: checked_top simp del: in_erange)
  next
    case ram: True
    show ?thesis
    proof (cases "full_overlap_check base rtop (mbase e) (mtop e)")
      case True
      then have "?D \<subseteq> erange e" by (auto simp: full_overlap_check_def)
      with ram True show ?thesis by auto
    next
      case nofull: False
      show ?thesis
      proof (cases "mbase e < rtop \<and> mtop e > base")
        case False
        then have "?D \<inter> erange e = {}" by (auto simp: erange_def)
        with ram nofull False IH show ?thesis by (auto simp: checked_top simp del: in_erange)
      next
        case True
        define ov where "ov = (if mtop e < rtop then mtop e else rtop) - (if mbase e > base then mbase e else base)"
        let ?S = "S \<union> erange e"
        have ov: "unat ov = card (?D \<inter> erange e)"
          unfolding ov_def erange_def using True ram assms(1) by (intro overlap_card) simp_all
        have "erange e \<inter> S = {}" using Cons.prems(2) ram by simp
        then have split: "?D - S = (?D \<inter> erange e) \<union> (?D - ?S)" "(?D \<inter> erange e) \<inter> (?D - ?S) = {}" by blast+
        have fin: "finite ?D" by simp
        have "unat r = unat ov + card (?D - ?S)"
          unfolding Cons.prems(3) ov by (subst split(1)) (intro card_Un_disjoint, use fin split(2) in auto)
        then have r': "unat (r - ov) = card (?D - ?S)" "ov \<le> r" by (simp_all add: unat_sub word_le_nat_alt)
        have step: "check_usable_loop uefi (e # m) base rtop r =
            (if r - ov = 0 then True else check_usable_loop uefi m base rtop (r - ov))"
          unfolding ov_def using ram nofull True by (simp add: Let_def split del: if_split)
        have sub: "?D - S \<subseteq> covered ?ram (e # m) \<longleftrightarrow> ?D - ?S \<subseteq> covered ?ram m"
          using ram split by auto
        show ?thesis
        proof (cases "r - ov = 0")
          case True
          then have none: "?D - ?S = {}" using r'(1) fin by simp
          show ?thesis unfolding step sub none using True by simp
        next
          case False
          then have "?D - ?S \<noteq> {}" using r'(1) by (metis card.empty unat_eq_zero)
          moreover have "\<forall>e' \<in> set m. ?ram (mtype e') \<longrightarrow> erange e' \<inter> ?S = {}" using tl(2) sep ram by blast
          ultimately have "check_usable_loop uefi m base rtop (r - ov) \<longleftrightarrow> ?D - ?S \<subseteq> covered ?ram m"
            using Cons.IH [OF tl(1) _ r'(1)] by blast
          with False show ?thesis unfolding step sub by simp
        qed
      qed
    qed
  qed
qed simp

end
