(* ===== verification/Pmm_Init.thy ===== *)
theory Pmm_Init
  imports Allocator
begin

text \<open>
  Building and handing over the memory map, BIOS build of \<^verbatim>\<open>src/common/mm/pmm.s2.c\<close>:
  \<open>init_memmap\<close> from the firmware's E820 list and \<open>get_memmap\<close>, which page-aligns the
  usable entries for the booted kernel. The E820 list, the EBDA address and \<open>bss_end\<close> are
  arguments.
\<close>

section \<open>\<open>init_memmap\<close>\<close>

text \<open>What becomes of one E820 entry; \<^const>\<open>None\<close> when it is not kept.\<close>

definition e820_keep :: "u64 \<Rightarrow> memmap_entry \<Rightarrow> memmap_entry option" where
  "e820_keep EBDA e =
     (case CHECKED_ADD (mbase e) (mlength e) of
        None \<Rightarrow> None
      | Some e_top \<Rightarrow>
          if mtype e = MEMMAP_USABLE then
            (let hole = (mbase e \<ge> EBDA \<and> mbase e < 0x100000)
             in if hole \<and> e_top \<le> 0x100000 then None
                else
                  (let e1 = (if hole then e\<lparr>mlength := mlength e - (0x100000 - mbase e), mbase := 0x100000\<rparr>
                             else e)
                   in Some (if e_top > EBDA \<and> e_top \<le> 0x100000
                            then e1\<lparr>mlength := mlength e1 - (e_top - EBDA)\<rparr> else e1)))
          else Some e)"

fun init_entries :: "nat \<Rightarrow> u64 \<Rightarrow> memmap \<Rightarrow> memmap \<Rightarrow> memmap outcome" where
  "init_entries limit EBDA m [] = Inr m"
| "init_entries limit EBDA m (e # es) =
     (if length m = limit then Inl ''Memory map exhausted.''
      else init_entries limit EBDA (case e820_keep EBDA e of None \<Rightarrow> m | Some e' \<Rightarrow> m @ [e']) es)"

definition init_memmap :: "pmm_state \<Rightarrow> memmap \<Rightarrow> u64 \<Rightarrow> u64 \<Rightarrow> pmm_state outcome" where
  "init_memmap s e820_map EBDA bss_end =
     (case init_entries (memmap_max_entries s) EBDA (memmap s) e820_map of
        Inl e \<Rightarrow> Inl e
      | Inr m \<Rightarrow>
          (case sanitise_state (s\<lparr>memmap := m\<rparr>) False of
             Inl e \<Rightarrow> Inl e
           | Inr s1 \<Rightarrow>
               (case ALIGN_UP bss_end 4096 of
                  None \<Rightarrow> Inl ''Alignment overflow''
                | Some image_top \<Rightarrow>
                    (case memmap_alloc_range s1 4096 (image_top - 4096)
                        MEMMAP_BOOTLOADER_RECLAIMABLE 0 True False False of
                       Inl e \<Rightarrow> Inl e
                     | Inr (_, s2) \<Rightarrow>
                         (case sanitise_state s2 False of
                            Inl e \<Rightarrow> Inl e
                          | Inr s3 \<Rightarrow> Inr (s3\<lparr>allocations_disallowed := False\<rparr>))))))"

definition get_memmap :: "pmm_state \<Rightarrow> (memmap \<times> pmm_state) outcome" where
  "get_memmap s =
     (case sanitise_state s True of
        Inl e \<Rightarrow> Inl e
      | Inr s1 \<Rightarrow> Inr (memmap s1, s1\<lparr>allocations_disallowed := True\<rparr>))"

section \<open>The map after initialisation\<close>

text \<open>
  An empty usable entry at exactly 1 MiB is the one input the clipping mishandles: it takes
  the second branch and its length drops below zero.
\<close>

definition e820_sane :: "memmap_entry \<Rightarrow> bool" where
  "e820_sane e \<longleftrightarrow> \<not> (mtype e = MEMMAP_USABLE \<and> mbase e = 0x100000 \<and> mlength e = 0)"

lemma e820_keep_Some:
  assumes "e820_keep EBDA e = Some e'" and "EBDA \<le> 0x100000" and "e820_sane e"
  shows "representable e'" and "mtype e' = mtype e"
    and "mtype e \<noteq> MEMMAP_USABLE \<Longrightarrow> e' = e"
    and "mtype e = MEMMAP_USABLE \<Longrightarrow> mbase e < EBDA \<and> 0x100000 < mtop e \<or>
           erange e' = erange e - {EBDA ..< 0x100000}"
proof -
  from assms(1) have rep: "mbase e \<le> mtop e" by (auto simp: e820_keep_def checked_top split: if_splits)
  consider (other) "mtype e \<noteq> MEMMAP_USABLE"
    | (gone) "mtype e = MEMMAP_USABLE" "EBDA \<le> mbase e" "mbase e < 0x100000" "mtop e \<le> 0x100000"
    | (hole) "mtype e = MEMMAP_USABLE" "EBDA \<le> mbase e" "mbase e < 0x100000" "0x100000 < mtop e"
    | (tail) "mtype e = MEMMAP_USABLE" "mbase e < EBDA" "EBDA < mtop e" "mtop e \<le> 0x100000"
    | (asis) "mtype e = MEMMAP_USABLE" "\<not> (EBDA \<le> mbase e \<and> mbase e < 0x100000)" "\<not> (EBDA < mtop e \<and> mtop e \<le> 0x100000)"
  proof (cases "mtype e = MEMMAP_USABLE \<and> EBDA < mtop e \<and> mtop e \<le> 0x100000 \<and> \<not> mbase e < 0x100000")
    case True
    then have "mbase e = 0x100000" "mtop e = 0x100000" using rep by auto
    then have "mlength e = 0" by (simp add: mtop_def)
    with True \<open>mbase e = 0x100000\<close> assms(3) have False by (simp add: e820_sane_def)
    then show thesis ..
  next
    case False
    then show thesis
      using other gone hole tail asis by (meson linorder_not_le)
  qed
  then have "representable e' \<and> mtype e' = mtype e \<and> (mtype e \<noteq> MEMMAP_USABLE \<longrightarrow> e' = e) \<and>
    (mtype e = MEMMAP_USABLE \<longrightarrow> mbase e < EBDA \<and> 0x100000 < mtop e \<or> erange e' = erange e - {EBDA ..< 0x100000})"
  proof cases
    case other
    with assms(1) rep show ?thesis by (simp add: e820_keep_def representable_def)
  next
    case gone
    with assms(1) rep show ?thesis by (simp add: e820_keep_def)
  next
    case hole
    with assms(1) rep have "e' = e\<lparr>mlength := mlength e - (0x100000 - mbase e), mbase := 0x100000\<rparr>"
      using hole(4) [folded not_le] by (simp add: e820_keep_def)
    then have "mtype e' = mtype e" "mbase e' = 0x100000" "mtop e' = mtop e" by (simp_all add: mtop_def)
    with hole show ?thesis by (auto simp: representable_def erange_def)
  next
    case tail
    with assms(1) rep have "e' = e\<lparr>mlength := mlength e - (mtop e - EBDA)\<rparr>"
      using tail(2) [folded not_le] by (simp add: e820_keep_def)
    then have "mtype e' = mtype e" "mbase e' = mbase e" "mtop e' = EBDA" by (simp_all add: mtop_def)
    with tail show ?thesis by (auto simp: representable_def erange_def)
  next
    case asis
    with assms(1) rep have "e' = e" by (simp add: e820_keep_def Let_def split: if_splits)
    moreover have "mtop e \<le> EBDA \<or> 0x100000 \<le> mbase e \<or> mbase e < EBDA \<and> 0x100000 < mtop e"
      using asis(2,3) by auto
    ultimately show ?thesis using asis(1) rep assms(2) by (auto simp: representable_def erange_def)
  qed
  then show "representable e'" and "mtype e' = mtype e" and "mtype e \<noteq> MEMMAP_USABLE \<Longrightarrow> e' = e"
    and "mtype e = MEMMAP_USABLE \<Longrightarrow> mbase e < EBDA \<and> 0x100000 < mtop e \<or>
           erange e' = erange e - {EBDA ..< 0x100000}" by blast+
qed

lemma init_entries_rule:
  assumes "init_entries limit EBDA m es = Inr m'" and "\<forall>e \<in> set m. P e"
    and "\<And>e e'. e \<in> set es \<Longrightarrow> e820_keep EBDA e = Some e' \<Longrightarrow> P e'"
  shows "\<forall>e \<in> set m'. P e"
  using assms
proof (induction es arbitrary: m)
  case (Cons e es)
  let ?m = "case e820_keep EBDA e of None \<Rightarrow> m | Some e' \<Rightarrow> m @ [e']"
  have "init_entries limit EBDA ?m es = Inr m'" using Cons.prems(1) by (simp split: if_splits)
  moreover have "\<forall>e \<in> set ?m. P e"
    using Cons.prems(2) Cons.prems(3) [of e] by (auto split: option.splits)
  ultimately show ?case using Cons.IH [of ?m] Cons.prems(3) by auto
qed simp

lemma init_entries_bound:
  "init_entries limit EBDA m es = Inr m' \<Longrightarrow> length m \<le> limit \<Longrightarrow> length m' \<le> limit"
  by (induction es arbitrary: m) (fastforce split: if_splits option.splits)+

lemma alloc_range_True_panics:
  "memmap_alloc_range s base len ty ov True False False = Inr (b, s') \<Longrightarrow> b"
  by (auto simp: memmap_alloc_range_def memmap_alloc_range_in_def Let_def split: option.splits sum.splits if_splits)

lemma init_memmap_ok:
  assumes ret: "init_memmap s e820 EBDA bss_end = Inr s'" and empty: "memmap s = []"
    and ebda: "EBDA \<le> 0x100000" and sane: "\<forall>e \<in> set e820. e820_sane e" and bss: "0x1000 < bss_end"
  obtains image_top where "ALIGN_UP bss_end 4096 = Some image_top" and "pmm_ok s'"
    and "{0x1000 ..< image_top} \<subseteq> cover MEMMAP_BOOTLOADER_RECLAIMABLE (memmap s')"
    and "avail s' \<inter> {0x1000 ..< image_top} = {}" and "\<not> allocations_disallowed s'"
    and "\<forall>e \<in> set e820. \<not> (mtype e = MEMMAP_USABLE \<and> mbase e < EBDA \<and> 0x100000 < mtop e) \<Longrightarrow>
      avail s' \<inter> {EBDA ..< 0x100000} = {}"
proof -
  from ret obtain m s1 t b s2 s3 where m: "init_entries (memmap_max_entries s) EBDA [] e820 = Inr m"
    and s1: "sanitise_state (s\<lparr>memmap := m\<rparr>) False = Inr s1" and t: "ALIGN_UP bss_end 4096 = Some t"
    and s2: "memmap_alloc_range s1 4096 (t - 4096) MEMMAP_BOOTLOADER_RECLAIMABLE 0 True False False = Inr (b, s2)"
    and s3: "sanitise_state s2 False = Inr s3" and s': "s' = s3\<lparr>allocations_disallowed := False\<rparr>"
    by (auto simp: init_memmap_def empty split: sum.splits option.splits)
  have rep: "\<forall>e \<in> set m. representable e"
    using m by (rule init_entries_rule) (use e820_keep_Some(1) ebda sane in auto)
  from s1 obtain m1 where m1: "pmm_sanitise_entries (keep_first_page s) (memmap_max_entries s) m False = Inr m1"
    and s1': "s1 = s\<lparr>memmap := m1\<rparr>" by (auto simp: sanitise_state_def split: sum.splits)
  have ok1: "pmm_ok s1" using sanitise_wf_map [OF m1 rep] by (simp add: pmm_ok_def s1')
  from alloc_range_True_panics [OF s2] s2
  have s2': "memmap_alloc_range s1 4096 (t - 4096) MEMMAP_BOOTLOADER_RECLAIMABLE 0 True False False = Inr (True, s2)"
    by simp
  from bss ALIGN_UP_props(1) [OF t] have tl: "0x1000 < t" by simp
  then have tn: "t - 4096 \<noteq> 0" by auto
  note a = memmap_alloc_range_ok [OF s2' tn ok1]
  note z = sanitise_state_ok [OF s3 a(1)]
  have av: "avail s' = avail s1 - {0x1000 ..< t}" using z(2) a(4) by (simp add: s')
  show thesis
  proof (rule that [OF t])
    show "pmm_ok s'" using z(1) by (simp add: s' pmm_ok_def)
    show "{0x1000 ..< t} \<subseteq> cover MEMMAP_BOOTLOADER_RECLAIMABLE (memmap s')"
      using z(3) a(3) [of MEMMAP_BOOTLOADER_RECLAIMABLE] by (simp add: s')
    show "avail s' \<inter> {0x1000 ..< t} = {}" unfolding av by blast
    show "\<not> allocations_disallowed s'" by (simp add: s')
    assume ns: "\<forall>e \<in> set e820. \<not> (mtype e = MEMMAP_USABLE \<and> mbase e < EBDA \<and> 0x100000 < mtop e)"
    have "\<forall>e \<in> set m. mtype e = MEMMAP_USABLE \<longrightarrow> erange e \<inter> {EBDA ..< 0x100000} = {}"
    proof (rule init_entries_rule [OF m])
      fix e e' assume "e \<in> set e820" and k: "e820_keep EBDA e = Some e'"
      with ns sane have "e820_sane e" "\<not> (mtype e = MEMMAP_USABLE \<and> mbase e < EBDA \<and> 0x100000 < mtop e)" by auto
      with e820_keep_Some(2,4) [OF k ebda]
      have "mtype e' = MEMMAP_USABLE \<longrightarrow> erange e' = erange e - {EBDA ..< 0x100000}" by auto
      then show "mtype e' = MEMMAP_USABLE \<longrightarrow> erange e' \<inter> {EBDA ..< 0x100000} = {}" by blast
    qed simp
    then have "usable m \<inter> {EBDA ..< 0x100000} = {}"
      unfolding cover_def covered_def by blast
    moreover have "avail s1 \<subseteq> usable m" using sanitise_usable [OF m1 rep] by (auto simp: s1')
    ultimately show "avail s' \<inter> {EBDA ..< 0x100000} = {}" unfolding av by blast
  qed
qed

section \<open>Page alignment of the final map\<close>

definition page_aligned :: "memmap_entry \<Rightarrow> bool" where
  "page_aligned e \<longleftrightarrow> 4096 dvd unat (mbase e) \<and> 4096 dvd unat (mlength e)"

definition aligned_upto :: "memmap \<Rightarrow> nat \<Rightarrow> bool" where
  "aligned_upto m i \<longleftrightarrow> (\<forall>k < i. k < length m \<longrightarrow> mtype (m ! k) = MEMMAP_USABLE \<longrightarrow> page_aligned (m ! k))"

lemma align_entry_aligned:
  assumes "align_entry b l = Some (b', l')"
  shows "4096 dvd unat b'" and "4096 dvd unat l'"
proof -
  from assms have "ALIGN_UP b PAGE_SIZE = Some b'" "l' = ALIGN_DOWN (l - (b' - b)) PAGE_SIZE"
    by (auto simp: align_entry_def Let_def split: if_splits option.splits)
  then show "4096 dvd unat b'" and "4096 dvd unat l'"
    using ALIGN_UP_props(2) [of b PAGE_SIZE b'] ALIGN_DOWN_dvd [of PAGE_SIZE] by simp_all
qed

lemma overlap_walk_prefix:
  assumes "overlap_walk limit m i j = Inr (m', del)"
  shows "\<forall>k < length m. k \<noteq> i \<longrightarrow> m' ! k = m ! k"
proof -
  define Q where "Q m1 \<longleftrightarrow> length m \<le> length m1 \<and> (\<forall>k < length m. k \<noteq> i \<longrightarrow> m1 ! k = m ! k)" for m1
  have step: "Q m2" if "Q m1" "trimmable m1 i j" "trim_against limit m1 i j = Inr (m2, b)" for m1 m2 j b
    using trim_against_trims [OF that(3,2)] that(1) by (auto simp: trims_def Q_def)
  have "Q m" by (simp add: Q_def)
  then have "if del then Q m' else Q m'"
    by (rule overlap_walk_rule [OF assms, of "\<lambda>m1 _. Q m1"]) (auto intro: step)
  then show ?thesis by (simp add: Q_def split: if_splits)
qed

lemma settle_entry_aligned:
  assumes "settle_entry True m i del = Some m'" and "i < length m" and "aligned_upto m i"
  shows "aligned_upto m' (Suc i)"
proof -
  from assms(1) obtain b l where a: "align_entry (mbase (m ! i)) (mlength (m ! i)) = Some (b, l)"
    and m': "m' = m[i := (m ! i)\<lparr>mbase := b, mlength := l\<rparr>]"
    by (auto simp: settle_entry_def split: if_splits option.splits)
  have "page_aligned (m' ! i)"
    using align_entry_aligned [OF a] assms(2) by (simp add: m' page_aligned_def)
  with assms(2,3) show ?thesis by (auto simp: aligned_upto_def m' less_Suc_eq)
qed

lemma sanitise_overlaps_aligned:
  assumes "sanitise_overlaps align limit m i = Inr m'" and "align" and "aligned_upto m i"
  shows "aligned_upto m' (length m')"
  using assms
proof (induction align limit m i rule: sanitise_overlaps.induct)
  case (1 align limit m i)
  note unf = sanitise_overlaps.simps [of True limit m i]
  show ?case
  proof (cases "i < length m")
    case False
    with "1.prems" have "m' = m" by (simp add: unf)
    with False "1.prems"(3) show ?thesis by (simp add: aligned_upto_def)
  next
    case i: True
    show ?thesis
    proof (cases "mtype (m ! i) = MEMMAP_USABLE")
      case False
      then have "aligned_upto m (Suc i)" using "1.prems"(3) by (auto simp: aligned_upto_def less_Suc_eq)
      with "1.IH"(1) [OF i] False "1.prems"(1,2) i show ?thesis by (simp add: unf)
    next
      case u: True
      with "1.prems"(1,2) i obtain m1 del where w: "overlap_walk limit m i 0 = Inr (m1, del)"
        by (auto simp: unf split: sum.splits)
      have le: "length m \<le> length m1" using overlap_walk_shrinks [OF w] by (simp add: shrinks_def)
      have al1: "aligned_upto m1 i"
        using "1.prems"(3) overlap_walk_prefix [OF w] i by (auto simp: aligned_upto_def)
      show ?thesis
      proof (cases "settle_entry align m1 i del")
        case None
        have "aligned_upto (remove_entry i m1) 0" by (simp add: aligned_upto_def)
        with "1.IH"(2) [OF i _ w refl None] u "1.prems"(1,2) i w None show ?thesis by (simp add: unf)
      next
        case (Some m2)
        with al1 i le "1.prems"(2) have "aligned_upto m2 (Suc i)" by (auto intro: settle_entry_aligned)
        with "1.IH"(3) [OF i _ w refl Some] u "1.prems"(1,2) i w Some show ?thesis by (simp add: unf)
      qed
    qed
  qed
qed

lemma sanitise_clip_rule:
  assumes "\<forall>e \<in> set m. P e" and "\<And>e e'. P e \<Longrightarrow> clip_entry keep e = Some e' \<Longrightarrow> P e'"
  shows "\<forall>e \<in> set (sanitise_clip keep m i). P e"
  using assms
proof (induction keep m i rule: sanitise_clip.induct)
  case (1 keep m i)
  note unf = sanitise_clip.simps [of keep m i]
  show ?case
  proof (cases "i < length m")
    case i: True
    show ?thesis
    proof (cases "clip_entry keep (m ! i)")
      case None
      have "\<forall>e \<in> set (remove_entry i m). P e" using "1.prems"(1) set_remove_entry [OF i] by auto
      with "1.IH"(1) [OF i None _ "1.prems"(2)] i None show ?thesis by (simp add: unf)
    next
      case (Some e)
      moreover have "P (m ! i)" using "1.prems"(1) i by simp
      ultimately have "P e" by (rule "1.prems"(2) [rotated])
      then have "\<forall>e' \<in> set (m[i := e]). P e'" using "1.prems"(1) set_update_subset_insert [of m i e] by auto
      then show ?thesis using "1.IH"(2) [OF i Some _ "1.prems"(2)] i Some by (simp add: unf)
    qed
  qed (use "1.prems" in \<open>simp add: unf\<close>)
qed

definition usable_aligned :: "memmap_entry \<Rightarrow> bool" where
  "usable_aligned e \<longleftrightarrow> (mtype e = MEMMAP_USABLE \<longrightarrow> page_aligned e)"

lemma clip_entry_aligned:
  assumes "usable_aligned e" and c: "clip_entry keep e = Some e'"
  shows "usable_aligned e'"
proof (cases "mtype e = MEMMAP_USABLE \<and> \<not> keep \<and> mbase e < 0x1000")
  case False
  with c have "e' = e" by (auto simp: clip_entry_def split: if_splits)
  with assms(1) show ?thesis by simp
next
  case True
  with c have t: "0x1000 < mtop e"
    and e': "e' = e\<lparr>mlength := mlength e - (0x1000 - mbase e), mbase := 0x1000\<rparr>"
    by (auto simp: clip_entry_def checked_top Let_def not_le split: if_splits)
  from assms(1) True have "4096 dvd unat (mbase e)" and l: "4096 dvd unat (mlength e)"
    by (auto simp: usable_aligned_def page_aligned_def)
  moreover have "unat (mbase e) < 4096" using True by (simp add: word_less_nat_alt)
  ultimately have "unat (mbase e) = 0" by (metis dvd_imp_le less_le_not_le neq0_conv)
  then have b: "mbase e = 0" by (simp add: unat_eq_zero)
  with t have "unat (mlength e - 0x1000) = unat (mlength e) - 4096"
    by (simp add: mtop_def unat_sub order_less_imp_le)
  with l have "4096 dvd unat (mlength e')" using e' b by simp
  then show ?thesis by (simp add: usable_aligned_def page_aligned_def e')
qed

lemma sanitise_aligned:
  assumes "pmm_sanitise_entries keep limit m True = Inr m'"
  shows "\<forall>e \<in> set m'. usable_aligned e"
proof -
  from assms obtain m1 where o: "sanitise_overlaps True limit m 0 = Inr m1"
    and m': "m' = sanitise_merge (sanitise_sort (sanitise_clip keep m1 0) 0) 0"
    by (auto simp: pmm_sanitise_entries_def split: sum.splits)
  have "aligned_upto m1 (length m1)"
    using o by (rule sanitise_overlaps_aligned) (simp_all add: aligned_upto_def)
  then have "\<forall>e \<in> set m1. usable_aligned e"
    by (auto simp: aligned_upto_def usable_aligned_def in_set_conv_nth)
  then have "\<forall>e \<in> set (sanitise_clip keep m1 0). usable_aligned e"
    by (rule sanitise_clip_rule) (rule clip_entry_aligned)
  then have "\<forall>e \<in> set (sanitise_sort (sanitise_clip keep m1 0) 0). usable_aligned e"
    using sanitise_sort_mset [of "sanitise_clip keep m1 0" 0] by (metis set_mset_mset)
  then show ?thesis unfolding m'
  proof (rule sanitise_merge_rule)
    fix xs e e' l ys
    assume I: "\<forall>e \<in> set (xs @ e # e' # ys). usable_aligned e" and l: "merge_length e e' = Some l"
    from l have "CHECKED_ADD (mlength e) (mlength e') = Some l" "mtype e' = mtype e"
      by (auto simp: merge_length_def split: if_splits option.splits)
    then have "unat l = unat (mlength e) + unat (mlength e')" "mtype e' = mtype e"
      by (simp_all add: CHECKED_ADD_unat)
    with I have "usable_aligned (e\<lparr>mlength := l\<rparr>)" by (simp add: usable_aligned_def page_aligned_def)
    with I show "\<forall>e \<in> set (xs @ e\<lparr>mlength := l\<rparr> # ys). usable_aligned e" by simp
  qed
qed

lemma sanitise_usable_subset:
  assumes "pmm_sanitise_entries keep limit m align = Inr m'" and "\<forall>e \<in> set m. representable e"
  shows "usable m' \<subseteq> usable m"
  using assms
proof (rule sanitise_inv)
  fix m1
  assume o: "others m1 = others m" and c: "clean (mset m1)" and a: "all_covered m1 \<subseteq> all_covered m"
    and inv: "merge_inv keep (sanitise_clip keep m1 0) m'"
  have "usable m1 \<subseteq> usable m"
    using a [unfolded all_covered_split] covered_others_eq [OF o, of "\<lambda>t. t \<noteq> MEMMAP_USABLE"]
      clean_disjoint [OF c] by blast
  moreover have "usable m' = usable (sanitise_clip keep m1 0)"
    using inv by (simp add: merge_inv_def cover_def)
  ultimately show ?thesis
    using sanitise_clip_covered [of "\<lambda>t'. t' = MEMMAP_USABLE" keep m1 0] unfolding cover_def by blast
qed

lemma get_memmap_ok:
  assumes "get_memmap s = Inr (m, s')" and "pmm_ok s"
  shows "\<forall>e \<in> set m. usable_aligned e" and "sorted (map mbase m)" and "clean (mset m)"
    and "\<forall>e \<in> set m. representable e \<and> clipped (keep_first_page s) e"
    and "t \<noteq> MEMMAP_USABLE \<Longrightarrow> cover t m = cover t (memmap s)"
    and "usable m \<subseteq> avail s" and "allocations_disallowed s'"
proof -
  from assms(1) have m: "pmm_sanitise_entries (keep_first_page s) (memmap_max_entries s) (memmap s) True = Inr m"
    and d: "allocations_disallowed s'"
    by (auto simp: get_memmap_def sanitise_state_def split: sum.splits)
  have rep: "\<forall>e \<in> set (memmap s). representable e" using assms(2) by (simp add: pmm_ok_def wf_map_def)
  show "\<forall>e \<in> set m. usable_aligned e" using m by (rule sanitise_aligned)
  show "sorted (map mbase m)" "clean (mset m)" "\<forall>e \<in> set m. representable e \<and> clipped (keep_first_page s) e"
    by (rule sanitise_result [OF m rep])+
  show "cover t m = cover t (memmap s)" if "t \<noteq> MEMMAP_USABLE"
    using sanitise_covered [OF m rep, of "\<lambda>t'. t' = t"] that by (simp add: cover_def)
  show "usable m \<subseteq> avail s" using m rep by (rule sanitise_usable_subset)
  show "allocations_disallowed s'" by (rule d)
qed

end
