(* ===== verification/Elsewhere.thy ===== *)
theory Elsewhere
  imports Allocator
begin

text \<open>
  \<^verbatim>\<open>src/common/lib/elsewhere.c\<close>: choosing target addresses for blobs that are staged in one
  place and copied to another just before the kernel starts. The search loop carries the
  retry budget of the source (\<open>max_retries\<close>), so it needs no fuel of its own.
\<close>

record elsewhere_range =
  er_elsewhere :: u64
  er_target :: u64
  er_length :: u64

definition elsewhere_overlap_check :: "u64 \<Rightarrow> u64 \<Rightarrow> u64 \<Rightarrow> u64 \<Rightarrow> bool" where
  "elsewhere_overlap_check base1 top1 base2 top2 \<longleftrightarrow> base1 < top2 \<and> base2 < top1"

definition elsewhere_memmap_type :: "u32 \<Rightarrow> bool" where
  "elsewhere_memmap_type type \<longleftrightarrow> type = MEMMAP_USABLE \<or> type = MEMMAP_BOOTLOADER_RECLAIMABLE"

text \<open>One turn of the loop that looks for the next candidate, on the variable \<open>best\<close>.\<close>

definition candidate_step :: "u64 \<Rightarrow> u64 \<Rightarrow> memmap_entry \<Rightarrow> u64 \<Rightarrow> u64" where
  "candidate_step target len e best =
     (if \<not> elsewhere_memmap_type (mtype e) then best
      else case CHECKED_ADD (mbase e) (mlength e) of
        None \<Rightarrow> best
      | Some e_top \<Rightarrow>
          (let base = mbase e; t = (if e_top > 0x100000000 then 0x100000000 else e_top)
           in if base \<ge> 0x100000000 then best
              else if t \<le> target then best
              else if target < base then
                (if t - base < len then best else if base < best then base else best)
              else if t < best then t else best))"

definition elsewhere_next_memmap_candidate :: "memmap \<Rightarrow> u64 \<Rightarrow> u64 \<Rightarrow> u64 option" where
  "elsewhere_next_memmap_candidate m target len =
     (let best = fold (candidate_step target len) m (-1)
      in if best = -1 then None else ALIGN_UP best 4096)"

text \<open>\<open>memmap_alloc_range\<close> in simulation mode for the two types a target may sit on.\<close>

definition target_backed :: "pmm_state \<Rightarrow> u64 \<Rightarrow> u64 \<Rightarrow> u32 \<Rightarrow> bool" where
  "target_backed s target len overlay_type =
     (case memmap_alloc_range s target len MEMMAP_BOOTLOADER_RECLAIMABLE overlay_type False True False of
        Inl _ \<Rightarrow> False
      | Inr (b, _) \<Rightarrow> b)"

datatype verdict = Fail | Retry u64 bool | Pass

text \<open>A new target from a range's end: \<open>ALIGN_UP(top, 4096, return false)\<close> and \<open>goto retry\<close>.\<close>

definition retry_after :: "u64 \<Rightarrow> bool \<Rightarrow> verdict" where
  "retry_after e_top wrapped = (case ALIGN_UP e_top 4096 of None \<Rightarrow> Fail | Some t \<Rightarrow> Retry t wrapped)"

definition wrap_or_fail :: "bool \<Rightarrow> bool \<Rightarrow> verdict" where
  "wrap_or_fail allow_wraparound wrapped =
     (if allow_wraparound \<and> \<not> wrapped then Retry 0x100000 True else Fail)"

text \<open>One turn of the loop over the ranges placed so far.\<close>

definition place_check :: "pmm_state \<Rightarrow> bool \<Rightarrow> u64 \<Rightarrow> u64 \<Rightarrow> bool \<Rightarrow> elsewhere_range \<Rightarrow> verdict" where
  "place_check s allow_wraparound target t_length wrapped r =
     (case CHECKED_ADD target t_length of
        None \<Rightarrow> Fail
      | Some t_top \<Rightarrow>
          if t_top > 0x100000000 then wrap_or_fail allow_wraparound wrapped
          else case CHECKED_ADD (er_target r) (er_length r) of
            None \<Rightarrow> Pass
          | Some r_top \<Rightarrow>
              if elsewhere_overlap_check (er_target r) r_top target t_top then retry_after r_top wrapped
              else (case CHECKED_ADD (er_elsewhere r) (er_length r) of
                      None \<Rightarrow> Pass
                    | Some s_top \<Rightarrow>
                        if elsewhere_overlap_check (er_elsewhere r) s_top target t_top
                        then retry_after s_top wrapped
                        else if target_backed s target t_length MEMMAP_USABLE
                             \<or> target_backed s target t_length MEMMAP_BOOTLOADER_RECLAIMABLE then Pass
                        else (case elsewhere_next_memmap_candidate (memmap s) target t_length of
                                None \<Rightarrow> wrap_or_fail allow_wraparound wrapped
                              | Some next_target \<Rightarrow> Retry next_target wrapped)))"

fun place_scan :: "(elsewhere_range \<Rightarrow> verdict) \<Rightarrow> elsewhere_range list \<Rightarrow> verdict" where
  "place_scan f [] = Pass"
| "place_scan f (r # rs) = (case f r of Pass \<Rightarrow> place_scan f rs | v \<Rightarrow> v)"

fun place_retry ::
  "nat \<Rightarrow> pmm_state \<Rightarrow> bool \<Rightarrow> elsewhere_range list \<Rightarrow> u64 \<Rightarrow> u64 \<Rightarrow> bool \<Rightarrow> u64 option" where
  "place_retry 0 s allow_wraparound ranges target t_length wrapped = None"
| "place_retry (Suc n) s allow_wraparound ranges target t_length wrapped =
     (case place_scan (place_check s allow_wraparound target t_length wrapped) ranges of
        Fail \<Rightarrow> None
      | Pass \<Rightarrow> Some target
      | Retry target' wrapped' \<Rightarrow> place_retry n s allow_wraparound ranges target' t_length wrapped')"

definition ranges_top :: "elsewhere_range list \<Rightarrow> u64" where
  "ranges_top ranges = fold (\<lambda>r t. case CHECKED_ADD (er_target r) (er_length r) of
      None \<Rightarrow> t | Some r_top \<Rightarrow> if t < r_top then r_top else t) ranges 0"

section \<open>Reserving a target\<close>

definition usable_part :: "u64 \<Rightarrow> u64 \<Rightarrow> memmap_entry \<Rightarrow> (u64 \<times> u64) option" where
  "usable_part base rtop e =
     (if mtype e \<noteq> MEMMAP_USABLE then None
      else case CHECKED_ADD (mbase e) (mlength e) of
        None \<Rightarrow> None
      | Some e_top \<Rightarrow>
          (let o_base = (if base > mbase e then base else mbase e);
               o_top = (if rtop < e_top then rtop else e_top)
           in if o_base < o_top then Some (o_base, o_top - o_base) else None))"

text \<open>The snapshot: at most 64 parts, in map order.\<close>

definition usable_parts :: "u64 \<Rightarrow> u64 \<Rightarrow> memmap \<Rightarrow> (u64 \<times> u64) list" where
  "usable_parts base rtop m = take 64 (List.map_filter (usable_part base rtop) m)"

fun reserve_parts :: "pmm_state \<Rightarrow> (u64 \<times> u64) list \<Rightarrow> pmm_state outcome" where
  "reserve_parts s [] = Inr s"
| "reserve_parts s ((b, l) # ps) =
     (case memmap_alloc_range s b l MEMMAP_BOOTLOADER_RECLAIMABLE MEMMAP_USABLE False False False of
        Inl e \<Rightarrow> Inl e
      | Inr (_, s') \<Rightarrow> reserve_parts s' ps)"

definition elsewhere_reserve_target :: "pmm_state \<Rightarrow> u64 \<Rightarrow> u64 \<Rightarrow> pmm_state outcome" where
  "elsewhere_reserve_target s base len =
     (case CHECKED_ADD base len of
        None \<Rightarrow> Inr s
      | Some rtop \<Rightarrow> reserve_parts s (usable_parts base rtop (memmap s)))"

text \<open>
  The result is \<open>Inr None\<close> for \<open>return false\<close>, otherwise the ranges with the new one
  appended, the chosen target and the allocator state.
\<close>

definition elsewhere_append ::
  "pmm_state \<Rightarrow> bool \<Rightarrow> elsewhere_range list \<Rightarrow> nat \<Rightarrow> u64 \<Rightarrow> u64 \<Rightarrow> u64
     \<Rightarrow> (elsewhere_range list \<times> u64 \<times> pmm_state) option outcome" where
  "elsewhere_append s allow_wraparound ranges ranges_max source target t_length =
     (case (if target = -1 then ALIGN_UP (ranges_top ranges) 4096 else Some target) of
        None \<Rightarrow> Inr None
      | Some start \<Rightarrow>
          (case place_retry 0x10000 s allow_wraparound ranges start t_length False of
             None \<Rightarrow> Inr None
           | Some t \<Rightarrow>
               (case elsewhere_reserve_target s t t_length of
                  Inl e \<Rightarrow> Inl e
                | Inr s' \<Rightarrow>
                    if length ranges \<ge> ranges_max then Inl ''elsewhere: ranges array overflow''
                    else Inr (Some (ranges @ [\<lparr>er_elsewhere = source, er_target = t, er_length = t_length\<rparr>],
                                    t, s')))))"

section \<open>What a placed range satisfies\<close>

definition blk :: "u64 \<Rightarrow> u64 \<Rightarrow> u64 set" where
  "blk base len = {base ..< base + len}"

lemma place_scan_Pass: "place_scan f rs = Pass \<longleftrightarrow> (\<forall>r \<in> set rs. f r = Pass)"
  by (induction rs) (auto split: verdict.splits)

lemma place_retry_SomeD:
  "place_retry n s aw ranges t len w = Some t' \<Longrightarrow>
     \<exists>w'. \<forall>r \<in> set ranges. place_check s aw t' len w' r = Pass"
  by (induction n s aw ranges t len w rule: place_retry.induct)
     (auto simp: place_scan_Pass split: verdict.splits)

lemma overlap_check_False:
  fixes b1 b2 :: u64
  assumes "\<not> elsewhere_overlap_check b1 t1 b2 t2"
  shows "{b1 ..< t1} \<inter> {b2 ..< t2} = {}"
  using assms by (auto simp: elsewhere_overlap_check_def)

lemma target_backed_covered:
  assumes "target_backed s t len ty" and "len \<noteq> 0" and "ty \<noteq> 0"
  shows "list_ex (range_fits t (t + len) ty) (memmap s)" and "blk t len \<subseteq> cover ty (memmap s)"
proof -
  show "list_ex (range_fits t (t + len) ty) (memmap s)"
    using assms(1,2)
    by (auto simp: target_backed_def memmap_alloc_range_def memmap_alloc_range_in_def Let_def CHECKED_ADD_eq
        split: sum.splits if_splits)
  then show "blk t len \<subseteq> cover ty (memmap s)"
    unfolding blk_def using assms(3) by (rule range_fits_covered)
qed

lemma place_check_Pass:
  assumes "place_check s aw t len w r = Pass"
  shows "t \<le> t + len" and "t + len \<le> 0x100000000"
    and "er_target r \<le> er_target r + er_length r \<Longrightarrow> blk (er_target r) (er_length r) \<inter> blk t len = {}"
    and "er_target r \<le> er_target r + er_length r \<Longrightarrow> er_elsewhere r \<le> er_elsewhere r + er_length r \<Longrightarrow>
      blk (er_elsewhere r) (er_length r) \<inter> blk t len = {} \<and>
      (target_backed s t len MEMMAP_USABLE \<or> target_backed s t len MEMMAP_BOOTLOADER_RECLAIMABLE)"
proof -
  show le: "t \<le> t + len" "t + len \<le> 0x100000000"
    using assms by (auto simp: place_check_def CHECKED_ADD_eq wrap_or_fail_def not_less split: if_splits)
  note p = assms [unfolded place_check_def CHECKED_ADD_eq]
  show "blk (er_target r) (er_length r) \<inter> blk t len = {}"
    if "er_target r \<le> er_target r + er_length r"
    unfolding blk_def using p le that
    by (intro overlap_check_False) (auto simp: retry_after_def split: if_splits option.splits)
  show "blk (er_elsewhere r) (er_length r) \<inter> blk t len = {} \<and>
      (target_backed s t len MEMMAP_USABLE \<or> target_backed s t len MEMMAP_BOOTLOADER_RECLAIMABLE)"
    if "er_target r \<le> er_target r + er_length r" "er_elsewhere r \<le> er_elsewhere r + er_length r"
  proof
    show "blk (er_elsewhere r) (er_length r) \<inter> blk t len = {}"
      unfolding blk_def using p le that
      by (intro overlap_check_False) (auto simp: retry_after_def split: if_splits option.splits)
    show "target_backed s t len MEMMAP_USABLE \<or> target_backed s t len MEMMAP_BOOTLOADER_RECLAIMABLE"
      using p le that
      by (auto simp: retry_after_def wrap_or_fail_def not_less split: if_splits option.splits)
  qed
qed

section \<open>Reservation takes the whole target\<close>

lemma usable_part_range:
  assumes "usable_part base rtop e = Some (b, l)"
  shows "mtype e = MEMMAP_USABLE" and "b < b + l" and "{b ..< b + l} = {base ..< rtop} \<inter> erange e"
proof -
  define ob where "ob = (if base > mbase e then base else mbase e)"
  define ot where "ot = (if rtop < mtop e then rtop else mtop e)"
  from assms have "mtype e = MEMMAP_USABLE" "ob < ot" "b = ob" "l = ot - ob"
    by (auto simp: usable_part_def checked_top Let_def ob_def ot_def split: if_splits)
  moreover have "{ob ..< ot} = {base ..< rtop} \<inter> erange e" by (auto simp: ob_def ot_def erange_def)
  ultimately show "mtype e = MEMMAP_USABLE" "b < b + l" "{b ..< b + l} = {base ..< rtop} \<inter> erange e"
    by simp_all
qed

lemma usable_part_None:
  assumes "usable_part base rtop e = None" and "mtype e = MEMMAP_USABLE"
  shows "{base ..< rtop} \<inter> erange e = {}"
  using assms by (auto simp: usable_part_def checked_top Let_def split: if_splits)

text \<open>
  Each reserved part leaves the usable set and nothing else does, whether or not the
  allocator accepts it.
\<close>

lemma reserve_parts_ok:
  assumes "reserve_parts s ps = Inr s'" and "pmm_ok s" and "\<forall>(b, l) \<in> set ps. b < b + l \<and> {b ..< b + l} \<subseteq> D"
  shows "pmm_ok s' \<and> avail s' \<subseteq> avail s \<and> avail s - D \<subseteq> avail s' \<and> mem s' = mem s"
  using assms
proof (induction s ps rule: reserve_parts.induct)
  case (2 s b l ps)
  from "2.prems"(1) obtain r s1 where a: "memmap_alloc_range s b l MEMMAP_BOOTLOADER_RECLAIMABLE MEMMAP_USABLE False False False = Inr (r, s1)"
    and n: "reserve_parts s1 ps = Inr s'" by (auto split: sum.splits)
  have l: "l \<noteq> 0" and D: "{b ..< b + l} \<subseteq> D" using "2.prems"(3) by auto
  have s1: "pmm_ok s1 \<and> avail s1 \<subseteq> avail s \<and> avail s - D \<subseteq> avail s1 \<and> mem s1 = mem s"
  proof (cases r)
    case True
    with a have "memmap_alloc_range s b l MEMMAP_BOOTLOADER_RECLAIMABLE MEMMAP_USABLE False False False = Inr (True, s1)" by simp
    note k = memmap_alloc_range_ok [OF this l "2.prems"(2)]
    from k(1,4) D memmap_frame [OF k(5)] show ?thesis by auto
  next
    case False
    with a have "s1 = s" by (simp add: memmap_alloc_range_False)
    with "2.prems"(2) show ?thesis by simp
  qed
  with "2.IH" [OF a refl n] "2.prems"(3) show ?case by auto
qed simp

lemma clean_apart:
  assumes "clean (mset m)" and "m = xs @ e # ys" and "mtype e = MEMMAP_USABLE" and "e' \<in> set xs \<union> set ys"
  shows "erange e \<inter> erange e' = {}"
proof -
  have "mset m = add_mset e (mset xs + mset ys)" using assms(2) by simp
  with assms(1,3,4) show ?thesis unfolding clean_def apart_def by (metis in_multiset_in_set set_mset_union set_mset_mset)
qed

lemma map_filter_none: "\<forall>x \<in> set xs. f x = None \<Longrightarrow> List.map_filter f xs = []"
  by (induction xs) (simp_all add: List.map_filter_simps)

text \<open>A target inside one usable entry of a clean map has exactly one usable part: itself.\<close>

lemma usable_parts_single:
  assumes wf: "wf_map keep m" and fit: "list_ex (range_fits base (base + len) MEMMAP_USABLE) m" and "len \<noteq> 0"
    and le: "base \<le> base + len"
  shows "usable_parts base (base + len) m = [(base, len)]"
proof -
  from fit obtain e where e: "e \<in> set m" and f: "range_fits base (base + len) MEMMAP_USABLE e"
    by (auto simp: list_ex_iff)
  then obtain xs ys where m: "m = xs @ e # ys" by (meson split_list)
  from f have u: "mtype e = MEMMAP_USABLE" and r: "mbase e \<le> mtop e" "mbase e \<le> base" "base + len \<le> mtop e"
    by (auto simp: range_fits_def checked_top split: if_splits)
  have lt: "base < base + len" using le \<open>len \<noteq> 0\<close> by (simp add: order_less_le)
  have "usable_part base (base + len) e' = None" if "e' \<in> set xs \<union> set ys" for e'
  proof (cases "usable_part base (base + len) e'")
    case (Some p)
    obtain b l where "p = (b, l)" by (cases p)
    note k = usable_part_range [OF Some [unfolded this]]
    have "erange e \<inter> erange e' = {}"
      using wf m u that unfolding wf_map_def by (intro clean_apart [of m xs e ys]) auto
    moreover have "{base ..< base + len} \<subseteq> erange e" using r by (auto simp: erange_def)
    ultimately have "{b ..< b + l} = {}" unfolding k(3) by blast
    with k(2) show ?thesis by auto
  qed
  then have "List.map_filter (usable_part base (base + len)) xs = []" "List.map_filter (usable_part base (base + len)) ys = []"
    by (auto intro: map_filter_none)
  moreover have "usable_part base (base + len) e = Some (base, len)"
  proof -
    have "(if mbase e < base then base else mbase e) = base" "(if base + len < mtop e then base + len else mtop e) = base + len"
      using r by auto
    then show ?thesis using u r(1) lt by (simp add: usable_part_def Let_def)
  qed
  ultimately show ?thesis
    unfolding usable_parts_def m by (simp add: List.map_filter_simps map_filter_def)
qed

lemma usable_parts_range:
  assumes "(b, l) \<in> set (usable_parts base rtop m)"
  shows "b < b + l \<and> {b ..< b + l} \<subseteq> {base ..< rtop} \<and> {b ..< b + l} \<subseteq> usable m"
proof -
  from assms obtain e where "e \<in> set m" "usable_part base rtop e = Some (b, l)"
    unfolding usable_parts_def List.map_filter_def by (auto dest!: in_set_takeD)
  with usable_part_range [OF this(2)] show ?thesis by (auto simp: cover_def covered_def simp del: in_erange)
qed

lemma elsewhere_reserve_ok:
  assumes "elsewhere_reserve_target s base len = Inr s'" and "pmm_ok s" and le: "base \<le> base + len"
  shows "pmm_ok s'" and "avail s' \<subseteq> avail s" and "avail s - blk base len \<subseteq> avail s'" and "mem s' = mem s"
proof -
  from assms have r: "reserve_parts s (usable_parts base (base + len) (memmap s)) = Inr s'"
    by (simp add: elsewhere_reserve_target_def CHECKED_ADD_eq)
  have "\<forall>(b, l) \<in> set (usable_parts base (base + len) (memmap s)). b < b + l \<and> {b ..< b + l} \<subseteq> blk base len"
    unfolding blk_def using usable_parts_range by fastforce
  from reserve_parts_ok [OF r assms(2) this]
  show "pmm_ok s'" "avail s' \<subseteq> avail s" "avail s - blk base len \<subseteq> avail s'" "mem s' = mem s" by blast+
qed

lemma elsewhere_reserve_taken:
  assumes ret: "elsewhere_reserve_target s base len = Inr s'" and ok: "pmm_ok s" and le: "base \<le> base + len"
    and len: "len \<noteq> 0"
    and backed: "target_backed s base len MEMMAP_USABLE \<or> target_backed s base len MEMMAP_BOOTLOADER_RECLAIMABLE"
  shows "avail s' \<inter> blk base len = {}"
proof (cases "target_backed s base len MEMMAP_USABLE")
  case True
  note fit = target_backed_covered(1) [OF True len]
  have wf: "wf_map (keep_first_page s) (memmap s)" using ok by (simp add: pmm_ok_def)
  have p: "usable_parts base (base + len) (memmap s) = [(base, len)]"
    using usable_parts_single [OF wf _ len le] fit by simp
  with ret le obtain b where a: "memmap_alloc_range s base len MEMMAP_BOOTLOADER_RECLAIMABLE MEMMAP_USABLE False False False = Inr (b, s')"
    by (auto simp: elsewhere_reserve_target_def CHECKED_ADD_eq split: sum.splits)
  moreover have b
    using a fit le by (auto simp: memmap_alloc_range_def memmap_alloc_range_in_def Let_def CHECKED_ADD_eq split: sum.splits if_splits)
  ultimately have "memmap_alloc_range s base len MEMMAP_BOOTLOADER_RECLAIMABLE MEMMAP_USABLE False False False = Inr (True, s')" by simp
  from memmap_alloc_range_ok(4) [OF this len ok] show ?thesis by (auto simp: blk_def)
next
  case False
  with backed have "target_backed s base len MEMMAP_BOOTLOADER_RECLAIMABLE" by simp
  from target_backed_covered(2) [OF this len] have "blk base len \<subseteq> cover MEMMAP_BOOTLOADER_RECLAIMABLE (memmap s)" by simp
  moreover have "cover MEMMAP_BOOTLOADER_RECLAIMABLE (memmap s) \<inter> avail s = {}"
    using cover_disjoint_avail [OF ok, of MEMMAP_BOOTLOADER_RECLAIMABLE "avail s"] by auto
  ultimately show ?thesis using elsewhere_reserve_ok(2) [OF ret ok le] by blast
qed

section \<open>Placements stay apart\<close>

text \<open>
  The invariant of a list of placements: no range wraps, no target overlaps an earlier
  target or an earlier source, and no target is memory the allocator could still hand out.
\<close>

definition range_placed :: "pmm_state \<Rightarrow> elsewhere_range \<Rightarrow> bool" where
  "range_placed s r \<longleftrightarrow> er_target r \<le> er_target r + er_length r \<and> er_elsewhere r \<le> er_elsewhere r + er_length r \<and>
     avail s \<inter> blk (er_target r) (er_length r) = {}"

definition clear_of :: "elsewhere_range \<Rightarrow> elsewhere_range \<Rightarrow> bool" where
  "clear_of r r' \<longleftrightarrow> blk (er_target r) (er_length r) \<inter> blk (er_target r') (er_length r') = {} \<and>
     blk (er_elsewhere r) (er_length r) \<inter> blk (er_target r') (er_length r') = {}"

definition placed_ok :: "pmm_state \<Rightarrow> elsewhere_range list \<Rightarrow> bool" where
  "placed_ok s ranges \<longleftrightarrow> (\<forall>r \<in> set ranges. range_placed s r) \<and> sorted_wrt clear_of ranges"

lemma placed_ok_mono: "placed_ok s ranges \<Longrightarrow> avail s' \<subseteq> avail s \<Longrightarrow> placed_ok s' ranges"
  by (auto simp: placed_ok_def range_placed_def)

lemma elsewhere_append_SomeD:
  assumes "elsewhere_append s aw ranges mx source target len = Inr (Some (ranges', t, s'))"
  obtains start w where "place_retry 0x10000 s aw ranges start len False = Some t"
    and "\<forall>r \<in> set ranges. place_check s aw t len w r = Pass"
    and "elsewhere_reserve_target s t len = Inr s'" and "length ranges < mx"
    and "ranges' = ranges @ [\<lparr>er_elsewhere = source, er_target = t, er_length = len\<rparr>]"
  using assms place_retry_SomeD [of "0x10000" s aw ranges _ len False t]
  by (auto simp: elsewhere_append_def split: option.splits sum.splits if_splits)

lemma elsewhere_append_ok:
  assumes ret: "elsewhere_append s aw ranges mx source target len = Inr (Some (ranges', t, s'))"
    and ok: "pmm_ok s" and placed: "placed_ok s ranges" and "ranges \<noteq> []" and "len \<noteq> 0"
    and source: "source \<le> source + len"
  shows "placed_ok s' ranges'" and "pmm_ok s'" and "t \<le> t + len" and "t + len \<le> 0x100000000"
    and "blk t len \<subseteq> avail s \<or> blk t len \<subseteq> cover MEMMAP_BOOTLOADER_RECLAIMABLE (memmap s)"
    and "avail s' \<subseteq> avail s"
proof -
  let ?new = "\<lparr>er_elsewhere = source, er_target = t, er_length = len\<rparr>"
  from ret obtain w where chk: "\<forall>r \<in> set ranges. place_check s aw t len w r = Pass"
    and res: "elsewhere_reserve_target s t len = Inr s'" and r': "ranges' = ranges @ [?new]"
    by (rule elsewhere_append_SomeD)
  from \<open>ranges \<noteq> []\<close> obtain r0 where r0: "r0 \<in> set ranges" by (cases ranges) auto
  with chk placed have p0: "place_check s aw t len w r0 = Pass" "range_placed s r0" by (auto simp: placed_ok_def)
  note k = place_check_Pass [OF p0(1)]
  show le: "t \<le> t + len" and "t + len \<le> 0x100000000" by (fact k)+
  have backed: "target_backed s t len MEMMAP_USABLE \<or> target_backed s t len MEMMAP_BOOTLOADER_RECLAIMABLE"
    using k(4) p0(2) by (simp add: range_placed_def)
  then show "blk t len \<subseteq> avail s \<or> blk t len \<subseteq> cover MEMMAP_BOOTLOADER_RECLAIMABLE (memmap s)"
    using target_backed_covered(2) [OF _ \<open>len \<noteq> 0\<close>] by fastforce
  show "pmm_ok s'" and sub: "avail s' \<subseteq> avail s" by (rule elsewhere_reserve_ok [OF res ok le])+
  have "clear_of r ?new" if "r \<in> set ranges" for r
    using place_check_Pass(3,4) [of s aw t len w r] chk that placed
    by (simp add: clear_of_def placed_ok_def range_placed_def)
  moreover have "range_placed s' ?new"
    using le source elsewhere_reserve_taken [OF res ok le \<open>len \<noteq> 0\<close> backed] by (simp add: range_placed_def)
  ultimately show "placed_ok s' ranges'"
    using placed_ok_mono [OF placed sub] by (auto simp: placed_ok_def r' sorted_wrt_append)
qed

end
