(* ===== verification/Memory_Properties.thy ===== *)
theory Memory_Properties
  imports Memory_Queries Pmm_Init Elsewhere
begin

text \<open>
  The properties of the physical memory manager: what the map promises after
  sanitisation, what each allocator grants, when it gives up, and what the queries answer.
  Each is stated over the definitions of the component theories; a small machine with two
  usable regions serves as the concrete input of the witnesses.
\<close>

section \<open>A small machine\<close>

definition demo_raw :: memmap where
  "demo_raw =
     [\<lparr>mbase = 0x100000, mlength = 0x700000, mtype = MEMMAP_USABLE\<rparr>,
      \<lparr>mbase = 0, mlength = 0x9f000, mtype = MEMMAP_USABLE\<rparr>,
      \<lparr>mbase = 0x300000, mlength = 0x1000, mtype = MEMMAP_RESERVED\<rparr>]"

definition demo_map :: memmap where
  "demo_map =
     [\<lparr>mbase = 0x1000, mlength = 0x9e000, mtype = MEMMAP_USABLE\<rparr>,
      \<lparr>mbase = 0x100000, mlength = 0x200000, mtype = MEMMAP_USABLE\<rparr>,
      \<lparr>mbase = 0x300000, mlength = 0x1000, mtype = MEMMAP_RESERVED\<rparr>,
      \<lparr>mbase = 0x301000, mlength = 0x4ff000, mtype = MEMMAP_USABLE\<rparr>]"

definition demo_state :: pmm_state where
  "demo_state =
     \<lparr>memmap = demo_map, memmap_max_entries = 64, keep_first_page = False,
      allocations_disallowed = False, conv_base = 0x1000, mem = (\<lambda>_. 0)\<rparr>"

lemma demo_sanitise: "pmm_sanitise_entries False 64 demo_raw False = Inr demo_map"
  by code_simp

lemma demo_raw_representable: "\<forall>e \<in> set demo_raw. representable e"
  by (simp add: demo_raw_def representable_def mtop_def)

lemma demo_ok: "pmm_ok demo_state"
proof -
  have "wf_check False demo_map" by code_simp
  then show ?thesis by (simp add: pmm_ok_def demo_state_def wf_check_wf_map)
qed

lemma outcome_fst: "map_sum id fst x = Inr p \<Longrightarrow> \<exists>s. x = Inr (p, s)"
  by (cases x) auto

section \<open>The sanitiser\<close>

text \<open>
  C2: \<open>pmm_sanitise_entries\<close> meets its specification. A byte is usable afterwards exactly
  when some usable entry and no other entry had it (and it is not on the first page, unless
  that page is kept); every other type covers exactly the bytes it covered; the entries come
  out sorted by base, no entry meets a usable one, and none wraps.
\<close>

theorem sanitise_entries_spec:
  assumes "pmm_sanitise_entries keep limit m False = Inr m'" and "\<forall>e \<in> set m. representable e"
  shows "usable m' = usable m - unusable m - low_page keep \<and>
    (\<forall>t. t \<noteq> MEMMAP_USABLE \<longrightarrow> cover t m' = cover t m) \<and>
    sorted (map mbase m') \<and> clean (mset m') \<and> (\<forall>e \<in> set m'. representable e \<and> clipped keep e)"
proof -
  have "cover t m' = cover t m" if "t \<noteq> MEMMAP_USABLE" for t
    unfolding cover_def using that by (intro sanitise_covered [OF assms]) simp
  with sanitise_usable [OF assms] sanitise_result [OF assms] show ?thesis by blast
qed

theorem sanitise_entries_spec_witness:
  "usable demo_map = usable demo_raw - unusable demo_raw - low_page False \<and> sorted (map mbase demo_map)"
  using sanitise_entries_spec [OF demo_sanitise demo_raw_representable] by blast

section \<open>The top-down allocator\<close>

text \<open>
  C3: what a successful \<open>ext_mem_alloc_type_aligned_mode\<close> grants. The pointer is aligned,
  the block is at least as long as asked, it was usable before and is of the requested type
  afterwards, nothing else changes type, exactly the rounded size is cleared, and unless high
  allocations are allowed the block ends at or below 4 GiB.
\<close>

theorem ext_mem_alloc_spec:
  assumes "ext_mem_alloc_type_aligned_mode s cnt ty al high = Inr (p, s')"
    and "pmm_ok s" and "0 < al" and "ty \<noteq> MEMMAP_USABLE"
  shows "\<exists>c l. grants s ty p c l s' \<and> cnt \<le> c \<and> unat al dvd unat c \<and> unat al dvd unat p \<and>
    (high \<or> p + l \<le> 0x100000000)"
  using assms by (rule ext_mem_alloc_mode_grants) blast

lemma demo_ext_alloc:
  "map_sum id fst (ext_mem_alloc_type_aligned_mode demo_state 0x1800 MEMMAP_BOOTLOADER_RECLAIMABLE 4096 False)
     = Inr 0x7fe000"
  by code_simp

theorem ext_mem_alloc_spec_witness:
  "\<exists>c l s'. grants demo_state MEMMAP_BOOTLOADER_RECLAIMABLE 0x7fe000 c l s' \<and> 0x1800 \<le> c"
proof -
  obtain s' where "ext_mem_alloc_type_aligned_mode demo_state 0x1800 MEMMAP_BOOTLOADER_RECLAIMABLE 4096 False
      = Inr (0x7fe000, s')" using outcome_fst [OF demo_ext_alloc] by blast
  from ext_mem_alloc_spec [OF this demo_ok] show ?thesis by auto
qed

text \<open>
  C1: blocks handed out by any run of \<open>ext_mem_alloc_type_aligned_mode\<close> calls (every type,
  alignment and mode) are pairwise disjoint, and the map stays well formed.
\<close>

theorem ext_allocations_disjoint:
  assumes "alloc_many ext_alloc_request s rs = Inr (ps, s')" and "pmm_ok s" and "\<forall>r \<in> set rs. ext_request_ok r"
  shows "pmm_ok s' \<and> length ps = length rs \<and>
    (\<forall>i j. i < j \<and> j < length rs \<longrightarrow>
       {ps ! i ..< ps ! i + req_count (rs ! i)} \<inter> {ps ! j ..< ps ! j + req_count (rs ! j)} = {})"
  using ext_pmm.alloc_many_fresh [OF assms] ext_pmm.alloc_many_disjoint [OF assms] by blast

definition demo_requests :: "ext_request list" where
  "demo_requests =
     [\<lparr>req_count = 0x1800, req_type = MEMMAP_BOOTLOADER_RECLAIMABLE, req_alignment = 4096, req_high = False\<rparr>,
      \<lparr>req_count = 1, req_type = MEMMAP_KERNEL_AND_MODULES, req_alignment = 0x10000, req_high = True\<rparr>]"

lemma demo_alloc_many:
  "map_sum id fst (alloc_many ext_alloc_request demo_state demo_requests) = Inr [0x7fe000, 0x7e0000]"
  by code_simp

theorem ext_allocations_disjoint_witness:
  "{0x7fe000 ..< 0x7fe000 + 0x1800} \<inter> {0x7e0000 ..< 0x7e0000 + 1 :: u64} = {}"
proof -
  obtain s' where a: "alloc_many ext_alloc_request demo_state demo_requests = Inr ([0x7fe000, 0x7e0000], s')"
    using outcome_fst [OF demo_alloc_many] by blast
  have "\<forall>r \<in> set demo_requests. ext_request_ok r" by (simp add: demo_requests_def ext_request_ok_def)
  from ext_allocations_disjoint [OF a demo_ok this] have
    "{[0x7fe000, 0x7e0000] ! 0 ..< [0x7fe000, 0x7e0000] ! 0 + req_count (demo_requests ! 0)} \<inter>
     {[0x7fe000, 0x7e0000] ! 1 ..< [0x7fe000, 0x7e0000] ! 1 + req_count (demo_requests ! 1)} = {}"
    by (metis demo_requests_def length_Cons lessI list.size(3) less_numeral_extra(1) One_nat_def)
  then show ?thesis by (simp add: demo_requests_def)
qed

text \<open>Where an aligned block fits below the limit.\<close>

definition fits_block :: "memmap \<Rightarrow> u64 \<Rightarrow> u64 \<Rightarrow> u64 \<Rightarrow> u64 \<Rightarrow> bool" where
  "fits_block m limit c al b \<longleftrightarrow>
     unat al dvd unat b \<and> b \<le> b + c \<and> b + c \<le> limit \<and>
     (\<exists>e \<in> set m. mtype e = MEMMAP_USABLE \<and> mbase e \<le> b \<and> b + c \<le> mtop e)"

lemma ALIGN_DOWN_greatest:
  fixes b x al :: u64
  assumes "unat al dvd unat b" and "b \<le> x" and "0 < al"
  shows "b \<le> ALIGN_DOWN x al"
proof -
  from assms(1) obtain k where k: "unat b = unat al * k" ..
  have "0 < unat al" using assms(3) by (simp add: word_less_nat_alt)
  moreover have "unat al * k \<le> unat x" using assms(2) k by (simp add: word_le_nat_alt)
  ultimately have "k \<le> unat x div unat al" by (simp add: less_eq_div_iff_mult_less_eq mult.commute)
  then show ?thesis by (simp add: word_le_nat_alt unat_ALIGN_DOWN k mult.commute)
qed

lemma alloc_candidate_complete:
  assumes e: "mtype e = MEMMAP_USABLE" "mbase e \<le> b" "b + c \<le> mtop e" and b: "unat al dvd unat b" "b \<le> b + c" "b + c \<le> limit"
    and "0 < al" "0 < c"
  shows "alloc_candidate limit c al e \<noteq> None"
proof -
  define t where "t = (if mtop e > limit then limit else mtop e)"
  have t: "b + c \<le> t" using e(3) b(3) by (simp add: t_def)
  have sum: "unat (b + c) = unat b + unat c"
    using b(2) no_olen_add_nat [of b c] by (simp add: unat_word_ariths)
  have "0 < unat c" using \<open>0 < c\<close> by (simp add: word_less_nat_alt)
  with sum t have nat: "unat b + unat c \<le> unat t" "unat (mbase e) \<le> unat b"
    using e(2) by (simp_all add: word_le_nat_alt)
  then have "c \<le> t" "mbase e < t" using \<open>0 < unat c\<close> by (simp_all add: word_le_nat_alt word_less_nat_alt)
  then have sub: "unat (t - c) = unat t - unat c" "unat (t - mbase e) = unat t - unat (mbase e)"
    by (simp_all add: unat_sub)
  have "b \<le> t - c" "c \<le> t - mbase e" using nat by (simp_all add: word_le_nat_alt sub)
  with b(1) \<open>0 < al\<close> have "b \<le> ALIGN_DOWN (t - c) al" by (intro ALIGN_DOWN_greatest)
  with e(2) have "mbase e \<le> ALIGN_DOWN (t - c) al" by order
  moreover have "mbase e \<le> mtop e" using e b(2) by order
  ultimately show ?thesis
    using e(1) \<open>mbase e < t\<close> \<open>c \<le> t - mbase e\<close>
    by (auto simp: alloc_candidate_def checked_top Let_def t_def not_less split: if_splits)
qed

lemma find_candidate_complete:
  assumes "find_candidate limit c al m = None" and "0 < al" "0 < c"
  shows "\<not> fits_block m limit c al b"
  using assms alloc_candidate_complete [of _ b c al limit]
  by (auto simp: find_candidate_def first_some_None fits_block_def simp del: not_None_eq)

lemma overlap_walk_panics: "overlap_walk limit m i j = Inl e \<Longrightarrow> e = ''Memory map exhausted.''"
proof (induction limit m i j rule: overlap_walk.induct)
  case (1 limit m i j)
  show ?case
    using "1.prems" "1.IH" unfolding overlap_walk.simps [of limit m i j]
    by (auto simp: trim_against_def Let_def split: if_splits option.splits sum.splits)
qed

lemma sanitise_overlaps_panics: "sanitise_overlaps al limit m i = Inl e \<Longrightarrow> e = ''Memory map exhausted.''"
proof (induction al limit m i rule: sanitise_overlaps.induct)
  case (1 al limit m i)
  show ?case
    using "1.prems" "1.IH" overlap_walk_panics unfolding sanitise_overlaps.simps [of al limit m i]
    by (auto split: if_splits option.splits sum.splits)
qed

lemma sanitise_panics: "pmm_sanitise_entries keep limit m al = Inl e \<Longrightarrow> e = ''Memory map exhausted.''"
  by (auto simp: pmm_sanitise_entries_def dest: sanitise_overlaps_panics split: sum.splits)

lemma ifelse_cases:
  assumes "(if b then x else y) = z" obtains "b" "x = z" | "\<not> b" "y = z"
  using assms by (cases b) auto

lemma option_cases:
  assumes "(case v of None \<Rightarrow> x | Some w \<Rightarrow> f w) = z" obtains "v = None" "x = z" | w where "v = Some w" "f w = z"
  using assms by (cases v) auto

lemma new_entry_walk_panics: "new_entry_walk limit base rtop m i = Inl e \<Longrightarrow> e = ''Memory map exhausted.''"
proof (induction limit base rtop m i rule: new_entry_walk.induct)
  case (1 limit base rtop m i)
  note IH = "1.IH" [OF _ refl refl]
  from "1.prems" show ?case
    unfolding new_entry_walk.simps [of limit base rtop m i] Let_def
    by (elim ifelse_cases option_cases) ((rule IH; assumption) | (drule Inl_inject [OF sym], assumption) | simp)+
qed


lemma reserve_block_panics:
  assumes "reserve_block s b l ty c = Inl e"
  shows "e \<noteq> ''High memory allocator: Out of memory''"
proof -
  have n: "pmm_new_entry limit m b l ty = Inl e \<Longrightarrow>
      e \<in> {''pmm: Integer overflow in memory range calculation'', ''Memory map exhausted.''}" for limit m
    by (auto simp: pmm_new_entry_def dest: new_entry_walk_panics split: option.splits sum.splits if_splits)
  have "memmap_alloc_range s b l ty MEMMAP_USABLE True False False = Inl e \<Longrightarrow>
      e \<in> {''pmm: Integer overflow in memory range calculation'', ''Memory map exhausted.'',
        ''Memory allocation overflow.'', ''Memory allocation failure.''}"
    by (auto simp: memmap_alloc_range_def memmap_alloc_range_in_def Let_def
        dest: n sanitise_panics split: option.splits sum.splits if_splits)
  moreover have "sanitise_state s1 False = Inl e \<Longrightarrow> e = ''Memory map exhausted.''" for s1
    by (auto simp: sanitise_state_def dest: sanitise_panics split: sum.splits)
  ultimately show ?thesis
    using assms unfolding reserve_block_def by (auto split: sum.splits)
qed

text \<open>
  C5: the top-down allocator gives up with \<open>Out of memory\<close> only when no usable entry has
  room for an aligned block of the rounded size below the limit in force, so memory is never
  refused that the map could supply.
\<close>

theorem ext_mem_alloc_out_of_memory:
  assumes "ext_mem_alloc_type_aligned_mode s cnt ty al high = Inl ''High memory allocator: Out of memory''"
    and "0 < al"
  shows "\<not> fits_block (memmap s) (if high then -1 else 0x100000000)
    (ALIGN_DOWN ((if cnt = 0 then 1 else cnt) + (al - 1)) al) al b"
proof -
  from assms(1) obtain c0 where c0: "CHECKED_ADD (if cnt = 0 then 1 else cnt) (al - 1) = Some c0"
    by (auto simp: ext_mem_alloc_type_aligned_mode_def split: option.splits)
  let ?c = "ALIGN_DOWN c0 al"
  have "reserve_block s p l ty ?c \<noteq> Inl ''High memory allocator: Out of memory''" for p l
    using reserve_block_panics by blast
  with assms(1) c0 have "find_candidate (if high then -1 else 0x100000000) ?c al (memmap s) = None"
    by (auto simp: ext_mem_alloc_type_aligned_mode_def Let_def split: option.splits if_splits)
  moreover have "c0 = (if cnt = 0 then 1 else cnt) + (al - 1)" using CHECKED_ADD_SomeD [OF c0] by simp
  ultimately show ?thesis
    using find_candidate_complete assms(2) rounded_size(2) [OF c0 assms(2)] by metis
qed

theorem ext_mem_alloc_out_of_memory_witness:
  "\<not> fits_block demo_map 0x100000000 0x800000 0x1000 0x100000"
proof -
  have "map_sum id fst (ext_mem_alloc_type_aligned_mode demo_state 0x7ff001 1 0x1000 False)
      = Inl ''High memory allocator: Out of memory''" by code_simp
  then have "ext_mem_alloc_type_aligned_mode demo_state 0x7ff001 1 0x1000 False
      = Inl ''High memory allocator: Out of memory''"
    by (cases "ext_mem_alloc_type_aligned_mode demo_state 0x7ff001 1 0x1000 False") auto
  from ext_mem_alloc_out_of_memory [OF this, of "0x100000"] show ?thesis
    by (simp add: demo_state_def ALIGN_DOWN_def)
qed

section \<open>The conventional-memory allocator\<close>

text \<open>
  \<open>conv_mem_alloc\<close> terminates, and what it returns is a whole number of pages below
  1 MiB that were usable, are bootloader-reclaimable afterwards and are cleared; runs of its
  calls never overlap.
\<close>

theorem conv_mem_alloc_spec:
  assumes "conv_mem_alloc s cnt = Inr (p, s')" and "pmm_ok s"
  shows "\<exists>c. grants s MEMMAP_BOOTLOADER_RECLAIMABLE p c c s' \<and> cnt \<le> c \<and> 4096 dvd unat c \<and> p + c \<le> 0x100000"
  using assms by (rule conv_mem_alloc_grants) blast

theorem conv_mem_alloc_spec_witness:
  "\<exists>c s'. grants demo_state MEMMAP_BOOTLOADER_RECLAIMABLE 0x1000 c c s' \<and> 0x1800 \<le> c"
proof -
  have "map_sum id fst (conv_mem_alloc demo_state 0x1800) = Inr 0x1000" by code_simp
  then obtain s' where "conv_mem_alloc demo_state 0x1800 = Inr (0x1000, s')" by (blast dest: outcome_fst)
  from conv_mem_alloc_spec [OF this demo_ok] show ?thesis by blast
qed

text \<open>
  Blocks handed out by any run of \<open>conv_mem_alloc\<close> calls are pairwise disjoint.
\<close>

theorem conv_allocations_disjoint:
  assumes "alloc_many conv_mem_alloc s cs = Inr (ps, s')" and "pmm_ok s" and "i < j" and "j < length cs"
  shows "{ps ! i ..< ps ! i + cs ! i} \<inter> {ps ! j ..< ps ! j + cs ! j} = {}"
  using assms by (intro conv_pmm.alloc_many_disjoint) auto

theorem conv_allocations_disjoint_witness:
  "{0x1000 ..< 0x1000 + 0x1800} \<inter> {0x3000 ..< 0x3000 + 0x10 :: u64} = {}"
proof -
  have "map_sum id fst (alloc_many conv_mem_alloc demo_state [0x1800, 0x10]) = Inr [0x1000, 0x3000]"
    by code_simp
  then obtain s' where "alloc_many conv_mem_alloc demo_state [0x1800, 0x10] = Inr ([0x1000, 0x3000], s')"
    by (blast dest: outcome_fst)
  from conv_allocations_disjoint [OF this demo_ok, of 0 1] show ?thesis by simp
qed

section \<open>Freeing and reallocating\<close>

text \<open>
  C9: \<open>pmm_free\<close> of a non-null block gives exactly its pages back: they become usable
  (page zero apart), every other type loses them and nothing else, memory contents are left
  alone and the map stays well formed. A block that wraps around changes nothing.
\<close>

theorem pmm_free_spec:
  assumes "pmm_free s p cnt = Inr s'" and "pmm_ok s" and "p \<noteq> 0"
  shows "\<exists>c. ALIGN_UP (if cnt = 0 then 1 else cnt) 4096 = Some c \<and> pmm_ok s' \<and> mem s' = mem s \<and>
    (if p \<le> p + c then
       avail s' = avail s \<union> {p ..< p + c} - low_page (keep_first_page s) \<and>
       (\<forall>t. t \<noteq> MEMMAP_USABLE \<longrightarrow> cover t (memmap s') = cover t (memmap s) - {p ..< p + c})
     else s' = s)"
  using assms by (rule pmm_free_ok) metis

lemma outcome_right: "\<not> isl x \<Longrightarrow> \<exists>y. x = Inr y"
  by (cases x) auto

theorem pmm_free_spec_witness:
  "\<exists>s'. pmm_ok s' \<and> avail s' = avail demo_state \<union> {0x300000 ..< 0x301000} - low_page False"
proof -
  have "\<not> isl (pmm_free demo_state 0x300000 0x800)" by code_simp
  then obtain s' where "pmm_free demo_state 0x300000 0x800 = Inr s'" by (blast dest: outcome_right)
  from pmm_free_spec [OF this demo_ok] show ?thesis
    by (auto simp: ALIGN_UP_def DIV_ROUNDUP_def CHECKED_ADD_eq demo_state_def)
qed

text \<open>
  C10: \<open>pmm_realloc\<close> carries the contents over: the first \<open>min\<close> of the two sizes bytes of
  the new block are those of the old one, whatever the new block's address, because it never
  overlaps a block that is still in use.
\<close>

theorem pmm_realloc_copies:
  assumes "pmm_realloc s old osz nsz = Inr (p, s')" and "pmm_ok s" and "old \<noteq> 0"
    and "{old ..< old + osz} \<inter> avail s = {}" and "old \<le> old + osz" and "i < min nsz osz"
  shows "mem s' (p + i) = mem s (old + i)"
  using assms by (rule realloc_copies)

definition demo_filled :: pmm_state where
  "demo_filled = demo_state\<lparr>mem := (\<lambda>a. if a = 0x300004 then 0x2a else 0)\<rparr>"

theorem pmm_realloc_copies_witness: 
  "\<exists>p s'. pmm_realloc demo_filled 0x300000 0x1000 0x2000 = Inr (p, s') \<and> mem s' (p + 4) = 0x2a"
proof -
  have "\<not> isl (pmm_realloc demo_filled 0x300000 0x1000 0x2000)" by code_simp
  then obtain p s' where r: "pmm_realloc demo_filled 0x300000 0x1000 0x2000 = Inr (p, s')"
    by (auto dest!: outcome_right)
  have ok: "pmm_ok demo_filled" using demo_ok by (simp add: pmm_ok_def demo_filled_def)
  have "{0x300000 ..< 0x300000 + 0x1000 :: u64} \<inter> avail demo_filled = {}"
    by (auto simp: demo_filled_def demo_state_def demo_map_def cover_def erange_def mtop_def)
       (drule (1) order.strict_trans1; simp)
  from pmm_realloc_copies [OF r ok _ this, of 4] r show ?thesis
    by (auto simp: demo_filled_def)
qed

section \<open>Building and handing over the map\<close>






section \<open>Queries\<close>

text \<open>
  \<open>mmap_get_info\<close> reports maximal runs of usable memory. Everything below
  \<open>lowermem\<close> and every byte of the \<open>uppermem\<close> bytes from 1 MiB is usable, and the byte
  after each run is not (for the lower run, unless it was cut off at 1 MiB). No order of the
  entries is assumed.
\<close>

theorem mmap_get_info_runs:
  "{0 ..< lowermem (mmap_get_info m)} \<subseteq> usable m \<and>
   {0x100000 ..< 0x100000 + uppermem (mmap_get_info m)} \<subseteq> usable m \<and>
   lowermem (mmap_get_info m) \<le> 0x100000 \<and>
   lowermem (mmap_get_info m) \<notin> usable m - {0x100000} \<and>
   0x100000 + uppermem (mmap_get_info m) \<notin> usable m"
proof -
  obtain l u where lu: "extend_loop m 0 0x100000 = (l, u)" by (cases "extend_loop m 0 0x100000")
  have "frontier_ok m 0 0" "frontier_ok m 0x100000 0x100000" by (simp_all add: frontier_ok_def)
  from extend_loop_frontier [OF lu this] have f: "{0 ..< l} \<subseteq> usable m" "{0x100000 ..< u} \<subseteq> usable m"
    "l \<notin> usable m" "u \<notin> usable m" by (simp_all add: frontier_ok_def)
  have "{0 ..< if l > 0x100000 then 0x100000 else l} \<subseteq> {0 ..< l}" by auto
  with f lu show ?thesis by (auto simp: mmap_get_info_def)
qed

text \<open>
  C11: \<open>check_usable_memory\<close> is exact: on a map whose RAM entries do not overlap it answers
  true for a nonempty range precisely when every byte of it lies in an entry of a RAM type,
  however many entries the range spans.
\<close>

theorem check_usable_memory_exact:
  assumes "base < rtop" and "ram_disjoint uefi (memmap s)"
  shows "check_usable_memory uefi s base rtop \<longleftrightarrow> {base ..< rtop} \<subseteq> covered (ram_type uefi) (memmap s)"
proof -
  have "unat (rtop - base) = card ({base ..< rtop} - {})"
    using assms(1) by (simp add: card_word_ivl unat_sub less_imp_le)
  moreover have "{base ..< rtop} - {} \<noteq> {}" using assms(1) by auto
  ultimately show ?thesis
    unfolding check_usable_memory_def using check_usable_loop_correct [OF assms, of "{}" "rtop - base"] by simp
qed

lemma ram_disjoint_check:
  "sorted_wrt (\<lambda>e e'. ram_type uefi (mtype e) \<and> ram_type uefi (mtype e') \<longrightarrow> separate e e') m \<Longrightarrow> ram_disjoint uefi m"
  unfolding ram_disjoint_def by (erule sorted_wrt_mono_rel [rotated]) (use separate_apart [unfolded apart_def] in blast)

theorem check_usable_memory_exact_witness:
  "{0x200000 ..< 0x300000} \<subseteq> covered (ram_type False) demo_map \<and>
   \<not> {0x200000 ..< 0x302000} \<subseteq> covered (ram_type False) demo_map"
proof -
  have m: "memmap demo_state = demo_map" by (simp add: demo_state_def)
  have "sorted_wrt (\<lambda>e e'. ram_type False (mtype e) \<and> ram_type False (mtype e') \<longrightarrow> separate e e') demo_map"
    by code_simp
  then have d: "ram_disjoint False (memmap demo_state)" unfolding m by (rule ram_disjoint_check)
  have "check_usable_memory False demo_state 0x200000 0x300000" "\<not> check_usable_memory False demo_state 0x200000 0x302000"
    by code_simp+
  then show ?thesis
    using check_usable_memory_exact [OF _ d, of "0x200000" "0x300000"]
      check_usable_memory_exact [OF _ d, of "0x200000" "0x302000"] unfolding m by simp
qed

text \<open>
  \<open>pmm_check_type\<close> answers \<open>-1\<close> exactly for the addresses no entry covers, and every
  other answer is the type of an entry that covers the address.
\<close>

theorem pmm_check_type_spec:
  "(pmm_check_type s a = -1 \<longleftrightarrow> a \<notin> all_covered (memmap s)) \<and>
   (pmm_check_type s a = -1 \<or> (\<exists>t. pmm_check_type s a = ucast t \<and> a \<in> cover t (memmap s)))"
proof -
  have "check_type_in m a = -1 \<or> (\<exists>t :: u32. check_type_in m a = ucast t)" for m
    by (induction m) auto
  then show ?thesis
    unfolding pmm_check_type_def check_type_in_minus_1 by (metis check_type_in_cover check_type_in_minus_1)
qed

section \<open>Placing blobs elsewhere\<close>





end
