(* ===== verification/Cstring.thy ===== *)
theory Cstring
  imports Prelude
begin

text \<open>
  NUL-terminated strings and the string routines of \<^verbatim>\<open>src/common/lib/libc.s2.c\<close> and
  \<^verbatim>\<open>src/common/lib/libc.c\<close>. A C string is the list of its characters before the terminator; reading
  at or past the end of that list yields the terminator. A pointer into a string is the
  suffix it points to.
\<close>

section \<open>Characters\<close>

abbreviation NUL :: char where "NUL \<equiv> CHR 0x00"

abbreviation code :: "char \<Rightarrow> int" where "code c \<equiv> of_char c"

text \<open>No terminator inside: the lists that are C strings.\<close>

definition cstr :: "string \<Rightarrow> bool" where
  "cstr s \<longleftrightarrow> NUL \<notin> set s"

text \<open>\<open>*p\<close> for a pointer into a string.\<close>

fun deref :: "string \<Rightarrow> char" where
  "deref [] = NUL"
| "deref (c # s) = c"

definition isprint :: "int \<Rightarrow> bool" where
  "isprint c \<longleftrightarrow> c \<ge> 0x20 \<and> c \<le> 0x7e"

definition isspace :: "int \<Rightarrow> bool" where
  "isspace c \<longleftrightarrow> (c \<ge> 9 \<and> c \<le> 0xD) \<or> c = 0x20"

definition isalpha :: "int \<Rightarrow> bool" where
  "isalpha c \<longleftrightarrow> (c \<ge> 0x61 \<and> c \<le> 0x7a) \<or> (c \<ge> 0x41 \<and> c \<le> 0x5a)"

definition isdigit :: "int \<Rightarrow> bool" where
  "isdigit c \<longleftrightarrow> c \<ge> 0x30 \<and> c \<le> 0x39"

definition toupper :: "int \<Rightarrow> int" where
  "toupper c = (if c \<ge> 0x61 \<and> c \<le> 0x7a then c - 0x20 else c)"

definition tolower :: "int \<Rightarrow> int" where
  "tolower c = (if c \<ge> 0x41 \<and> c \<le> 0x5a then c + 0x20 else c)"

lemma code_bounds: "0 \<le> code c" "code c < 256"
proof -
  have "code c = code c mod 256" by (metis char_of_char of_char_of)
  then show "0 \<le> code c" "code c < 256" by (metis pos_mod_bound pos_mod_sign zero_less_numeral)+
qed

lemma code_inject [simp]: "code a = code b \<longleftrightarrow> a = b"
  by (metis char_of_char)

lemma code_zero [simp]: "code c = 0 \<longleftrightarrow> c = NUL"
  using code_inject [of c NUL] by simp

lemma cstr_simps [simp]:
  "cstr []" "cstr (c # s) \<longleftrightarrow> c \<noteq> NUL \<and> cstr s" "cstr (s @ t) \<longleftrightarrow> cstr s \<and> cstr t"
  by (auto simp: cstr_def)

lemma deref_NUL: "cstr s \<Longrightarrow> deref s = NUL \<longleftrightarrow> s = []"
  by (cases s) auto

lemma deref_nonempty: "deref s \<noteq> NUL \<Longrightarrow> 0 < length s"
  by (cases s) auto

section \<open>Comparison\<close>

definition three_way :: "int \<Rightarrow> int \<Rightarrow> int" where
  "three_way c1 c2 = (if c1 < c2 then -1 else 1)"

function strcmp :: "string \<Rightarrow> string \<Rightarrow> int" where
  "strcmp s1 s2 =
     (let c1 = code (deref s1); c2 = code (deref s2)
      in if c1 \<noteq> c2 then three_way c1 c2
         else if c1 = 0 then 0
         else strcmp (tl s1) (tl s2))"
  by pat_completeness auto
termination
proof (relation "measure (\<lambda>(s1, s2). length s1)", goal_cases)
  case (2 s1 s2)
  then show ?case using deref_nonempty [of s1] by auto
qed simp

function strcasecmp :: "string \<Rightarrow> string \<Rightarrow> int" where
  "strcasecmp s1 s2 =
     (let c1 = code (deref s1); c2 = code (deref s2)
      in if tolower c1 \<noteq> tolower c2 then three_way (tolower c1) (tolower c2)
         else if c1 = 0 then 0
         else strcasecmp (tl s1) (tl s2))"
  by pat_completeness auto
termination
  by (relation "measure (\<lambda>(s1, s2). length s1)") (auto dest: deref_nonempty)

declare strcmp.simps [simp del] strcasecmp.simps [simp del]

fun strncmp :: "string \<Rightarrow> string \<Rightarrow> nat \<Rightarrow> int" where
  "strncmp s1 s2 0 = 0"
| "strncmp s1 s2 (Suc n) =
     (let c1 = code (deref s1); c2 = code (deref s2)
      in if c1 \<noteq> c2 then three_way c1 c2
         else if c1 = 0 then 0
         else strncmp (tl s1) (tl s2) n)"

fun strncasecmp :: "string \<Rightarrow> string \<Rightarrow> nat \<Rightarrow> int" where
  "strncasecmp s1 s2 0 = 0"
| "strncasecmp s1 s2 (Suc n) =
     (let c1 = code (deref s1); c2 = code (deref s2)
      in if tolower c1 \<noteq> tolower c2 then three_way (tolower c1) (tolower c2)
         else if c1 = 0 then 0
         else strncasecmp (tl s1) (tl s2) n)"

lemma strcmp_rec [simp]:
  "strcmp [] [] = 0"
  "c \<noteq> NUL \<Longrightarrow> strcmp [] (c # s) = -1"
  "c \<noteq> NUL \<Longrightarrow> strcmp (c # s) [] = 1"
  "c \<noteq> NUL \<Longrightarrow> strcmp (c # s) (d # t) = (if c = d then strcmp s t else three_way (code c) (code d))"
  using code_bounds [of c] code_zero [of c]
  by (auto simp: strcmp.simps [of "[]"] strcmp.simps [of "c # s"] three_way_def Let_def)

lemma strcmp_eq_0: "cstr s \<Longrightarrow> cstr t \<Longrightarrow> strcmp s t = 0 \<longleftrightarrow> s = t"
proof (induction s arbitrary: t)
  case Nil
  then show ?case by (cases t) auto
next
  case (Cons c s)
  then show ?case by (cases t) (auto simp: three_way_def)
qed

lemma strcmp_lexord:
  "cstr s \<Longrightarrow> cstr t \<Longrightarrow> strcmp s t = (if s = t then 0 else if (s, t) \<in> lexord {(a, b). code a < code b} then -1 else 1)"
proof (induction s arbitrary: t)
  case Nil
  then show ?case by (cases t) auto
next
  case (Cons c s)
  then show ?case
    by (cases t) (auto simp: three_way_def)
qed

lemma strncmp_take: "cstr s \<Longrightarrow> cstr t \<Longrightarrow> strncmp s t n = strcmp (take n s) (take n t)"
proof (induction n arbitrary: s t)
  case (Suc n)
  have "\<not> code c < 0" "0 < code c \<longleftrightarrow> c \<noteq> NUL" for c
    using code_bounds(1) [of c] code_zero [of c] by linarith+
  with Suc show ?case
    by (cases s; cases t) (auto simp: Let_def three_way_def)
qed simp

text \<open>Comparison ignoring case is comparison of the lower-case strings.\<close>

definition lower :: "char \<Rightarrow> char" where
  "lower c = char_of (tolower (code c))"

lemma code_lower: "code (lower c) = tolower (code c)"
proof -
  have "0 \<le> tolower (code c)" "tolower (code c) < 256" using code_bounds [of c] by (auto simp: tolower_def)
  then show ?thesis by (simp add: lower_def of_char_of)
qed

lemma tolower_zero: "0 \<le> c \<Longrightarrow> tolower c = 0 \<longleftrightarrow> c = 0"
  by (auto simp: tolower_def)

lemma strcasecmp_lower:
  "cstr s \<Longrightarrow> cstr t \<Longrightarrow> strcasecmp s t = strcmp (map lower s) (map lower t)"
proof (induction s arbitrary: t)
  case Nil
  then show ?case using code_bounds
    by (cases t) (auto simp: strcasecmp.simps [of "[]"] strcmp.simps [of "[]"] code_lower tolower_def Let_def)
next
  case (Cons c s)
  have "lower c \<noteq> NUL" using Cons.prems(1) code_lower [of c] tolower_zero [of "code c"] code_bounds(1) [of c]
    by (metis code_zero cstr_simps(2))
  with Cons show ?case using tolower_zero [OF code_bounds(1) [of c]]
    by (cases t) (auto simp: strcasecmp.simps [of "c # s"] strcmp.simps [of "lower c # map lower s"] code_lower
        Let_def tolower_def)
qed

section \<open>Length\<close>

function strlen_from :: "string \<Rightarrow> nat \<Rightarrow> nat" where
  "strlen_from s len = (if deref (drop len s) = NUL then len else strlen_from s (Suc len))"
  by pat_completeness auto
termination
proof (relation "measure (\<lambda>(s, len). length s - len)", goal_cases)
  case (2 s len)
  then show ?case using deref_nonempty [of "drop len s"] by simp
qed simp

declare strlen_from.simps [simp del]

definition strlen :: "string \<Rightarrow> nat" where
  "strlen s = strlen_from s 0"

function strnlen_from :: "string \<Rightarrow> nat \<Rightarrow> nat \<Rightarrow> nat" where
  "strnlen_from s maxlen len =
     (if len < maxlen \<and> deref (drop len s) \<noteq> NUL then strnlen_from s maxlen (Suc len) else len)"
  by pat_completeness auto
termination
  by (relation "measure (\<lambda>(s, maxlen, len). maxlen - len)") auto

declare strnlen_from.simps [simp del]

definition strnlen :: "string \<Rightarrow> nat \<Rightarrow> nat" where
  "strnlen s maxlen = strnlen_from s maxlen 0"

lemma deref_drop: "cstr s \<Longrightarrow> deref (drop i s) = NUL \<longleftrightarrow> length s \<le> i"
  using deref_NUL [of "drop i s"] by (simp add: cstr_def) (metis in_set_dropD)

lemma strlen_from_length: "cstr s \<Longrightarrow> len \<le> length s \<Longrightarrow> strlen_from s len = length s"
proof (induction s len rule: strlen_from.induct)
  case (1 s len)
  then show ?case by (auto simp: strlen_from.simps [of s len] deref_drop)
qed

lemma strlen_length: "cstr s \<Longrightarrow> strlen s = length s"
  by (simp add: strlen_def strlen_from_length)

lemma strnlen_from_min: "cstr s \<Longrightarrow> len \<le> length s \<Longrightarrow> len \<le> maxlen \<Longrightarrow> strnlen_from s maxlen len = min maxlen (length s)"
proof (induction s maxlen len rule: strnlen_from.induct)
  case (1 s maxlen len)
  then show ?case by (auto simp: strnlen_from.simps [of s maxlen len] deref_drop)
qed

lemma strnlen_min: "cstr s \<Longrightarrow> strnlen s n = min n (length s)"
  by (simp add: strnlen_def strnlen_from_min)

section \<open>Copying\<close>

text \<open>
  A destination buffer is a list of characters; writes outside it do not happen in the
  model, so the lemmas ask for room.
\<close>

function strcpy_from :: "string \<Rightarrow> string \<Rightarrow> nat \<Rightarrow> string" where
  "strcpy_from dest src i =
     (if deref (drop i src) = NUL then dest[i := NUL]
      else strcpy_from (dest[i := deref (drop i src)]) src (Suc i))"
  by pat_completeness auto
termination
proof (relation "measure (\<lambda>(dest, src, i). length src - i)", goal_cases)
  case (2 dest src i)
  then show ?case using deref_nonempty [of "drop i src"] by simp
qed simp

declare strcpy_from.simps [simp del]

definition strcpy :: "string \<Rightarrow> string \<Rightarrow> string" where
  "strcpy dest src = strcpy_from dest src 0"

function strncpy_copy :: "string \<Rightarrow> string \<Rightarrow> nat \<Rightarrow> nat \<Rightarrow> string \<times> nat" where
  "strncpy_copy dest src n i =
     (if i < n \<and> deref (drop i src) \<noteq> NUL
      then strncpy_copy (dest[i := deref (drop i src)]) src n (Suc i) else (dest, i))"
  by pat_completeness auto
termination
  by (relation "measure (\<lambda>(dest, src, n, i). n - i)") auto

function strncpy_pad :: "string \<Rightarrow> nat \<Rightarrow> nat \<Rightarrow> string" where
  "strncpy_pad dest n i = (if i < n then strncpy_pad (dest[i := NUL]) n (Suc i) else dest)"
  by pat_completeness auto
termination
  by (relation "measure (\<lambda>(dest, n, i). n - i)") auto

declare strncpy_copy.simps [simp del] strncpy_pad.simps [simp del]

definition strncpy :: "string \<Rightarrow> string \<Rightarrow> nat \<Rightarrow> string" where
  "strncpy dest src n = (case strncpy_copy dest src n 0 of (d, i) \<Rightarrow> strncpy_pad d n i)"

lemma cstr_nth: "cstr s \<Longrightarrow> i < length s \<Longrightarrow> s ! i \<noteq> NUL"
  by (metis cstr_def nth_mem)

lemma deref_drop_nth: "i < length s \<Longrightarrow> deref (drop i s) = s ! i"
  by (simp add: Cons_nth_drop_Suc [symmetric])

lemma splice_step:
  assumes "i < length d" and "j = Suc i" and "take i d = take i x" and "i < length x" and "c = x ! i"
  shows "take j (d[i := c]) = take j x"
  using assms by (simp add: take_Suc_conv_app_nth)

lemma strcpy_from_eq:
  assumes "cstr src" and "i \<le> length src" and "length src < length dest" and "take i dest = take i src"
  shows "strcpy_from dest src i = src @ NUL # drop (Suc (length src)) dest"
  using assms
proof (induction dest src i rule: strcpy_from.induct)
  case (1 dest src i)
  show ?case
  proof (cases "i = length src")
    case True
    then have "dest[i := NUL] = src @ NUL # drop (Suc (length src)) dest"
      using "1.prems" by (simp add: upd_conv_take_nth_drop)
    with True "1.prems" show ?thesis by (simp add: strcpy_from.simps [of dest])
  next
    case False
    with "1.prems" have i: "i < length src" by simp
    then have ne: "deref (drop i src) \<noteq> NUL" "deref (drop i src) = src ! i"
      using "1.prems"(1) cstr_nth by (simp_all add: deref_drop_nth)
    have "take (Suc i) (dest[i := src ! i]) = take (Suc i) src"
      using "1.prems" i by (intro splice_step) auto
    with "1.IH" ne "1.prems" i show ?thesis by (simp add: strcpy_from.simps [of dest])
  qed
qed

lemma strcpy_eq:
  assumes "cstr src" and "length src < length dest"
  shows "strcpy dest src = src @ NUL # drop (Suc (length src)) dest"
  using assms by (simp add: strcpy_def strcpy_from_eq)

lemma strncpy_copy_eq:
  assumes "cstr src" and "i \<le> length src" and "i \<le> n" and "n \<le> length dest" and "take i dest = take i src"
  shows "strncpy_copy dest src n i = (take n src @ drop (min n (length src)) dest, min n (length src))"
  using assms
proof (induction dest src n i rule: strncpy_copy.induct)
  case (1 dest src n i)
  show ?case
  proof (cases "i < n \<and> i < length src")
    case True
    then have ne: "deref (drop i src) \<noteq> NUL" "deref (drop i src) = src ! i"
      using "1.prems"(1) cstr_nth by (simp_all add: deref_drop_nth)
    have "take (Suc i) (dest[i := src ! i]) = take (Suc i) src"
      using "1.prems" True by (intro splice_step) auto
    with "1.IH" ne "1.prems" True show ?thesis by (simp add: strncpy_copy.simps [of dest])
  next
    case False
    then have i: "i = min n (length src)" using "1.prems" by auto
    then have "dest = take n src @ drop i dest" using "1.prems"(5)
      by (metis append_take_drop_id min_def take_all_iff linorder_le_cases)
    moreover have "strncpy_copy dest src n i = (dest, i)"
      using False "1.prems"(1) by (auto simp: strncpy_copy.simps [of dest] deref_drop)
    ultimately show ?thesis using i by simp
  qed
qed

lemma strncpy_pad_eq:
  "i \<le> n \<Longrightarrow> n \<le> length dest \<Longrightarrow> strncpy_pad dest n i = take i dest @ replicate (n - i) NUL @ drop n dest"
proof (induction dest n i rule: strncpy_pad.induct)
  case (1 dest n i)
  show ?case
  proof (cases "i < n")
    case True
    then have "n - i = Suc (n - Suc i)" by simp
    with True "1.IH" "1.prems" show ?thesis
      by (simp add: strncpy_pad.simps [of dest] take_Suc_conv_app_nth)
  next
    case False
    with "1.prems" show ?thesis by (simp add: strncpy_pad.simps [of dest])
  qed
qed

lemma strncpy_eq:
  assumes "cstr src" and "n \<le> length dest"
  shows "strncpy dest src n = take n src @ replicate (n - length src) NUL @ drop n dest"
proof -
  have "strncpy_copy dest src n 0 = (take n src @ drop (min n (length src)) dest, min n (length src))"
    using assms by (intro strncpy_copy_eq) simp_all
  moreover have "n - min n (length src) = n - length src" by simp
  ultimately show ?thesis
    using assms(2) strncpy_pad_eq [of "min n (length src)" n "take n src @ drop (min n (length src)) dest"]
    by (auto simp: strncpy_def min_def)
qed

section \<open>Searching\<close>

text \<open>Results are the offset of the character, \<^const>\<open>None\<close> for a null pointer.\<close>

function strchr_from :: "string \<Rightarrow> char \<Rightarrow> nat \<Rightarrow> nat option" where
  "strchr_from s ch i =
     (if deref (drop i s) = ch then Some i
      else if deref (drop i s) = NUL then None
      else strchr_from s ch (Suc i))"
  by pat_completeness auto
termination
proof (relation "measure (\<lambda>(s, ch, i). length s - i)", goal_cases)
  case (2 s ch i)
  then show ?case using deref_nonempty [of "drop i s"] by simp
qed simp

function strrchr_from :: "string \<Rightarrow> char \<Rightarrow> nat \<Rightarrow> nat option \<Rightarrow> nat option" where
  "strrchr_from s ch i p =
     (let p' = (if deref (drop i s) = ch then Some i else p)
      in if deref (drop i s) = NUL then p' else strrchr_from s ch (Suc i) p')"
  by pat_completeness auto
termination
proof (relation "measure (\<lambda>(s, ch, i, p). length s - i)", goal_cases)
  case (2 s ch i p)
  then show ?case using deref_nonempty [of "drop i s"] by simp
qed simp

declare strchr_from.simps [simp del] strrchr_from.simps [simp del]

definition strchr :: "string \<Rightarrow> char \<Rightarrow> nat option" where
  "strchr s ch = strchr_from s ch 0"

definition strrchr :: "string \<Rightarrow> char \<Rightarrow> nat option" where
  "strrchr s ch = strrchr_from s ch 0 None"

lemma strchr_from_eq:
  assumes "cstr s" and "ch \<noteq> NUL" and "\<forall>j < i. j < length s \<longrightarrow> s ! j \<noteq> ch"
  shows "case strchr_from s ch i of
      None \<Rightarrow> ch \<notin> set s
    | Some k \<Rightarrow> k < length s \<and> s ! k = ch \<and> (\<forall>j < k. s ! j \<noteq> ch)"
  using assms
proof (induction s ch i rule: strchr_from.induct)
  case (1 s ch i)
  show ?case
  proof (cases "i < length s")
    case False
    then have "deref (drop i s) = NUL" using "1.prems"(1) by (simp add: deref_drop)
    with False "1.prems" show ?thesis by (auto simp: strchr_from.simps [of s] in_set_conv_nth)
  next
    case True
    then have d: "deref (drop i s) = s ! i" "s ! i \<noteq> NUL"
      using "1.prems"(1) by (simp_all add: deref_drop_nth) (metis cstr_def nth_mem)
    with "1" True show ?thesis by (auto simp: strchr_from.simps [of s ch i] less_Suc_eq)
  qed
qed

lemma strrchr_from_eq:
  assumes "cstr s" and "ch \<noteq> NUL"
    and "case p of None \<Rightarrow> \<forall>j < i. j < length s \<longrightarrow> s ! j \<noteq> ch
      | Some k \<Rightarrow> k < length s \<and> s ! k = ch \<and> (\<forall>j. k < j \<and> j < i \<and> j < length s \<longrightarrow> s ! j \<noteq> ch)"
  shows "case strrchr_from s ch i p of
      None \<Rightarrow> ch \<notin> set s
    | Some k \<Rightarrow> k < length s \<and> s ! k = ch \<and> (\<forall>j. k < j \<and> j < length s \<longrightarrow> s ! j \<noteq> ch)"
  using assms
proof (induction s ch i p rule: strrchr_from.induct)
  case (1 s ch i p)
  show ?case
  proof (cases "i < length s")
    case False
    then have "deref (drop i s) = NUL" using "1.prems"(1) by (simp add: deref_drop)
    then have "strrchr_from s ch i p = p" using "1.prems"(2) by (simp add: strrchr_from.simps [of s])
    with False "1.prems"(3) show ?thesis by (auto simp: in_set_conv_nth split: option.splits)
  next
    case True
    then have d: "deref (drop i s) = s ! i" "s ! i \<noteq> NUL"
      using "1.prems"(1) by (simp_all add: deref_drop_nth) (metis cstr_def nth_mem)
    let ?p = "if s ! i = ch then Some i else p"
    have "case ?p of None \<Rightarrow> \<forall>j < Suc i. j < length s \<longrightarrow> s ! j \<noteq> ch
      | Some k \<Rightarrow> k < length s \<and> s ! k = ch \<and> (\<forall>j. k < j \<and> j < Suc i \<and> j < length s \<longrightarrow> s ! j \<noteq> ch)"
      using "1.prems"(3) True by (auto simp: less_Suc_eq split: option.splits)
    with "1.IH" [of ?p] d "1.prems"(1,2) show ?thesis by (simp add: strrchr_from.simps [of s ch i p] Let_def)
  qed
qed

end
