(* ===== verification/Numparse.thy ===== *)
theory Numparse
  imports Cstring
begin

text \<open>
  Number parsing and small arithmetic helpers: \<open>bcd_to_int\<close>, \<open>int_to_bcd\<close>,
  \<open>digit_to_int\<close>, \<open>strtoui\<close> (\<^verbatim>\<open>src/common/lib/misc.s2.c\<close>), \<open>parse_resolution\<close>,
  \<open>sqrt\<close>, \<open>get_trailing_zeros\<close> (\<^verbatim>\<open>src/common/lib/misc.c\<close>), \<open>inet_pton\<close>
  (\<^verbatim>\<open>src/common/lib/libc.s2.c\<close>) and \<open>strtoul\<close> (\<^verbatim>\<open>src/common/lib/libc.c\<close>).
\<close>

section \<open>Digits\<close>

definition bcd_to_int :: "u8 \<Rightarrow> u8" where
  "bcd_to_int val = (val AND 0x0f) + drop_bit 4 (val AND 0xf0) * 10"

definition int_to_bcd :: "u8 \<Rightarrow> u8" where
  "int_to_bcd val = (val mod 10) OR push_bit 4 (val div 10)"

definition digit_to_int :: "char \<Rightarrow> int" where
  "digit_to_int c =
     (if code c \<ge> 0x61 \<and> code c \<le> 0x66 then (code c - 0x61) + 10
      else if code c \<ge> 0x41 \<and> code c \<le> 0x46 then (code c - 0x41) + 10
      else if code c \<ge> 0x30 \<and> code c \<le> 0x39 then code c - 0x30
      else -1)"

lemma digit_to_int_range: "digit_to_int c = -1 \<or> 0 \<le> digit_to_int c \<and> digit_to_int c < 16"
  by (auto simp: digit_to_int_def)

lemma digit_to_int_NUL [simp]: "digit_to_int NUL = -1"
  by (simp add: digit_to_int_def)

section \<open>\<open>strtoui\<close>\<close>

definition is_digit :: "int \<Rightarrow> char \<Rightarrow> bool" where
  "is_digit base c \<longleftrightarrow> \<not> (digit_to_int c = -1 \<or> digit_to_int c \<ge> base)"

text \<open>The value and the pointer stored through \<open>end\<close>.\<close>

function strtoui_from :: "u64 \<Rightarrow> string \<Rightarrow> int \<Rightarrow> u64 \<times> string" where
  "strtoui_from n s base =
     (let d = digit_to_int (deref s)
      in if d = -1 \<or> d \<ge> base then (n, s)
         else case CHECKED_MUL n (word_of_int base) of
           None \<Rightarrow> (-1, s)
         | Some mul_result \<Rightarrow>
             (case CHECKED_ADD mul_result (word_of_int d) of
                None \<Rightarrow> (-1, s)
              | Some n' \<Rightarrow> strtoui_from n' (tl s) base))"
  by pat_completeness auto
termination
proof (relation "measure (\<lambda>(n, s, base). length s)", goal_cases)
  case (2 n s base)
  then have "deref s \<noteq> NUL" by auto
  then show ?case using deref_nonempty by simp
qed simp

declare strtoui_from.simps [simp del]

definition strtoui :: "string \<Rightarrow> int \<Rightarrow> u64 \<times> string" where
  "strtoui s base = strtoui_from 0 s base"

text \<open>Reference: the digits and their positional value.\<close>

definition digits_of :: "int \<Rightarrow> string \<Rightarrow> int list" where
  "digits_of base s = map digit_to_int (takeWhile (is_digit base) s)"

definition value_of :: "int \<Rightarrow> int \<Rightarrow> int list \<Rightarrow> int" where
  "value_of base = foldl (\<lambda>n d. n * base + d)"

lemma value_of_mono:
  "\<forall>d \<in> set ds. 0 \<le> d \<Longrightarrow> 0 \<le> n \<Longrightarrow> 1 \<le> base \<Longrightarrow> n \<le> value_of base n ds"
proof (induction ds arbitrary: n)
  case (Cons d ds)
  have "n * 1 \<le> n * base" using Cons.prems by (intro mult_left_mono) simp_all
  then have "n \<le> n * base + d" using Cons.prems by simp
  also have "\<dots> \<le> value_of base (n * base + d) ds" using Cons by simp
  finally show ?case by (simp add: value_of_def)
qed (simp add: value_of_def)

lemma digits_of_nonneg: "\<forall>d \<in> set (digits_of base s). 0 \<le> d"
proof -
  have "0 \<le> digit_to_int c" if "is_digit base c" for c
    using that digit_to_int_range [of c] by (auto simp: is_digit_def)
  then show ?thesis by (auto simp: digits_of_def dest!: set_takeWhileD)
qed

lemma strtoui_step:
  fixes n :: u64
  assumes "0 \<le> d" and "d < base" and "base \<le> 16"
  shows "(case CHECKED_MUL n (word_of_int base) of None \<Rightarrow> None | Some m \<Rightarrow> CHECKED_ADD m (word_of_int d)) =
    (if uint n * base + d < 2 ^ 64 then Some (word_of_int (uint n * base + d)) else None)"
proof -
  have b: "uint (word_of_int base :: u64) = base" and dd: "uint (word_of_int d :: u64) = d"
    using assms by (simp_all add: uint_word_of_int_id)
  have nb: "n * word_of_int base = (word_of_int (uint n * base) :: u64)" by simp
  show ?thesis
  proof (cases "uint n * base < 2 ^ 64")
    case False
    with assms show ?thesis by (simp add: CHECKED_MUL_eq b)
  next
    case True
    have "uint (n * word_of_int base) = uint n * base"
      unfolding nb using True assms by (intro uint_word_of_int_id) simp_all
    then have eq: "int (unat (n * word_of_int base) + unat (word_of_int d :: u64)) = uint n * base + d"
      using dd by simp
    have lt: "int k < 2 ^ 64 \<longleftrightarrow> k < 2 ^ 64" for k by simp
    have "unat (n * word_of_int base) + unat (word_of_int d :: u64) < 2 ^ 64 \<longleftrightarrow> uint n * base + d < 2 ^ 64"
      unfolding eq [symmetric] by (rule lt [symmetric])
    moreover have "n * word_of_int base + word_of_int d = (word_of_int (uint n * base + d) :: u64)" by simp
    ultimately show ?thesis using True by (simp add: CHECKED_MUL_eq b CHECKED_ADD_def)
  qed
qed

lemma strtoui_from_eq:
  assumes "1 \<le> base" and "base \<le> 16"
  shows "if value_of base (uint n) (digits_of base s) < 2 ^ 64
    then strtoui_from n s base = (word_of_int (value_of base (uint n) (digits_of base s)), dropWhile (is_digit base) s)
    else fst (strtoui_from n s base) = -1"
proof (induction s arbitrary: n)
  case Nil
  then show ?case
    using uint_u64_less [of n] by (simp add: strtoui_from.simps [of n "[]"] digits_of_def value_of_def)
next
  case (Cons c s)
  let ?d = "digit_to_int c"
  show ?case
  proof (cases "is_digit base c")
    case False
    then show ?thesis
      using uint_u64_less [of n] by (auto simp: strtoui_from.simps [of n "c # s"] digits_of_def value_of_def is_digit_def)
  next
    case True
    then have d: "0 \<le> ?d" "?d < base" using digit_to_int_range [of c] by (auto simp: is_digit_def)
    note st = strtoui_step [OF d assms(2), of n]
    let ?v = "uint n * base + ?d"
    have val: "value_of base (uint n) (digits_of base (c # s)) = value_of base ?v (digits_of base s)"
      using True by (simp add: digits_of_def value_of_def)
    have unf: "strtoui_from n (c # s) base =
        (case (case CHECKED_MUL n (word_of_int base) of None \<Rightarrow> None | Some m \<Rightarrow> CHECKED_ADD m (word_of_int ?d)) of
           None \<Rightarrow> (-1, c # s) | Some n' \<Rightarrow> strtoui_from n' s base)"
      using True by (auto simp: strtoui_from.simps [of n "c # s"] is_digit_def Let_def split: option.splits)
    show ?thesis
    proof (cases "?v < 2 ^ 64")
      case True
      have "0 \<le> ?v" using d assms by simp
      define w :: u64 where "w = word_of_int ?v"
      have "uint w = ?v" unfolding w_def using True \<open>0 \<le> ?v\<close> by (intro uint_word_of_int_id) simp_all
      moreover from st True have "strtoui_from n (c # s) base = strtoui_from w s base"
        unfolding unf w_def by (simp del: of_int_add of_int_mult)
      ultimately show ?thesis
        using Cons.IH [of w] \<open>is_digit base c\<close> unfolding val by simp
    next
      case False
      have "?v \<le> value_of base ?v (digits_of base s)"
        using digits_of_nonneg d assms by (intro value_of_mono) simp_all
      with False show ?thesis unfolding val unf st by simp
    qed
  qed
qed

section \<open>\<open>inet_pton\<close>\<close>

text \<open>The loop over the octets still to read; \<^const>\<open>None\<close> for the result \<open>-1\<close>.\<close>

fun inet_octets :: "nat \<Rightarrow> string \<Rightarrow> u8 list option" where
  "inet_octets 0 current = Some []"
| "inet_octets (Suc k) current =
     (case strtoui current 10 of
        (v, newcur) \<Rightarrow>
          if length newcur = length current then None
          else if k > 0 \<and> deref newcur \<noteq> CHR ''.'' then None
          else if k = 0 \<and> deref newcur \<noteq> NUL then None
          else if v > 255 then None
          else (case inet_octets k (if k > 0 then tl newcur else newcur) of
                  None \<Rightarrow> None
                | Some os \<Rightarrow> Some (ucast v # os)))"

definition inet_pton :: "string \<Rightarrow> u8 list option" where
  "inet_pton src = inet_octets 4 src"

text \<open>Decimal printing, the inverse.\<close>

fun dec :: "nat \<Rightarrow> string" where
  "dec n = (if n < 10 then [char_of (n + 48)] else dec (n div 10) @ [char_of (n mod 10 + 48)])"

declare dec.simps [simp del]

lemma digit_char: "k < 10 \<Longrightarrow> digit_to_int (char_of (k + 48 :: nat)) = int k"
proof -
  assume k: "k < 10"
  have "code (char_of (k + 48 :: nat)) = int (of_char (char_of (k + 48 :: nat) :: char))"
    by (simp only: of_nat_of_char)
  also have "\<dots> = int k + 48" using k by simp
  finally show ?thesis using k by (simp add: digit_to_int_def)
qed

lemma dec_digits:
  "takeWhile (is_digit 10) (dec n @ rest) = dec n @ takeWhile (is_digit 10) rest \<and>
   value_of 10 0 (map digit_to_int (dec n)) = int n \<and> dec n \<noteq> []"
proof (induction n arbitrary: rest rule: dec.induct)
  case (1 n)
  have d: "is_digit 10 (char_of (k + 48 :: nat))" if "k < 10" for k
    using digit_char [OF that] that by (simp add: is_digit_def)
  show ?case
  proof (cases "n < 10")
    case True
    with d [OF True] digit_char [OF True] show ?thesis by (simp add: dec.simps [of n] value_of_def)
  next
    case False
    have m: "n mod 10 < 10" by simp
    have "int n = int (n div 10) * 10 + int (n mod 10)"
      by (metis div_mult_mod_eq of_nat_add of_nat_mult of_nat_numeral)
    with False "1.IH" d [OF m] digit_char [OF m] show ?thesis
      by (simp add: dec.simps [of n] value_of_def)
  qed
qed

lemma strtoui_dec:
  assumes "n < 2 ^ 64" and "\<not> is_digit 10 (deref rest)"
  shows "strtoui (dec n @ rest) 10 = (of_nat n, rest)"
proof -
  have r: "takeWhile (is_digit 10) rest = []" "dropWhile (is_digit 10) rest = rest"
    using assms(2) by (cases rest; simp)+
  have "digits_of 10 (dec n @ rest) = map digit_to_int (dec n)"
    using dec_digits [of n rest] r by (simp add: digits_of_def)
  moreover have "dropWhile (is_digit 10) (dec n @ rest) = rest"
    using dec_digits [of n rest] r by (metis append_Nil2 append_eq_append_conv takeWhile_dropWhile_id)
  moreover have "value_of 10 0 (map digit_to_int (dec n)) = int n" using dec_digits by blast
  ultimately show ?thesis
    using strtoui_from_eq [of 10 0 "dec n @ rest"] assms(1) by (simp add: strtoui_def)
qed

lemma inet_octets_dec:
  assumes "n < 256" and "\<not> is_digit 10 (deref rest)"
    and "if k > 0 then deref rest = CHR ''.'' else rest = []"
  shows "inet_octets (Suc k) (dec n @ rest) =
    (case inet_octets k (if k > 0 then tl rest else rest) of None \<Rightarrow> None | Some os \<Rightarrow> Some (of_nat n # os))"
proof -
  have st: "strtoui (dec n @ rest) 10 = (of_nat n, rest)" using assms by (intro strtoui_dec) simp_all
  have "dec n \<noteq> []" using dec_digits by blast
  moreover have "\<not> (of_nat n :: u64) > 255"
    using assms(1) by (simp add: word_less_nat_alt unat_of_nat)
  moreover have "ucast (of_nat n :: u64) = (of_nat n :: u8)"
    using assms(1) by (simp add: word_unat_eq_iff unsigned_ucast_eq unat_of_nat take_bit_eq_mod)
  ultimately show ?thesis using assms(3) by (auto simp: st split: option.splits)
qed

definition dotted :: "nat \<Rightarrow> nat \<Rightarrow> nat \<Rightarrow> nat \<Rightarrow> string" where
  "dotted a b c d = dec a @ ''.'' @ dec b @ ''.'' @ dec c @ ''.'' @ dec d"

lemma dot_not_digit [simp]: "\<not> is_digit 10 CHR ''.''" "\<not> is_digit 10 NUL"
  by (simp_all add: is_digit_def digit_to_int_def)

lemma inet_pton_dotted:
  assumes "a < 256" "b < 256" "c < 256" "d < 256"
  shows "inet_pton (dotted a b c d) = Some [of_nat a, of_nat b, of_nat c, of_nat d]"
proof -
  have "inet_octets 1 (dec d @ []) = Some [of_nat d]"
    using inet_octets_dec [of d "[]" 0] assms by simp
  moreover have "inet_octets (Suc (Suc k)) (dec n @ CHR ''.'' # r) =
      (case inet_octets (Suc k) r of None \<Rightarrow> None | Some os \<Rightarrow> Some (of_nat n # os))" if "n < 256" for n k r
    using inet_octets_dec [of n "CHR ''.'' # r" "Suc k"] that by simp
  ultimately show ?thesis using assms
    by (simp add: inet_pton_def dotted_def eval_nat_numeral del: inet_octets.simps)
qed

section \<open>\<open>parse_resolution\<close>\<close>

text \<open>The loop filling \<open>res[0..2]\<close>: it stops at a position without digits or at the terminator.\<close>

fun resolution_fields :: "nat \<Rightarrow> string \<Rightarrow> u64 list" where
  "resolution_fields 0 first = []"
| "resolution_fields (Suc k) first =
     (case strtoui first 10 of
        (x, last_p) \<Rightarrow>
          if length last_p = length first then []
          else if deref last_p = NUL then [x]
          else x # resolution_fields k (tl last_p))"

definition parse_resolution :: "string \<Rightarrow> (u64 \<times> u64 \<times> u64) option" where
  "parse_resolution buf =
     (let fs = resolution_fields 3 buf;
          res = (\<lambda>i. if i < length fs then fs ! i else 0)
      in if res 0 = 0 \<or> res 1 = 0 then None
         else Some (res 0, res 1, if res 2 = 0 then 32 else res 2))"

lemma resolution_fields_dec:
  assumes "n < 2 ^ 64" and "\<not> is_digit 10 c" and "c \<noteq> NUL"
  shows "resolution_fields (Suc k) (dec n @ c # r) = of_nat n # resolution_fields k r"
    and "resolution_fields (Suc k) (dec n) = [of_nat n]"
proof -
  have ne: "dec n \<noteq> []" using dec_digits by blast
  show "resolution_fields (Suc k) (dec n @ c # r) = of_nat n # resolution_fields k r"
    using strtoui_dec [of n "c # r"] assms ne by simp
  show "resolution_fields (Suc k) (dec n) = [of_nat n]"
    using strtoui_dec [of n "[]"] assms ne by simp
qed

section \<open>Integer square root\<close>


function sqrt_scale :: "u64 \<Rightarrow> u64 \<Rightarrow> u64" where
  "sqrt_scale op one = (if one > op then sqrt_scale op (drop_bit 2 one) else one)"
  by pat_completeness auto
termination
proof (relation "measure (\<lambda>(op, one). unat one)", goal_cases)
  case (2 op one)
  then have "0 < unat one" by (simp add: word_less_nat_alt)
  then show ?case by (simp add: unat_shift_div)
qed simp

function sqrt_loop :: "u64 \<Rightarrow> u64 \<Rightarrow> u64 \<Rightarrow> u64" where
  "sqrt_loop op res one =
     (if one \<noteq> 0 then
        (if op \<ge> res + one
         then sqrt_loop (op - (res + one)) (drop_bit 1 (res + 2 * one)) (drop_bit 2 one)
         else sqrt_loop op (drop_bit 1 res) (drop_bit 2 one))
      else res)"
  by pat_completeness auto
termination
proof (relation "measure (\<lambda>(op, res, one). unat one)", goal_cases)
  case (2 op res one)
  then have "0 < unat one" by (simp add: unat_gt_0)
  then show ?case by (simp add: unat_shift_div)
next
  case (3 op res one)
  then have "0 < unat one" by (simp add: unat_gt_0)
  then show ?case by (simp add: unat_shift_div)
qed simp

declare sqrt_scale.simps [simp del] sqrt_loop.simps [simp del]

definition sqrt :: "u64 \<Rightarrow> u64" where
  "sqrt a_nInput = sqrt_loop a_nInput 0 (sqrt_scale a_nInput (2 ^ 62))"

lemma unat_four_power: "k \<le> 31 \<Longrightarrow> unat (4 ^ k :: u64) = 4 ^ k"
proof -
  assume "k \<le> 31"
  then have "(4 :: nat) ^ k \<le> 4 ^ 31" by (intro power_increasing) simp_all
  then have "unat (of_nat (4 ^ k) :: u64) = 4 ^ k" by (simp add: unat_of_nat del: of_nat_power)
  then show ?thesis by simp
qed

lemma drop_four_power: "k < 31 \<Longrightarrow> drop_bit 2 (4 ^ Suc k :: u64) = 4 ^ k"
  unfolding word_unat_eq_iff unat_shift_div
  using unat_four_power [of "Suc k"] unat_four_power [of k] by simp

text \<open>
  The loop invariant at \<open>one = 4 ^ k\<close>: \<open>a\<close> is the root found so far, a multiple of
  \<open>2 ^ Suc k\<close>; \<open>op\<close> holds \<open>N - a * a\<close>, \<open>res\<close> holds \<open>a * 2 ^ Suc k\<close>.
\<close>

definition sqrt_inv :: "nat \<Rightarrow> nat \<Rightarrow> nat \<Rightarrow> u64 \<Rightarrow> u64 \<Rightarrow> bool" where
  "sqrt_inv N k a op res \<longleftrightarrow> a * a \<le> N \<and> unat op = N - a * a \<and> unat res = a * 2 ^ k \<and>
     a + 2 ^ k \<le> 2 ^ 32 \<and> N < (a + 2 ^ k) * (a + 2 ^ k)"

lemma unat_add_id: "unat a + unat b < 2 ^ LENGTH('a) \<Longrightarrow> unat (a + b) = unat a + unat b" for a b :: "'a::len word"
  by (simp add: unat_word_ariths)

lemma sqrt_loop_step:
  fixes op res :: u64
  assumes k: "k \<le> 31" and inv: "sqrt_inv N (Suc k) a op res"
  shows "unat (res + 4 ^ k) = a * 2 ^ Suc k + 4 ^ k"
    and "op \<ge> res + 4 ^ k \<longleftrightarrow> (a + 2 ^ k) * (a + 2 ^ k) \<le> N"
    and "op \<ge> res + 4 ^ k \<Longrightarrow> sqrt_inv N k (a + 2 ^ k) (op - (res + 4 ^ k)) (drop_bit 1 (res + 2 * 4 ^ k))"
    and "\<not> op \<ge> res + 4 ^ k \<Longrightarrow> sqrt_inv N k a op (drop_bit 1 res)"
proof -
  have four: "(4 :: nat) ^ k = 2 ^ k * 2 ^ k" by (simp flip: power_mult_distrib)
  have sq: "(a + 2 ^ k) * (a + 2 ^ k) = a * a + (a * 2 ^ Suc k + 4 ^ k)"
    by (simp add: four algebra_simps)
  have "a * 2 ^ Suc k + 4 * 4 ^ k = (a + 2 ^ Suc k) * 2 ^ Suc k" by (simp add: four algebra_simps)
  also have "\<dots> \<le> 2 ^ 32 * 2 ^ Suc k" using inv by (intro mult_right_mono) (simp_all add: sqrt_inv_def)
  also have "\<dots> \<le> 2 ^ 32 * 2 ^ 32" using k by (intro mult_left_mono power_increasing) simp_all
  finally have "a * 2 ^ Suc k + 4 * 4 ^ k \<le> 2 ^ 64" by simp
  moreover have "(0 :: nat) < 4 ^ k" by simp
  ultimately have b: "a * 2 ^ Suc k + 2 * 4 ^ k < 2 ^ 64" by linarith
  have one: "unat (4 ^ k :: u64) = 4 ^ k" using k by (rule unat_four_power)
  have res: "unat res = a * 2 ^ Suc k" and op: "unat op = N - a * a" "a * a \<le> N" using inv by (simp_all add: sqrt_inv_def)
  show s1: "unat (res + 4 ^ k) = a * 2 ^ Suc k + 4 ^ k"
    using b by (subst unat_add_id) (simp_all add: one res del: power_Suc)
  show cmp: "op \<ge> res + 4 ^ k \<longleftrightarrow> (a + 2 ^ k) * (a + 2 ^ k) \<le> N"
    unfolding word_le_nat_alt s1 sq op(1) using op(2) by linarith
  have "res + 2 * 4 ^ k = (res + 4 ^ k) + 4 ^ k" by simp
  moreover have "unat ((res + 4 ^ k) + 4 ^ k) = unat (res + 4 ^ k) + unat (4 ^ k :: u64)"
    using b by (intro unat_add_id) (simp add: s1 one del: power_Suc)
  ultimately have s2: "unat (res + 2 * 4 ^ k) = a * 2 ^ Suc k + 2 * 4 ^ k"
    by (simp only: s1 one)
  have half: "(a * 2 ^ Suc k + 2 * 4 ^ k) div 2 = (a + 2 ^ k) * 2 ^ k" "(a * 2 ^ Suc k) div 2 = a * 2 ^ k"
    by (simp_all add: four algebra_simps)
  show "sqrt_inv N k (a + 2 ^ k) (op - (res + 4 ^ k)) (drop_bit 1 (res + 2 * 4 ^ k))" if "op \<ge> res + 4 ^ k"
  proof -
    have "unat (op - (res + 4 ^ k)) = N - (a + 2 ^ k) * (a + 2 ^ k)"
      using that unfolding sq by (subst unat_sub) (simp_all add: s1 op(1) del: power_Suc)
    moreover have "unat (drop_bit 1 (res + 2 * 4 ^ k)) = (a + 2 ^ k) * 2 ^ k"
      unfolding unat_shift_div s2 using half(1) by simp
    moreover have "a + 2 ^ k + 2 ^ k = a + 2 ^ Suc k" by simp
    ultimately show ?thesis using that cmp inv unfolding sqrt_inv_def by (simp only:)
  qed
  show "sqrt_inv N k a op (drop_bit 1 res)" if "\<not> op \<ge> res + 4 ^ k"
  proof -
    have "unat (drop_bit 1 res) = a * 2 ^ k" unfolding unat_shift_div res using half(2) by simp
    moreover have "N < (a + 2 ^ k) * (a + 2 ^ k)" using that cmp by simp
    ultimately show ?thesis using inv unfolding sqrt_inv_def by simp
  qed
qed

lemma sqrt_loop_correct:
  assumes "sqrt_inv N (Suc k) a op res" and "k \<le> 31"
  shows "\<exists>op'. sqrt_inv N 0 (unat (sqrt_loop op res (4 ^ k))) op' (sqrt_loop op res (4 ^ k))"
  using assms
proof (induction k arbitrary: a op res)
  case 0
  have fin: "drop_bit 2 (1 :: u64) = 0" by simp
  show ?case
    using sqrt_loop_step(3,4) [OF "0.prems"(2,1)]
    by (auto simp: sqrt_loop.simps [of op res 1] sqrt_loop.simps [of _ _ 0] fin sqrt_inv_def)
next
  case (Suc k)
  have "4 ^ Suc k \<noteq> (0 :: u64)" using unat_four_power [OF Suc.prems(2)] by (metis power_not_zero unat_0 zero_neq_numeral)
  then have unf: "sqrt_loop op res (4 ^ Suc k) =
     (if op \<ge> res + 4 ^ Suc k
         then sqrt_loop (op - (res + 4 ^ Suc k)) (drop_bit 1 (res + 2 * 4 ^ Suc k)) (4 ^ k)
         else sqrt_loop op (drop_bit 1 res) (4 ^ k))"
    using drop_four_power [of k] Suc.prems(2) by (subst sqrt_loop.simps) (simp del: power_Suc)
  show ?case
    using sqrt_loop_step(3,4) [OF Suc.prems(2,1)] Suc.IH Suc.prems(2) unfolding unf by (auto simp del: power_Suc)
qed

lemma sqrt_scale_power:
  assumes "k \<le> 31" and "unat op < 4 ^ Suc k"
  shows "sqrt_scale op (4 ^ k) = 0 \<and> op = 0 \<or>
    (\<exists>j \<le> 31. sqrt_scale op (4 ^ k) = 4 ^ j \<and> unat op < 4 ^ Suc j)"
  using assms
proof (induction k)
  case 0
  show ?case
  proof (cases "op = 0")
    case True
    then show ?thesis by (simp add: sqrt_scale.simps [of 0 1] sqrt_scale.simps [of 0 0])
  next
    case False
    then have "\<not> op < 1" by (simp add: word_less_nat_alt unat_gt_0)
    with "0.prems" have "sqrt_scale op (4 ^ 0) = 4 ^ 0 \<and> unat op < 4 ^ Suc 0" by (simp add: sqrt_scale.simps [of op 1])
    then show ?thesis by blast
  qed
next
  case (Suc k)
  show ?case
  proof (cases "op < 4 ^ Suc k")
    case True
    then have "unat op < 4 ^ Suc k" using unat_four_power [OF Suc.prems(1)] by (simp add: word_less_nat_alt del: power_Suc)
    moreover have "sqrt_scale op (4 ^ Suc k) = sqrt_scale op (4 ^ k)"
      using True drop_four_power [of k] Suc.prems(1) by (subst sqrt_scale.simps) (simp del: power_Suc)
    ultimately show ?thesis using Suc.IH Suc.prems(1) by simp
  next
    case False
    then have "sqrt_scale op (4 ^ Suc k) = 4 ^ Suc k" by (subst sqrt_scale.simps) (simp del: power_Suc)
    with Suc.prems show ?thesis by blast
  qed
qed

lemma sqrt_floor: "unat (sqrt n) * unat (sqrt n) \<le> unat n \<and> unat n < (unat (sqrt n) + 1) * (unat (sqrt n) + 1)"
proof -
  have "unat n < 4 ^ Suc 31" using unsigned_less [of n] by simp
  with sqrt_scale_power [of 31 n] consider "sqrt_scale n (2 ^ 62) = 0" "n = 0"
    | j where "j \<le> 31" "sqrt_scale n (2 ^ 62) = 4 ^ j" "unat n < 4 ^ Suc j" by auto
  then show ?thesis
  proof cases
    case 1
    then show ?thesis by (simp add: sqrt_def sqrt_loop.simps [of _ _ 0])
  next
    case 2
    have four: "(4 :: nat) ^ Suc j = 2 ^ Suc j * 2 ^ Suc j" by (simp flip: power_mult_distrib)
    have "(2 :: nat) ^ Suc j \<le> 2 ^ 32" using 2(1) by (intro power_increasing) simp_all
    then have "sqrt_inv (unat n) (Suc j) 0 n 0"
      unfolding sqrt_inv_def using 2(3) four by simp
    from sqrt_loop_correct [OF this 2(1)] show ?thesis
      unfolding sqrt_def 2(2) sqrt_inv_def by auto
  qed
qed

section \<open>Counting trailing zeros\<close>

fun trailing_zeros_from :: "u64 \<Rightarrow> nat \<Rightarrow> nat \<Rightarrow> nat" where
  "trailing_zeros_from val i 0 = 64"
| "trailing_zeros_from val i (Suc n) =
     (if val AND 1 \<noteq> 0 then i else trailing_zeros_from (drop_bit 1 val) (Suc i) n)"

definition get_trailing_zeros :: "u64 \<Rightarrow> nat" where
  "get_trailing_zeros val = trailing_zeros_from val 0 64"

lemma trailing_zeros_from_eq:
  assumes "\<forall>j < i. \<not> bit v j" and "i + n = 64"
  shows "let t = trailing_zeros_from (drop_bit i v) i n in
    (\<forall>j < t. \<not> bit v j) \<and> (t < 64 \<longrightarrow> bit v t) \<and> t \<le> 64"
  using assms
proof (induction n arbitrary: i)
  case 0
  then show ?case by simp
next
  case (Suc n)
  have o: "drop_bit i v AND 1 \<noteq> 0 \<longleftrightarrow> bit v i"
    by (simp add: and_one_eq mod2_eq_if bit_drop_bit_eq even_drop_bit_iff_not_bit)
  show ?case
  proof (cases "bit v i")
    case True
    with Suc.prems o show ?thesis by (simp add: Let_def)
  next
    case False
    with Suc.prems(1) have "\<forall>j < Suc i. \<not> bit v j" by (simp add: less_Suc_eq)
    with Suc.IH [of "Suc i"] Suc.prems(2) False o show ?thesis by (simp add: Let_def)
  qed
qed

section \<open>Binary coded decimal\<close>

lemma bcd_round_trip: "n < 100 \<Longrightarrow> bcd_to_int (int_to_bcd (of_nat n)) = of_nat n"
proof -
  have "\<forall>n \<in> set [0..<100]. bcd_to_int (int_to_bcd (of_nat n)) = of_nat n" by code_simp
  then show "n < 100 \<Longrightarrow> ?thesis" by simp
qed

section \<open>\<open>strtoul\<close>\<close>

text \<open>The digit of a character in any base up to 36, \<^const>\<open>None\<close> where the loop breaks.\<close>

definition alnum_digit :: "char \<Rightarrow> int option" where
  "alnum_digit c =
     (if code c \<ge> 0x30 \<and> code c \<le> 0x39 then Some (code c - 0x30)
      else if code c \<ge> 0x41 \<and> code c \<le> 0x5a then Some (code c - (0x41 - 10))
      else if code c \<ge> 0x61 \<and> code c \<le> 0x7a then Some (code c - (0x61 - 10))
      else None)"

lemma alnum_digit_NUL [simp]: "alnum_digit NUL = None"
  by (simp add: alnum_digit_def)

text \<open>
  The accumulation loop, on \<open>acc\<close>, \<open>any\<close> and the string whose first character is \<open>c\<close>
  (the code's \<open>s\<close> points one further, hence \<open>s - 1\<close> in the end pointer).
\<close>

function strtoul_loop :: "int \<Rightarrow> u64 \<Rightarrow> int \<Rightarrow> string \<Rightarrow> u64 \<times> int \<times> string" where
  "strtoul_loop base acc any s =
     (case alnum_digit (deref s) of
        None \<Rightarrow> (acc, any, s)
      | Some d \<Rightarrow>
          if d \<ge> base then (acc, any, s)
          else (let cutoff = (2 ^ 64 - 1) div base; cutlim = (2 ^ 64 - 1) mod base
                in if any < 0 \<or> uint acc > cutoff \<or> (uint acc = cutoff \<and> d > cutlim)
                   then strtoul_loop base acc (-1) (tl s)
                   else strtoul_loop base (acc * word_of_int base + word_of_int d) 1 (tl s)))"
  by pat_completeness auto

termination
proof (relation "measure (\<lambda>(base, acc, any, s). length s)", goal_cases)
  case (2 base acc any s)
  then have "deref s \<noteq> NUL" by auto
  then show ?case using deref_nonempty by simp
next
  case (3 base acc any s)
  then have "deref s \<noteq> NUL" by auto
  then show ?case using deref_nonempty by simp
qed simp

declare strtoul_loop.simps [simp del]

fun skip_space :: "string \<Rightarrow> string" where
  "skip_space [] = []"
| "skip_space (c # s) = (if isspace (code c) then skip_space s else c # s)"

definition is_hex :: "char \<Rightarrow> bool" where
  "is_hex c \<longleftrightarrow> code c \<ge> 0x30 \<and> code c \<le> 0x39 \<or> code c \<ge> 0x41 \<and> code c \<le> 0x46 \<or>
     code c \<ge> 0x61 \<and> code c \<le> 0x66"

text \<open>The value and the end pointer.\<close>

definition strtoul :: "string \<Rightarrow> int \<Rightarrow> u64 \<times> string" where
  "strtoul nptr base0 =
     (let s0 = skip_space nptr;
          neg = (deref s0 = CHR ''-'');
          s1 = (if neg \<or> deref s0 = CHR ''+'' then tl s0 else s0);
          hex = ((base0 = 0 \<or> base0 = 16) \<and> deref s1 = CHR ''0'' \<and>
                 (deref (tl s1) = CHR ''x'' \<or> deref (tl s1) = CHR ''X'') \<and> is_hex (deref (tl (tl s1))));
          s2 = (if hex then tl (tl s1) else s1);
          base1 = (if hex then 16 else base0);
          base = (if base1 = 0 then (if deref s2 = CHR ''0'' then 8 else 10) else base1)
      in if base < 2 \<or> base > 36 then (0, nptr)
         else (case strtoul_loop base 0 0 s2 of
                 (acc, any, rest) \<Rightarrow>
                   (if any < 0 then -1 else if any = 0 then acc else if neg then - acc else acc,
                    if any \<noteq> 0 then rest else nptr)))"

definition alnum_value :: "int \<Rightarrow> char \<Rightarrow> bool" where
  "alnum_value base c \<longleftrightarrow> (case alnum_digit c of None \<Rightarrow> False | Some d \<Rightarrow> d < base)"

lemma alnum_digit_nonneg: "alnum_digit c = Some d \<Longrightarrow> 0 \<le> d"
  by (auto simp: alnum_digit_def split: if_splits)

text \<open>The cutoff test is exactly the overflow test.\<close>

lemma cutoff_test:
  fixes n base d :: int
  assumes "2 \<le> base" and "0 \<le> d" and "d < base"
  shows "(n > (2 ^ 64 - 1) div base \<or> n = (2 ^ 64 - 1) div base \<and> d > (2 ^ 64 - 1) mod base)
    \<longleftrightarrow> \<not> n * base + d < 2 ^ 64"
proof -
  define q r where "q = (2 ^ 64 - 1) div base" and "r = (2 ^ 64 - 1) mod base"
  have M: "2 ^ 64 - 1 = q * base + r" and r: "0 \<le> r" "r < base"
    using assms(1) by (simp_all add: q_def r_def)
  consider "n < q" | "n = q" | "n > q" by linarith
  then show ?thesis unfolding q_def [symmetric] r_def [symmetric]
  proof cases
    case 1
    then have "(n + 1) * base \<le> q * base" using assms(1) by (intro mult_right_mono) simp_all
    then have "n * base + base \<le> q * base" by (simp add: algebra_simps)
    then show "(n > q \<or> n = q \<and> d > r) \<longleftrightarrow> \<not> n * base + d < 2 ^ 64" using M r assms 1 by linarith
  next
    case 2
    then have "n * base = q * base" by simp
    then show "(n > q \<or> n = q \<and> d > r) \<longleftrightarrow> \<not> n * base + d < 2 ^ 64" using M 2 by linarith
  next
    case 3
    then have "(q + 1) * base \<le> n * base" using assms(1) by (intro mult_right_mono) simp_all
    then have "q * base + base \<le> n * base" by (simp add: algebra_simps)
    then show "(n > q \<or> n = q \<and> d > r) \<longleftrightarrow> \<not> n * base + d < 2 ^ 64" using M r assms 3 by linarith
  qed
qed

lemma strtoul_loop_saturated:
  "2 \<le> base \<Longrightarrow> any < 0 \<Longrightarrow> fst (snd (strtoul_loop base acc any s)) < 0 \<and>
     snd (snd (strtoul_loop base acc any s)) = dropWhile (alnum_value base) s"
proof (induction s arbitrary: acc any)
  case Nil
  then show ?case by (simp add: strtoul_loop.simps [of base acc any "[]"])
next
  case (Cons c s)
  then show ?case
    by (auto simp: strtoul_loop.simps [of base acc any "c # s"] alnum_value_def Let_def split: option.splits)
qed

lemma strtoul_loop_eq:
  assumes "2 \<le> base" and "base \<le> 36" and "0 \<le> any"
  shows "let ds = map (\<lambda>c. the (alnum_digit c)) (takeWhile (alnum_value base) s); v = value_of base (uint acc) ds
    in if v < 2 ^ 64
       then strtoul_loop base acc any s =
         (word_of_int v, if ds = [] then any else 1, dropWhile (alnum_value base) s)
       else fst (snd (strtoul_loop base acc any s)) < 0 \<and>
         snd (snd (strtoul_loop base acc any s)) = dropWhile (alnum_value base) s"
  using assms(3)
proof (induction s arbitrary: acc any)
  case Nil
  then show ?case using uint_u64_less [of acc]
    by (simp add: strtoul_loop.simps [of base acc any "[]"] value_of_def Let_def)
next
  case (Cons c s)
  show ?case
  proof (cases "alnum_value base c")
    case False
    then show ?thesis using uint_u64_less [of acc]
      by (auto simp: strtoul_loop.simps [of base acc any "c # s"] value_of_def Let_def alnum_value_def split: option.splits)
  next
    case True
    then obtain d where d: "alnum_digit c = Some d" "d < base" by (auto simp: alnum_value_def split: option.splits)
    have d0: "0 \<le> d" using d(1) by (rule alnum_digit_nonneg)
    let ?ds = "map (\<lambda>c. the (alnum_digit c)) (takeWhile (alnum_value base) s)"
    let ?n = "uint acc * base + d"
    have v: "value_of base (uint acc) (d # ?ds) = value_of base ?n ?ds" by (simp add: value_of_def)
    have nn: "\<forall>x \<in> set ?ds. 0 \<le> x"
      using alnum_digit_nonneg by (auto simp: alnum_value_def split: option.splits dest!: set_takeWhileD)
    note cut = cutoff_test [OF assms(1) d0 d(2), of "uint acc"]
    show ?thesis
    proof (cases "?n < 2 ^ 64")
      case fits: True
      define w :: u64 where "w = word_of_int ?n"
      have w: "uint w = ?n" unfolding w_def using fits d0 assms(1) by (intro uint_word_of_int_id) simp_all
      have "strtoul_loop base acc any (c # s) = strtoul_loop base (acc * word_of_int base + word_of_int d) 1 s"
        using d Cons.prems cut fits by (subst strtoul_loop.simps) (auto simp: Let_def)
      also have "acc * word_of_int base + word_of_int d = w" by (simp add: w_def)
      finally show ?thesis
        using Cons.IH [of 1 w] w True d(1) v by (simp add: Let_def)
    next
      case False
      have "strtoul_loop base acc any (c # s) = strtoul_loop base acc (-1) s"
        using d Cons.prems cut False by (subst strtoul_loop.simps) (auto simp: Let_def)
      moreover have "\<not> value_of base ?n ?ds < 2 ^ 64"
        using False value_of_mono [OF nn, of ?n base] d0 assms(1) by simp
      ultimately show ?thesis
        using strtoul_loop_saturated [OF assms(1), of "-1" acc s] True d(1) v by (simp add: Let_def)
    qed
  qed
qed

end
