(* ===== verification/Guid.thy ===== *)
theory Guid
  imports Numparse
begin

text \<open>
  \<^verbatim>\<open>src/common/lib/guid.c\<close>: checking, parsing and printing GUIDs. The struct is its sixteen
  bytes; the fields \<open>a\<close>, \<open>b\<close>, \<open>c\<close> read by \<open>guid_to_string\<close> are little-endian.
\<close>

section \<open>Parsing\<close>

text \<open>The loop of \<open>is_valid_guid\<close>: positions up to 35, then the terminator at 36.\<close>

function valid_guid_from :: "string \<Rightarrow> nat \<Rightarrow> bool" where
  "valid_guid_from s i =
     (if i \<ge> 36 then deref (drop i s) = NUL
      else if i = 8 \<or> i = 13 \<or> i = 18 \<or> i = 23 then
        (if deref (drop i s) \<noteq> CHR ''-'' then False else valid_guid_from s (Suc i))
      else if digit_to_int (deref (drop i s)) = -1 then False
      else valid_guid_from s (Suc i))"
  by pat_completeness auto
termination
  by (relation "measure (\<lambda>(s, i). 36 - i)") auto

declare valid_guid_from.simps [simp del]

definition is_valid_guid :: "string \<Rightarrow> bool" where
  "is_valid_guid s = valid_guid_from s 0"

definition hexval :: "char \<Rightarrow> u8" where
  "hexval c = word_of_int (digit_to_int c)"

text \<open>
  The two cluster loops, on the destination bytes and the write position \<open>p\<close>. An odd
  \<open>i\<close> is the low digit of a byte.
\<close>

fun le_cluster :: "u8 list \<Rightarrow> nat \<Rightarrow> string \<Rightarrow> nat \<Rightarrow> u8 list" where
  "le_cluster dest p s 0 = dest"
| "le_cluster dest p s (Suc i) =
     (if i mod 2 = 1 then le_cluster (dest[p := hexval (s ! i)]) p s i
      else le_cluster (dest[p := dest ! p OR push_bit 4 (hexval (s ! i))]) (Suc p) s i)"

definition guid_convert_le_cluster :: "u8 list \<Rightarrow> nat \<Rightarrow> string \<Rightarrow> nat \<Rightarrow> u8 list" where
  "guid_convert_le_cluster dest p s len = le_cluster dest p s len"

function be_cluster :: "u8 list \<Rightarrow> nat \<Rightarrow> string \<Rightarrow> nat \<Rightarrow> nat \<Rightarrow> u8 list" where
  "be_cluster dest p s i len =
     (if i < len then
        (if i mod 2 = 1 then be_cluster (dest[p := dest ! p OR hexval (s ! i)]) (Suc p) s (Suc i) len
         else be_cluster (dest[p := push_bit 4 (hexval (s ! i))]) p s (Suc i) len)
      else dest)"
  by pat_completeness auto
termination
  by (relation "measure (\<lambda>(dest, p, s, i, len). len - i)") auto

declare be_cluster.simps [simp del]

definition guid_convert_be_cluster :: "u8 list \<Rightarrow> nat \<Rightarrow> string \<Rightarrow> nat \<Rightarrow> u8 list" where
  "guid_convert_be_cluster dest p s len = be_cluster dest p s 0 len"

definition string_to_guid_be :: "u8 list \<Rightarrow> string \<Rightarrow> u8 list option" where
  "string_to_guid_be guid s =
     (if \<not> is_valid_guid s then None
      else Some (let g = guid_convert_be_cluster guid 0 (drop 0 s) 8;
                     g = guid_convert_be_cluster g 4 (drop 9 s) 4;
                     g = guid_convert_be_cluster g 6 (drop 14 s) 4;
                     g = guid_convert_be_cluster g 8 (drop 19 s) 4
                 in guid_convert_be_cluster g 10 (drop 24 s) 12))"

definition string_to_guid_mixed :: "u8 list \<Rightarrow> string \<Rightarrow> u8 list option" where
  "string_to_guid_mixed guid s =
     (if \<not> is_valid_guid s then None
      else Some (let g = guid_convert_le_cluster guid 0 (drop 0 s) 8;
                     g = guid_convert_le_cluster g 4 (drop 9 s) 4;
                     g = guid_convert_le_cluster g 6 (drop 14 s) 4;
                     g = guid_convert_be_cluster g 8 (drop 19 s) 4
                 in guid_convert_be_cluster g 10 (drop 24 s) 12))"

section \<open>Printing\<close>

definition hex_digit :: "u32 \<Rightarrow> char" where
  "hex_digit n = ''0123456789abcdef'' ! unat n"

definition uint_to_hex :: "u32 \<Rightarrow> nat \<Rightarrow> string" where
  "uint_to_hex num len = map (\<lambda>i. hex_digit (drop_bit ((len - 1 - i) * 4) num AND 0xf)) [0..<len]"

definition le_field :: "u8 list \<Rightarrow> u32" where
  "le_field bs = foldr (\<lambda>b acc. ucast b OR push_bit 8 acc) bs 0"

definition guid_to_string :: "u8 list \<Rightarrow> string" where
  "guid_to_string g =
     uint_to_hex (le_field (take 4 g)) 8 @ ''-'' @
     uint_to_hex (le_field (take 2 (drop 4 g))) 4 @ ''-'' @
     uint_to_hex (le_field (take 2 (drop 6 g))) 4 @ ''-'' @
     uint_to_hex (ucast (g ! 8)) 2 @ uint_to_hex (ucast (g ! 9)) 2 @ ''-'' @
     uint_to_hex (ucast (g ! 10)) 2 @ uint_to_hex (ucast (g ! 11)) 2 @
     uint_to_hex (ucast (g ! 12)) 2 @ uint_to_hex (ucast (g ! 13)) 2 @
     uint_to_hex (ucast (g ! 14)) 2 @ uint_to_hex (ucast (g ! 15)) 2"

section \<open>Round trip\<close>

text \<open>The two hexadecimal digits of a byte.\<close>

definition hi_digit :: "u8 \<Rightarrow> char" where "hi_digit b = hex_digit (ucast (drop_bit 4 b))"
definition lo_digit :: "u8 \<Rightarrow> char" where "lo_digit b = hex_digit (ucast (b AND 0xf))"

lemma nibble_digits:
  "hexval (hi_digit b) = drop_bit 4 b" "hexval (lo_digit b) = b AND 0xf"
  "digit_to_int (hi_digit b) \<noteq> -1" "digit_to_int (lo_digit b) \<noteq> -1"
  "push_bit 4 (drop_bit 4 b) OR (b AND 0xf) = b" "(b AND 0xf) OR push_bit 4 (drop_bit 4 b) = b"
proof -
  have "\<forall>n \<in> set [0..<256]. let b = of_nat n :: u8 in
      hexval (hi_digit b) = drop_bit 4 b \<and> hexval (lo_digit b) = b AND 0xf \<and>
      digit_to_int (hi_digit b) \<noteq> -1 \<and> digit_to_int (lo_digit b) \<noteq> -1 \<and>
      push_bit 4 (drop_bit 4 b) OR (b AND 0xf) = b \<and> (b AND 0xf) OR push_bit 4 (drop_bit 4 b) = b"
    by code_simp
  moreover have "unat b \<in> set [0..<256]" using unsigned_less [of b] by simp
  ultimately show "hexval (hi_digit b) = drop_bit 4 b" "hexval (lo_digit b) = b AND 0xf"
    "digit_to_int (hi_digit b) \<noteq> -1" "digit_to_int (lo_digit b) \<noteq> -1"
    "push_bit 4 (drop_bit 4 b) OR (b AND 0xf) = b" "(b AND 0xf) OR push_bit 4 (drop_bit 4 b) = b"
    by (fastforce simp: Let_def)+
qed

lemma hex_byte: "uint_to_hex (ucast b) 2 = [hi_digit b, lo_digit b]"
proof -
  have m: "(0xf :: u32) = mask 4" "(0xf :: u8) = mask 4" by (simp_all add: mask_eq_exp_minus_1)
  have "drop_bit 4 (ucast b :: u32) AND 0xf = ucast (drop_bit 4 b)"
    unfolding m by (rule bit_word_eqI) (auto simp: bit_simps dest: bit_imp_le_length)
  moreover have "(ucast b :: u32) AND 0xf = ucast (b AND 0xf)"
    unfolding m by (rule bit_word_eqI) (auto simp: bit_simps)
  ultimately show ?thesis by (simp add: uint_to_hex_def hi_digit_def lo_digit_def eval_nat_numeral)
qed

lemma hex_word4:
  "uint_to_hex (le_field [a, b, c, d]) 8 =
     [hi_digit d, lo_digit d, hi_digit c, lo_digit c, hi_digit b, lo_digit b, hi_digit a, lo_digit a]"
proof -
  have m: "(0xf :: u32) = mask 4" "(0xf :: u8) = mask 4" by (simp_all add: mask_eq_exp_minus_1)
  let ?f = "le_field [a, b, c, d]"
  have "drop_bit 28 ?f AND 0xf = ucast (drop_bit 4 d)" "drop_bit 24 ?f AND 0xf = ucast (d AND 0xf)"
    "drop_bit 20 ?f AND 0xf = ucast (drop_bit 4 c)" "drop_bit 16 ?f AND 0xf = ucast (c AND 0xf)"
    "drop_bit 12 ?f AND 0xf = ucast (drop_bit 4 b)" "drop_bit 8 ?f AND 0xf = ucast (b AND 0xf)"
    "drop_bit 4 ?f AND 0xf = ucast (drop_bit 4 a)" "drop_bit 0 ?f AND 0xf = ucast (a AND 0xf)"
    unfolding m by (rule bit_word_eqI; auto simp: le_field_def bit_simps dest: bit_imp_le_length)+
  then show ?thesis by (simp add: uint_to_hex_def hi_digit_def lo_digit_def upt_rec)
qed

lemma hex_word2: "uint_to_hex (le_field [a, b]) 4 = [hi_digit b, lo_digit b, hi_digit a, lo_digit a]"
proof -
  have m: "(0xf :: u32) = mask 4" "(0xf :: u8) = mask 4" by (simp_all add: mask_eq_exp_minus_1)
  let ?f = "le_field [a, b]"
  have "drop_bit 12 ?f AND 0xf = ucast (drop_bit 4 b)" "drop_bit 8 ?f AND 0xf = ucast (b AND 0xf)"
    "drop_bit 4 ?f AND 0xf = ucast (drop_bit 4 a)" "drop_bit 0 ?f AND 0xf = ucast (a AND 0xf)"
    unfolding m by (rule bit_word_eqI; auto simp: le_field_def bit_simps dest: bit_imp_le_length)+
  then show ?thesis by (simp add: uint_to_hex_def hi_digit_def lo_digit_def upt_rec)
qed

text \<open>Digit pairs written by the two cluster loops, from position \<open>p\<close> on.\<close>

definition digit_pairs :: "u8 list \<Rightarrow> string" where
  "digit_pairs bs = concat (map (\<lambda>b. [hi_digit b, lo_digit b]) bs)"

lemma digit_pairs_simps [simp]:
  "digit_pairs [] = []" "digit_pairs (b # bs) = hi_digit b # lo_digit b # digit_pairs bs"
  "digit_pairs (bs @ cs) = digit_pairs bs @ digit_pairs cs" "length (digit_pairs bs) = 2 * length bs"
  by (simp_all add: digit_pairs_def) (induction bs, simp_all)

lemma be_cluster_pair:
  assumes "even i" and "Suc i < len" and "p < length dest"
    and "s ! i = hi_digit b" and "s ! Suc i = lo_digit b"
  shows "be_cluster dest p s i len = be_cluster (dest[p := b]) (Suc p) s (i + 2) len"
  using assms nibble_digits
  by (simp add: be_cluster.simps [of dest p s i len] be_cluster.simps [of "dest[p := x]" p s "Suc i" len for x]
      odd_iff_mod_2_eq_one even_iff_mod_2_eq_zero mod_Suc)

lemma be_cluster_digits:
  assumes "p + length bs \<le> length dest" and "s = digit_pairs (as @ bs) @ r"
  shows "be_cluster dest p s (2 * length as) (2 * length (as @ bs)) =
    take p dest @ bs @ drop (p + length bs) dest"
  using assms
proof (induction bs arbitrary: dest p as)
  case Nil
  then show ?case by (simp add: be_cluster.simps)
next
  case (Cons b bs)
  have "s = digit_pairs ((as @ [b]) @ bs) @ r" using Cons.prems(2) by simp
  moreover have "Suc p + length bs \<le> length (dest[p := b])" using Cons.prems(1) by simp
  ultimately have IH: "be_cluster (dest[p := b]) (Suc p) s (2 * length (as @ [b])) (2 * length ((as @ [b]) @ bs)) =
      take (Suc p) (dest[p := b]) @ bs @ drop (Suc p + length bs) (dest[p := b])" by (intro Cons.IH)
  have "s ! (2 * length as) = hi_digit b" "s ! Suc (2 * length as) = lo_digit b"
    using Cons.prems(2) by (simp_all add: nth_append)
  then have "be_cluster dest p s (2 * length as) (2 * length (as @ b # bs)) =
      be_cluster (dest[p := b]) (Suc p) s (2 * length as + 2) (2 * length (as @ b # bs))"
    using Cons.prems(1) by (intro be_cluster_pair) simp_all
  with IH Cons.prems(1) show ?case by (simp add: take_Suc_conv_app_nth)
qed

lemma le_cluster_digits:
  assumes "p + length bs \<le> length dest" and "s = digit_pairs bs @ r"
  shows "le_cluster dest p s (2 * length bs) = take p dest @ rev bs @ drop (p + length bs) dest"
  using assms
proof (induction bs arbitrary: dest p r rule: rev_induct)
  case (snoc b bs)
  have "s = digit_pairs bs @ ([hi_digit b, lo_digit b] @ r)" using snoc.prems(2) by simp
  moreover have "Suc p + length bs \<le> length (dest[p := b])" using snoc.prems(1) by simp
  ultimately have IH: "le_cluster (dest[p := b]) (Suc p) s (2 * length bs) =
      take (Suc p) (dest[p := b]) @ rev bs @ drop (Suc p + length bs) (dest[p := b])" by (intro snoc.IH)
  have "s ! (2 * length bs) = hi_digit b" "s ! Suc (2 * length bs) = lo_digit b"
    using snoc.prems(2) by (simp_all add: nth_append)
  then have "le_cluster dest p s (2 * length (bs @ [b])) = le_cluster (dest[p := b]) (Suc p) s (2 * length bs)"
    using snoc.prems(1) nibble_digits by simp
  with IH snoc.prems(1) show ?case by (simp add: take_Suc_conv_app_nth)
qed simp

text \<open>The text of a GUID, cluster by cluster.\<close>

lemma guid_to_string_clusters:
  assumes "g = a @ b @ c @ d @ e" and "length a = 4" "length b = 2" "length c = 2" "length d = 2" "length e = 6"
  shows "guid_to_string g = digit_pairs (rev a) @ ''-'' @ digit_pairs (rev b) @ ''-'' @ digit_pairs (rev c) @
    ''-'' @ digit_pairs d @ ''-'' @ digit_pairs e"
proof -
  obtain a0 a1 a2 a3 where a: "a = [a0, a1, a2, a3]" using assms(2) by (auto simp: length_Suc_conv eval_nat_numeral)
  obtain b0 b1 where b: "b = [b0, b1]" using assms(3) by (auto simp: length_Suc_conv eval_nat_numeral)
  obtain c0 c1 where c: "c = [c0, c1]" using assms(4) by (auto simp: length_Suc_conv eval_nat_numeral)
  obtain d0 d1 where d: "d = [d0, d1]" using assms(5) by (auto simp: length_Suc_conv eval_nat_numeral)
  obtain e0 e1 e2 e3 e4 e5 where e: "e = [e0, e1, e2, e3, e4, e5]"
    using assms(6) by (auto simp: length_Suc_conv eval_nat_numeral)
  show ?thesis
    unfolding guid_to_string_def assms(1) a b c d e by (simp add: hex_word4 hex_word2 hex_byte)
qed

lemma valid_guid_from_iff:
  "valid_guid_from s i \<longleftrightarrow>
     (\<forall>k. i \<le> k \<and> k < 36 \<longrightarrow> (if k \<in> {8, 13, 18, 23} then deref (drop k s) = CHR ''-''
        else digit_to_int (deref (drop k s)) \<noteq> -1)) \<and> deref (drop (max i 36) s) = NUL"
proof (induction s i rule: valid_guid_from.induct)
  case (1 s i)
  show ?case
  proof (cases "i < 36")
    case False
    then show ?thesis by (simp add: valid_guid_from.simps [of s i] max_def)
  next
    case True
    have split: "(\<forall>k. i \<le> k \<and> k < 36 \<longrightarrow> P k) \<longleftrightarrow> P i \<and> (\<forall>k. Suc i \<le> k \<and> k < 36 \<longrightarrow> P k)" for P
      using True by (metis Suc_leD le_neq_implies_less Suc_leI order_refl)
    have mx: "max (Suc i) 36 = 36" "max i 36 = 36" using True by simp_all
    show ?thesis
      unfolding split mx using 1 True mx by (auto simp: valid_guid_from.simps [of s i])
  qed
qed

lemma pair_digit: "k < 2 * length bs \<Longrightarrow> digit_to_int (digit_pairs bs ! k) \<noteq> -1"
proof (induction bs arbitrary: k)
  case (Cons b bs)
  then show ?case using nibble_digits(3,4)
    by (cases k; cases "k - 1") (auto simp: nth_Cons')
qed simp

definition valid_pos :: "nat \<Rightarrow> char \<Rightarrow> bool" where
  "valid_pos k c \<longleftrightarrow> (if k \<in> {8, 13, 18, 23} then c = CHR ''-'' else digit_to_int c \<noteq> -1)"

lemma clusters_valid:
  assumes "length a = 4" "length b = 2" "length c = 2" "length d = 2" "length e = 6"
  shows "is_valid_guid (digit_pairs a @ ''-'' @ digit_pairs b @ ''-'' @ digit_pairs c @ ''-'' @ digit_pairs d @ ''-'' @ digit_pairs e)"
    (is "is_valid_guid ?s")
proof -
  have len: "length ?s = 36" using assms by simp
  have "valid_pos k (?s ! k)" if "k < 36" for k
    using that assms by (auto simp: valid_pos_def nth_append nth_Cons' intro!: pair_digit)
  moreover have "deref (drop k ?s) = ?s ! k" if "k < 36" for k
    by (rule deref_drop_nth) (use that len in simp)
  ultimately have "valid_pos k (deref (drop k ?s))" if "k < 36" for k
    using that by (simp only:)
  moreover have "drop (max 0 36) ?s = []" by (rule drop_all) (use len in simp)
  ultimately show ?thesis
    unfolding is_valid_guid_def valid_guid_from_iff valid_pos_def by (simp only: deref.simps) blast
qed

lemma guid_clusters:
  assumes "length g = 16"
  obtains a b c d e where "g = a @ b @ c @ d @ e"
    and "length a = 4" "length b = 2" "length c = 2" "length d = 2" "length e = 6"
proof -
  let ?a = "take 4 g" and ?b = "take 2 (drop 4 g)" and ?c = "take 2 (drop 6 g)" and ?d = "take 2 (drop 8 g)" and ?e = "drop 10 g"
  have "g = ?a @ drop 4 g" "drop 4 g = ?b @ drop 6 g" "drop 6 g = ?c @ drop 8 g" "drop 8 g = ?d @ ?e"
    using append_take_drop_id [of 2 "drop 4 g"] append_take_drop_id [of 2 "drop 6 g"]
      append_take_drop_id [of 2 "drop 8 g"] by simp_all
  then have "g = ?a @ ?b @ ?c @ ?d @ ?e" by metis
  then show thesis by (rule that) (use assms in simp_all)
qed

lemma guid_mixed_round_trip:
  assumes "length g = 16" and "length g0 = 16"
  shows "string_to_guid_mixed g0 (guid_to_string g) = Some g"
proof -
  from assms(1) obtain a b c d e where g: "g = a @ b @ c @ d @ e"
    and l: "length a = 4" "length b = 2" "length c = 2" "length d = 2" "length e = 6" by (rule guid_clusters)
  let ?s = "guid_to_string g"
  have s: "?s = digit_pairs (rev a) @ ''-'' @ digit_pairs (rev b) @ ''-'' @ digit_pairs (rev c) @ ''-'' @ digit_pairs d @ ''-'' @ digit_pairs e"
    using g l by (rule guid_to_string_clusters)
  have v: "is_valid_guid ?s" unfolding s by (rule clusters_valid) (use l in simp_all)
  have dr: "drop 9 ?s = digit_pairs (rev b) @ ''-'' @ digit_pairs (rev c) @ ''-'' @ digit_pairs d @ ''-'' @ digit_pairs e"
    "drop 14 ?s = digit_pairs (rev c) @ ''-'' @ digit_pairs d @ ''-'' @ digit_pairs e"
    "drop 19 ?s = digit_pairs d @ ''-'' @ digit_pairs e" "drop 24 ?s = digit_pairs e"
    unfolding s using l by simp_all
  define g1 where "g1 = guid_convert_le_cluster g0 0 ?s 8"
  define g2 where "g2 = guid_convert_le_cluster g1 4 (drop 9 ?s) 4"
  define g3 where "g3 = guid_convert_le_cluster g2 6 (drop 14 ?s) 4"
  define g4 where "g4 = guid_convert_be_cluster g3 8 (drop 19 ?s) 4"
  have g1: "g1 = a @ drop 4 g0"
    using le_cluster_digits [of 0 "rev a" g0 ?s] s l assms(2) by (simp add: g1_def guid_convert_le_cluster_def)
  have g2: "g2 = take 4 g1 @ b @ drop 6 g1"
    using le_cluster_digits [of 4 "rev b" g1 "drop 9 ?s"] dr l assms(2) by (simp add: g2_def guid_convert_le_cluster_def g1)
  have g3: "g3 = take 6 g2 @ c @ drop 8 g2"
    using le_cluster_digits [of 6 "rev c" g2 "drop 14 ?s"] dr l assms(2) by (simp add: g3_def guid_convert_le_cluster_def g2 g1)
  have g4: "g4 = take 8 g3 @ d @ drop 10 g3"
    using be_cluster_digits [of 8 d g3 "drop 19 ?s" "[]"] dr l assms(2) by (simp add: g4_def guid_convert_be_cluster_def g3 g2 g1)
  have "guid_convert_be_cluster g4 10 (drop 24 ?s) 12 = take 10 g4 @ e @ drop 16 g4"
    using be_cluster_digits [of 10 e g4 "drop 24 ?s" "[]"] dr l assms(2) by (simp add: guid_convert_be_cluster_def g4 g3 g2 g1)
  also have "\<dots> = g" unfolding g4 g3 g2 g1 g using l assms(2) by simp
  finally have "guid_convert_be_cluster g4 10 (drop 24 ?s) 12 = g" .
  then show ?thesis
    unfolding string_to_guid_mixed_def Let_def g4_def g3_def g2_def g1_def using v by simp
qed

end
