(* ===== verification/Path.thy ===== *)
theory Path
  imports Cstring
begin

text \<open>
  \<open>get_absolute_path\<close> of \<^verbatim>\<open>src/common/lib/misc.s2.c\<close>: normalising a path into a caller's
  buffer. Every write is checked against the buffer, so an access outside it is a result of
  its own and its absence is a theorem.
\<close>

datatype path_result = Path string | Too_long | Out_of_bounds

text \<open>Writes through \<open>path_ptr\<close>, at offset \<open>i\<close> of the buffer.\<close>

definition put :: "string \<Rightarrow> nat \<Rightarrow> char \<Rightarrow> string option" where
  "put buf i c = (if i < length buf then Some (buf[i := c]) else None)"

text \<open>\<open>while (path_ptr > orig_ptr && *path_ptr != '/') path_ptr--\<close>, then the bump at the root.\<close>

fun back_to_slash :: "string \<Rightarrow> nat \<Rightarrow> nat" where
  "back_to_slash buf 0 = 0"
| "back_to_slash buf (Suc i) = (if buf ! Suc i \<noteq> CHR ''/'' then back_to_slash buf i else Suc i)"

definition parent_ptr :: "string \<Rightarrow> nat \<Rightarrow> nat" where
  "parent_ptr buf i = (let j = back_to_slash buf i in if j = 0 then 1 else j)"

text \<open>The label \<open>term\<close>.\<close>

definition path_term :: "string \<Rightarrow> nat \<Rightarrow> path_result" where
  "path_term buf ptr =
     (let ptr' = (if ptr > 0 \<and> buf ! (ptr - 1) = CHR ''/'' \<and> ptr - 1 \<noteq> 0 then ptr - 1 else ptr)
      in case put buf ptr' NUL of None \<Rightarrow> Out_of_bounds | Some b \<Rightarrow> Path b)"

text \<open>The label \<open>first_run\<close>: either the function ends, or the loop goes on with new variables.\<close>

definition first_run :: "string \<Rightarrow> nat \<Rightarrow> string \<Rightarrow> path_result + (string \<times> nat \<times> string)" where
  "first_run buf ptr path =
     (if deref path = CHR ''/'' then Inr (buf, ptr, path)
      else if strncmp path ''.'' 2 = 0 \<or> strncmp path ''./'' 3 = 0 then Inl (path_term buf ptr)
      else if strncmp path ''..'' 3 = 0 \<or> strncmp path ''../'' 4 = 0 then Inl (path_term buf (parent_ptr buf ptr))
      else if strncmp path ''../'' 3 = 0 then
        (case put buf (parent_ptr buf ptr) NUL of
           None \<Rightarrow> Inl Out_of_bounds
         | Some b \<Rightarrow> Inr (b, parent_ptr buf ptr, drop 2 path))
      else if strncmp path ''./'' 2 = 0 then Inr (buf, ptr, drop 1 path)
      else if ptr > 0 \<and> ptr - 1 \<noteq> 0 \<and> buf ! (ptr - 1) \<noteq> CHR ''/'' then
        (if ptr \<ge> length buf - 1 then Inl Too_long
         else case put buf ptr CHR ''/'' of
           None \<Rightarrow> Inl Out_of_bounds
         | Some b \<Rightarrow> Inr (b, Suc ptr, path))
      else Inr (buf, ptr, path))"

lemma first_run_shorter: "first_run buf ptr path = Inr (b, p, path') \<Longrightarrow> length path' \<le> length path"
  by (auto simp: first_run_def split: if_splits option.splits)

function path_loop :: "string \<Rightarrow> nat \<Rightarrow> string \<Rightarrow> path_result" where
  "path_loop buf ptr path =
     (if deref path = CHR ''/'' then
        (case first_run buf ptr (tl path) of
           Inl r \<Rightarrow> r
         | Inr (buf', ptr', path') \<Rightarrow> path_loop buf' ptr' path')
      else if deref path = NUL then path_term buf ptr
      else if ptr \<ge> length buf - 1 then Too_long
      else (case put buf ptr (deref path) of
              None \<Rightarrow> Out_of_bounds
            | Some buf' \<Rightarrow> path_loop buf' (Suc ptr) (tl path)))"
  by pat_completeness auto
termination
proof (relation "measure (\<lambda>(buf, ptr, path). length path)", goal_cases)
  case (2 buf ptr path r buf' p ptr' path')
  then have "length (tl path) < length path" by (cases path) auto
  moreover have "length path' \<le> length (tl path)" using 2 by (intro first_run_shorter) auto
  ultimately show ?case by simp
next
  case (3 buf ptr path buf')
  then have "0 < length path" by (intro deref_nonempty)
  then show ?case by simp
qed simp

declare path_loop.simps [simp del]

text \<open>\<open>memcpy(path_ptr, pwd, pwd_len + 1)\<close> into the start of the buffer.\<close>

definition copy_pwd :: "string \<Rightarrow> string \<Rightarrow> string" where
  "copy_pwd buf pwd = pwd @ NUL # drop (length pwd + 1) buf"

definition get_absolute_path :: "string \<Rightarrow> string \<Rightarrow> string \<Rightarrow> path_result" where
  "get_absolute_path buf path pwd =
     (if length buf = 0 then Too_long
      else if deref path = NUL then
        (if strlen pwd \<ge> length buf then Too_long else Path (copy_pwd buf pwd))
      else
        (let start = (if deref path \<noteq> CHR ''/'' then
                        (if strlen pwd \<ge> length buf then None
                         else Some (copy_pwd buf pwd, strlen pwd, path))
                      else Some (buf[0 := CHR ''/''], 1, tl path))
         in case start of
              None \<Rightarrow> Too_long
            | Some (b, ptr, p) \<Rightarrow>
                (case first_run b ptr p of
                   Inl r \<Rightarrow> r
                 | Inr (b', ptr', p') \<Rightarrow> path_loop b' ptr' p')))"

section \<open>Staying inside the buffer\<close>

text \<open>A good end: still the caller's buffer, holding a terminated string.\<close>

definition path_fine :: "nat \<Rightarrow> path_result \<Rightarrow> bool" where
  "path_fine n r \<longleftrightarrow> (case r of Path b \<Rightarrow> length b = n \<and> NUL \<in> set b | Too_long \<Rightarrow> True | Out_of_bounds \<Rightarrow> False)"

lemma back_to_slash_le: "back_to_slash buf i \<le> i"
  by (induction i) auto

lemma parent_ptr_bound: "i < n \<Longrightarrow> 2 \<le> n \<Longrightarrow> parent_ptr buf i < n"
  using back_to_slash_le [of buf i] by (auto simp: parent_ptr_def Let_def)

lemma path_term_fine: "ptr < length buf \<Longrightarrow> path_fine (length buf) (path_term buf ptr)"
  by (auto simp: path_term_def path_fine_def put_def Let_def set_update_memI)

lemma first_run_fine:
  assumes "ptr < length buf" and "2 \<le> length buf"
  shows "case first_run buf ptr path of
      Inl r \<Rightarrow> path_fine (length buf) r
    | Inr (b, p, path') \<Rightarrow> length b = length buf \<and> p < length b"
  using assms path_term_fine [of ptr buf] path_term_fine [of "parent_ptr buf ptr" buf] parent_ptr_bound [OF assms, of buf]
  by (auto simp: first_run_def put_def path_fine_def)

lemma path_loop_fine:
  "ptr < length buf \<Longrightarrow> 2 \<le> length buf \<Longrightarrow> path_fine (length buf) (path_loop buf ptr path)"
proof (induction buf ptr path rule: path_loop.induct)
  case (1 buf ptr path)
  note unf = path_loop.simps [of buf ptr path]
  show ?case
  proof (cases "deref path = CHR ''/''")
    case True
    show ?thesis
    proof (cases "first_run buf ptr (tl path)")
      case (Inl r)
      with first_run_fine [OF "1.prems", of "tl path"] True show ?thesis by (simp add: unf)
    next
      case (Inr x)
      obtain b p path' where x: "x = (b, p, path')" by (cases x)
      have "length b = length buf" "p < length b"
        using first_run_fine [OF "1.prems", of "tl path"] Inr x by simp_all
      with "1.IH"(1) [OF True Inr, of b "(p, path')" p path'] "1.prems" True Inr x show ?thesis by (simp add: unf)
    qed
  next
    case False
    show ?thesis
    proof (cases "deref path = NUL \<or> ptr \<ge> length buf - 1")
      case True
      with False "1.prems" path_term_fine show ?thesis by (auto simp: unf path_fine_def)
    next
      case go: False
      have "put buf ptr (deref path) = Some (buf[ptr := deref path])" using "1.prems" by (simp add: put_def)
      moreover have "Suc ptr < length buf" using go by auto
      ultimately show ?thesis
        using "1.IH"(2) [OF False] go False "1.prems" by (simp add: unf)
    qed
  qed
qed

lemma get_absolute_path_fine:
  assumes "2 \<le> length buf" and "cstr pwd"
  shows "path_fine (length buf) (get_absolute_path buf path pwd)"
proof -
  have cp: "length (copy_pwd buf pwd) = length buf" if "length pwd < length buf"
    using that by (simp add: copy_pwd_def)
  have run: "path_fine (length b) (case first_run b ptr p of Inl r \<Rightarrow> r | Inr (b', ptr', p') \<Rightarrow> path_loop b' ptr' p')"
    if "ptr < length b" "2 \<le> length b" for b ptr p
  proof (cases "first_run b ptr p")
    case (Inl r)
    with first_run_fine [OF that, of p] show ?thesis by simp
  next
    case (Inr x)
    with first_run_fine [OF that, of p] that(2) path_loop_fine [of "fst (snd x)" "fst x" "snd (snd x)"]
    show ?thesis by (simp add: case_prod_beta)
  qed
  show ?thesis
  proof (cases "deref path = NUL \<or> deref path \<noteq> CHR ''/''")
    case True
    show ?thesis
    proof (cases "length pwd < length buf")
      case False
      with True assms show ?thesis by (auto simp: get_absolute_path_def strlen_length path_fine_def)
    next
      case lt: True
      have f: "path_fine (length buf) (Path (copy_pwd buf pwd))"
        using cp [OF lt] by (simp add: path_fine_def) (simp add: copy_pwd_def)
      with True lt assms run [of "length pwd" "copy_pwd buf pwd" path] cp [OF lt] show ?thesis
        by (auto simp: get_absolute_path_def strlen_length Let_def)
    qed
  next
    case False
    with assms run [of 1 "buf[0 := CHR ''/'']" "tl path"] show ?thesis
      by (auto simp: get_absolute_path_def Let_def)
  qed
qed

text \<open>With a one-byte buffer the terminator of \<open>/\<close> lands one past its end.\<close>

lemma get_absolute_path_overrun: "get_absolute_path [c] ''/'' pwd = Out_of_bounds"
  by (simp add: get_absolute_path_def first_run_def path_loop.simps [of "''/''"] path_term_def put_def Let_def three_way_def
      eval_nat_numeral)

end
