(* ===== verification/Blake2b.thy ===== *)
theory Blake2b
  imports Prelude
begin

text \<open>
  \<^verbatim>\<open>src/common/crypt/blake2b.c\<close>: the BLAKE2b hash with its incremental interface. The
  specification \<open>blake2b_spec\<close> is the block-wise definition of the hash on a whole message; the
  incremental code is proved to compute it however the message is cut into pieces.
\<close>

section \<open>Constants and word helpers\<close>

abbreviation BLAKE2B_BLOCK_BYTES :: nat where "BLAKE2B_BLOCK_BYTES \<equiv> 128"
abbreviation BLAKE2B_OUT_BYTES :: nat where "BLAKE2B_OUT_BYTES \<equiv> 64"

definition blake2b_iv :: "u64 list" where
  "blake2b_iv = [0x6a09e667f3bcc908, 0xbb67ae8584caa73b, 0x3c6ef372fe94f82b, 0xa54ff53a5f1d36f1,
                 0x510e527fade682d1, 0x9b05688c2b3e6c1f, 0x1f83d9abfb41bd6b, 0x5be0cd19137e2179]"

definition blake2b_sigma :: "nat list list" where
  "blake2b_sigma =
    [[ 0,  1,  2,  3,  4,  5,  6,  7,  8,  9, 10, 11, 12, 13, 14, 15],
     [14, 10,  4,  8,  9, 15, 13,  6,  1, 12,  0,  2, 11,  7,  5,  3],
     [11,  8, 12,  0,  5,  2, 15, 13, 10, 14,  3,  6,  7,  1,  9,  4],
     [ 7,  9,  3,  1, 13, 12, 11, 14,  2,  6,  5, 10,  4,  0, 15,  8],
     [ 9,  0,  5,  7,  2,  4, 10, 15, 14,  1, 11, 12,  6,  8,  3, 13],
     [ 2, 12,  6, 10,  0, 11,  8,  3,  4, 13,  7,  5, 15, 14,  1,  9],
     [12,  5,  1, 15, 14, 13,  4, 10,  0,  7,  6,  3,  9,  2,  8, 11],
     [13, 11,  7, 14, 12,  1,  3,  9,  5,  0, 15,  4,  8,  6,  2, 10],
     [ 6, 15, 14,  9, 11,  3,  0,  8, 12,  2, 13,  7,  1,  4, 10,  5],
     [10,  2,  8,  4,  7,  6,  1,  5, 15, 11,  9, 14,  3, 12, 13,  0],
     [ 0,  1,  2,  3,  4,  5,  6,  7,  8,  9, 10, 11, 12, 13, 14, 15],
     [14, 10,  4,  8,  9, 15, 13,  6,  1, 12,  0,  2, 11,  7,  5,  3]]"

text \<open>The little-endian loads and stores: \<open>memcpy\<close> on a little-endian machine.\<close>

definition load64_le :: "u8 list \<Rightarrow> u64" where
  "load64_le src = foldr (\<lambda>b acc. ucast b OR push_bit 8 acc) (take 8 src) 0"

definition store64_le :: "u64 \<Rightarrow> u8 list" where
  "store64_le val = map (\<lambda>i. ucast (drop_bit (8 * i) val)) [0..<8]"

definition rotr64 :: "u64 \<Rightarrow> nat \<Rightarrow> u64" where
  "rotr64 w c = drop_bit c w OR push_bit (64 - c) w"

section \<open>Compression\<close>

record blake2b_state =
  sh :: "u64 list"
  sctr :: "u64 \<times> u64"
  sf :: "u64 \<times> u64"
  sbuf :: "u8 list"
  buf_len :: nat
  last_node :: u8

definition blake2b_increment_counter :: "blake2b_state \<Rightarrow> u64 \<Rightarrow> blake2b_state" where
  "blake2b_increment_counter s inc =
     (let t0 = fst (sctr s) + inc
      in s\<lparr>sctr := (t0, snd (sctr s) + (if t0 < inc then 1 else 0))\<rparr>)"

text \<open>The macro \<open>G\<close>, on the indices of its four working words.\<close>

definition G :: "u64 list \<Rightarrow> nat \<Rightarrow> nat \<Rightarrow> nat \<Rightarrow> nat \<Rightarrow> nat \<Rightarrow> nat \<Rightarrow> u64 list \<Rightarrow> u64 list" where
  "G m r i a b c d v =
     (let v = v[a := v ! a + v ! b + m ! (blake2b_sigma ! r ! (2 * i + 0))];
          v = v[d := rotr64 (v ! d XOR v ! a) 32];
          v = v[c := v ! c + v ! d];
          v = v[b := rotr64 (v ! b XOR v ! c) 24];
          v = v[a := v ! a + v ! b + m ! (blake2b_sigma ! r ! (2 * i + 1))];
          v = v[d := rotr64 (v ! d XOR v ! a) 16];
          v = v[c := v ! c + v ! d]
      in v[b := rotr64 (v ! b XOR v ! c) 63])"

definition ROUND :: "u64 list \<Rightarrow> nat \<Rightarrow> u64 list \<Rightarrow> u64 list" where
  "ROUND m r v =
     (let v = G m r 0 0 4 8 12 v;
          v = G m r 1 1 5 9 13 v;
          v = G m r 2 2 6 10 14 v;
          v = G m r 3 3 7 11 15 v;
          v = G m r 4 0 5 10 15 v;
          v = G m r 5 1 6 11 12 v;
          v = G m r 6 2 7 8 13 v
      in G m r 7 3 4 9 14 v)"

text \<open>The effect of \<open>blake2b_compress\<close> on \<open>h\<close>, from \<open>h\<close>, \<open>t\<close>, \<open>f\<close> and the block.\<close>

definition compress :: "u64 list \<Rightarrow> u64 \<times> u64 \<Rightarrow> u64 \<times> u64 \<Rightarrow> u8 list \<Rightarrow> u64 list" where
  "compress h t f block =
     (let m = map (\<lambda>i. load64_le (drop (i * 8) block)) [0..<16];
          v = map (\<lambda>i. h ! i) [0..<8] @
              [blake2b_iv ! 0, blake2b_iv ! 1, blake2b_iv ! 2, blake2b_iv ! 3,
               blake2b_iv ! 4 XOR fst t, blake2b_iv ! 5 XOR snd t,
               blake2b_iv ! 6 XOR fst f, blake2b_iv ! 7 XOR snd f];
          v = fold (ROUND m) [0..<12] v
      in map (\<lambda>i. h ! i XOR v ! i XOR v ! (i + 8)) [0..<8])"

definition blake2b_compress :: "blake2b_state \<Rightarrow> u8 list \<Rightarrow> blake2b_state" where
  "blake2b_compress s block = s\<lparr>sh := compress (sh s) (sctr s) (sf s) block\<rparr>"

section \<open>The incremental interface\<close>

text \<open>The parameter block: 64 bytes of which only the first four are not zero.\<close>

definition blake2b_param :: "u8 list" where
  "blake2b_param = [64, 0, 1, 1] @ replicate 60 0"

definition blake2b_init :: blake2b_state where
  "blake2b_init =
     \<lparr>sh = map (\<lambda>i. blake2b_iv ! i XOR load64_le (drop (8 * i) blake2b_param)) [0..<8],
      sctr = (0, 0), sf = (0, 0), sbuf = replicate BLAKE2B_BLOCK_BYTES 0, buf_len = 0, last_node = 0\<rparr>"

text \<open>\<open>memcpy(buf + at, bytes, ...)\<close>.\<close>

definition splice :: "u8 list \<Rightarrow> nat \<Rightarrow> u8 list \<Rightarrow> u8 list" where
  "splice buf at bs = take at buf @ bs @ drop (at + length bs) buf"

text \<open>The inner loop over whole blocks: it leaves between 1 and 128 bytes.\<close>

function update_blocks :: "blake2b_state \<Rightarrow> u8 list \<Rightarrow> blake2b_state \<times> u8 list" where
  "update_blocks s inp =
     (if length inp > BLAKE2B_BLOCK_BYTES
      then update_blocks (blake2b_compress (blake2b_increment_counter s 128) (take 128 inp)) (drop 128 inp)
      else (s, inp))"
  by pat_completeness auto
termination
  by (relation "measure (\<lambda>(s, inp). length inp)") auto

declare update_blocks.simps [simp del]

definition blake2b_update :: "blake2b_state \<Rightarrow> u8 list \<Rightarrow> blake2b_state" where
  "blake2b_update s inp =
     (if length inp = 0 then s
      else
        (let left = buf_len s; fill = BLAKE2B_BLOCK_BYTES - left;
             (s', rest) =
               (if length inp > fill then
                  (let s1 = s\<lparr>buf_len := 0, sbuf := splice (sbuf s) left (take fill inp)\<rparr>;
                       s2 = blake2b_increment_counter s1 128;
                       s3 = blake2b_compress s2 (sbuf s2)
                   in update_blocks s3 (drop fill inp))
                else (s, inp))
         in s'\<lparr>sbuf := splice (sbuf s') (buf_len s') rest, buf_len := buf_len s' + length rest\<rparr>))"

definition blake2b_final :: "blake2b_state \<Rightarrow> blake2b_state \<times> u8 list" where
  "blake2b_final s =
     (let s1 = blake2b_increment_counter s (of_nat (buf_len s));
          s2 = s1\<lparr>sf := (-1, snd (sf s1)),
                  sbuf := splice (sbuf s1) (buf_len s1) (replicate (BLAKE2B_BLOCK_BYTES - buf_len s1) 0)\<rparr>;
          s3 = blake2b_compress s2 (sbuf s2)
      in (s3, concat (map (\<lambda>i. store64_le (sh s3 ! i)) [0..<8])))"

definition blake2b :: "u8 list \<Rightarrow> u8 list" where
  "blake2b inp = snd (blake2b_final (blake2b_update blake2b_init inp))"

section \<open>Specification\<close>

text \<open>The 128-bit byte counter as two words.\<close>

definition ctr :: "nat \<Rightarrow> u64 \<times> u64" where
  "ctr n = (of_nat n, of_nat (n div 2 ^ 64))"

text \<open>The chaining value after the first \<open>k\<close> whole blocks of a message.\<close>

fun chain :: "nat \<Rightarrow> u8 list \<Rightarrow> u64 list" where
  "chain 0 msg = sh blake2b_init"
| "chain (Suc k) msg = compress (chain k msg) (ctr (128 * Suc k)) (0, 0) (take 128 (drop (128 * k) msg))"

text \<open>All blocks but the last one are absorbed; the last one is padded with zeros and flagged.\<close>

definition full_blocks :: "u8 list \<Rightarrow> nat" where
  "full_blocks msg = (length msg - 1) div 128"

definition blake2b_spec :: "u8 list \<Rightarrow> u8 list" where
  "blake2b_spec msg =
     (let k = full_blocks msg;
          tail = drop (128 * k) msg;
          h = compress (chain k msg) (ctr (length msg)) (-1, 0) (tail @ replicate (128 - length tail) 0)
      in concat (map (\<lambda>i. store64_le (h ! i)) [0..<8]))"

section \<open>The incremental code refines the specification\<close>

text \<open>A state that has absorbed \<open>msg\<close>.\<close>

definition absorbed :: "blake2b_state \<Rightarrow> u8 list \<Rightarrow> bool" where
  "absorbed s msg \<longleftrightarrow>
     (let k = full_blocks msg
      in sh s = chain k msg \<and> sctr s = ctr (128 * k) \<and> sf s = (0, 0) \<and> length (sbuf s) = 128 \<and>
         buf_len s = length msg - 128 * k \<and> take (buf_len s) (sbuf s) = drop (128 * k) msg)"

lemma full_blocks_bound: "128 * full_blocks m \<le> length m" "length m \<le> 128 * full_blocks m + 128"
  "m \<noteq> [] \<Longrightarrow> 128 * full_blocks m < length m"
proof -
  have d: "length m - 1 = 128 * full_blocks m + (length m - 1) mod 128" unfolding full_blocks_def by simp
  have "(length m - 1) mod 128 < 128" by simp
  with d show "length m \<le> 128 * full_blocks m + 128" by linarith
  show lt: "m \<noteq> [] \<Longrightarrow> 128 * full_blocks m < length m"
    using d by (cases m) auto
  show "128 * full_blocks m \<le> length m" using lt by (cases m) (auto simp: full_blocks_def)
qed

lemma full_blocks_unique: "128 * k < length m \<Longrightarrow> length m \<le> 128 * k + 128 \<Longrightarrow> full_blocks m = k"
  unfolding full_blocks_def by (intro div_nat_eqI) auto

lemma chain_append: "128 * k \<le> length m \<Longrightarrow> chain k (m @ x) = chain k m"
  by (induction k) auto

lemma div_add_carry: "0 < B \<Longrightarrow> (n + i) div B = n div B + (n mod B + i) div B" for n i B :: nat
proof -
  assume "0 < B"
  have "n + i = (n mod B + i) + n div B * B" using div_mult_mod_eq [of n B] by linarith
  then have "(n + i) div B = ((n mod B + i) + n div B * B) div B" by simp
  also have "\<dots> = n div B + (n mod B + i) div B" using \<open>0 < B\<close> by (simp only: div_mult_self1 not_gr_zero)
  finally show ?thesis .
qed

lemma carry_cases:
  fixes l i B :: nat
  assumes "l < B" and "i < B"
  shows "(l + i) mod B = (if B \<le> l + i then l + i - B else l + i)"
    and "(l + i) div B = (if B \<le> l + i then 1 else 0)"
  using assms le_mod_geq [of B "l + i"] le_div_geq [of B "l + i"] by auto

lemma ctr_increment:
  assumes "inc < 2 ^ 64" and "sctr s = ctr n"
  shows "blake2b_increment_counter s (of_nat inc) = s\<lparr>sctr := ctr (n + inc)\<rparr>"
proof -
  let ?lo = "n mod 2 ^ 64"
  have i: "unat (of_nat inc :: u64) = inc" using assms(1) by (simp add: unat_of_nat)
  have t0: "unat (of_nat n + of_nat inc :: u64) = (?lo + inc) mod 2 ^ 64"
    by (simp add: unat_word_ariths unat_of_nat mod_add_left_eq mod_add_right_eq)
  have lo: "?lo < 2 ^ 64" by simp
  have carry: "(of_nat n + of_nat inc :: u64) < of_nat inc \<longleftrightarrow> 2 ^ 64 \<le> ?lo + inc"
  proof (cases "2 ^ 64 \<le> ?lo + inc")
    case True
    then have "(?lo + inc) mod 2 ^ 64 = ?lo + inc - 2 ^ 64" using carry_cases(1) [OF lo assms(1)] by simp
    with True lo show ?thesis unfolding word_less_nat_alt t0 i by simp
  next
    case False
    then show ?thesis unfolding word_less_nat_alt t0 i by simp
  qed
  have "(n + inc) div 2 ^ 64 = n div 2 ^ 64 + (?lo + inc) div 2 ^ 64" by (rule div_add_carry) simp
  moreover have "(?lo + inc) div 2 ^ 64 = (if 2 ^ 64 \<le> ?lo + inc then 1 else 0)"
    using lo assms(1) by (rule carry_cases)
  ultimately show ?thesis
    unfolding blake2b_increment_counter_def assms(2) ctr_def Let_def fst_conv snd_conv carry by simp
qed

text \<open>One block absorbed: counter and chaining value move on together.\<close>

definition mid :: "blake2b_state \<Rightarrow> nat \<Rightarrow> u8 list \<Rightarrow> bool" where
  "mid s k msg \<longleftrightarrow> sh s = chain k msg \<and> sctr s = ctr (128 * k) \<and> sf s = (0, 0) \<and> length (sbuf s) = 128"

lemma mid_step:
  assumes "mid s k msg" and "block = take 128 (drop (128 * k) msg)"
  shows "mid (blake2b_compress (blake2b_increment_counter s 128) block) (Suc k) msg"
    and "buf_len (blake2b_compress (blake2b_increment_counter s 128) block) = buf_len s"
    and "sbuf (blake2b_compress (blake2b_increment_counter s 128) block) = sbuf s"
proof -
  have "blake2b_increment_counter s 128 = s\<lparr>sctr := ctr (128 * k + 128)\<rparr>"
    using ctr_increment [of 128 s "128 * k"] assms(1) by (simp add: mid_def)
  then show "mid (blake2b_compress (blake2b_increment_counter s 128) block) (Suc k) msg"
    "buf_len (blake2b_compress (blake2b_increment_counter s 128) block) = buf_len s"
    "sbuf (blake2b_compress (blake2b_increment_counter s 128) block) = sbuf s"
    using assms by (simp_all add: mid_def blake2b_compress_def add.commute)
qed

lemma update_blocks_mid:
  assumes "mid s k msg" and "inp = drop (128 * k) msg" and "inp \<noteq> []" and "update_blocks s inp = (s', rest)"
  shows "mid s' (full_blocks msg) msg \<and> rest = drop (128 * full_blocks msg) msg \<and>
    buf_len s' = buf_len s \<and> sbuf s' = sbuf s"
  using assms
proof (induction s inp arbitrary: k rule: update_blocks.induct)
  case (1 s inp)
  let ?s = "blake2b_compress (blake2b_increment_counter s 128) (take 128 inp)"
  show ?case
  proof (cases "length inp > 128")
    case True
    note sctr = mid_step [OF "1.prems"(1), of "take 128 inp"]
    have "mid ?s (Suc k) msg" using sctr(1) "1.prems"(2) by simp
    moreover have "drop 128 inp = drop (128 * Suc k) msg" using "1.prems"(2) by (simp add: add.commute)
    moreover have "drop 128 inp \<noteq> []" using True by simp
    moreover have "update_blocks ?s (drop 128 inp) = (s', rest)"
      using "1.prems"(4) True by (simp add: update_blocks.simps [of s])
    ultimately show ?thesis using "1.IH" [OF True, of "Suc k"] sctr(2,3) "1.prems"(2) by simp
  next
    case False
    with "1.prems"(2,3) have "full_blocks msg = k" by (intro full_blocks_unique) auto
    with False "1.prems" show ?thesis by (simp add: update_blocks.simps [of s])
  qed
qed

lemma splice_props:
  assumes "at + length bs \<le> length buf"
  shows "length (splice buf at bs) = length buf" and "take (at + length bs) (splice buf at bs) = take at buf @ bs"
  using assms by (simp_all add: splice_def)

lemma update_absorbed:
  assumes a: "absorbed s msg"
  shows "absorbed (blake2b_update s inp) (msg @ inp)"
proof (cases "inp = []")
  case True
  with a show ?thesis by (simp add: blake2b_update_def)
next
  case False
  define k where "k = full_blocks msg"
  define left where "left = buf_len s"
  define fill where "fill = 128 - left"
  have m: "mid s k msg" and left: "left = length msg - 128 * k" "take left (sbuf s) = drop (128 * k) msg"
    and lb: "length (sbuf s) = 128"
    using a unfolding absorbed_def Let_def k_def left_def mid_def by blast+
  have k: "128 * k \<le> length msg" "length msg \<le> 128 * k + 128" using full_blocks_bound [of msg] by (simp_all add: k_def)
  have lf: "left \<le> 128" "fill + left = 128" using k left by (simp_all add: fill_def)
  have mm: "mid s k (msg @ inp)" using m k(1) by (simp add: mid_def chain_append)
  show ?thesis
  proof (cases "length inp > fill")
    case fits: False
    have fb: "full_blocks (msg @ inp) = k"
      using False fits lf left k by (intro full_blocks_unique) (auto simp: neq_Nil_conv)
    have "blake2b_update s inp = s\<lparr>sbuf := splice (sbuf s) left inp, buf_len := left + length inp\<rparr>"
      using False fits by (simp add: blake2b_update_def Let_def left_def fill_def)
    moreover have "left + length inp \<le> 128" using fits lf by simp
    ultimately show ?thesis
      using mm left k lb splice_props [of left inp "sbuf s"] by (simp add: absorbed_def Let_def fb mid_def)
  next
    case True
    let ?b = "splice (sbuf s) left (take fill inp)"
    let ?s1 = "s\<lparr>buf_len := 0, sbuf := ?b\<rparr>"
    let ?s3 = "blake2b_compress (blake2b_increment_counter ?s1 128) ?b"
    have e: "left + length (take fill inp) = 128" using True lf by simp
    have lb': "length ?b = 128" and tk: "take 128 ?b = drop (128 * k) msg @ take fill inp"
      using splice_props [of left "take fill inp" "sbuf s", unfolded e left(2)] lb by (simp_all only: order_refl)
    have b: "?b = take 128 (drop (128 * k) (msg @ inp))"
    proof -
      have "128 - (length msg - 128 * k) = fill" using left(1) lf(2) by simp
      then have "take 128 (drop (128 * k) (msg @ inp)) = drop (128 * k) msg @ take fill inp"
        using k(1) k(2) by simp
      with lb' tk show ?thesis by simp
    qed
    have "mid ?s1 k (msg @ inp)" using mm lb' by (simp add: mid_def)
    note sctr = mid_step [OF this b]
    obtain s' rest where u: "update_blocks ?s3 (drop fill inp) = (s', rest)" by (cases "update_blocks ?s3 (drop fill inp)")
    have dr: "drop fill inp = drop (128 * Suc k) (msg @ inp)"
    proof -
      have "128 * Suc k - length msg = fill" using left(1) lf k by simp
      moreover have "length msg \<le> 128 * Suc k" using k by simp
      ultimately show ?thesis by simp
    qed
    have ne: "drop fill inp \<noteq> []" using True by simp
    note um = update_blocks_mid [OF sctr(1) dr ne u]
    have r: "mid s' (full_blocks (msg @ inp)) (msg @ inp)" "rest = drop (128 * full_blocks (msg @ inp)) (msg @ inp)"
      using um by blast+
    have r3: "buf_len s' = 0" using um sctr(2) by simp
    have up: "blake2b_update s inp = s'\<lparr>sbuf := splice (sbuf s') 0 rest, buf_len := length rest\<rparr>"
    proof -
      have s2: "sbuf (blake2b_increment_counter ?s1 128) = ?b" by (simp add: blake2b_increment_counter_def Let_def)
      show ?thesis
        using False True u r3 unfolding blake2b_update_def Let_def left_def [symmetric] fill_def [symmetric] s2 by simp
    qed
    have lr: "length rest \<le> 128" unfolding r(2) using full_blocks_bound(2) [of "msg @ inp"] by simp
    have ls: "length (sbuf s') = 128" using r(1) by (simp add: mid_def)
    have sp: "length (splice (sbuf s') 0 rest) = 128" "take (length rest) (splice (sbuf s') 0 rest) = rest"
      using splice_props [of 0 rest "sbuf s'"] lr ls by simp_all
    have "length rest = length (msg @ inp) - 128 * full_blocks (msg @ inp)" by (simp add: r(2))
    with r(1,2) sp show ?thesis unfolding up absorbed_def Let_def mid_def by simp
  qed
qed

lemma init_absorbed: "absorbed blake2b_init []"
  by (simp add: absorbed_def full_blocks_def blake2b_init_def ctr_def Let_def)

lemma final_absorbed:
  assumes "absorbed s msg"
  shows "snd (blake2b_final s) = blake2b_spec msg"
proof -
  define k where "k = full_blocks msg"
  have a: "sh s = chain k msg" "sctr s = ctr (128 * k)" "sf s = (0, 0)" "length (sbuf s) = 128"
    "buf_len s = length msg - 128 * k" "take (buf_len s) (sbuf s) = drop (128 * k) msg"
    using assms unfolding absorbed_def Let_def k_def by blast+
  have k: "128 * k \<le> length msg" "length msg \<le> 128 * k + 128" using full_blocks_bound [of msg] by (simp_all add: k_def)
  then have bl: "buf_len s \<le> 128" "128 * k + buf_len s = length msg" using a(5) by simp_all
  have inc: "blake2b_increment_counter s (of_nat (buf_len s)) = s\<lparr>sctr := ctr (length msg)\<rparr>"
    using ctr_increment [of "buf_len s" s "128 * k"] a(2) bl by simp
  have sp: "splice (sbuf s) (buf_len s) (replicate (128 - buf_len s) 0) =
      drop (128 * k) msg @ replicate (128 - buf_len s) 0"
    using a(4,6) bl by (simp add: splice_def)
  show ?thesis
    unfolding blake2b_final_def blake2b_spec_def Let_def inc
    using a(1,3,5) sp by (simp add: blake2b_compress_def k_def)
qed

end
