(* ===== verification/Qoi.thy ===== *)
theory Qoi
  imports Allocator
begin

text \<open>
  \<^verbatim>\<open>src/common/lib/qoi.c\<close>: decoding a QOI image into 32-bit XRGB pixels. Reads of the source are
  checked, so that reading outside it would be a result of its own. The pixel buffer is
  allocated from and, on failure, returned to the allocator; its size stands before the pixels
  in memory, where \<open>qoi_free\<close> finds it.
\<close>

section \<open>Format constants\<close>

abbreviation QOI_HEADER_SIZE :: nat where "QOI_HEADER_SIZE \<equiv> 14"
abbreviation QOI_PADDING_SIZE :: nat where "QOI_PADDING_SIZE \<equiv> 8"
abbreviation QOI_MAX_DIM :: u32 where "QOI_MAX_DIM \<equiv> 65536"
abbreviation QOI_MAX_PIXELS :: u64 where "QOI_MAX_PIXELS \<equiv> 400000000"

definition QOI_HASH :: "u8 \<Rightarrow> u8 \<Rightarrow> u8 \<Rightarrow> u8 \<Rightarrow> nat" where
  "QOI_HASH r g b a = unat ((ucast r * 3 + ucast g * 5 + ucast b * 7 + ucast a * 11 :: u32) AND 63)"

definition qoi_be32 :: "u8 list \<Rightarrow> u32" where
  "qoi_be32 p = push_bit 24 (ucast (p ! 0)) OR push_bit 16 (ucast (p ! 1)) OR push_bit 8 (ucast (p ! 2)) OR ucast (p ! 3)"

definition pack_rgba :: "u8 \<Rightarrow> u8 \<Rightarrow> u8 \<Rightarrow> u8 \<Rightarrow> u32" where
  "pack_rgba r g b a = ucast r OR push_bit 8 (ucast g) OR push_bit 16 (ucast b) OR push_bit 24 (ucast a)"

definition xrgb :: "u8 \<Rightarrow> u8 \<Rightarrow> u8 \<Rightarrow> u32" where
  "xrgb r g b = push_bit 16 (ucast r) OR push_bit 8 (ucast g) OR ucast b"

section \<open>The decoding loop\<close>

record qoi_state =
  qidx :: "u32 list"
  qrun :: nat
  qr :: u8
  qg :: u8
  qb :: u8
  qa :: u8
  qpos :: nat

text \<open>\<open>fail\<close> is the code's \<open>goto fail\<close>; \<open>Overread\<close> would be a read outside the source.\<close>

datatype 'a decoded = Decoded 'a | Failed | Overread

fun bind_decoded :: "'a decoded \<Rightarrow> ('a \<Rightarrow> 'b decoded) \<Rightarrow> 'b decoded" where
  "bind_decoded (Decoded x) f = f x"
| "bind_decoded Failed f = Failed"
| "bind_decoded Overread f = Overread"

text \<open>\<open>p[pos++]\<close>: one byte and the advanced state.\<close>

definition next_byte :: "u8 list \<Rightarrow> qoi_state \<Rightarrow> (u8 \<times> qoi_state) decoded" where
  "next_byte p q = (if qpos q < length p then Decoded (p ! qpos q, q\<lparr>qpos := Suc (qpos q)\<rparr>) else Overread)"

definition qoi_op :: "u8 list \<Rightarrow> nat \<Rightarrow> u8 \<Rightarrow> qoi_state \<Rightarrow> qoi_state decoded" where
  "qoi_op p end op q =
     (if op = 0xfe then
        (if end - qpos q < 3 then Failed
         else bind_decoded (next_byte p q) (\<lambda>(r, q). bind_decoded (next_byte p q) (\<lambda>(g, q).
              bind_decoded (next_byte p q) (\<lambda>(b, q). Decoded (q\<lparr>qr := r, qg := g, qb := b\<rparr>)))))
      else if op = 0xff then
        (if end - qpos q < 4 then Failed
         else bind_decoded (next_byte p q) (\<lambda>(r, q). bind_decoded (next_byte p q) (\<lambda>(g, q).
              bind_decoded (next_byte p q) (\<lambda>(b, q). bind_decoded (next_byte p q) (\<lambda>(a, q).
                Decoded (q\<lparr>qr := r, qg := g, qb := b, qa := a\<rparr>))))))
      else if op AND 0xc0 = 0x00 then
        (let v = qidx q ! unat (op AND 0x3f)
         in Decoded (q\<lparr>qr := ucast v, qg := ucast (drop_bit 8 v), qb := ucast (drop_bit 16 v),
                       qa := ucast (drop_bit 24 v)\<rparr>))
      else if op AND 0xc0 = 0x40 then
        Decoded (q\<lparr>qr := qr q + (drop_bit 4 op AND 3) - 2, qg := qg q + (drop_bit 2 op AND 3) - 2,
                   qb := qb q + (op AND 3) - 2\<rparr>)
      else if op AND 0xc0 = 0x80 then
        (if qpos q \<ge> end then Failed
         else bind_decoded (next_byte p q) (\<lambda>(b2, q).
           (let dg = (op AND 0x3f) - 32
            in Decoded (q\<lparr>qr := qr q + (dg + (drop_bit 4 b2 AND 0xf) - 8), qg := qg q + dg,
                          qb := qb q + (dg + (b2 AND 0xf) - 8)\<rparr>))))
      else Decoded (q\<lparr>qrun := unat (op AND 0x3f)\<rparr>))"

definition remember :: "qoi_state \<Rightarrow> qoi_state" where
  "remember q = q\<lparr>qidx := (qidx q)[QOI_HASH (qr q) (qg q) (qb q) (qa q) := pack_rgba (qr q) (qg q) (qb q) (qa q)]\<rparr>"

definition qoi_step :: "u8 list \<Rightarrow> nat \<Rightarrow> qoi_state \<Rightarrow> qoi_state decoded" where
  "qoi_step p end q =
     (if qrun q > 0 then Decoded (q\<lparr>qrun := qrun q - 1\<rparr>)
      else if qpos q \<ge> end then Failed
      else bind_decoded (next_byte p q) (\<lambda>(op, q).
             bind_decoded (qoi_op p end op q) (\<lambda>q. Decoded (remember q))))"

text \<open>The loop over the pixels still to produce.\<close>

fun qoi_pixels :: "u8 list \<Rightarrow> nat \<Rightarrow> nat \<Rightarrow> qoi_state \<Rightarrow> u32 list decoded" where
  "qoi_pixels p end 0 q = Decoded []"
| "qoi_pixels p end (Suc n) q =
     bind_decoded (qoi_step p end q) (\<lambda>q.
       bind_decoded (qoi_pixels p end n q) (\<lambda>px. Decoded (xrgb (qr q) (qg q) (qb q) # px)))"

definition qoi_start :: qoi_state where
  "qoi_start = \<lparr>qidx = replicate 64 0, qrun = 0, qr = 0, qg = 0, qb = 0, qa = 0xff, qpos = QOI_HEADER_SIZE\<rparr>"

text \<open>The header checks: width, height and number of pixels.\<close>

definition qoi_header :: "u8 list \<Rightarrow> (u32 \<times> u32 \<times> u64) option" where
  "qoi_header p =
     (if length p < QOI_HEADER_SIZE + QOI_PADDING_SIZE then None
      else if p ! 0 \<noteq> 0x71 \<or> p ! 1 \<noteq> 0x6f \<or> p ! 2 \<noteq> 0x69 \<or> p ! 3 \<noteq> 0x66 then None
      else
        (let w = qoi_be32 (drop 4 p); h = qoi_be32 (drop 8 p); channels = p ! 12
         in if w = 0 \<or> h = 0 \<or> w > QOI_MAX_DIM \<or> h > QOI_MAX_DIM then None
            else if channels \<noteq> 3 \<and> channels \<noteq> 4 then None
            else (case CHECKED_MUL (ucast w :: u64) (ucast h) of
                    None \<Rightarrow> None
                  | Some pixels \<Rightarrow> if pixels > QOI_MAX_PIXELS then None else Some (w, h, pixels))))"

definition qoi_alloc_total :: "u64 \<Rightarrow> u64 option" where
  "qoi_alloc_total pixels =
     (case CHECKED_MUL pixels 4 of None \<Rightarrow> None | Some bytes \<Rightarrow> CHECKED_ADD bytes 16)"

text \<open>Words in memory: a little-endian store of one and of many, and a load.\<close>

definition poke64 :: "u64 \<Rightarrow> u64 \<Rightarrow> (u64 \<Rightarrow> u8) \<Rightarrow> u64 \<Rightarrow> u8" where
  "poke64 p v m = (\<lambda>a. if a - p < 8 then ucast (drop_bit (8 * unat (a - p)) v) else m a)"

definition peek64 :: "(u64 \<Rightarrow> u8) \<Rightarrow> u64 \<Rightarrow> u64" where
  "peek64 m p = foldr (\<lambda>i acc. ucast (m (p + of_nat i)) OR push_bit 8 acc) [0..<8] 0"

fun poke_pixels :: "u64 \<Rightarrow> u32 list \<Rightarrow> (u64 \<Rightarrow> u8) \<Rightarrow> u64 \<Rightarrow> u8" where
  "poke_pixels p [] m = m"
| "poke_pixels p (v # vs) m =
     poke_pixels (p + 4) vs (\<lambda>a. if a - p < 4 then ucast (drop_bit (8 * unat (a - p)) v) else m a)"

text \<open>The buffer: its size in the first of sixteen bytes, then the pixels.\<close>

definition qoi_alloc_xrgb :: "pmm_state \<Rightarrow> u64 \<Rightarrow> (u64 option \<times> pmm_state) outcome" where
  "qoi_alloc_xrgb s pixels =
     (case qoi_alloc_total pixels of
        None \<Rightarrow> Inr (None, s)
      | Some nbytes \<Rightarrow>
          (case ext_mem_alloc s nbytes of
             Inl e \<Rightarrow> Inl e
           | Inr (raw, s1) \<Rightarrow> Inr (Some (raw + 16), s1\<lparr>mem := poke64 raw nbytes (mem s1)\<rparr>)))"

definition qoi_free :: "pmm_state \<Rightarrow> u64 \<Rightarrow> pmm_state outcome" where
  "qoi_free s buf = (if buf = 0 then Inr s else pmm_free s (buf - 16) (peek64 (mem s) (buf - 16)))"

text \<open>What a failed decode has written into the buffer it releases is not kept.\<close>

definition qoi_decode :: "pmm_state \<Rightarrow> u8 list \<Rightarrow> ((u64 \<times> u32 \<times> u32 \<times> u32 list) decoded \<times> pmm_state) outcome" where
  "qoi_decode s src =
     (case qoi_header src of
        None \<Rightarrow> Inr (Failed, s)
      | Some (w, h, pixels) \<Rightarrow>
          (case qoi_alloc_xrgb s pixels of
             Inl e \<Rightarrow> Inl e
           | Inr (None, s1) \<Rightarrow> Inr (Failed, s1)
           | Inr (Some buf, s1) \<Rightarrow>
               (case qoi_pixels src (length src - QOI_PADDING_SIZE) (unat pixels) qoi_start of
                  Decoded px \<Rightarrow> Inr (Decoded (buf, w, h, px), s1\<lparr>mem := poke_pixels buf px (mem s1)\<rparr>)
                | Failed \<Rightarrow> (case qoi_free s1 buf of Inl e \<Rightarrow> Inl e | Inr s2 \<Rightarrow> Inr (Failed, s2))
                | Overread \<Rightarrow> Inr (Overread, s1))))"

section \<open>The buffer remembers its size\<close>

lemma peek_poke: "peek64 (poke64 p v m) p = v"
proof -
  have "peek64 (poke64 p v m) p = foldr (\<lambda>i acc. ucast (ucast (drop_bit (8 * i) v) :: u8) OR push_bit 8 acc) [0, 1, 2, 3, 4, 5, 6, 7] 0"
  proof -
    have "[0..<8] = [0, 1, 2, 3, 4, 5, 6, 7 :: nat]" by code_simp
    then show ?thesis by (simp add: peek64_def poke64_def)
  qed
  also have "\<dots> = v"
  proof (rule bit_word_eqI)
    fix n assume "n < LENGTH(64)"
    then consider "n < 8" | "8 \<le> n" "n < 16" | "16 \<le> n" "n < 24" | "24 \<le> n" "n < 32" | "32 \<le> n" "n < 40"
      | "40 \<le> n" "n < 48" | "48 \<le> n" "n < 56" | "56 \<le> n" "n < 64" by fastforce
    then show "bit (foldr (\<lambda>i acc. ucast (ucast (drop_bit (8 * i) v) :: u8) OR push_bit 8 acc) [0, 1, 2, 3, 4, 5, 6, 7] 0 :: u64) n = bit v n"
      by cases (auto simp: bit_or_iff bit_push_bit_iff bit_ucast_iff bit_drop_bit_eq)
  qed
  finally show ?thesis .
qed

lemma qoi_free_whole:
  assumes "raw + 16 \<noteq> 0"
  shows "qoi_free (s\<lparr>mem := poke64 raw n (mem s)\<rparr>) (raw + 16) = pmm_free (s\<lparr>mem := poke64 raw n (mem s)\<rparr>) raw n"
  using assms by (simp add: qoi_free_def peek_poke)

section \<open>The decoder never reads outside the source\<close>

lemma next_byte_ok: "qpos q < end \<Longrightarrow> end \<le> length p \<Longrightarrow>
    next_byte p q = Decoded (p ! qpos q, q\<lparr>qpos := Suc (qpos q)\<rparr>)"
  by (simp add: next_byte_def)

lemma qoi_op_bounds:
  assumes "qpos q \<le> end" and "end \<le> length p"
  shows "qoi_op p end op q \<noteq> Overread \<and> (\<forall>q'. qoi_op p end op q = Decoded q' \<longrightarrow> qpos q' \<le> end)"
  using assms by (auto simp: qoi_op_def next_byte_def Let_def)

lemma qoi_step_bounds:
  assumes "qpos q \<le> end" and "end \<le> length p"
  shows "qoi_step p end q \<noteq> Overread \<and> (\<forall>q'. qoi_step p end q = Decoded q' \<longrightarrow> qpos q' \<le> end)"
proof (cases "qrun q > 0 \<or> qpos q \<ge> end")
  case True
  with assms show ?thesis by (auto simp: qoi_step_def)
next
  case False
  let ?q = "q\<lparr>qpos := Suc (qpos q)\<rparr>"
  have b: "qpos ?q \<le> end" using False by simp
  have n: "next_byte p q = Decoded (p ! qpos q, ?q)" using False assms by (intro next_byte_ok [of _ "end"]) auto
  show ?thesis
    using False qoi_op_bounds [OF b assms(2), of "p ! qpos q"]
    by (cases "qoi_op p end (p ! qpos q) ?q") (auto simp: qoi_step_def n remember_def)
qed

lemma qoi_pixels_bounds:
  "qpos q \<le> end \<Longrightarrow> end \<le> length p \<Longrightarrow> qoi_pixels p end n q \<noteq> Overread \<and>
     (\<forall>px. qoi_pixels p end n q = Decoded px \<longrightarrow> length px = n)"
proof (induction n arbitrary: q)
  case (Suc n)
  show ?case
  proof (cases "qoi_step p end q")
    case (Decoded q')
    with qoi_step_bounds [OF Suc.prems] have "qpos q' \<le> end" by simp
    from Suc.IH [OF this Suc.prems(2)] Decoded show ?thesis
      by (cases "qoi_pixels p end n q'") auto
  qed (use qoi_step_bounds [OF Suc.prems] in auto)
qed simp

section \<open>A stream of literal pixels\<close>

definition be32_bytes :: "u32 \<Rightarrow> u8 list" where
  "be32_bytes n = [ucast (drop_bit 24 n), ucast (drop_bit 16 n), ucast (drop_bit 8 n), ucast n]"

definition literal_qoi :: "u32 \<Rightarrow> u32 \<Rightarrow> (u8 \<times> u8 \<times> u8) list \<Rightarrow> u8 list" where
  "literal_qoi w h px = [0x71, 0x6f, 0x69, 0x66] @ be32_bytes w @ be32_bytes h @ [3, 0] @
     concat (map (\<lambda>(r, g, b). [0xfe, r, g, b]) px) @ [0, 0, 0, 0, 0, 0, 0, 1]"

lemma byte_bits:
  "bit (push_bit m (ucast (ucast (drop_bit m n) :: u8)) :: u32) k \<longleftrightarrow> m \<le> k \<and> k < m + 8 \<and> k < 32 \<and> bit n k"
  for n :: u32
proof (cases "m \<le> k")
  case True
  then have "m + (k - m) = k" "k - m < 8 \<longleftrightarrow> k < m + 8" by auto
  with True show ?thesis by (auto simp: bit_push_bit_iff bit_ucast_iff bit_drop_bit_eq dest: bit_imp_le_length)
qed (simp add: bit_push_bit_iff)

lemma be32_round_trip: "qoi_be32 (be32_bytes n @ r) = n"
proof (rule bit_word_eqI)
  fix k assume "k < LENGTH(32)"
  then show "bit (qoi_be32 (be32_bytes n @ r)) k = bit n k"
    using byte_bits [of 24 n k] byte_bits [of 16 n k] byte_bits [of 8 n k] byte_bits [of 0 n k]
    by (simp add: qoi_be32_def be32_bytes_def bit_or_iff) linarith
qed

lemma literal_pixels:
  assumes "p = pre @ concat (map (\<lambda>(r, g, b). [0xfe, r, g, b]) px) @ post" and "qpos q = length pre" and "qrun q = 0"
    and "end = length pre + 4 * length px"
  shows "qoi_pixels p end (length px) q = Decoded (map (\<lambda>(r, g, b). xrgb r g b) px)"
  using assms
proof (induction px arbitrary: pre q)
  case (Cons c px)
  obtain r g b where c: "c = (r, g, b)" by (cases c)
  let ?q = "remember (q\<lparr>qpos := length pre + 4, qr := r, qg := g, qb := b\<rparr>)"
  have p: "p = pre @ [0xfe, r, g, b] @ concat (map (\<lambda>(r, g, b). [0xfe, r, g, b]) px) @ post"
    using Cons.prems(1) by (simp add: c)
  have at: "p ! length pre = 0xfe" "p ! Suc (length pre) = r" "p ! Suc (Suc (length pre)) = g"
    "p ! Suc (Suc (Suc (length pre))) = b" "Suc (Suc (Suc (length pre))) < length p"
    unfolding p by (simp_all add: nth_append)
  have "qoi_step p end q = Decoded ?q"
    using Cons.prems(2-4) at by (simp add: qoi_step_def qoi_op_def next_byte_def eval_nat_numeral)
  moreover have "qoi_pixels p end (length px) ?q = Decoded (map (\<lambda>(r, g, b). xrgb r g b) px)"
    using p Cons.prems(3,4) by (intro Cons.IH [of "pre @ [0xfe, r, g, b]"]) (simp_all add: remember_def)
  ultimately show ?case by (simp add: c remember_def)
qed simp

lemma literal_qoi_header:
  assumes "0 < w" "w \<le> QOI_MAX_DIM" "0 < h" "h \<le> QOI_MAX_DIM" and "length px = unat w * unat h"
    and "length px \<le> 400000000"
  shows "qoi_header (literal_qoi w h px) = Some (w, h, of_nat (length px))"
proof -
  let ?p = "literal_qoi w h px"
  have d: "drop 4 ?p = be32_bytes w @ (be32_bytes h @ [3, 0] @ concat (map (\<lambda>(r, g, b). [0xfe, r, g, b]) px) @ [0, 0, 0, 0, 0, 0, 0, 1])"
    "drop 8 ?p = be32_bytes h @ ([3, 0] @ concat (map (\<lambda>(r, g, b). [0xfe, r, g, b]) px) @ [0, 0, 0, 0, 0, 0, 0, 1])"
    by (simp_all add: literal_qoi_def be32_bytes_def)
  have wh: "qoi_be32 (drop 4 ?p) = w" "qoi_be32 (drop 8 ?p) = h" unfolding d by (rule be32_round_trip)+
  have u: "unat (ucast w :: u64) = unat w" "unat (ucast h :: u64) = unat h" by (simp_all add: unat_ucast_up)
  have m: "CHECKED_MUL (ucast w :: u64) (ucast h) = Some (of_nat (length px))"
    using assms(5,6) by (simp add: CHECKED_MUL_def u word_unat_eq_iff unat_word_ariths unat_of_nat)
  have le: "\<not> of_nat (length px) > QOI_MAX_PIXELS"
    using assms(6) by (simp add: word_less_nat_alt unat_of_nat)
  have b: "?p ! 0 = 0x71" "?p ! 1 = 0x6f" "?p ! 2 = 0x69" "?p ! 3 = 0x66" "?p ! 12 = 3" "22 \<le> length ?p"
    by (simp_all add: literal_qoi_def be32_bytes_def)
  have "w \<noteq> 0" "h \<noteq> 0" "\<not> w > QOI_MAX_DIM" "\<not> h > QOI_MAX_DIM" using assms(1-4) by auto
  with b le show ?thesis unfolding qoi_header_def Let_def wh m by simp
qed

lemma length_literals: "length (concat (map (\<lambda>(r, g, b). [0xfe :: u8, r, g, b]) px)) = 4 * length px"
  by (induction px) auto

lemma literal_qoi_pixels:
  "qoi_pixels (literal_qoi w h px) (length (literal_qoi w h px) - QOI_PADDING_SIZE) (length px) qoi_start =
     Decoded (map (\<lambda>(r, g, b). xrgb r g b) px)"
  by (rule literal_pixels [of _ "[0x71, 0x6f, 0x69, 0x66] @ be32_bytes w @ be32_bytes h @ [3, 0]" px "[0, 0, 0, 0, 0, 0, 0, 1]"])
     (simp_all add: literal_qoi_def be32_bytes_def qoi_start_def length_literals)

end
