(* ===== verification/Menu_Model.thy ===== *)
theory Menu_Model
  imports Numparse Allocator
begin

text \<open>
  \<^verbatim>\<open>src/common/menu_model.c\<close>: the flat list of rows shown for a tree of menu entries, and matching
  a row against a saved path. A linked list of entries is a list; \<open>sub == NULL\<close> is the empty
  list. \<open>skip\<close> is the caller's callback.
\<close>

datatype menu_entry = Entry (ename: string) (esub: "menu_entry list") (eexpanded: bool)

record menu_row =
  rname :: string
  parent :: nat
  depth :: nat
  directory :: bool
  rexpanded :: bool
  has_next_sibling :: bool
  duplicate :: nat

abbreviation SIZE_MAX :: nat where "SIZE_MAX \<equiv> 2 ^ 64 - 1"

section \<open>Counting and projecting\<close>

fun menu_model_count :: "(menu_entry \<Rightarrow> bool) \<Rightarrow> menu_entry list \<Rightarrow> nat" where
  "menu_model_count skip [] = 0"
| "menu_model_count skip (Entry n sub ex # rest) =
     (if skip (Entry n sub ex) then menu_model_count skip rest
      else 1 + (if sub \<noteq> [] \<and> ex then menu_model_count skip sub else 0) + menu_model_count skip rest)"

text \<open>The inner loop over the entries before this one in its list.\<close>

definition count_prior :: "(menu_entry \<Rightarrow> bool) \<Rightarrow> menu_entry list \<Rightarrow> string \<Rightarrow> nat" where
  "count_prior skip prior name = length (filter (\<lambda>p. \<not> skip p \<and> strcmp (ename p) name = 0) prior)"

text \<open>
  The rows written from position \<open>index\<close> on, each with the entry stored beside it. Rows are
  written in order, so the list of them is the part of the arrays that is filled.
\<close>

fun project_tree ::
  "(menu_entry \<Rightarrow> bool) \<Rightarrow> menu_entry list \<Rightarrow> menu_entry list \<Rightarrow> nat \<Rightarrow> nat \<Rightarrow> nat \<Rightarrow> (menu_entry \<times> menu_row) list" where
  "project_tree skip prior [] par dep index = []"
| "project_tree skip prior (Entry n sub ex # rest) par dep index =
     (let entry = Entry n sub ex
      in if skip entry then project_tree skip (prior @ [entry]) rest par dep index
         else
           (let row = \<lparr>rname = n, parent = par, depth = dep, directory = sub \<noteq> [], rexpanded = ex,
                       has_next_sibling = rest \<noteq> [], duplicate = count_prior skip prior n\<rparr>;
                below = (if sub \<noteq> [] \<and> ex then project_tree skip [] sub index (dep + 1) (index + 1) else [])
            in (entry, row) # below @
               project_tree skip (prior @ [entry]) rest par dep (index + 1 + length below)))"

text \<open>
  The arrays with the addresses they were given; 0 is \<open>NULL\<close>. A row takes 40 bytes and an
  entry pointer 8.
\<close>

record menu_model =
  mcount :: nat
  rows_at :: u64
  mrows :: "menu_row list"
  entries_at :: u64
  mentries :: "menu_entry list"

definition empty_model :: menu_model where
  "empty_model = \<lparr>mcount = 0, rows_at = 0, mrows = [], entries_at = 0, mentries = []\<rparr>"

definition release_rows :: "pmm_state \<Rightarrow> menu_model \<Rightarrow> pmm_state outcome" where
  "release_rows s model =
     (if mcount model = 0 then Inr s
      else case pmm_free s (rows_at model) (of_nat (mcount model) * 40) of
        Inl e \<Rightarrow> Inl e
      | Inr s1 \<Rightarrow> pmm_free s1 (entries_at model) (of_nat (mcount model) * 8))"

definition claim_rows :: "pmm_state \<Rightarrow> nat \<Rightarrow> (u64 \<times> u64 \<times> pmm_state) outcome" where
  "claim_rows s n =
     (if n = 0 then Inr (0, 0, s)
      else case ext_mem_alloc_counted s (of_nat n) 40 of
        Inl e \<Rightarrow> Inl e
      | Inr (r, s1) \<Rightarrow>
          (case ext_mem_alloc_counted s1 (of_nat n) 8 of
             Inl e \<Rightarrow> Inl e
           | Inr (p, s2) \<Rightarrow> Inr (r, p, s2)))"

definition menu_model_update ::
  "pmm_state \<Rightarrow> menu_model \<Rightarrow> menu_entry list \<Rightarrow> (menu_entry \<Rightarrow> bool) \<Rightarrow> (menu_model \<times> pmm_state) outcome" where
  "menu_model_update s model tree skip =
     (let n = menu_model_count skip tree; rows = project_tree skip [] tree SIZE_MAX 0 0;
          fill = (\<lambda>r e. \<lparr>mcount = n, rows_at = r, mrows = map snd rows, entries_at = e, mentries = map fst rows\<rparr>)
      in if n = mcount model then Inr (fill (rows_at model) (entries_at model), s)
         else case release_rows s model of
           Inl err \<Rightarrow> Inl err
         | Inr s1 \<Rightarrow>
             (case claim_rows s1 n of
                Inl err \<Rightarrow> Inl err
              | Inr (r, e, s2) \<Rightarrow> Inr (fill r e, s2)))"

lemma menu_model_update_fills:
  assumes "menu_model_update s model tree skip = Inr (model', s')"
  shows "mcount model' = menu_model_count skip tree"
    and "mrows model' = map snd (project_tree skip [] tree SIZE_MAX 0 0)"
    and "mentries model' = map fst (project_tree skip [] tree SIZE_MAX 0 0)"
  using assms by (auto simp: menu_model_update_def Let_def split: if_split_asm sum.split_asm)

definition menu_model_entry :: "menu_model \<Rightarrow> nat \<Rightarrow> menu_entry option" where
  "menu_model_entry model index = (if index < mcount model then Some (mentries model ! index) else None)"

section \<open>Matching a saved path\<close>

text \<open>The chain of rows from \<open>index\<close> to the root, innermost first; \<^const>\<open>None\<close> for \<open>return false\<close>.\<close>

function row_chain :: "menu_row list \<Rightarrow> nat \<Rightarrow> nat list \<Rightarrow> nat list option" where
  "row_chain rows at chain =
     (if at = SIZE_MAX then Some chain
      else if length chain = 64 \<or> (parent (rows ! at) \<noteq> SIZE_MAX \<and> parent (rows ! at) \<ge> at) then None
      else row_chain rows (parent (rows ! at)) (chain @ [at]))"
  by pat_completeness auto
termination
  by (relation "measure (\<lambda>(rows, at, chain). if at = SIZE_MAX then 0 else Suc at)") auto

declare row_chain.simps [simp del]

definition special :: "char \<Rightarrow> bool" where
  "special c \<longleftrightarrow> c = CHR ''/'' \<or> c = CHR ''#'' \<or> c = CHR 0x5C"

text \<open>The loop over a row's name: the rest of the path, or \<^const>\<open>None\<close> for \<open>return false\<close>.\<close>

fun match_name :: "string \<Rightarrow> string \<Rightarrow> string option" where
  "match_name [] path = Some path"
| "match_name (c # name) path =
     (if special c \<and> deref path \<noteq> CHR 0x5C then None
      else (let path' = (if special c then tl path else path)
            in if deref path' \<noteq> c then None else match_name name (tl path')))"

definition path_digit :: "char \<Rightarrow> bool" where
  "path_digit c \<longleftrightarrow> code c \<ge> 0x30 \<and> code c \<le> 0x39"

function match_digits :: "nat \<Rightarrow> string \<Rightarrow> (nat \<times> string) option" where
  "match_digits dup path =
     (if path_digit (deref path) then
        (if dup > (SIZE_MAX - 9) div 10 then None
         else match_digits (dup * 10 + nat (code (deref path) - 0x30)) (tl path))
      else Some (dup, path))"
  by pat_completeness auto
termination
proof (relation "measure (\<lambda>(dup, path). length path)", goal_cases)
  case (2 dup path)
  then have "deref path \<noteq> NUL" by (auto simp: path_digit_def)
  then show ?case using deref_nonempty by simp
qed simp

declare match_digits.simps [simp del]

definition match_duplicate :: "string \<Rightarrow> (nat \<times> string) option" where
  "match_duplicate path =
     (if deref path = CHR ''#'' then
        (if \<not> path_digit (deref (tl path)) then None else match_digits 0 (tl path))
      else Some (0, path))"

text \<open>The outer loop, outermost row first.\<close>

fun match_rows :: "menu_row list \<Rightarrow> string \<Rightarrow> string option" where
  "match_rows [] path = Some path"
| "match_rows (row # rest) path =
     (case match_name (rname row) path of
        None \<Rightarrow> None
      | Some p1 \<Rightarrow>
          (case match_duplicate p1 of
             None \<Rightarrow> None
           | Some (dup, p2) \<Rightarrow>
               if dup \<noteq> duplicate row then None
               else if rest \<noteq> [] \<and> deref p2 \<noteq> CHR ''/'' then None
               else match_rows rest (if rest \<noteq> [] then tl p2 else p2)))"

definition menu_row_matches :: "menu_row list \<Rightarrow> nat \<Rightarrow> string \<Rightarrow> bool" where
  "menu_row_matches rows index path =
     (case row_chain rows index [] of
        None \<Rightarrow> False
      | Some chain \<Rightarrow>
          (case match_rows (map (\<lambda>i. rows ! i) (rev chain)) path of
             None \<Rightarrow> False
           | Some p \<Rightarrow> deref p = NUL))"

section \<open>The projection fills exactly the counted rows\<close>

lemma length_project_tree: "length (project_tree skip prior tree par dep index) = menu_model_count skip tree"
proof (induction skip prior tree par dep index rule: project_tree.induct)
  case (2 skip prior n sub ex rest par dep index)
  then show ?case by (cases "skip (Entry n sub ex)"; cases "sub \<noteq> [] \<and> ex") (auto simp: Let_def)
qed simp

text \<open>
  Every row's parent is either the parent given to the call or an earlier row of the
  projection, one level up, a directory and expanded.
\<close>

definition row_placed :: "nat \<Rightarrow> nat \<Rightarrow> nat \<Rightarrow> menu_row list \<Rightarrow> nat \<Rightarrow> bool" where
  "row_placed par dep index rows i \<longleftrightarrow>
     (parent (rows ! i) = par \<and> depth (rows ! i) = dep) \<or>
     (\<exists>j < i. parent (rows ! i) = index + j \<and> depth (rows ! i) = depth (rows ! j) + 1 \<and>
        directory (rows ! j) \<and> rexpanded (rows ! j))"

lemma row_placed_shift:
  assumes "row_placed par' dep' (index + length pre) rows i" and "i < length rows"
    and "par' = par \<and> dep' = dep \<or> (\<exists>j < length pre. par' = index + j \<and> dep' = depth (pre ! j) + 1 \<and>
      directory (pre ! j) \<and> rexpanded (pre ! j))"
  shows "row_placed par dep index (pre @ rows @ post) (length pre + i)"
proof -
  have nth: "(pre @ rows @ post) ! (length pre + i) = rows ! i" using assms(2) by (simp add: nth_append)
  have old: "\<And>j. j < length pre \<Longrightarrow> (pre @ rows @ post) ! j = pre ! j" by (simp add: nth_append)
  have new: "\<And>j. j < i \<Longrightarrow> (pre @ rows @ post) ! (length pre + j) = rows ! j" using assms(2) by (simp add: nth_append)
  from assms(1) show ?thesis unfolding row_placed_def nth
  proof (elim disjE exE conjE)
    assume "parent (rows ! i) = par'" "depth (rows ! i) = dep'"
    with assms(3) old show "parent (rows ! i) = par \<and> depth (rows ! i) = dep \<or> (\<exists>j < length pre + i. parent (rows ! i) = index + j \<and>
      depth (rows ! i) = depth ((pre @ rows @ post) ! j) + 1 \<and> directory ((pre @ rows @ post) ! j) \<and> rexpanded ((pre @ rows @ post) ! j))"
      by (metis trans_less_add1)
  next
    fix j assume "j < i" "parent (rows ! i) = index + length pre + j" "depth (rows ! i) = depth (rows ! j) + 1"
      "directory (rows ! j)" "rexpanded (rows ! j)"
    with new show "parent (rows ! i) = par \<and> depth (rows ! i) = dep \<or> (\<exists>j < length pre + i. parent (rows ! i) = index + j \<and>
      depth (rows ! i) = depth ((pre @ rows @ post) ! j) + 1 \<and> directory ((pre @ rows @ post) ! j) \<and> rexpanded ((pre @ rows @ post) ! j))"
      by (intro disjI2 exI [of _ "length pre + j"]) (simp add: add.assoc)
  qed
qed

lemma project_tree_placed:
  "i < length (project_tree skip prior tree par dep index) \<Longrightarrow>
     row_placed par dep index (map snd (project_tree skip prior tree par dep index)) i"
proof (induction skip prior tree par dep index arbitrary: i rule: project_tree.induct)
  case (2 skip prior n sub ex rest par dep index)
  let ?e = "Entry n sub ex"
  show ?case
  proof (cases "skip ?e")
    case True
    with "2.IH"(1) [OF refl True] "2.prems" show ?thesis by simp
  next
    case False
    define row where "row = \<lparr>rname = n, parent = par, depth = dep, directory = sub \<noteq> [], rexpanded = ex,
                       has_next_sibling = rest \<noteq> [], duplicate = count_prior skip prior n\<rparr>"
    define below where "below = (if sub \<noteq> [] \<and> ex then project_tree skip [] sub index (dep + 1) (index + 1) else [])"
    define after where "after = project_tree skip (prior @ [?e]) rest par dep (index + 1 + length below)"
    have eq: "project_tree skip prior (?e # rest) par dep index = (?e, row) # below @ after"
      using False by (simp add: row_def below_def after_def Let_def)
    consider "i = 0" | k where "i = Suc k" "k < length below" | k where "i = Suc (length below + k)" "k < length after"
      using "2.prems" unfolding eq by (cases i) (auto, metis add_diff_inverse_nat nat_add_left_cancel_less)
    then show ?thesis
    proof cases
      case 1
      then show ?thesis unfolding eq by (simp add: row_placed_def row_def)
    next
      case (2 k)
      then have c: "sub \<noteq> [] \<and> ex" by (auto simp: below_def split: if_splits)
      then have "row_placed index (dep + 1) (index + 1) (map snd below) k"
        using "2.IH"(2) [OF refl False refl c] 2(2) by (simp add: below_def)
      then have "row_placed par dep index ([row] @ map snd below @ map snd after) (length [row] + k)"
        using 2(2) c by (intro row_placed_shift) (auto simp: row_def)
      with 2 show ?thesis unfolding eq by simp
    next
      case (3 k)
      have "row_placed par dep (index + 1 + length below) (map snd after) k"
        using "2.IH"(3) [OF refl False refl below_def] 3(2) by (simp add: after_def)
      then have "row_placed par dep index ((row # map snd below) @ map snd after @ []) (length (row # map snd below) + k)"
        using 3(2) by (intro row_placed_shift) (auto simp: add.assoc)
      with 3 show ?thesis unfolding eq by simp
    qed
  qed
qed simp

section \<open>A row matches its own path\<close>

definition escape :: "string \<Rightarrow> string" where
  "escape name = concat (map (\<lambda>c. if special c then [CHR 0x5C, c] else [c]) name)"

definition print_row :: "menu_row \<Rightarrow> string" where
  "print_row r = escape (rname r) @ (if duplicate r = 0 then [] else CHR ''#'' # dec (duplicate r))"

fun rows_path :: "menu_row list \<Rightarrow> string" where
  "rows_path [] = []"
| "rows_path [r] = print_row r"
| "rows_path (r # rs) = print_row r @ CHR ''/'' # rows_path rs"

lemma match_name_escape: "match_name n (escape n @ p) = Some p"
  by (induction n) (auto simp: escape_def Let_def)

definition dec_value :: "nat \<Rightarrow> string \<Rightarrow> nat" where
  "dec_value = foldl (\<lambda>n c. n * 10 + nat (code c - 0x30))"

lemma dec_value_mono: "v \<le> dec_value v xs"
proof (induction xs arbitrary: v)
  case (Cons c xs)
  have "v \<le> v * 10 + nat (code c - 0x30)" by simp
  also have "\<dots> \<le> dec_value (v * 10 + nat (code c - 0x30)) xs" by (rule Cons.IH)
  finally show ?case by (simp add: dec_value_def)
qed (simp add: dec_value_def)

lemma match_digits_dec:
  assumes "\<forall>c \<in> set xs. path_digit c" and "\<not> path_digit (deref p)" and "dec_value v xs \<le> SIZE_MAX - 9"
  shows "match_digits v (xs @ p) = Some (dec_value v xs, p)"
  using assms(1,3)
proof (induction xs arbitrary: v)
  case Nil
  with assms(2) show ?case by (simp add: match_digits.simps [of v p] dec_value_def)
next
  case (Cons c xs)
  let ?v = "v * 10 + nat (code c - 0x30)"
  have step: "dec_value v (c # xs) = dec_value ?v xs" by (simp add: dec_value_def)
  have "v * 10 \<le> SIZE_MAX - 9" using dec_value_mono [of ?v xs] Cons.prems(2) unfolding step by linarith
  then have "\<not> v > (SIZE_MAX - 9) div 10" by (simp add: less_eq_div_iff_mult_less_eq not_less)
  with Cons show ?case unfolding step by (simp add: match_digits.simps [of v "c # xs @ p"])
qed

lemma code_digit_char: "k < 10 \<Longrightarrow> code (char_of (k + 48 :: nat)) = int k + 48"
proof -
  assume k: "k < 10"
  have "code (char_of (k + 48 :: nat)) = int (of_char (char_of (k + 48 :: nat) :: char))" by (simp only: of_nat_of_char)
  also have "\<dots> = int k + 48" using k by simp
  finally show ?thesis .
qed

lemma dec_path_digits: "(\<forall>c \<in> set (dec n). path_digit c) \<and> dec_value 0 (dec n) = n \<and> dec n \<noteq> []"
proof (induction n rule: dec.induct)
  case (1 n)
  have d: "path_digit (char_of (k + 48 :: nat))" "nat (code (char_of (k + 48 :: nat)) - 48) = k" if "k < 10" for k
    using code_digit_char [OF that] that by (simp_all add: path_digit_def)
  show ?case
  proof (cases "n < 10")
    case True
    with d [OF True] show ?thesis by (simp add: dec.simps [of n] dec_value_def)
  next
    case False
    have m: "n mod 10 < 10" by simp
    have "n = n div 10 * 10 + n mod 10" by simp
    with False 1 d [OF m] show ?thesis by (simp add: dec.simps [of n] dec_value_def)
  qed
qed

lemma match_duplicate_print:
  assumes "d \<le> SIZE_MAX - 9" and "deref p \<noteq> CHR ''#''" and "\<not> path_digit (deref p)"
  shows "match_duplicate ((if d = 0 then [] else CHR ''#'' # dec d) @ p) = Some (d, p)"
proof (cases "d = 0")
  case True
  with assms show ?thesis by (simp add: match_duplicate_def)
next
  case False
  obtain c cs where c: "dec d = c # cs" using dec_path_digits [of d] by (cases "dec d") auto
  then have "path_digit c" using dec_path_digits [of d] by auto
  then show ?thesis
    using False match_digits_dec [of "dec d" p 0] dec_path_digits [of d] assms c by (simp add: match_duplicate_def)
qed

lemma not_path_digit [simp]: "\<not> path_digit CHR ''/''" "\<not> path_digit NUL"
  by (simp_all add: path_digit_def)

lemma match_rows_path:
  assumes "\<forall>r \<in> set rs. duplicate r \<le> SIZE_MAX - 9"
  shows "match_rows rs (rows_path rs) = Some []"
  using assms
proof (induction rs rule: rows_path.induct)
  case (2 r)
  then show ?case
    using match_name_escape [of "rname r" "if duplicate r = 0 then [] else CHR ''#'' # dec (duplicate r)"]
      match_duplicate_print [of "duplicate r" "[]"] by (simp add: print_row_def)
next
  case (3 r r' rs)
  let ?p = "CHR ''/'' # rows_path (r' # rs)"
  let ?d = "if duplicate r = 0 then [] else CHR ''#'' # dec (duplicate r)"
  have m: "match_name (rname r) (print_row r @ ?p) = Some (?d @ ?p)"
    using match_name_escape [of "rname r" "?d @ ?p"] by (simp add: print_row_def)
  have "match_duplicate (?d @ ?p) = Some (duplicate r, ?p)"
    by (rule match_duplicate_print) (use "3.prems" in simp_all)
  with m "3.IH" "3.prems" show ?case by (simp only: rows_path.simps match_rows.simps option.case prod.case) simp
qed simp

lemma row_chain_extends: "row_chain rows at chain = Some c \<Longrightarrow> set chain \<subseteq> set c"
proof (induction rows at chain rule: row_chain.induct)
  case (1 rows at chain)
  then show ?case by (auto simp: row_chain.simps [of rows at chain] split: if_splits)
qed

text \<open>The chain of a row of a projection exists when the row is less than 64 levels deep.\<close>

lemma row_chain_depth:
  assumes "\<forall>i < length rows. row_placed SIZE_MAX 0 0 rows i" and "length rows \<le> SIZE_MAX"
    and "i < length rows" and "length chain + depth (rows ! i) < 64" and "\<forall>k \<in> set chain. k < length rows"
  shows "\<exists>chain'. row_chain rows i chain = Some chain' \<and> (\<forall>k \<in> set chain'. k < length rows) \<and> i \<in> set chain'"
  using assms(3-)
proof (induction "depth (rows ! i)" arbitrary: i chain rule: less_induct)
  case less
  have ne: "i \<noteq> SIZE_MAX" "length chain \<noteq> 64" using less.prems(1,2) assms(2) by auto
  have in': "\<forall>k \<in> set (chain @ [i]). k < length rows" using less.prems(1,3) by simp
  from assms(1) less.prems(1) have "row_placed SIZE_MAX 0 0 rows i" by blast
  then consider "parent (rows ! i) = SIZE_MAX" | j where "j < i" "parent (rows ! i) = j" "depth (rows ! i) = depth (rows ! j) + 1"
    unfolding row_placed_def by auto
  then show ?case
  proof cases
    case 1
    have "row_chain rows i chain = row_chain rows SIZE_MAX (chain @ [i])"
      using 1 ne by (subst row_chain.simps) simp
    moreover have "row_chain rows SIZE_MAX (chain @ [i]) = Some (chain @ [i])" by (subst row_chain.simps) simp
    ultimately show ?thesis using in' by auto
  next
    case (2 j)
    have j: "j < length rows" using 2(1) less.prems(1) by simp
    have "\<exists>chain'. row_chain rows j (chain @ [i]) = Some chain' \<and> (\<forall>k \<in> set chain'. k < length rows) \<and> j \<in> set chain'"
      using 2 j less.prems(2) in' by (intro less.hyps) simp_all
    moreover have "row_chain rows i chain = row_chain rows j (chain @ [i])"
      using ne 2 j assms(2) by (subst row_chain.simps) auto
    moreover have "set (chain @ [i]) \<subseteq> set c" if "row_chain rows j (chain @ [i]) = Some c" for c
      using row_chain_extends [OF that] .
    ultimately show ?thesis by auto
  qed
qed

end
