(* ===== verification/Clock.thy ===== *)
theory Clock
  imports Prelude "HOL-Library.Signed_Division"
begin

text \<open>
  \<^verbatim>\<open>src/common/lib/time.c\<close> (calendar arithmetic) and the PCG32 generator of
  \<^verbatim>\<open>src/common/lib/rand.s2.c\<close>. C's \<open>int\<close> division truncates: it is \<open>sdiv\<close> here.
\<close>

section \<open>Julian day numbers\<close>

definition get_jdn :: "int \<Rightarrow> int \<Rightarrow> int \<Rightarrow> int" where
  "get_jdn days months years =
     (1461 * (years + 4800 + (months - 14) sdiv 12)) sdiv 4 +
     (367 * (months - 2 - 12 * ((months - 14) sdiv 12))) sdiv 12 -
     (3 * ((years + 4900 + (months - 14) sdiv 12) sdiv 100)) sdiv 4 + days - 32075"

text \<open>The arguments are \<open>uint8_t\<close> and \<open>uint16_t\<close>; the result is \<open>uint64_t\<close>.\<close>

definition get_unix_epoch :: "u8 \<Rightarrow> u8 \<Rightarrow> u8 \<Rightarrow> u8 \<Rightarrow> u8 \<Rightarrow> u16 \<Rightarrow> u64" where
  "get_unix_epoch seconds minutes hours days months years =
     (let jdn_current = word_of_int (get_jdn (uint days) (uint months) (uint years)) :: u64;
          jdn_1970 = word_of_int (get_jdn 1 1 1970) :: u64
      in if jdn_current < jdn_1970 then 0
         else (jdn_current - jdn_1970) * (60 * 60 * 24) + ucast hours * 3600 + ucast minutes * 60 + ucast seconds)"

text \<open>The Gregorian calendar.\<close>

definition leap :: "int \<Rightarrow> bool" where
  "leap y \<longleftrightarrow> y mod 4 = 0 \<and> (y mod 100 \<noteq> 0 \<or> y mod 400 = 0)"

definition month_length :: "int \<Rightarrow> int \<Rightarrow> int" where
  "month_length m y = (if m = 2 then (if leap y then 29 else 28) else if m = 4 \<or> m = 6 \<or> m = 9 \<or> m = 11 then 30 else 31)"

fun next_day :: "int \<times> int \<times> int \<Rightarrow> int \<times> int \<times> int" where
  "next_day (d, m, y) =
     (if d < month_length m y then (d + 1, m, y) else if m < 12 then (1, m + 1, y) else (1, 1, y + 1))"

fun valid_date :: "int \<times> int \<times> int \<Rightarrow> bool" where
  "valid_date (d, m, y) \<longleftrightarrow> 1 \<le> m \<and> m \<le> 12 \<and> 1 \<le> d \<and> d \<le> month_length m y \<and> 0 \<le> y"

lemma sdiv_pos: "0 \<le> a \<Longrightarrow> 0 < b \<Longrightarrow> a sdiv b = a div b" for a b :: int
  by (simp add: signed_divide_int_def sgn_if)

lemma month_cases: "1 \<le> m \<Longrightarrow> m \<le> 12 \<Longrightarrow> m \<in> {1, 2, 3, 4, 5, 6, 7, 8, 9, 10, 11, 12}" for m :: int
  by simp presburger

lemma month_shift: "1 \<le> m \<Longrightarrow> m \<le> 12 \<Longrightarrow> (m - 14) sdiv 12 = (if m \<le> 2 then -1 else 0)" for m :: int
proof -
  assume "1 \<le> m" "m \<le> 12"
  then have "m \<in> {1, 2, 3, 4, 5, 6, 7, 8, 9, 10, 11, 12}" by (rule month_cases)
  then show ?thesis by (auto simp: signed_divide_int_def)
qed

text \<open>Days up to 1 March of the shifted year, and from there to the month.\<close>

definition year_days :: "int \<Rightarrow> int" where
  "year_days z = 1461 * z div 4 - 3 * ((z + 100) div 100) div 4"

definition month_days :: "int \<Rightarrow> int" where
  "month_days m = 367 * (if m \<le> 2 then m + 10 else m - 2) div 12"

lemma get_jdn_split:
  assumes "1 \<le> m" "m \<le> 12" "0 \<le> y"
  shows "get_jdn d m y = year_days (y + 4800 + (if m \<le> 2 then -1 else 0)) + month_days m + d - 32075"
proof -
  define c where "c = (if m \<le> 2 then -1 else 0 :: int)"
  have c: "c = -1 \<or> c = 0" by (simp add: c_def)
  have mm: "m - 2 - 12 * c = (if m \<le> 2 then m + 10 else m - 2)" by (simp add: c_def)
  have "0 \<le> m - 2 - 12 * c" unfolding mm using assms(1) by simp
  moreover have "0 \<le> y + 4800 + c" "0 \<le> y + 4900 + c" "y + 4900 + c = y + 4800 + c + 100" using c assms(3) by auto
  ultimately show ?thesis
    unfolding get_jdn_def month_shift [OF assms(1,2)] c_def [symmetric] year_days_def month_days_def mm [symmetric]
    by (simp only: sdiv_pos zero_less_numeral mult_nonneg_nonneg zero_le_numeral pos_imp_zdiv_nonneg_iff)
qed

lemma quarter_days: "1461 * z div 4 = 365 * z + z div 4" "3 * z div 4 = z - (z + 3) div 4" for z :: int
proof -
  have "1461 * z = z + 365 * z * 4" by simp
  then show "1461 * z div 4 = 365 * z + z div 4" by (simp only: div_mult_self1)
  show "3 * z div 4 = z - (z + 3) div 4" by presburger
qed

lemma div_step: "0 < n \<Longrightarrow> z div n - (z - 1) div n = (if n dvd z then 1 else 0)" for z n :: int
proof -
  assume n: "0 < n"
  define q r where "q = z div n" and "r = z mod n"
  have z: "z = n * q + r" and r: "0 \<le> r" "r < n" using n by (simp_all add: q_def r_def)
  have d: "n dvd z \<longleftrightarrow> r = 0" unfolding r_def by (rule dvd_eq_mod_eq_0)
  show ?thesis
  proof (cases "r = 0")
    case True
    have "(z - 1) div n = q - 1" using n True z by (intro int_div_pos_eq [of _ _ _ "n - 1"]) (simp_all add: algebra_simps)
    with True d show ?thesis by (simp add: q_def)
  next
    case False
    have "(z - 1) div n = q" using n False z r by (intro int_div_pos_eq [of _ _ _ "r - 1"]) simp_all
    with False d show ?thesis by (simp add: q_def)
  qed
qed

lemma leap_arith:
  assumes "L \<longleftrightarrow> A \<and> (\<not> B \<or> C)" and "C \<Longrightarrow> B" and "B \<Longrightarrow> A"
  shows "365 + (if A then 1 else 0) - (if B then 1 else 0) + (if C then 1 else 0) = (if L then 366 else 365 :: int)"
  using assms by (cases A; cases B; cases C) auto

lemma leap_step: "year_days (y + 4800) - year_days (y + 4799) = (if leap y then 366 else 365)"
proof -
  define c where "c = (y + 4900) div 100"
  define c' where "c' = (y + 4899) div 100"
  have shift: "4 dvd y + 4800 \<longleftrightarrow> 4 dvd y" "100 dvd y + 4900 \<longleftrightarrow> 100 dvd y"
    by (simp_all add: dvd_add_left_iff)
  have s4: "(y + 4800) div 4 - (y + 4799) div 4 = (if 4 dvd y then 1 else 0)"
    using div_step [of 4 "y + 4800"] shift by simp
  have s100: "c - c' = (if 100 dvd y then 1 else 0)"
    using div_step [of 100 "y + 4900"] shift unfolding c_def c'_def by simp
  have c100: "4 dvd c + 3 \<longleftrightarrow> 400 dvd y" if h: "100 dvd y"
  proof -
    from h obtain k where k: "y = 100 * k" by (elim dvdE)
    then have "c = k + 49" by (simp add: c_def)
    then have "4 dvd c + 3 \<longleftrightarrow> 4 dvd k" by presburger
    also have "\<dots> \<longleftrightarrow> 100 * 4 dvd 100 * k" by (simp only: dvd_mult_cancel_left) simp
    finally show ?thesis using k by simp
  qed
  have big: "400 dvd y \<Longrightarrow> 100 dvd y" "100 dvd y \<Longrightarrow> 4 dvd y"
    by (rule dvd_trans; simp)+
  have s400: "(c + 3) div 4 - (c' + 3) div 4 = (if 400 dvd y then 1 else 0)"
  proof (cases "100 dvd y")
    case True
    then have "c' + 3 = (c + 3) - 1" using s100 by simp
    with div_step [of 4 "c + 3"] c100 [OF True] show ?thesis by simp
  next
    case False
    with s100 big show ?thesis by auto
  qed
  have "year_days (y + 4800) - year_days (y + 4799) =
      365 + ((y + 4800) div 4 - (y + 4799) div 4) - (c - c') + ((c + 3) div 4 - (c' + 3) div 4)"
    unfolding year_days_def quarter_days c_def c'_def by (simp add: add.commute)
  also have "\<dots> = (if leap y then 366 else 365)"
  proof -
    have "leap y \<longleftrightarrow> 4 dvd y \<and> (\<not> 100 dvd y \<or> 400 dvd y)" unfolding leap_def dvd_eq_mod_eq_0 ..
    then show ?thesis unfolding s4 s100 s400 using big by (rule leap_arith)
  qed
  finally show ?thesis .
qed

lemma jdn_next_day:
  assumes "valid_date (d, m, y)" and "next_day (d, m, y) = (d', m', y')"
  shows "get_jdn d' m' y' = get_jdn d m y + 1" and "valid_date (d', m', y')"
proof -
  from assms(1) have v: "1 \<le> m" "m \<le> 12" "1 \<le> d" "d \<le> month_length m y" "0 \<le> y" by auto
  then have m: "m \<in> {1, 2, 3, 4, 5, 6, 7, 8, 9, 10, 11, 12}" by (intro month_cases)
  have z: "y + 1 + 4800 + -1 = y + 4800 + 0" by simp
  show "get_jdn d' m' y' = get_jdn d m y + 1"
  proof (cases "d < month_length m y")
    case True
    with assms(2) v show ?thesis by (simp add: get_jdn_split)
  next
    case False
    then have d: "d = month_length m y" using v by simp
    show ?thesis
    proof (cases "m = 2")
      case True
      with assms(2) d v leap_step [of y, unfolded add.commute [of y 4799]] show ?thesis
        by (auto simp: get_jdn_split month_length_def month_days_def split: if_splits)
    next
      case False
      with m assms(2) d v show ?thesis
        by (auto simp: get_jdn_split month_length_def month_days_def add.commute)
    qed
  qed
  show "valid_date (d', m', y')"
    using v assms(2) by (auto simp: month_length_def split: if_splits)
qed

text \<open>The date \<open>n\<close> days after the epoch, by walking the calendar.\<close>

fun date_after :: "nat \<Rightarrow> int \<times> int \<times> int" where
  "date_after 0 = (1, 1, 1970)"
| "date_after (Suc n) = next_day (date_after n)"

lemma date_after_jdn:
  "date_after n = (d, m, y) \<Longrightarrow> valid_date (d, m, y) \<and> get_jdn d m y = get_jdn 1 1 1970 + int n"
proof (induction n arbitrary: d m y)
  case 0
  then show ?case by (auto simp: month_length_def)
next
  case (Suc n)
  obtain d0 m0 y0 where p: "date_after n = (d0, m0, y0)" by (cases "date_after n")
  from Suc.IH [OF p] have v: "valid_date (d0, m0, y0)" "get_jdn d0 m0 y0 = get_jdn 1 1 1970 + int n" by simp_all
  have "next_day (d0, m0, y0) = (d, m, y)" using Suc.prems p by simp
  from jdn_next_day [OF v(1) this] v(2) show ?case by simp
qed

lemma epoch_of_date:
  assumes "date_after n = (uint days, uint months, uint years)"
    and "unat hours < 24" "unat minutes < 60" "unat seconds < 60" and "n < 2 ^ 40"
  shows "unat (get_unix_epoch seconds minutes hours days months years) =
    n * 86400 + unat hours * 3600 + unat minutes * 60 + unat seconds"
proof -
  have j: "get_jdn (uint days) (uint months) (uint years) = get_jdn 1 1 1970 + int n"
    using date_after_jdn [OF assms(1)] by simp
  have b: "get_jdn 1 1 1970 = 2440588"
    by (simp add: get_jdn_split year_days_def month_days_def)
  have jc: "(word_of_int (2440588 + int n) :: u64) = 2440588 + of_nat n" by simp
  have "unat (2440588 + of_nat n :: u64) = 2440588 + n" using assms(5) by (simp add: unat_word_ariths unat_of_nat)
  then have ge: "\<not> (2440588 + of_nat n :: u64) < 2440588" by (simp add: word_less_nat_alt)
  have e: "get_unix_epoch seconds minutes hours days months years =
      of_nat n * 86400 + ucast hours * 3600 + ucast minutes * 60 + ucast seconds"
    unfolding get_unix_epoch_def Let_def j b using ge by simp
  have u: "unat (ucast w :: u64) = unat w" for w :: u8 by (simp add: unat_ucast_up)
  define N where "N = n * 86400 + unat hours * 3600 + unat minutes * 60 + unat seconds"
  have "N < 2 ^ 64" using assms(2-) unfolding N_def by simp
  then have N: "unat (of_nat N :: u64) = N" by (simp add: unat_of_nat)
  have "ucast w = (of_nat (unat w) :: u64)" for w :: u8 by simp
  then have "of_nat n * 86400 + ucast hours * 3600 + ucast minutes * 60 + ucast seconds = (of_nat N :: u64)"
    by (simp add: N_def)
  then show ?thesis unfolding e using N by (simp only: N_def)
qed

section \<open>PCG32\<close>

abbreviation PCG_MULTIPLIER :: u64 where "PCG_MULTIPLIER \<equiv> 6364136223846793005"
abbreviation PCG_INCREMENT :: u64 where "PCG_INCREMENT \<equiv> 1442695040888963407"

record rand_state =
  rand_initialised :: bool
  pcg_state :: u64

definition pcg_next :: "rand_state \<Rightarrow> u32 \<times> rand_state" where
  "pcg_next s =
     (let old = pcg_state s;
          xorshifted = (ucast (drop_bit 27 (drop_bit 18 old XOR old)) :: u32);
          rot = (ucast (drop_bit 59 old) :: u32)
      in (drop_bit (unat rot) xorshifted OR push_bit (unat ((- rot) AND 31)) xorshifted,
          s\<lparr>pcg_state := old * PCG_MULTIPLIER + PCG_INCREMENT\<rparr>))"

definition pcg_seed :: "rand_state \<Rightarrow> u64 \<Rightarrow> rand_state" where
  "pcg_seed s seed =
     (let s1 = snd (pcg_next (s\<lparr>pcg_state := 0\<rparr>));
          s2 = snd (pcg_next (s1\<lparr>pcg_state := pcg_state s1 + seed\<rparr>))
      in s2\<lparr>rand_initialised := True\<rparr>)"

definition srand :: "rand_state \<Rightarrow> u32 \<Rightarrow> rand_state" where
  "srand s seed = pcg_seed s (ucast seed)"

text \<open>The hardware entropy and the two time stamps are arguments.\<close>

definition init_rand :: "rand_state \<Rightarrow> u64 \<Rightarrow> u64 \<Rightarrow> u64 \<Rightarrow> rand_state" where
  "init_rand s entropy tsc1 tsc2 =
     pcg_seed s (entropy XOR 0xc597060cee0da130 * tsc1 XOR 0xce86d6249d2c5680 * tsc2)"

definition rand32 :: "rand_state \<Rightarrow> u64 \<Rightarrow> u64 \<Rightarrow> u64 \<Rightarrow> u32 \<times> rand_state" where
  "rand32 s entropy tsc1 tsc2 =
     pcg_next (if rand_initialised s then s else init_rand s entropy tsc1 tsc2)"

text \<open>The operands of the final \<open>|\<close> are taken from left to right.\<close>

definition rand64 :: "rand_state \<Rightarrow> u64 \<Rightarrow> u64 \<Rightarrow> u64 \<Rightarrow> u64 \<times> rand_state" where
  "rand64 s entropy tsc1 tsc2 =
     (case rand32 s entropy tsc1 tsc2 of
        (hi, s1) \<Rightarrow> (case rand32 s1 entropy tsc1 tsc2 of
          (lo, s2) \<Rightarrow> (push_bit 32 (ucast hi) OR ucast lo, s2)))"

text \<open>The output permutation is a rotation, and the state walk never merges two states.\<close>

lemma rotate_right:
  fixes x rot :: u32
  assumes "unat rot < 32"
  shows "drop_bit (unat rot) x OR push_bit (unat ((- rot) AND 31)) x = word_rotr (unat rot) x"
proof -
  define r where "r = unat rot"
  have "unat ((- rot) AND 31) = unat (- rot) mod 32"
  proof -
    have "(31 :: u32) = mask 5" by (simp add: mask_eq_exp_minus_1)
    then have "unat ((- rot) AND 31) = unat (take_bit 5 (- rot))" by (simp add: take_bit_eq_mask)
    then show ?thesis by (simp only: unat_mask_mod) simp
  qed
  also have "\<dots> = (32 - r) mod 32"
  proof (cases "rot = 0")
    case False
    then have "unat (- rot) = 2 ^ 32 - r" using unat_sub_if_size [of 0 rot] by (simp add: word_size r_def unat_eq_zero)
    moreover have "(2 ^ 32 - r) mod 32 = (32 - r) mod 32"
    proof -
      have "2 ^ 32 - r = (32 - r) + 32 * (2 ^ 27 - 1)" using assms by (simp add: r_def)
      then show ?thesis by (metis mod_mult_self2)
    qed
    ultimately show ?thesis by simp
  qed (simp add: r_def)
  finally have s: "unat ((- rot) AND 31) = (32 - r) mod 32" .
  show ?thesis unfolding s r_def [symmetric]
  proof (rule bit_word_eqI)
    fix n assume n: "n < LENGTH(32)"
    have r: "r < 32" using assms by (simp add: r_def)
    show "bit (drop_bit r x OR push_bit ((32 - r) mod 32) x) n = bit (word_rotr r x) n"
    proof (cases "r = 0")
      case True
      then show ?thesis using n by (simp add: bit_word_rotr_iff bit_or_iff)
    next
      case False
      then have m: "(32 - r) mod 32 = 32 - r" using r by simp
      show ?thesis
      proof (cases "n + r < 32")
        case True
        then have "\<not> 32 - r \<le> n" by simp
        with True show ?thesis using n False r by (simp add: m bit_word_rotr_iff bit_simps add.commute)
      next
        case False
        then have "\<not> bit x (r + n)" using bit_imp_le_length [of x "r + n"] by auto
        moreover have "(n + r) mod 32 = n - (32 - r)" using False n r by (simp add: mod_if)
        moreover have "32 - r \<le> n" using False by simp
        ultimately show ?thesis using n False r by (simp add: m bit_word_rotr_iff bit_simps add.commute)
      qed
    qed
  qed
qed

lemma pcg_rot_bound: "unat (ucast (drop_bit 59 old) :: u32) < 32" for old :: u64
proof -
  have "unat (drop_bit 59 old) < 32"
    unfolding unat_shift_div using unsigned_less [of old, where 'a = nat] by (intro less_mult_imp_div_less) simp
  then show ?thesis by (simp add: unsigned_ucast_eq take_bit_eq_mod)
qed

lemma pcg_state_inj:
  assumes "pcg_state (snd (pcg_next s)) = pcg_state (snd (pcg_next s'))"
  shows "pcg_state s = pcg_state s'"
proof -
  have inv: "PCG_MULTIPLIER * 13877824140714322085 = 1" by simp
  from assms have "pcg_state s * PCG_MULTIPLIER = pcg_state s' * PCG_MULTIPLIER"
    by (simp add: pcg_next_def Let_def)
  from arg_cong [OF this, of "\<lambda>x. x * 13877824140714322085"]
  show ?thesis unfolding mult.assoc inv by simp
qed

end
