(* ===== verification/Library_Properties.thy ===== *)
theory Library_Properties
  imports Guid Path Blake2b Qoi Menu_Model Clock
begin

text \<open>
  The properties of the string, number, hash, image, menu-model and clock routines, over the
  definitions of their component theories.
\<close>

section \<open>Hashing\<close>

text \<open>
  C4: the streaming interface computes BLAKE2b: however a message is cut into pieces,
  feeding the pieces to \<open>blake2b_update\<close> one after the other and finishing gives the digest of
  the reference definition on the whole message, and so does the one-shot \<open>blake2b\<close>.
\<close>

theorem blake2b_streaming:
  "snd (blake2b_final (foldl blake2b_update blake2b_init pieces)) = blake2b_spec (concat pieces) \<and>
   blake2b (concat pieces) = blake2b_spec (concat pieces)"
proof -
  have "absorbed (foldl blake2b_update s pieces) (msg @ concat pieces)" if "absorbed s msg" for s msg
    using that
  proof (induction pieces arbitrary: s msg)
    case (Cons p ps)
    from Cons.IH [OF update_absorbed [OF Cons.prems, of p]] show ?case by simp
  qed simp
  from this [OF init_absorbed] update_absorbed [OF init_absorbed, of "concat pieces"] show ?thesis
    by (auto simp: blake2b_def final_absorbed)
qed

section \<open>Images\<close>


definition tiny_state :: pmm_state where
  "tiny_state =
     \<lparr>memmap = [\<lparr>mbase = 0x100000, mlength = 0x100000, mtype = MEMMAP_USABLE\<rparr>], memmap_max_entries = 16,
      keep_first_page = False, allocations_disallowed = False, conv_base = 0x1000, mem = (\<lambda>_. 0)\<rparr>"


text \<open>
  Encoding and decoding pixels. A file with a valid header whose pixels are all stored as
  literal RGB operations is decoded to exactly those pixels, whatever their colours, and they and the buffer's size are what
  memory holds afterwards.
\<close>

theorem qoi_literal_round_trip:
  assumes "0 < w" "w \<le> QOI_MAX_DIM" "0 < h" "h \<le> QOI_MAX_DIM" and "length px = unat w * unat h"
    and "length px \<le> 400000000"
    and "ext_mem_alloc s (of_nat (length px * 4 + 16)) = Inr (p, s')"
  shows "qoi_decode s (literal_qoi w h px) =
    Inr (Decoded (p + 16, w, h, map (\<lambda>(r, g, b). xrgb r g b) px),
      s'\<lparr>mem := poke_pixels (p + 16) (map (\<lambda>(r, g, b). xrgb r g b) px)
        (poke64 p (of_nat (length px * 4 + 16)) (mem s'))\<rparr>)"
proof -
  have u: "unat (of_nat (length px) :: u64) = length px" using assms(6) by (simp add: unat_of_nat)
  have "qoi_alloc_total (of_nat (length px)) = Some (of_nat (length px * 4 + 16))"
    using assms(6) by (auto simp: qoi_alloc_total_def CHECKED_MUL_def CHECKED_ADD_def u unat_word_ariths)
  with literal_qoi_header [OF assms(1-6)] literal_qoi_pixels [of w h px] assms(7) u show ?thesis
    by (simp add: qoi_decode_def qoi_alloc_xrgb_def)
qed

theorem qoi_literal_round_trip_witness:
  "\<exists>p s'. qoi_decode tiny_state (literal_qoi 2 1 [(1, 2, 3), (0xff, 0, 7)]) =
     Inr (Decoded (p, 2, 1, [0x010203, 0xff0007]), s')"
proof -
  have "\<not> isl (ext_mem_alloc tiny_state 24)" by code_simp
  then obtain p s' where "ext_mem_alloc tiny_state 24 = Inr (p, s')" by (cases "ext_mem_alloc tiny_state 24") auto
  then have a: "ext_mem_alloc tiny_state (of_nat (length [(1, 2, 3), (0xff :: u8, 0 :: u8, 7 :: u8)] * 4 + 16)) = Inr (p, s')"
    by simp
  have "xrgb 1 2 3 = 0x010203" "xrgb 0xff 0 7 = 0xff0007" by code_simp+
  with qoi_literal_round_trip [OF _ _ _ _ _ _ a, of 2 1] show ?thesis by auto
qed

section \<open>The menu model\<close>

text \<open>
  C15: the flat list of rows is the tree. \<open>menu_model_update\<close> fills exactly the
  \<open>menu_model_count\<close> rows it allocated, and every row is either a root or has as parent an
  earlier row, one level up, that is an expanded directory. Memory is only touched when the
  number of rows changes.
\<close>

theorem menu_model_rows:
  assumes "menu_model_update s model tree skip = Inr (model', s')"
  shows "length (mrows model') = menu_model_count skip tree \<and> mcount model' = menu_model_count skip tree \<and>
    length (mentries model') = mcount model' \<and>
    (\<forall>i. i < menu_model_count skip tree \<longrightarrow> row_placed SIZE_MAX 0 0 (mrows model') i) \<and>
    (menu_model_count skip tree = mcount model \<longrightarrow> s' = s)"
proof -
  have "s' = s" if "menu_model_count skip tree = mcount model"
    using assms that by (simp add: menu_model_update_def Let_def)
  with menu_model_update_fills [OF assms] project_tree_placed [of _ skip "[]" tree SIZE_MAX 0 0] show ?thesis
    by (simp add: length_project_tree)
qed

text \<open>Two entries of the same name inside an expanded directory whose name needs escaping.\<close>

definition demo_tree :: "menu_entry list" where
  "demo_tree = [Entry ''a/b'' [Entry ''x'' [] False, Entry ''x'' [] False] True, Entry ''c'' [] False]"

lemma demo_update: "\<exists>model s. menu_model_update tiny_state empty_model demo_tree (\<lambda>_. False) = Inr (model, s)"
proof -
  have "\<not> isl (claim_rows tiny_state 4)" by code_simp
  then obtain r e s where "claim_rows tiny_state 4 = Inr (r, e, s)" by (cases "claim_rows tiny_state 4") auto
  moreover have "menu_model_count (\<lambda>_. False) demo_tree = 4" by (simp add: demo_tree_def)
  moreover have "mcount empty_model = 0" by (simp add: empty_model_def)
  ultimately show ?thesis
    unfolding menu_model_update_def Let_def release_rows_def by (simp only: sum.case if_True prod.case) simp
qed

theorem menu_model_rows_witness:
  "\<exists>model s. menu_model_update tiny_state empty_model demo_tree (\<lambda>_. False) = Inr (model, s) \<and>
     row_placed SIZE_MAX 0 0 (mrows model) 2"
proof -
  obtain model s where u: "menu_model_update tiny_state empty_model demo_tree (\<lambda>_. False) = Inr (model, s)"
    using demo_update by blast
  have "2 < menu_model_count (\<lambda>_. False) demo_tree" by (simp add: demo_tree_def)
  with menu_model_rows [OF u] u show ?thesis by blast
qed

text \<open>
  C14: a row matches the path printed for it: for every row less than 64 levels deep the chain
  to its root exists, and \<open>menu_row_matches\<close> accepts the escaped names and duplicate numbers of
  that chain joined by slashes.
\<close>

theorem menu_row_matches_own_path:
  assumes "menu_model_update s model tree skip = Inr (model', s')" and "rows = mrows model'" and "length rows \<le> SIZE_MAX"
    and "i < length rows" and "depth (rows ! i) < 64" and "\<forall>r \<in> set rows. duplicate r \<le> SIZE_MAX - 9"
  shows "\<exists>chain. row_chain rows i [] = Some chain \<and> i \<in> set chain \<and>
    menu_row_matches rows i (rows_path (map (\<lambda>k. rows ! k) (rev chain)))"
proof -
  have placed: "\<forall>k < length rows. row_placed SIZE_MAX 0 0 rows k"
    using project_tree_placed [of _ skip "[]" tree SIZE_MAX 0 0]
    by (simp add: assms(2) menu_model_update_fills [OF assms(1)])
  from row_chain_depth [OF placed assms(3,4), of "[]"] assms(5) obtain chain where
    c: "row_chain rows i [] = Some chain" "\<forall>k \<in> set chain. k < length rows" "i \<in> set chain" by auto
  then have "\<forall>r \<in> set (map (\<lambda>k. rows ! k) (rev chain)). duplicate r \<le> SIZE_MAX - 9" using assms(6) by auto
  from match_rows_path [OF this] c show ?thesis by (auto simp: menu_row_matches_def)
qed

theorem menu_row_matches_own_path_witness:
  "\<exists>model s chain. menu_model_update tiny_state empty_model demo_tree (\<lambda>_. False) = Inr (model, s) \<and>
     menu_row_matches (mrows model) 2 (rows_path (map (\<lambda>k. mrows model ! k) (rev chain)))"
proof -
  obtain model s where u: "menu_model_update tiny_state empty_model demo_tree (\<lambda>_. False) = Inr (model, s)"
    using demo_update by blast
  let ?rows = "mrows model"
  have d: "map depth ?rows = [0, 1, 1, 0]" "map duplicate ?rows = [0, 0, 1, 0]"
    by (simp_all add: menu_model_update_fills [OF u] demo_tree_def Let_def count_prior_def strcmp_eq_0 cstr_def three_way_def)
  have l: "length ?rows = 4" using arg_cong [OF d(1), of length] by simp
  have "depth (?rows ! 2) = 1" using d(1) l nth_map [of 2 ?rows depth] by simp
  moreover have "\<forall>r \<in> set ?rows. duplicate r \<le> SIZE_MAX - 9"
  proof
    fix r assume "r \<in> set ?rows"
    then have "duplicate r \<in> set (map duplicate ?rows)" by simp
    then show "duplicate r \<le> SIZE_MAX - 9" unfolding d by auto
  qed
  ultimately show ?thesis
    using menu_row_matches_own_path [OF u refl, of 2] l u by auto
qed

section \<open>Paths and identifiers\<close>

text \<open>
  C13: with a buffer of at least two bytes \<open>get_absolute_path\<close> never writes outside it, for
  any path and working directory, and when it succeeds the buffer holds a terminated string.
\<close>

theorem get_absolute_path_in_bounds:
  assumes "2 \<le> length buf" and "cstr pwd"
  shows "path_fine (length buf) (get_absolute_path buf path pwd)"
  using assms by (rule get_absolute_path_fine)

theorem get_absolute_path_in_bounds_witness:
  "path_fine 8 (get_absolute_path (replicate 8 CHR ''?'') ''../a/./b/../c'' ''/x'')"
  using get_absolute_path_in_bounds [of "replicate 8 CHR ''?''" "''/x''"] by (simp add: cstr_def)

text \<open>
  C16: a GUID survives printing and parsing: \<open>string_to_guid_mixed\<close> applied to the text
  \<open>guid_to_string\<close> writes gives the same sixteen bytes, whatever was in the destination.
\<close>

theorem guid_round_trip:
  assumes "length g = 16" and "length g0 = 16"
  shows "string_to_guid_mixed g0 (guid_to_string g) = Some g"
  using assms by (rule guid_mixed_round_trip)

theorem guid_round_trip_witness:
  "string_to_guid_mixed (replicate 16 0) (guid_to_string (replicate 16 0xa5)) = Some (replicate 16 0xa5)"
  by (rule guid_round_trip) simp_all

section \<open>Numbers\<close>

text \<open>
  \<open>strtoui\<close> against the mathematical value: on any text and base from 1 to 16, if the
  value of the leading digits fits in 64 bits it is returned together with the rest of the
  text, otherwise the result saturates at the largest value.
\<close>

theorem strtoui_spec:
  assumes "1 \<le> base" and "base \<le> 16"
  shows "if value_of base 0 (digits_of base s) < 2 ^ 64
    then strtoui s base = (word_of_int (value_of base 0 (digits_of base s)), dropWhile (is_digit base) s)
    else fst (strtoui s base) = -1"
  using strtoui_from_eq [OF assms, of 0 s] by (simp add: strtoui_def)

theorem strtoui_spec_witness: "strtoui ''7fz'' 16 = (0x7f, ''z'')"
proof -
  have "value_of 16 0 (digits_of 16 ''7fz'') = 0x7f" "dropWhile (is_digit 16) ''7fz'' = ''z''" by code_simp+
  with strtoui_spec [of 16 "''7fz''"] show ?thesis by simp
qed

text \<open>
  \<open>inet_pton\<close> reads back every printed IPv4 address.
\<close>

theorem inet_pton_round_trip:
  assumes "a < 256" "b < 256" "c < 256" "d < 256"
  shows "inet_pton (dotted a b c d) = Some [of_nat a, of_nat b, of_nat c, of_nat d]"
  using assms by (rule inet_pton_dotted)

theorem inet_pton_round_trip_witness: "inet_pton (dotted 192 168 0 1) = Some [192, 168, 0, 1]"
  using inet_pton_round_trip [of 192 168 0 1] by simp

text \<open>
  \<open>sqrt\<close> is the integer square root of every 64-bit number.
\<close>

theorem sqrt_correct:
  "unat (sqrt n) * unat (sqrt n) \<le> unat n \<and> unat n < (unat (sqrt n) + 1) * (unat (sqrt n) + 1)"
  by (rule sqrt_floor)

section \<open>Strings\<close>

text \<open>
  \<open>strcmp\<close> is the lexicographic order of unsigned characters, with the sign of its
  result telling the three cases apart, and \<open>strncmp\<close> is \<open>strcmp\<close> on the first \<open>n\<close> characters.
\<close>

theorem strcmp_order:
  assumes "cstr s" and "cstr t"
  shows "strcmp s t = (if s = t then 0 else if (s, t) \<in> lexord {(a, b). code a < code b} then -1 else 1) \<and>
    strncmp s t n = strcmp (take n s) (take n t)"
  using strcmp_lexord [OF assms] strncmp_take [OF assms] by blast

theorem strcmp_order_witness: "strncmp ''abX'' ''abY'' 2 = strcmp ''ab'' ''ab''"
  using strcmp_order [of "''abX''" "''abY''" 2] by (simp add: cstr_def eval_nat_numeral)

section \<open>Time and randomness\<close>

text \<open>
  C17: \<open>get_unix_epoch\<close> agrees with the calendar: for the date that follows 1 January 1970 by
  \<open>n\<close> days in the Gregorian calendar, the result is \<open>n\<close> days and the time of day in seconds.
\<close>

theorem get_unix_epoch_calendar:
  assumes "date_after n = (uint days, uint months, uint years)"
    and "unat hours < 24" "unat minutes < 60" "unat seconds < 60" and "n < 2 ^ 40"
  shows "unat (get_unix_epoch seconds minutes hours days months years) =
    n * 86400 + unat hours * 3600 + unat minutes * 60 + unat seconds"
  using assms by (rule epoch_of_date)

theorem get_unix_epoch_calendar_witness: "unat (get_unix_epoch 5 0 1 1 3 1970) = 59 * 86400 + 3605"
proof -
  have "date_after 59 = (1, 3, 1970)" by code_simp
  then have "date_after 59 = (uint (1 :: u8), uint (3 :: u8), uint (1970 :: u16))" by simp
  from get_unix_epoch_calendar [OF this, of 1 0 5] show ?thesis by simp
qed

text \<open>
  The generator's step is a bijection on its 64-bit state, so its sequence of states
  never runs into a cycle from outside, and its output is the state's top bits folded and
  rotated by an amount below 32, as PCG-XSH-RR prescribes.
\<close>

theorem pcg_next_spec:
  "(pcg_state (snd (pcg_next s)) = pcg_state (snd (pcg_next s')) \<longleftrightarrow> pcg_state s = pcg_state s') \<and>
   fst (pcg_next s) = word_rotr (unat (drop_bit 59 (pcg_state s)))
     (ucast (drop_bit 27 (drop_bit 18 (pcg_state s) XOR pcg_state s)))"
proof -
  have "unat (ucast (drop_bit 59 (pcg_state s)) :: u32) = unat (drop_bit 59 (pcg_state s))"
    using unat_shift_div [of 59 "pcg_state s"] unsigned_less [of "pcg_state s", where 'a = nat]
    by (simp add: unsigned_ucast_eq take_bit_nat_eq_self less_mult_imp_div_less)
  then have "fst (pcg_next s) = word_rotr (unat (drop_bit 59 (pcg_state s)))
     (ucast (drop_bit 27 (drop_bit 18 (pcg_state s) XOR pcg_state s)))"
    using rotate_right [OF pcg_rot_bound] by (simp add: pcg_next_def Let_def)
  moreover have "pcg_state s = pcg_state s' \<Longrightarrow> pcg_state (snd (pcg_next s)) = pcg_state (snd (pcg_next s'))"
    by (simp add: pcg_next_def Let_def)
  ultimately show ?thesis using pcg_state_inj by blast
qed

end
