(* ===== verification/Volume.thy ===== *)
theory Volume
  imports Allocator
begin

text \<open>
  Block volumes, \<^verbatim>\<open>src/common/lib/part.s2.c\<close>: the one-block read cache (\<open>cache_block\<close>) and
  byte-granular reads through it (\<open>volume_read\<close>). \<open>disk_read_sectors\<close>, which talks to the
  firmware, is the argument \<open>disk\<close>: for a volume, a first sector and a number of sectors it
  yields the bytes read, or \<^const>\<open>None\<close> when the transfer fails. The contents of the cache
  are kept in the volume, its allocation in the allocator's state.
\<close>

section \<open>Volumes\<close>

record volume =
  drive :: int
  fastest_xfer_size :: u64
  vindex :: int
  is_optical :: bool
  vpxe :: bool
  partition :: int
  sector_size :: int
  max_partition :: int
  cache_status :: bool
  vcache :: "u8 list option"
  cached_block :: u64
  ebr_walk_index :: int
  ebr_walk_sector :: u64
  ebr_walk_size :: u64
  first_sect :: u64
  sect_count :: u64
  part_guid_valid :: bool
  part_guid :: "u8 list"
  part_type_guid_valid :: bool
  part_type_guid :: "u8 list"

type_synonym disk = "volume \<Rightarrow> u64 \<Rightarrow> u64 \<Rightarrow> u8 list option"

abbreviation sect_mult :: "volume \<Rightarrow> u64" where
  "sect_mult v \<equiv> word_of_int (sector_size v div 512)"

section \<open>The cache\<close>

text \<open>The first sector and the number of sectors of a block; \<^const>\<open>None\<close> for \<open>return false\<close>.\<close>

definition cache_window :: "volume \<Rightarrow> u64 \<Rightarrow> (u64 \<times> u64) option" where
  "cache_window v block =
     (if first_sect v mod sect_mult v \<noteq> 0 then None
      else (let first = first_sect v div sect_mult v; xfer_size = fastest_xfer_size v
            in case CHECKED_MUL block (fastest_xfer_size v) of
                 None \<Rightarrow> None
               | Some block_offset \<Rightarrow>
                   (case CHECKED_ADD first block_offset of
                      None \<Rightarrow> None
                    | Some read_sector \<Rightarrow>
                        if sect_count v = -1 then Some (read_sector, xfer_size)
                        else (case DIV_ROUNDUP (sect_count v) (sect_mult v) of
                                None \<Rightarrow> None
                              | Some volume_sectors \<Rightarrow>
                                  (let end_sector = (case CHECKED_ADD first volume_sectors of
                                         None \<Rightarrow> -1 | Some t \<Rightarrow> t)
                                   in if read_sector \<ge> end_sector then None
                                      else (let remaining = end_sector - read_sector
                                            in Some (read_sector,
                                                 if xfer_size > remaining then remaining else xfer_size)))))))"

text \<open>\<open>volume->cache\<close>, allocated on first use.\<close>

definition ensure_cache :: "pmm_state \<Rightarrow> volume \<Rightarrow> (pmm_state \<times> volume) outcome" where
  "ensure_cache s v =
     (case vcache v of
        Some _ \<Rightarrow> Inr (s, v)
      | None \<Rightarrow>
          (case CHECKED_MUL (fastest_xfer_size v) (word_of_int (sector_size v)) of
             None \<Rightarrow> Inl ''cache_block: block size overflow''
           | Some n \<Rightarrow>
               (case ext_mem_alloc s n of
                  Inl e \<Rightarrow> Inl e
                | Inr (_, s') \<Rightarrow> Inr (s', v\<lparr>vcache := Some (replicate (unat n) 0)\<rparr>))))"

definition cache_block :: "disk \<Rightarrow> pmm_state \<Rightarrow> volume \<Rightarrow> u64 \<Rightarrow> (bool \<times> pmm_state \<times> volume) outcome" where
  "cache_block disk s v block =
     (if cache_status v \<and> block = cached_block v then Inr (True, s, v)
      else case ensure_cache s (v\<lparr>cache_status := False\<rparr>) of
        Inl e \<Rightarrow> Inl e
      | Inr (s1, v1) \<Rightarrow>
          (case cache_window v1 block of
             None \<Rightarrow> Inr (False, s1, v1)
           | Some (read_sector, xfer_size) \<Rightarrow>
               (case disk v1 read_sector xfer_size of
                  None \<Rightarrow> Inr (False, s1, v1)
                | Some bs \<Rightarrow>
                    Inr (True, s1, v1\<lparr>vcache := map_option (\<lambda>c. bs @ drop (length bs) c) (vcache v1),
                                      cache_status := True, cached_block := block\<rparr>))))"

section \<open>Reading\<close>

lemma word_mod_less: "b \<noteq> 0 \<Longrightarrow> x mod b < b" for x b :: u64
  by (simp add: word_less_nat_alt unat_mod unat_gt_0)

text \<open>Every turn copies at least one byte and at most what is left.\<close>

lemma chunk_bounds:
  fixes cnt progress bs off :: u64
  assumes "progress < cnt" and "off < bs"
  defines "chunk \<equiv> if cnt - progress > bs - off then bs - off else cnt - progress"
  shows "0 < unat chunk" and "unat (progress + chunk) = unat progress + unat chunk"
    and "unat progress + unat chunk \<le> unat cnt" and "unat off + unat chunk \<le> unat bs"
proof -
  have c: "unat (cnt - progress) = unat cnt - unat progress" and b: "unat (bs - off) = unat bs - unat off"
    using assms(1,2) by (simp_all add: unat_sub less_imp_le)
  have lt: "unat progress < unat cnt" "unat off < unat bs" using assms(1,2) by (simp_all add: word_less_nat_alt)
  then show p: "0 < unat chunk" and l: "unat progress + unat chunk \<le> unat cnt" and "unat off + unat chunk \<le> unat bs"
    by (auto simp: chunk_def c b word_less_nat_alt)
  show "unat (progress + chunk) = unat progress + unat chunk"
    using l unsigned_less [of cnt, where 'a = nat] by (simp add: unat_word_ariths)
qed

text \<open>
  The copy loop, from \<open>progress\<close> on: the bytes still to deliver, or \<^const>\<open>None\<close> for
  \<open>return false\<close>. A block size that wraps to zero would trap on the division.
\<close>

function read_loop :: "disk \<Rightarrow> pmm_state \<Rightarrow> volume \<Rightarrow> u64 \<Rightarrow> u64 \<Rightarrow> u64 \<Rightarrow> u64
    \<Rightarrow> (u8 list option \<times> pmm_state \<times> volume) outcome" where
  "read_loop disk s v block_size loc cnt progress =
     (if \<not> progress < cnt then Inr (Some [], s, v)
      else if block_size = 0 then Inl ''division by zero''
      else (case cache_block disk s v ((loc + progress) div block_size) of
              Inl e \<Rightarrow> Inl e
            | Inr (ok, s1, v1) \<Rightarrow>
                if \<not> ok then Inr (None, s1, v1)
                else (let offset = (loc + progress) mod block_size;
                          chunk = (if cnt - progress > block_size - offset then block_size - offset else cnt - progress);
                          piece = take (unat chunk) (drop (unat offset) (case vcache v1 of None \<Rightarrow> [] | Some c \<Rightarrow> c))
                      in case read_loop disk s1 v1 block_size loc cnt (progress + chunk) of
                           Inl e \<Rightarrow> Inl e
                         | Inr (None, s2, v2) \<Rightarrow> Inr (None, s2, v2)
                         | Inr (Some rest, s2, v2) \<Rightarrow> Inr (Some (piece @ rest), s2, v2))))"
  by pat_completeness auto
termination
proof (relation "measure (\<lambda>(d, s, v, bs, loc, cnt, p). unat cnt - unat p)", goal_cases)
  case (2 disk s v bs loc cnt progress r ok s1v1 s1 v1 offset chunk piece)
  then have "offset < bs" by (simp add: word_mod_less)
  from chunk_bounds [OF _ this, of progress cnt] 2 show ?case by auto
qed simp

declare read_loop.simps [simp del]

definition volume_read :: "disk \<Rightarrow> pmm_state \<Rightarrow> volume \<Rightarrow> u64 \<Rightarrow> u64 \<Rightarrow> (u8 list option \<times> pmm_state \<times> volume) outcome" where
  "volume_read disk s v loc cnt =
     (if vpxe v then Inl ''Attempted volume_read() on pxe''
      else if fastest_xfer_size v = 0 \<or> sector_size v < 512 \<or> sector_size v mod 512 \<noteq> 0 then Inr (None, s, v)
      else (let inside = (if sect_count v = -1 then True
                          else (case CHECKED_MUL (sect_count v) 512 of
                                  None \<Rightarrow> False
                                | Some part_size \<Rightarrow> \<not> (loc \<ge> part_size \<or> cnt > part_size - loc)))
            in if \<not> inside then Inr (None, s, v)
               else read_loop disk s v (fastest_xfer_size v * word_of_int (sector_size v)) loc cnt 0))"

definition partition_range_valid :: "volume \<Rightarrow> u64 \<Rightarrow> u64 \<Rightarrow> bool" where
  "partition_range_valid v first cnt \<longleftrightarrow>
     (if cnt = 0 then False
      else case CHECKED_ADD first cnt of
        None \<Rightarrow> False
      | Some end_sect \<Rightarrow> \<not> (sect_count v \<noteq> -1 \<and> end_sect > sect_count v))"

section \<open>Reads deliver the medium\<close>

text \<open>
  \<open>D\<close> is the medium, byte by byte. What is relied on of the driver: a successful transfer
  delivers the sectors asked for. What is relied on of a volume: its geometry is within what
  the code accepts, the volume does not wrap around, and a filled cache holds its block.
\<close>

definition disk_serves :: "disk \<Rightarrow> (nat \<Rightarrow> u8) \<Rightarrow> bool" where
  "disk_serves disk D \<longleftrightarrow> (\<forall>v sec n bs. disk v sec n = Some bs \<longrightarrow>
     bs = map D [unat sec * nat (sector_size v) ..< (unat sec + unat n) * nat (sector_size v)])"

definition cache_ok :: "(nat \<Rightarrow> u8) \<Rightarrow> volume \<Rightarrow> bool" where
  "cache_ok D v \<longleftrightarrow>
     (\<forall>c. vcache v = Some c \<longrightarrow> (\<exists>n. CHECKED_MUL (fastest_xfer_size v) (word_of_int (sector_size v)) = Some n)) \<and>
     (cache_status v \<longrightarrow> (\<exists>c rs xs. vcache v = Some c \<and> cache_window v (cached_block v) = Some (rs, xs) \<and>
        take (unat xs * nat (sector_size v)) c =
          map D [unat rs * nat (sector_size v) ..< (unat rs + unat xs) * nat (sector_size v)]))"

definition volume_sane :: "volume \<Rightarrow> bool" where
  "volume_sane v \<longleftrightarrow> 512 \<le> sector_size v \<and> sector_size v < 2 ^ 31 \<and> sector_size v mod 512 = 0 \<and>
     fastest_xfer_size v \<noteq> 0 \<and> (sect_count v \<noteq> -1 \<longrightarrow> unat (first_sect v) + unat (sect_count v) < 2 ^ 64)"

text \<open>The bytes of the medium a volume's range stands for.\<close>

definition volume_bytes :: "(nat \<Rightarrow> u8) \<Rightarrow> volume \<Rightarrow> nat \<Rightarrow> nat \<Rightarrow> u8 list" where
  "volume_bytes D v loc n = map D [unat (first_sect v) * 512 + loc ..< unat (first_sect v) * 512 + loc + n]"

text \<open>Everything about a volume but its cache.\<close>

definition uncached :: "volume \<Rightarrow> volume" where
  "uncached v = v\<lparr>cache_status := False, vcache := None, cached_block := 0\<rparr>"

lemma uncached_update [simp]:
  "uncached (v\<lparr>cache_status := a\<rparr>) = uncached v" "uncached (v\<lparr>vcache := b\<rparr>) = uncached v"
  "uncached (v\<lparr>cached_block := c\<rparr>) = uncached v"
  by (simp_all add: uncached_def)

lemma uncached_fields:
  assumes "uncached v = uncached v'"
  shows "first_sect v = first_sect v'" "sect_count v = sect_count v'" "sector_size v = sector_size v'"
    "fastest_xfer_size v = fastest_xfer_size v'" "vpxe v = vpxe v'" "is_optical v = is_optical v'"
  using arg_cong [OF assms, of first_sect] arg_cong [OF assms, of sect_count] arg_cong [OF assms, of sector_size]
    arg_cong [OF assms, of fastest_xfer_size] arg_cong [OF assms, of vpxe] arg_cong [OF assms, of is_optical]
  by (simp_all add: uncached_def)

lemma uncached_same:
  assumes "uncached v = uncached v'"
  shows uncached_window: "cache_window v b = cache_window v' b" and uncached_sane: "volume_sane v = volume_sane v'"
    and uncached_bytes: "volume_bytes D v = volume_bytes D v'"
  unfolding cache_window_def volume_sane_def volume_bytes_def uncached_fields [OF assms] by (rule refl)+

lemma ensure_cache_ok:
  assumes "ensure_cache s v = Inr (s', v')" and "cache_ok D v" and "\<not> cache_status v"
  shows "cache_ok D v'" and "uncached v' = uncached v" and "\<exists>c. vcache v' = Some c" and "\<not> cache_status v'"
  using assms by (auto simp: ensure_cache_def cache_ok_def split: option.splits sum.splits)

lemma cache_block_ok:
  assumes ret: "cache_block disk s v b = Inr (ok, s', v')" and d: "disk_serves disk D" and c: "cache_ok D v"
  shows "cache_ok D v'" and "uncached v' = uncached v" and "ok \<Longrightarrow> cache_status v' \<and> cached_block v' = b"
proof -
  have "cache_ok D v' \<and> uncached v' = uncached v \<and> (ok \<longrightarrow> cache_status v' \<and> cached_block v' = b)"
  proof (cases "cache_status v \<and> b = cached_block v")
    case True
    with ret c show ?thesis by (auto simp: cache_block_def)
  next
    case False
    let ?v = "v\<lparr>cache_status := False\<rparr>"
    have "cache_ok D ?v" using c by (auto simp: cache_ok_def)
    from ret False obtain s1 v1 where e: "ensure_cache s ?v = Inr (s1, v1)"
      by (auto simp: cache_block_def split: sum.splits)
    note k = ensure_cache_ok [OF e \<open>cache_ok D ?v\<close>]
    from k obtain c1 where c1: "vcache v1 = Some c1" by auto
    show ?thesis
    proof (cases "cache_window v1 b")
      case None
      with ret False e k show ?thesis by (auto simp: cache_block_def)
    next
      case (Some w)
      obtain rs xs where w: "w = (rs, xs)" by (cases w)
      show ?thesis
      proof (cases "disk v1 rs xs")
        case None
        with ret False e k Some w show ?thesis by (auto simp: cache_block_def)
      next
        case (Some bs)
        let ?v' = "v1\<lparr>vcache := Some (bs @ drop (length bs) c1), cache_status := True, cached_block := b\<rparr>"
        have v': "v' = ?v'" "ok" using ret False e \<open>cache_window v1 b = Some w\<close> w Some c1
          by (auto simp: cache_block_def)
        have bs: "bs = map D [unat rs * nat (sector_size v1) ..< (unat rs + unat xs) * nat (sector_size v1)]"
          using d Some unfolding disk_serves_def by blast
        then have "length bs = unat xs * nat (sector_size v1)" by (simp add: algebra_simps)
        then have "take (unat xs * nat (sector_size v1)) (bs @ drop (length bs) c1) = bs" by simp
        moreover have "cache_window ?v' b = Some (rs, xs)"
          using \<open>cache_window v1 b = Some w\<close> w uncached_window [of ?v' v1 b] by simp
        moreover have "\<exists>n. CHECKED_MUL (fastest_xfer_size v1) (word_of_int (sector_size v1)) = Some n"
          using k(1) c1 by (auto simp: cache_ok_def)
        ultimately have "cache_ok D ?v'" using bs by (simp add: cache_ok_def)
        with v' k(2) show ?thesis by simp
      qed
    qed
  qed
  then show "cache_ok D v'" and "uncached v' = uncached v" and "ok \<Longrightarrow> cache_status v' \<and> cached_block v' = b"
    by blast+
qed

text \<open>A block starts where it should, and holds every byte of it that lies in the volume.\<close>

lemma sector_mult:
  assumes "volume_sane v"
  obtains m where "nat (sector_size v) = 512 * m" and "unat (sect_mult v) = m" and "0 < m"
    and "unat (word_of_int (sector_size v) :: u64) = 512 * m"
proof -
  from assms have b: "512 \<le> sector_size v" "sector_size v < 2 ^ 31" "sector_size v mod 512 = 0"
    by (simp_all add: volume_sane_def)
  then obtain k where k: "sector_size v = 512 * k" by (auto simp: mod_eq_0_iff_dvd)
  with b have k0: "0 < k" "k < 2 ^ 22" by auto
  show thesis
  proof (rule that [of "nat k"])
    show "nat (sector_size v) = 512 * nat k" "0 < nat k" using k k0(1) by (simp_all add: nat_mult_distrib)
    have "uint (word_of_int k :: u64) = k" "uint (word_of_int (512 * k) :: u64) = 512 * k"
      by (rule uint_word_of_int_id; use k0 in simp)+
    then have "nat (uint (word_of_int k :: u64)) = nat k" "nat (uint (word_of_int (512 * k) :: u64)) = nat (512 * k)"
      by simp_all
    then show "unat (sect_mult v) = nat k" "unat (word_of_int (sector_size v) :: u64) = 512 * nat k"
      using k0(1) unfolding k by (simp_all add: nat_mult_distrib)
  qed
qed

lemma ceil_div_bounds:
  fixes a m :: nat assumes "0 < m"
  shows "a \<le> (a + (m - 1)) div m * m" and "(a + (m - 1)) div m \<le> a"
proof -
  have "(a + (m - 1)) div m * m + (a + (m - 1)) mod m = a + (m - 1)" by simp
  moreover have "(a + (m - 1)) mod m < m" using assms by simp
  ultimately show "a \<le> (a + (m - 1)) div m * m" by linarith
  show "(a + (m - 1)) div m \<le> a"
  proof (cases a)
    case (Suc n)
    have "a + (m - 1) \<le> a * m" using assms Suc by (cases m) auto
    then show ?thesis using assms by (metis div_le_mono nonzero_mult_div_cancel_right not_less_zero)
  qed (use assms in simp)
qed

lemma window_start:
  assumes w: "cache_window v b = Some (rs, xs)" and v: "volume_sane v"
  shows "unat rs * nat (sector_size v) =
    unat (first_sect v) * 512 + unat b * (unat (fastest_xfer_size v) * nat (sector_size v))"
proof -
  from v obtain m where m: "nat (sector_size v) = 512 * m" "unat (sect_mult v) = m" "0 < m"
    by (rule sector_mult)
  let ?f = "first_sect v div sect_mult v"
  from w obtain off where z: "first_sect v mod sect_mult v = 0"
    and off: "CHECKED_MUL b (fastest_xfer_size v) = Some off" and rs: "CHECKED_ADD ?f off = Some rs"
    by (auto simp: cache_window_def Let_def split: if_splits option.splits)
  have "unat (first_sect v) mod m = 0"
    using arg_cong [OF z, of unat] by (simp add: unat_mod m(2))
  then have "unat (first_sect v) = unat (first_sect v) div m * m" by (metis add.right_neutral div_mult_mod_eq)
  then have f: "unat (first_sect v) = unat ?f * m" by (simp add: unat_div m(2))
  have "unat rs = unat ?f + unat b * unat (fastest_xfer_size v)"
    using CHECKED_ADD_unat [OF rs] CHECKED_MUL_unat [OF off] by simp
  then show ?thesis by (simp add: f m(1) algebra_simps)
qed

lemma window_room:
  assumes w: "cache_window v b = Some (rs, xs)" and v: "volume_sane v"
    and o: "n \<le> unat (fastest_xfer_size v) * nat (sector_size v)"
    and inside: "sect_count v \<noteq> -1 \<Longrightarrow>
      unat b * (unat (fastest_xfer_size v) * nat (sector_size v)) + n \<le> unat (sect_count v) * 512"
  shows "n \<le> unat xs * nat (sector_size v)"
proof (cases "sect_count v = -1")
  case True
  with w have "xs = fastest_xfer_size v" by (auto simp: cache_window_def Let_def split: if_splits option.splits)
  with o show ?thesis by simp
next
  case False
  from v obtain m where m: "nat (sector_size v) = 512 * m" "unat (sect_mult v) = m" "0 < m"
    by (rule sector_mult)
  let ?f = "first_sect v div sect_mult v" and ?F = "unat (fastest_xfer_size v)" and ?c = "unat (sect_count v)"
  from w False obtain off vs where off: "CHECKED_MUL b (fastest_xfer_size v) = Some off"
    and rs: "CHECKED_ADD ?f off = Some rs" and vs: "DIV_ROUNDUP (sect_count v) (sect_mult v) = Some vs"
    and xs: "let t = (case CHECKED_ADD ?f vs of None \<Rightarrow> -1 | Some t \<Rightarrow> t) in rs < t \<and>
        xs = (if fastest_xfer_size v > t - rs then t - rs else fastest_xfer_size v)"
    by (auto simp: cache_window_def Let_def not_le split: if_splits option.splits)
  have "sect_mult v \<noteq> 0" using m(2,3) by auto
  then have "unat (sect_mult v - 1) = m - 1" by (simp add: unat_minus_one m(2))
  then have uvs: "unat vs = (?c + (m - 1)) div m"
    using vs m(2) by (auto simp: DIV_ROUNDUP_def unat_div split: option.splits dest: CHECKED_ADD_unat)
  have "unat ?f \<le> unat (first_sect v)" by (simp add: unat_div)
  moreover have "unat (first_sect v) + ?c < 2 ^ 64" using v False by (simp add: volume_sane_def)
  ultimately have "unat ?f + unat vs < 2 ^ 64" using ceil_div_bounds(2) [OF m(3), of ?c] uvs by linarith
  then have fvs: "CHECKED_ADD ?f vs = Some (?f + vs)" "unat (?f + vs) = unat ?f + unat vs"
    by (simp_all add: CHECKED_ADD_def unat_word_ariths)
  with xs have lt: "rs < ?f + vs" and xs': "xs = (if fastest_xfer_size v > ?f + vs - rs then ?f + vs - rs else fastest_xfer_size v)"
    by (simp_all add: Let_def)
  have urs: "unat rs = unat ?f + unat b * ?F"
    using CHECKED_ADD_unat [OF rs] CHECKED_MUL_unat [OF off] by simp
  have rem: "unat (?f + vs - rs) = unat vs - unat b * ?F"
    using lt fvs(2) urs by (simp add: unat_sub less_imp_le)
  show ?thesis
  proof (cases "fastest_xfer_size v > ?f + vs - rs")
    case False
    with xs' o show ?thesis by simp
  next
    case True
    have "unat b * (?F * (512 * m)) + n \<le> ?c * 512" using inside False m(1) \<open>sect_count v \<noteq> -1\<close> by simp
    also have "\<dots> \<le> unat vs * (512 * m)"
      using ceil_div_bounds(1) [OF m(3), of ?c] uvs by (simp add: algebra_simps)
    finally have "n \<le> (unat vs - unat b * ?F) * (512 * m)" by (simp add: diff_mult_distrib algebra_simps)
    with True xs' rem m(1) show ?thesis by simp
  qed
qed

lemma cached_piece:
  assumes c: "cache_ok D v" and v: "volume_sane v" and st: "cache_status v" "cached_block v = b"
    and n: "k + n \<le> unat (fastest_xfer_size v) * nat (sector_size v)"
    and inside: "sect_count v \<noteq> -1 \<Longrightarrow>
      unat b * (unat (fastest_xfer_size v) * nat (sector_size v)) + (k + n) \<le> unat (sect_count v) * 512"
  shows "take n (drop k (case vcache v of None \<Rightarrow> [] | Some c \<Rightarrow> c)) =
    volume_bytes D v (unat b * (unat (fastest_xfer_size v) * nat (sector_size v)) + k) n"
proof -
  from c st obtain c rs xs where cc: "vcache v = Some c" and w: "cache_window v b = Some (rs, xs)"
    and t: "take (unat xs * nat (sector_size v)) c =
      map D [unat rs * nat (sector_size v) ..< (unat rs + unat xs) * nat (sector_size v)]"
    by (auto simp: cache_ok_def)
  let ?n = "unat xs * nat (sector_size v)" and ?r = "unat rs * nat (sector_size v)"
  have room: "k + n \<le> ?n" by (rule window_room [OF w v n]) (rule inside)
  have "take n (drop k c) = take n (drop k (take ?n c))"
    using room by (simp add: take_drop min_def)
  also have "\<dots> = map D [?r + k ..< ?r + k + n]"
    unfolding t using room by (simp add: take_map drop_map algebra_simps)
  finally show ?thesis
    by (simp add: cc volume_bytes_def window_start [OF w v] add.assoc)
qed

text \<open>The block size the loop divides by, once a cache exists.\<close>

lemma block_size_unat:
  assumes "cache_ok D v" and "volume_sane v" and "cache_status v"
  shows "unat (fastest_xfer_size v * word_of_int (sector_size v)) = unat (fastest_xfer_size v) * nat (sector_size v)"
proof -
  from assms(2) obtain m where m: "nat (sector_size v) = 512 * m" "unat (word_of_int (sector_size v) :: u64) = 512 * m"
    by (rule sector_mult)
  from assms(1,3) obtain n where n: "CHECKED_MUL (fastest_xfer_size v) (word_of_int (sector_size v)) = Some n"
    by (auto simp: cache_ok_def)
  then have "n = fastest_xfer_size v * word_of_int (sector_size v)" by (auto simp: CHECKED_MUL_def split: if_splits)
  with CHECKED_MUL_unat [OF n] m show ?thesis by simp
qed

lemma volume_bytes_append: "volume_bytes D v l n @ volume_bytes D v (l + n) k = volume_bytes D v l (n + k)"
proof -
  let ?b = "unat (first_sect v) * 512 + l"
  have "[?b ..< ?b + (n + k)] = [?b ..< ?b + n] @ [?b + n ..< ?b + n + k]"
    using upt_add_eq_append [of ?b "?b + n" k] by (simp add: add.assoc)
  then show ?thesis by (simp add: volume_bytes_def add.assoc)
qed

lemma read_loop_ok:
  assumes "read_loop disk s v bs loc cnt progress = Inr (r, s', v')" and "disk_serves disk D"
    and "cache_ok D v" and "volume_sane v" and "bs = fastest_xfer_size v * word_of_int (sector_size v)"
    and "unat loc + unat cnt \<le> 2 ^ 64" and "progress \<le> cnt"
    and "sect_count v \<noteq> -1 \<longrightarrow> unat loc + unat cnt \<le> unat (sect_count v) * 512"
  shows "cache_ok D v' \<and> uncached v' = uncached v \<and>
    (\<forall>bytes. r = Some bytes \<longrightarrow> bytes = volume_bytes D v (unat loc + unat progress) (unat cnt - unat progress))"
  using assms
proof (induction disk s v bs loc cnt progress arbitrary: r rule: read_loop.induct)
  case (1 disk s v bs loc cnt progress)
  note unf = read_loop.simps [of disk s v bs loc cnt progress]
  show ?case
  proof (cases "progress < cnt")
    case False
    with "1.prems"(7) have p: "progress = cnt" by simp
    from "1.prems"(1) have "r = Some []" "v' = v" by (simp_all add: unf False)
    with "1.prems"(3) p show ?thesis by (simp add: volume_bytes_def)
  next
    case True
    with "1.prems"(1) have bs0: "bs \<noteq> 0" by (auto simp: unf)
    let ?pos = "loc + progress"
    from "1.prems"(1) True bs0 obtain ok s1 v1 where cb: "cache_block disk s v (?pos div bs) = Inr (ok, s1, v1)"
      by (auto simp: unf split: sum.splits)
    note k = cache_block_ok [OF cb "1.prems"(2,3)]
    show ?thesis
    proof (cases ok)
      case False
      with "1.prems"(1) True bs0 cb k show ?thesis by (auto simp: unf)
    next
      case ok: True
      define offset where "offset = ?pos mod bs"
      define chunk where "chunk = (if cnt - progress > bs - offset then bs - offset else cnt - progress)"
      define piece where "piece = take (unat chunk) (drop (unat offset) (case vcache v1 of None \<Rightarrow> [] | Some c \<Rightarrow> c))"
      have "offset < bs" unfolding offset_def by (rule word_mod_less [OF bs0])
      note ch = chunk_bounds [OF True this, folded chunk_def]
      note f = uncached_fields [OF k(2)] and same = uncached_same [OF k(2)]
      have v1: "volume_sane v1" "cache_ok D v1" "cache_status v1" "cached_block v1 = ?pos div bs"
        using k ok "1.prems"(4) same by auto
      have bs: "unat bs = unat (fastest_xfer_size v1) * nat (sector_size v1)"
        using block_size_unat [OF v1(2,1,3)] "1.prems"(5) f by simp
      have "unat progress < unat cnt" using True by (simp add: word_less_nat_alt)
      then have pos: "unat ?pos = unat loc + unat progress" using "1.prems"(6) by (simp add: unat_word_ariths)
      have at: "unat (?pos div bs) * unat bs + unat offset = unat loc + unat progress"
        unfolding offset_def unat_div unat_mod pos by simp
      have in1: "unat offset + unat chunk \<le> unat (fastest_xfer_size v1) * nat (sector_size v1)"
        using ch(4) unfolding bs .
      have in2: "unat (?pos div bs) * (unat (fastest_xfer_size v1) * nat (sector_size v1)) + (unat offset + unat chunk)
          \<le> unat (sect_count v1) * 512" if "sect_count v1 \<noteq> -1"
        using that at ch(3) "1.prems"(8) unfolding bs [symmetric] f(2) by linarith
      have piece: "piece = volume_bytes D v (unat loc + unat progress) (unat chunk)"
        using cached_piece [OF v1(2,1,3,4) in1 in2] unfolding piece_def bs [symmetric] at same(3) .
      have "(case read_loop disk s1 v1 bs loc cnt (progress + chunk) of
             Inl e \<Rightarrow> Inl e
           | Inr (None, s2, v2) \<Rightarrow> Inr (None, s2, v2)
           | Inr (Some rest, s2, v2) \<Rightarrow> Inr (Some (piece @ rest), s2, v2)) = Inr (r, s', v')"
        unfolding piece_def chunk_def offset_def
        using "1.prems"(1) True bs0 cb ok by (simp add: unf Let_def split del: if_split)
      then obtain r' where rl: "read_loop disk s1 v1 bs loc cnt (progress + chunk) = Inr (r', s', v')" and
        r: "r = map_option (\<lambda>rest. piece @ rest) r'"
        by (auto split: sum.splits option.splits)
      have le: "progress + chunk \<le> cnt" using ch(2,3) by (simp add: word_le_nat_alt)
      have "\<not> \<not> progress < cnt" "\<not> \<not> ok" using True ok by simp_all
      note IH' = "1.IH" [OF this(1) bs0 cb refl refl this(2) offset_def chunk_def piece_def rl "1.prems"(2) v1(2,1)]
      have IH: "cache_ok D v' \<and> uncached v' = uncached v1 \<and> (\<forall>bytes. r' = Some bytes \<longrightarrow>
          bytes = volume_bytes D v1 (unat loc + unat (progress + chunk)) (unat cnt - unat (progress + chunk)))"
        by (rule IH') (use "1.prems"(5,6,8) le f in auto)
      have "piece @ volume_bytes D v1 (unat loc + unat (progress + chunk)) (unat cnt - unat (progress + chunk)) =
          volume_bytes D v (unat loc + unat progress) (unat cnt - unat progress)"
        using volume_bytes_append [of D v "unat loc + unat progress" "unat chunk"] ch(2,3)
        by (simp add: piece same add.assoc)
      with IH r k(2) show ?thesis by auto
    qed
  qed
qed

text \<open>
  \<open>volume_read\<close> on a sane volume: the bytes delivered are those of the medium, whatever the
  cache held before, and the cache stays consistent.
\<close>

lemma volume_read_ok:
  assumes ret: "volume_read disk s v loc cnt = Inr (r, s', v')" and d: "disk_serves disk D"
    and c: "cache_ok D v" and v: "volume_sane v" and b: "sect_count v = -1 \<Longrightarrow> unat loc + unat cnt \<le> 2 ^ 64"
  shows "cache_ok D v'" and "uncached v' = uncached v"
    and "r = Some bytes \<Longrightarrow> bytes = volume_bytes D v (unat loc) (unat cnt)"
proof -
  have "cache_ok D v' \<and> uncached v' = uncached v \<and> (\<forall>bytes. r = Some bytes \<longrightarrow> bytes = volume_bytes D v (unat loc) (unat cnt))"
  proof (cases "r = None \<and> v' = v")
    case True
    with c show ?thesis by simp
  next
    case False
    let ?bs = "fastest_xfer_size v * word_of_int (sector_size v)"
    have rl: "read_loop disk s v ?bs loc cnt 0 = Inr (r, s', v')"
      and i: "sect_count v \<noteq> -1 \<Longrightarrow> (case CHECKED_MUL (sect_count v) 512 of None \<Rightarrow> False
        | Some part_size \<Rightarrow> \<not> (loc \<ge> part_size \<or> cnt > part_size - loc))"
      using ret False by (auto simp: volume_read_def Let_def split: if_splits)
    have in': "unat loc + unat cnt \<le> unat (sect_count v) * 512" "unat (sect_count v) * 512 < 2 ^ 64"
      if "sect_count v \<noteq> -1"
    proof -
      from i [OF that] obtain n where n: "CHECKED_MUL (sect_count v) 512 = Some n" "loc < n" "cnt \<le> n - loc"
        by (auto simp: not_le split: option.splits)
      have "unat n = unat (sect_count v) * 512" using CHECKED_MUL_unat [OF n(1)] by simp
      then show "unat loc + unat cnt \<le> unat (sect_count v) * 512" "unat (sect_count v) * 512 < 2 ^ 64"
        using n(2,3) unsigned_less [of n, where 'a = nat]
        by (simp_all add: word_le_nat_alt word_less_nat_alt unat_sub less_imp_le)
    qed
    have "unat loc + unat cnt \<le> 2 ^ 64" using b in' by fastforce
    from read_loop_ok [OF rl d c v refl this] in' show ?thesis by simp
  qed
  then show "cache_ok D v'" and "uncached v' = uncached v"
    and "r = Some bytes \<Longrightarrow> bytes = volume_bytes D v (unat loc) (unat cnt)" by blast+
qed

end
