(* ===== verification/Reader.thy ===== *)
theory Reader
  imports Volume
begin

text \<open>
  Programs over a volume: sequencing with the panic as an early exit, the integers stored on a
  medium, and the interface \<open>byte_source\<close> its clients rely on: successful reads deliver the
  bytes of a fixed medium and leave everything but the reader's cache alone. The file systems
  run over a volume together with the allocator; that pair provides the interface.
\<close>

section \<open>Sequencing\<close>

definition bindo :: "('a \<times> 's) outcome \<Rightarrow> ('a \<Rightarrow> 's \<Rightarrow> ('b \<times> 's) outcome) \<Rightarrow> ('b \<times> 's) outcome" where
  "bindo x f = (case x of Inl e \<Rightarrow> Inl e | Inr (a, s) \<Rightarrow> f a s)"

lemma bindo_Inr: "bindo x f = Inr (b, s') \<longleftrightarrow> (\<exists>a s. x = Inr (a, s) \<and> f a s = Inr (b, s'))"
  by (auto simp: bindo_def split: sum.splits)

lemma bindo_simps [simp]: "bindo (Inr (a, s)) f = f a s" "bindo (Inl e) f = Inl e"
  by (simp_all add: bindo_def)

lemma bindo_InrE:
  assumes "bindo x f = Inr (b, s')" obtains a s where "x = Inr (a, s)" "f a s = Inr (b, s')"
  using assms by (auto simp: bindo_Inr)

text \<open>Peeling off the guards of a function that declines with \<^const>\<open>None\<close>.\<close>

lemma if_NoneE:
  assumes "(if b then None else x) = Some y" obtains "\<not> b" "x = Some y"
  using assms by (auto split: if_splits)

lemma case_NoneE:
  assumes "(case v of None \<Rightarrow> None | Some w \<Rightarrow> f w) = Some y" obtains w where "v = Some w" "f w = Some y"
  using assms by (auto split: option.splits)

lemma slice_append: "a \<le> n \<Longrightarrow> take a (drop p xs) @ take (n - a) (drop (p + a) xs) = take n (drop p xs)"
  using take_add [of a "n - a" "drop p xs"] by (simp add: add.commute)

section \<open>Little-endian fields\<close>

definition le16_at :: "u8 list \<Rightarrow> nat \<Rightarrow> u16" where
  "le16_at h k = ucast (h ! k) OR push_bit 8 (ucast (h ! (k + 1)))"

definition le32_at :: "u8 list \<Rightarrow> nat \<Rightarrow> u32" where
  "le32_at h k = ucast (h ! k) OR push_bit 8 (ucast (h ! (k + 1))) OR push_bit 16 (ucast (h ! (k + 2))) OR
     push_bit 24 (ucast (h ! (k + 3)))"

definition le64_at :: "u8 list \<Rightarrow> nat \<Rightarrow> u64" where
  "le64_at h k = ucast (le32_at h k) OR push_bit 32 (ucast (le32_at h (k + 4)))"

section \<open>The interface of a reader\<close>

locale byte_source =
  fixes read :: "'s \<Rightarrow> u64 \<Rightarrow> u64 \<Rightarrow> (u8 list option \<times> 's) outcome"
    and invar :: "'s \<Rightarrow> bool"
    and bytes :: "'s \<Rightarrow> nat \<Rightarrow> nat \<Rightarrow> u8 list"
    and key :: "'s \<Rightarrow> 'k"
  assumes read_keeps: "\<lbrakk>read s loc n = Inr (r, s'); invar s; unat loc + unat n \<le> 2 ^ 64\<rbrakk>
        \<Longrightarrow> invar s' \<and> bytes s' = bytes s \<and> key s' = key s"
    and read_bytes: "\<lbrakk>read s loc n = Inr (Some bs, s'); invar s; unat loc + unat n \<le> 2 ^ 64\<rbrakk>
        \<Longrightarrow> bs = bytes s (unat loc) (unat n)"
    and bytes_append: "bytes s a b @ bytes s (a + b) k = bytes s a (b + k)"

section \<open>A volume with the allocator\<close>

type_synonym vstate = "pmm_state \<times> volume"

definition vread :: "disk \<Rightarrow> vstate \<Rightarrow> u64 \<Rightarrow> u64 \<Rightarrow> (u8 list option \<times> vstate) outcome" where
  "vread disk st loc cnt = volume_read disk (fst st) (snd st) loc cnt"

definition valloc :: "vstate \<Rightarrow> u64 \<Rightarrow> (u64 \<times> vstate) outcome" where
  "valloc st n = (case ext_mem_alloc (fst st) n of Inl e \<Rightarrow> Inl e | Inr (p, s) \<Rightarrow> Inr (p, s, snd st))"

definition valloc_counted :: "vstate \<Rightarrow> u64 \<Rightarrow> u64 \<Rightarrow> (u64 \<times> vstate) outcome" where
  "valloc_counted st n k = (case ext_mem_alloc_counted (fst st) n k of Inl e \<Rightarrow> Inl e | Inr (p, s) \<Rightarrow> Inr (p, s, snd st))"

definition vfree :: "vstate \<Rightarrow> u64 \<Rightarrow> u64 \<Rightarrow> (unit \<times> vstate) outcome" where
  "vfree st p n = (case pmm_free (fst st) p n of Inl e \<Rightarrow> Inl e | Inr s \<Rightarrow> Inr ((), s, snd st))"

definition vol_ok :: "disk \<Rightarrow> (nat \<Rightarrow> u8) \<Rightarrow> vstate \<Rightarrow> bool" where
  "vol_ok disk D st \<longleftrightarrow> disk_serves disk D \<and> cache_ok D (snd st) \<and> volume_sane (snd st)"

definition vol_bytes :: "(nat \<Rightarrow> u8) \<Rightarrow> vstate \<Rightarrow> nat \<Rightarrow> nat \<Rightarrow> u8 list" where
  "vol_bytes D st = volume_bytes D (snd st)"

definition vol_key :: "vstate \<Rightarrow> volume" where
  "vol_key st = uncached (snd st)"

interpretation vr: byte_source "vread disk" "vol_ok disk D" "vol_bytes D" vol_key for disk D
proof
  fix s loc n r s'
  assume rd: "vread disk s loc n = Inr (r, s')" and ok: "vol_ok disk D s" and le: "unat loc + unat n \<le> 2 ^ 64"
  from ok have k: "disk_serves disk D" "cache_ok D (snd s)" "volume_sane (snd s)" by (simp_all add: vol_ok_def)
  obtain p v where s': "s' = (p, v)" by (cases s')
  note q = volume_read_ok [OF rd [unfolded vread_def s'] k le]
  from q(1,2) k uncached_same [OF q(2)] show "vol_ok disk D s' \<and> vol_bytes D s' = vol_bytes D s \<and> vol_key s' = vol_key s"
    by (simp add: vol_ok_def vol_bytes_def vol_key_def s')
next
  fix s loc n bs s'
  assume rd: "vread disk s loc n = Inr (Some bs, s')" and ok: "vol_ok disk D s" and le: "unat loc + unat n \<le> 2 ^ 64"
  from ok have k: "disk_serves disk D" "cache_ok D (snd s)" "volume_sane (snd s)" by (simp_all add: vol_ok_def)
  obtain p v where s': "s' = (p, v)" by (cases s')
  from volume_read_ok(3) [OF rd [unfolded vread_def s'] k le refl]
  show "bs = vol_bytes D s (unat loc) (unat n)" by (simp add: vol_bytes_def)
next
  fix s :: vstate and l n k
  show "vol_bytes D s l n @ vol_bytes D s (l + n) k = vol_bytes D s l (n + k)"
    unfolding vol_bytes_def by (rule volume_bytes_append)
qed

section \<open>What every step over a volume keeps\<close>

text \<open>The cache stays truthful and nothing but the cache changes; allocations touch neither.\<close>

definition stays :: "disk \<Rightarrow> (nat \<Rightarrow> u8) \<Rightarrow> vstate \<Rightarrow> vstate \<Rightarrow> bool" where
  "stays disk D st st' \<longleftrightarrow> vol_ok disk D st' \<and> vol_key st' = vol_key st"

lemma stays_refl: "vol_ok disk D st \<Longrightarrow> stays disk D st st"
  by (simp add: stays_def)

lemma stays_trans: "stays disk D st st' \<Longrightarrow> stays disk D st' st'' \<Longrightarrow> stays disk D st st''"
  by (simp add: stays_def)

lemma stays_ok: "stays disk D st st' \<Longrightarrow> vol_ok disk D st'"
  by (simp add: stays_def)

lemma stays_bytes: "stays disk D st st' \<Longrightarrow> vol_bytes D st' = vol_bytes D st"
  unfolding stays_def vol_key_def vol_bytes_def by (metis uncached_bytes)

lemma stays_count: "stays disk D st st' \<Longrightarrow> sect_count (snd st') = sect_count (snd st)"
  unfolding stays_def vol_key_def by (metis uncached_fields(2))

lemma vread_stays:
  assumes "vread disk st loc n = Inr (r, st')" and "vol_ok disk D st" and "unat loc + unat n \<le> 2 ^ 64"
  shows "stays disk D st st'" and "r = Some bs \<Longrightarrow> bs = vol_bytes D st (unat loc) (unat n)"
  using vr.read_keeps [OF assms] vr.read_bytes [OF _ assms(2,3)] assms(1) by (auto simp: stays_def)

lemma valloc_stays: "valloc st n = Inr (p, st') \<Longrightarrow> vol_ok disk D st \<Longrightarrow> stays disk D st st'"
  by (auto simp: valloc_def stays_def vol_ok_def vol_key_def split: sum.splits)

lemma valloc_counted_stays: "valloc_counted st n k = Inr (p, st') \<Longrightarrow> vol_ok disk D st \<Longrightarrow> stays disk D st st'"
  by (auto simp: valloc_counted_def stays_def vol_ok_def vol_key_def split: sum.splits)

lemma vfree_stays: "vfree st p n = Inr (u, st') \<Longrightarrow> vol_ok disk D st \<Longrightarrow> stays disk D st st'"
  by (auto simp: vfree_def stays_def vol_ok_def vol_key_def split: sum.splits)

lemma vol_bytes_length [simp]: "length (vol_bytes D st l n) = n"
  by (simp add: vol_bytes_def volume_bytes_def)

lemma vol_bytes_slice: "take k (drop j (vol_bytes D st l n)) = vol_bytes D st (l + j) (min k (n - j))"
  by (rule nth_equalityI) (auto simp: vol_bytes_def volume_bytes_def algebra_simps)

text \<open>A program that keeps the volume whenever it returns; the rules follow its structure.\<close>

definition keeps_volume :: "disk \<Rightarrow> (nat \<Rightarrow> u8) \<Rightarrow> vstate \<Rightarrow> ('a \<times> vstate) outcome \<Rightarrow> bool" where
  "keeps_volume disk D st m \<longleftrightarrow> (\<forall>a st'. m = Inr (a, st') \<longrightarrow> stays disk D st st')"

named_theorems volume_rules

lemma keeps_return [volume_rules]: "vol_ok disk D st \<Longrightarrow> keeps_volume disk D st (Inr (a, st))"
  by (auto simp: keeps_volume_def stays_refl)

lemma keeps_panic [volume_rules]: "keeps_volume disk D st (Inl e)"
  by (simp add: keeps_volume_def)

lemma keeps_bindo [volume_rules]:
  assumes "keeps_volume disk D st m"
    and "\<And>a st1. m = Inr (a, st1) \<Longrightarrow> vol_ok disk D st1 \<Longrightarrow> keeps_volume disk D st1 (f a st1)"
  shows "keeps_volume disk D st (bindo m f)"
  unfolding keeps_volume_def
proof (intro allI impI)
  fix b st' assume "bindo m f = Inr (b, st')"
  then obtain a st1 where m: "m = Inr (a, st1)" and f: "f a st1 = Inr (b, st')" by (rule bindo_InrE)
  have "stays disk D st st1" using assms(1) m unfolding keeps_volume_def by blast
  moreover have "stays disk D st1 st'"
    using assms(2) [OF m stays_ok [OF \<open>stays disk D st st1\<close>]] f unfolding keeps_volume_def by blast
  ultimately show "stays disk D st st'" by (rule stays_trans)
qed

lemma keeps_valloc [volume_rules]: "vol_ok disk D st \<Longrightarrow> keeps_volume disk D st (valloc st n)"
  by (auto simp: keeps_volume_def intro: valloc_stays)

lemma keeps_valloc_counted [volume_rules]: "vol_ok disk D st \<Longrightarrow> keeps_volume disk D st (valloc_counted st n k)"
  by (auto simp: keeps_volume_def intro: valloc_counted_stays)

lemma keeps_vfree [volume_rules]: "vol_ok disk D st \<Longrightarrow> keeps_volume disk D st (vfree st p n)"
  by (auto simp: keeps_volume_def intro: vfree_stays)

lemma keeps_vread: "vol_ok disk D st \<Longrightarrow> unat loc + unat n \<le> 2 ^ 64 \<Longrightarrow> keeps_volume disk D st (vread disk st loc n)"
  by (auto simp: keeps_volume_def intro: vread_stays)

lemma keeps_volumeD: "keeps_volume disk D st m \<Longrightarrow> m = Inr (a, st') \<Longrightarrow> stays disk D st st'"
  unfolding keeps_volume_def by blast

end
