(* ===== verification/Gpt.thy ===== *)
theory Gpt
  imports Reader Cstring
begin

text \<open>
  GUID partition tables, \<^verbatim>\<open>src/common/lib/part.s2.c\<close>: the CRC, header verification, the search
  for a valid header with its memo, and the lookup of one partition. A header is the 92 bytes
  of \<open>struct gpt_table_header\<close> with an accessor per field. File-system probing at the end of
  \<open>gpt_get_part\<close> (\<open>fs_get_guid\<close>, \<open>fs_get_label\<close>) is not modelled.
\<close>

section \<open>State\<close>

record part_state =
  pstate :: pmm_state
  dev :: volume                              \<comment> \<open>the volume asked about\<close>
  dev_id :: nat                              \<comment> \<open>its address, for the memo's pointer comparison\<close>
  ebr_part :: "volume option"
  gpt_memo_volume :: "nat option"
  gpt_memo_header :: "u8 list"
  gpt_memo_lba :: u64
  gpt_memo_lb_size :: int
  gpt_memo_none_volume :: "nat option"
  gpt_memo_none_block :: "u8 list"
  gpt_memo_none_readable :: bool

definition dev_read :: "disk \<Rightarrow> part_state \<Rightarrow> u64 \<Rightarrow> u64 \<Rightarrow> (u8 list option \<times> part_state) outcome" where
  "dev_read disk st loc cnt =
     (case volume_read disk (pstate st) (dev st) loc cnt of
        Inl e \<Rightarrow> Inl e
      | Inr (r, s', v') \<Rightarrow> Inr (r, st\<lparr>pstate := s', dev := v'\<rparr>))"

section \<open>Fields of a header\<close>

abbreviation gh_revision :: "u8 list \<Rightarrow> u32" where "gh_revision h \<equiv> le32_at h 8"
abbreviation gh_header_size :: "u8 list \<Rightarrow> u32" where "gh_header_size h \<equiv> le32_at h 12"
abbreviation gh_crc32 :: "u8 list \<Rightarrow> u32" where "gh_crc32 h \<equiv> le32_at h 16"
abbreviation gh_my_lba :: "u8 list \<Rightarrow> u64" where "gh_my_lba h \<equiv> le64_at h 24"
abbreviation gh_alternate_lba :: "u8 list \<Rightarrow> u64" where "gh_alternate_lba h \<equiv> le64_at h 32"
abbreviation gh_first_usable_lba :: "u8 list \<Rightarrow> u64" where "gh_first_usable_lba h \<equiv> le64_at h 40"
abbreviation gh_last_usable_lba :: "u8 list \<Rightarrow> u64" where "gh_last_usable_lba h \<equiv> le64_at h 48"
abbreviation gh_disk_guid :: "u8 list \<Rightarrow> u8 list" where "gh_disk_guid h \<equiv> take 16 (drop 56 h)"
abbreviation gh_partition_entry_lba :: "u8 list \<Rightarrow> u64" where "gh_partition_entry_lba h \<equiv> le64_at h 72"
abbreviation gh_number_of_entries :: "u8 list \<Rightarrow> u32" where "gh_number_of_entries h \<equiv> le32_at h 80"
abbreviation gh_entry_size :: "u8 list \<Rightarrow> u32" where "gh_entry_size h \<equiv> le32_at h 84"
abbreviation gh_array_crc32 :: "u8 list \<Rightarrow> u32" where "gh_array_crc32 h \<equiv> le32_at h 88"

abbreviation GPT_HEADER_SIZE :: nat where "GPT_HEADER_SIZE \<equiv> 92"
abbreviation GPT_MAX_ARRAY_SIZE :: u64 where "GPT_MAX_ARRAY_SIZE \<equiv> 0x100000"

section \<open>The CRC\<close>

definition crc_bit :: "u32 \<Rightarrow> u32" where
  "crc_bit crc = (if crc AND 1 \<noteq> 0 then drop_bit 1 crc XOR 0xedb88320 else drop_bit 1 crc)"

definition crc_byte :: "u32 \<Rightarrow> u8 \<Rightarrow> u32" where
  "crc_byte crc b = (crc_bit ^^ 8) (crc XOR ucast b)"

definition crc32_update :: "u32 \<Rightarrow> u8 list \<Rightarrow> u32" where
  "crc32_update crc bytes = foldl crc_byte crc bytes"

function crc32_volume_range ::
  "('s \<Rightarrow> u64 \<Rightarrow> u64 \<Rightarrow> (u8 list option \<times> 's) outcome) \<Rightarrow> 's \<Rightarrow> u64 \<Rightarrow> u64 \<Rightarrow> u32 \<Rightarrow> (u32 option \<times> 's) outcome" where
  "crc32_volume_range read s loc cnt crc =
     (if \<not> cnt > 0 then Inr (Some crc, s)
      else (let step = (if cnt < 512 then cnt else 512)
            in case read s loc step of
                 Inl e \<Rightarrow> Inl e
               | Inr (None, s1) \<Rightarrow> Inr (None, s1)
               | Inr (Some chunk, s1) \<Rightarrow>
                   crc32_volume_range read s1 (loc + step) (cnt - step) (crc32_update crc chunk)))"
  by pat_completeness auto
termination
proof (relation "measure (\<lambda>(read, s, loc, cnt, crc). unat cnt)", goal_cases)
  case (2 read s loc cnt crc step b r s1 chunk)
  then have "step \<le> cnt" "0 < step" by auto
  then show ?case by (auto simp: unat_sub word_le_nat_alt word_less_nat_alt)
qed simp

declare crc32_volume_range.simps [simp del]

section \<open>Verifying a header\<close>

definition header_signed :: "u8 list \<Rightarrow> bool" where
  "header_signed header \<longleftrightarrow> strncmp (map (\<lambda>b. char_of (unat b)) (take 8 header)) ''EFI PART'' 8 = 0"

text \<open>The part of \<open>gpt_verify_header\<close> after the header's own CRC.\<close>

definition gpt_verify_array ::
  "disk \<Rightarrow> part_state \<Rightarrow> u8 list \<Rightarrow> u64 \<Rightarrow> int \<Rightarrow> u64 \<Rightarrow> ((bool \<times> u64) \<times> part_state) outcome" where
  "gpt_verify_array disk st header header_lba lb_size budget =
     (let entry_size = gh_entry_size header; lb = (word_of_int lb_size :: u64)
      in if entry_size < 128 \<or> entry_size AND (entry_size - 1) \<noteq> 0 then Inr ((False, budget), st)
         else case CHECKED_MUL (ucast (gh_number_of_entries header) :: u64) (ucast entry_size) of
           None \<Rightarrow> Inr ((False, budget), st)
         | Some array_size \<Rightarrow>
             if array_size = 0 then Inr ((False, budget), st)
             else if array_size > GPT_MAX_ARRAY_SIZE \<or> array_size > budget then Inr ((False, budget), st)
             else (let array_lba = gh_partition_entry_lba header; array_blocks = (array_size + lb - 1) div lb
                   in case CHECKED_ADD array_lba array_blocks of
                        None \<Rightarrow> Inr ((False, budget), st)
                      | Some array_end \<Rightarrow>
                          if gh_first_usable_lba header > gh_last_usable_lba header then Inr ((False, budget), st)
                          else if array_lba < gh_first_usable_lba header \<and> array_end > gh_first_usable_lba header
                          then Inr ((False, budget), st)
                          else if \<not> array_lba < gh_first_usable_lba header \<and>
                            (array_lba \<le> gh_last_usable_lba header \<or> array_end > header_lba)
                          then Inr ((False, budget), st)
                          else if sect_count (dev st) \<noteq> -1 \<and>
                            array_end > sect_count (dev st) div word_of_int (lb_size div 512)
                          then Inr ((False, budget), st)
                          else case CHECKED_MUL array_lba lb of
                            None \<Rightarrow> Inr ((False, budget), st)
                          | Some array_loc \<Rightarrow>
                              bindo (crc32_volume_range (dev_read disk) st array_loc array_size 0xffffffff)
                                (\<lambda>r st1. Inr ((r = Some (NOT (gh_array_crc32 header)), budget - array_size), st1))))"

definition zeroed_crc :: "u8 list \<Rightarrow> u8 list" where
  "zeroed_crc header = take 16 header @ [0, 0, 0, 0] @ drop 20 header"

definition gpt_verify_header ::
  "disk \<Rightarrow> part_state \<Rightarrow> u8 list \<Rightarrow> u64 \<Rightarrow> int \<Rightarrow> u64 \<Rightarrow> ((bool \<times> u64) \<times> part_state) outcome" where
  "gpt_verify_header disk st header header_lba lb_size budget =
     (if \<not> header_signed header then Inr ((False, budget), st)
      else if gh_revision header \<noteq> 0x00010000 then Inr ((False, budget), st)
      else if gh_header_size header < 92 \<or> (ucast (gh_header_size header) :: u64) > word_of_int lb_size
      then Inr ((False, budget), st)
      else if gh_my_lba header \<noteq> header_lba then Inr ((False, budget), st)
      else case CHECKED_MUL header_lba (word_of_int lb_size) of
        None \<Rightarrow> Inr ((False, budget), st)
      | Some header_loc \<Rightarrow>
          (let crc0 = crc32_update 0xffffffff (zeroed_crc header)
           in bindo
                (if gh_header_size header > 92 then
                   (case CHECKED_ADD header_loc 92 of
                      None \<Rightarrow> Inr (None, st)
                    | Some tail \<Rightarrow>
                        crc32_volume_range (dev_read disk) st tail (ucast (gh_header_size header) - 92) crc0)
                 else Inr (Some crc0, st))
                (\<lambda>r st1. if r \<noteq> Some (NOT (gh_crc32 header)) then Inr ((False, budget), st1)
                         else gpt_verify_array disk st1 header header_lba lb_size budget)))"

section \<open>The memo\<close>

definition gpt_memo_none_hit :: "disk \<Rightarrow> part_state \<Rightarrow> (bool \<times> part_state) outcome" where
  "gpt_memo_none_hit disk st =
     (if gpt_memo_none_volume st \<noteq> Some (dev_id st) then Inr (False, st)
      else bindo (dev_read disk st 512 92) (\<lambda>r st1.
             case r of
               None \<Rightarrow> Inr (\<not> gpt_memo_none_readable st1, st1)
             | Some fresh \<Rightarrow> Inr (gpt_memo_none_readable st1 \<and> fresh = gpt_memo_none_block st1, st1)))"

definition gpt_memo_none_store :: "disk \<Rightarrow> part_state \<Rightarrow> (unit \<times> part_state) outcome" where
  "gpt_memo_none_store disk st =
     bindo (dev_read disk (st\<lparr>gpt_memo_none_volume := Some (dev_id st)\<rparr>) 512 92) (\<lambda>r st1.
       Inr ((), case r of
                  None \<Rightarrow> st1\<lparr>gpt_memo_none_readable := False\<rparr>
                | Some b \<Rightarrow> st1\<lparr>gpt_memo_none_readable := True, gpt_memo_none_block := b\<rparr>))"

text \<open>A hit yields the header and the block size it was found with.\<close>

definition gpt_memo_hit :: "disk \<Rightarrow> part_state \<Rightarrow> ((u8 list \<times> int) option \<times> part_state) outcome" where
  "gpt_memo_hit disk st =
     (if gpt_memo_volume st \<noteq> Some (dev_id st) then Inr (None, st)
      else case CHECKED_MUL (gpt_memo_lba st) (word_of_int (gpt_memo_lb_size st)) of
        None \<Rightarrow> Inr (None, st)
      | Some loc \<Rightarrow>
          bindo (dev_read disk st loc 92) (\<lambda>r st1.
            if r \<noteq> Some (gpt_memo_header st1) then Inr (None, st1)
            else Inr (Some (gpt_memo_header st1, gpt_memo_lb_size st1), st1)))"

definition gpt_memo_store :: "part_state \<Rightarrow> u8 list \<Rightarrow> u64 \<Rightarrow> int \<Rightarrow> part_state" where
  "gpt_memo_store st header header_lba lb_size =
     st\<lparr>gpt_memo_volume := Some (dev_id st), gpt_memo_header := header,
        gpt_memo_lba := header_lba, gpt_memo_lb_size := lb_size\<rparr>"

section \<open>Finding the header\<close>

fun protective_from :: "disk \<Rightarrow> part_state \<Rightarrow> nat list \<Rightarrow> (bool \<times> part_state) outcome" where
  "protective_from disk st [] = Inr (False, st)"
| "protective_from disk st (i # is) =
     bindo (dev_read disk st (0x1be + 16 * of_nat i + 4) 1) (\<lambda>r st1.
       case r of
         None \<Rightarrow> Inr (False, st1)
       | Some type \<Rightarrow> if type ! 0 = 0xee then Inr (True, st1) else protective_from disk st1 is)"

definition gpt_protective_mbr :: "disk \<Rightarrow> part_state \<Rightarrow> (bool \<times> part_state) outcome" where
  "gpt_protective_mbr disk st = protective_from disk st [0, 1, 2, 3]"

text \<open>
  The locations of an alternate header for one block size: the last block first, then the
  one the primary names. \<open>primary\<close> is what was read from block 1, if anything.
\<close>

definition alternate_candidates :: "volume \<Rightarrow> int \<Rightarrow> u8 list option \<Rightarrow> u64 list" where
  "alternate_candidates v guess primary =
     (let named = (case primary of
                     None \<Rightarrow> []
                   | Some header \<Rightarrow>
                       if header_signed header \<and> gh_alternate_lba header > 1 then [gh_alternate_lba header] else []);
          blocks = sect_count v div word_of_int (guess div 512)
      in if sect_count v \<noteq> -1 \<and> guess \<ge> 512 \<and> blocks \<ge> 2
         then (let named' = (if named = [blocks - 1] then [] else named) in [blocks - 1] @ named')
         else named)"

text \<open>The loop over the candidates: the header found and where, with the budget left.\<close>

fun try_candidates ::
  "disk \<Rightarrow> part_state \<Rightarrow> int \<Rightarrow> u64 \<Rightarrow> u64 list \<Rightarrow> (((u8 list \<times> u64) option \<times> u64) \<times> part_state) outcome" where
  "try_candidates disk st guess budget [] = Inr ((None, budget), st)"
| "try_candidates disk st guess budget (c # cs) =
     (case CHECKED_MUL c (word_of_int guess) of
        None \<Rightarrow> try_candidates disk st guess budget cs
      | Some loc \<Rightarrow>
          bindo (dev_read disk st loc 92) (\<lambda>r st1.
            case r of
              None \<Rightarrow> try_candidates disk st1 guess budget cs
            | Some header \<Rightarrow>
                bindo (gpt_verify_header disk st1 header c guess budget) (\<lambda>(ok, budget1) st2.
                  if ok then Inr ((Some (header, c), budget1), st2)
                  else try_candidates disk st2 guess budget1 cs)))"

definition try_guess ::
  "disk \<Rightarrow> part_state \<Rightarrow> int \<Rightarrow> u64 \<Rightarrow> (((u8 list \<times> u64) option \<times> u64) \<times> part_state) outcome" where
  "try_guess disk st guess budget =
     bindo (dev_read disk st (word_of_int guess) 92) (\<lambda>primary st1.
       bindo (case primary of
                None \<Rightarrow> Inr ((False, budget), st1)
              | Some header \<Rightarrow> gpt_verify_header disk st1 header 1 guess budget) (\<lambda>(ok, budget1) st2.
         if ok then Inr ((map_option (\<lambda>header. (header, 1)) primary, budget1), st2)
         else try_candidates disk st2 guess budget1 (alternate_candidates (dev st2) guess primary)))"

fun try_guesses ::
  "disk \<Rightarrow> part_state \<Rightarrow> u64 \<Rightarrow> int list \<Rightarrow> ((u8 list \<times> int) option \<times> part_state) outcome" where
  "try_guesses disk st budget [] = bindo (gpt_memo_none_store disk st) (\<lambda>_ st1. Inr (None, st1))"
| "try_guesses disk st budget (guess # gs) =
     bindo (try_guess disk st guess budget) (\<lambda>(found, budget1) st1.
       case found of
         None \<Rightarrow> try_guesses disk st1 budget1 gs
       | Some (header, lba) \<Rightarrow> Inr (Some (header, guess), gpt_memo_store st1 header lba guess))"

definition gpt_locate_header :: "disk \<Rightarrow> part_state \<Rightarrow> ((u8 list \<times> int) option \<times> part_state) outcome" where
  "gpt_locate_header disk st =
     bindo (gpt_memo_hit disk st) (\<lambda>hit st1.
       if hit \<noteq> None then Inr (hit, st1)
       else bindo (gpt_memo_none_hit disk st1) (\<lambda>none st2.
         if none then Inr (None, st2)
         else bindo (gpt_protective_mbr disk st2) (\<lambda>protective st3.
           if \<not> protective then Inr (None, st3)
           else try_guesses disk st3 (GPT_MAX_ARRAY_SIZE * 2) [512, 2048, 4096])))"

definition gpt_get_guid :: "disk \<Rightarrow> part_state \<Rightarrow> (u8 list option \<times> part_state) outcome" where
  "gpt_get_guid disk st =
     bindo (gpt_locate_header disk st) (\<lambda>r st1. Inr (map_option (\<lambda>(header, lb). gh_disk_guid header) r, st1))"

section \<open>One partition\<close>

datatype 'a lookup = Found 'a | NO_PARTITION | INVALID_TABLE | END_OF_TABLE

text \<open>The sectors and identifiers of an entry read from the table.\<close>

definition gpt_entry_range :: "volume \<Rightarrow> int \<Rightarrow> u8 list \<Rightarrow> (u64 \<times> u64) lookup" where
  "gpt_entry_range v lb_size entry =
     (if take 16 entry = replicate 16 0 then NO_PARTITION
      else (let starting_lba = le64_at entry 32; ending_lba = le64_at entry 40;
                sect_multiplier = (word_of_int (lb_size div 512) :: u64)
            in if ending_lba < starting_lba then NO_PARTITION
               else case CHECKED_MUL starting_lba sect_multiplier of
                 None \<Rightarrow> NO_PARTITION
               | Some first_sect_result \<Rightarrow>
                   if ending_lba - starting_lba = -1 then NO_PARTITION
                   else case CHECKED_MUL (ending_lba - starting_lba + 1) sect_multiplier of
                     None \<Rightarrow> NO_PARTITION
                   | Some sect_count_result \<Rightarrow>
                       if \<not> partition_range_valid v first_sect_result sect_count_result then NO_PARTITION
                       else Found (first_sect_result, sect_count_result)))"

text \<open>The fields of the new volume that come from the device, over a zeroed structure.\<close>

definition child_volume :: "volume \<Rightarrow> int \<Rightarrow> u64 \<Rightarrow> u64 \<Rightarrow> volume" where
  "child_volume v number first cnt =
     \<lparr>drive = drive v, fastest_xfer_size = fastest_xfer_size v, vindex = vindex v, is_optical = is_optical v,
      vpxe = False, partition = number, sector_size = sector_size v, max_partition = 0, cache_status = False,
      vcache = None, cached_block = 0, ebr_walk_index = 0, ebr_walk_sector = 0, ebr_walk_size = 0,
      first_sect = first, sect_count = cnt, part_guid_valid = False, part_guid = [],
      part_type_guid_valid = False, part_type_guid = []\<rparr>"

definition gpt_entry_volume :: "volume \<Rightarrow> int \<Rightarrow> int \<Rightarrow> u8 list \<Rightarrow> volume lookup" where
  "gpt_entry_volume v lb_size number entry =
     (case gpt_entry_range v lb_size entry of
        Found (first, cnt) \<Rightarrow>
          Found ((child_volume v (number + 1) first cnt)
            \<lparr>part_guid_valid := True, part_guid := take 16 (drop 16 entry),
             part_type_guid_valid := True, part_type_guid := take 16 entry\<rparr>)
      | NO_PARTITION \<Rightarrow> NO_PARTITION
      | INVALID_TABLE \<Rightarrow> INVALID_TABLE
      | END_OF_TABLE \<Rightarrow> END_OF_TABLE)"

text \<open>The offset of an entry: \<^const>\<open>INVALID_TABLE\<close> or \<^const>\<open>END_OF_TABLE\<close> when there is none.\<close>

definition gpt_entry_offset :: "u8 list \<Rightarrow> int \<Rightarrow> int \<Rightarrow> u64 lookup" where
  "gpt_entry_offset header lb_size number =
     (let entry_count = (if gh_number_of_entries header > 256 then 256 else gh_number_of_entries header)
      in if (word_of_int number :: u32) \<ge> entry_count then END_OF_TABLE
         else if gh_entry_size header < 128 then INVALID_TABLE
         else case CHECKED_MUL (gh_partition_entry_lba header) (word_of_int lb_size) of
           None \<Rightarrow> INVALID_TABLE
         | Some array_offset \<Rightarrow>
             (case CHECKED_ADD array_offset (word_of_int number * ucast (gh_entry_size header)) of
                None \<Rightarrow> INVALID_TABLE
              | Some entry_offset \<Rightarrow> Found entry_offset))"

definition gpt_get_part :: "disk \<Rightarrow> part_state \<Rightarrow> int \<Rightarrow> (volume lookup \<times> part_state) outcome" where
  "gpt_get_part disk st number =
     bindo (gpt_locate_header disk st) (\<lambda>r st1.
       case r of
         None \<Rightarrow> Inr (INVALID_TABLE, st1)
       | Some (header, lb_size) \<Rightarrow>
           (case gpt_entry_offset header lb_size number of
              Found entry_offset \<Rightarrow>
                bindo (dev_read disk st1 entry_offset 128) (\<lambda>e st2.
                  Inr (case e of
                         None \<Rightarrow> END_OF_TABLE
                       | Some entry \<Rightarrow> gpt_entry_volume (dev st2) lb_size number entry, st2))
            | NO_PARTITION \<Rightarrow> Inr (NO_PARTITION, st1)
            | INVALID_TABLE \<Rightarrow> Inr (INVALID_TABLE, st1)
            | END_OF_TABLE \<Rightarrow> Inr (END_OF_TABLE, st1)))"

end
