(* ===== verification/Gpt_Correct.thy ===== *)
theory Gpt_Correct
  imports Gpt
begin

text \<open>
  What a verified partition table guarantees. Volumes are read through the interface
  \<open>byte_source\<close>; the device of a lookup provides it.
\<close>

section \<open>The streamed CRC\<close>

context byte_source
begin

text \<open>The streamed CRC is the CRC of the range, and reading it leaves the state's key alone.\<close>

lemma crc_range:
  assumes "crc32_volume_range read s loc cnt crc = Inr (r, s')" and "invar s" and "unat loc + unat cnt \<le> 2 ^ 64"
  shows "invar s' \<and> bytes s' = bytes s \<and> key s' = key s \<and>
    (\<forall>c. r = Some c \<longrightarrow> c = crc32_update crc (bytes s (unat loc) (unat cnt)))"
  using assms
proof (induction "unat cnt" arbitrary: s loc cnt crc rule: less_induct)
  case less
  note unf = crc32_volume_range.simps [of read s loc cnt crc]
  show ?case
  proof (cases "cnt > 0")
    case False
    with less.prems(1) have "r = Some crc" "s' = s" by (simp_all add: unf)
    moreover have "bytes s l 0 = []" for l using bytes_append [of s l 0 0] by simp
    ultimately show ?thesis using less.prems(2) False by (simp add: word_gt_0 crc32_update_def)
  next
    case True
    define step where "step = (if cnt < 512 then cnt else 512)"
    have st: "step \<le> cnt" "0 < step" using True by (auto simp: step_def)
    then have u: "unat (cnt - step) = unat cnt - unat step" "unat step \<le> unat cnt" "0 < unat step"
      by (simp_all add: unat_sub word_le_nat_alt word_less_nat_alt)
    from less.prems(1) True obtain q s1 where rd: "read s loc step = Inr (q, s1)"
      by (auto simp: unf step_def [symmetric] Let_def split: sum.splits)
    have in': "unat loc + unat step \<le> 2 ^ 64" using less.prems(3) u by linarith
    note k = read_keeps [OF rd less.prems(2) in']
    show ?thesis
    proof (cases q)
      case None
      with less.prems(1) True rd k show ?thesis by (auto simp: unf step_def [symmetric] Let_def)
    next
      case (Some chunk)
      let ?crc = "crc32_update crc chunk"
      have c: "chunk = bytes s (unat loc) (unat step)"
        using read_bytes [OF _ less.prems(2) in'] rd Some by blast
      have rec: "crc32_volume_range read s1 (loc + step) (cnt - step) ?crc = Inr (r, s')"
        using less.prems(1) True rd Some by (simp add: unf step_def [symmetric] Let_def)
      show ?thesis
      proof (cases "cnt - step = 0")
        case True
        then have "cnt = step" by simp
        moreover from rec True have "r = Some ?crc" "s' = s1"
          by (simp_all add: crc32_volume_range.simps [of read s1 "loc + step" 0])
        ultimately show ?thesis using k c by simp
      next
        case False
        then have "0 < unat (cnt - step)" by (simp add: unat_gt_0)
        with u less.prems(3) have lt: "unat loc + unat step < 2 ^ 64" by linarith
        then have loc: "unat (loc + step) = unat loc + unat step" by (simp add: unat_word_ariths)
        have "unat (cnt - step) < unat cnt" using u by linarith
        from less.hyps [OF this rec] k loc u less.prems(3)
        have "invar s' \<and> bytes s' = bytes s1 \<and> key s' = key s1 \<and>
            (\<forall>c. r = Some c \<longrightarrow> c = crc32_update ?crc (bytes s1 (unat loc + unat step) (unat cnt - unat step)))"
          by simp
        moreover have "crc32_update ?crc (bytes s (unat loc + unat step) (unat cnt - unat step)) =
            crc32_update crc (bytes s (unat loc) (unat cnt))"
          using bytes_append [of s "unat loc" "unat step" "unat cnt - unat step"] u(2)
          by (simp add: crc32_update_def c foldl_append [symmetric] del: foldl_append)
        ultimately show ?thesis using k by simp
      qed
    qed
  qed
qed

end

section \<open>The volume reader provides it\<close>

definition dev_ok :: "disk \<Rightarrow> (nat \<Rightarrow> u8) \<Rightarrow> part_state \<Rightarrow> bool" where
  "dev_ok disk D st \<longleftrightarrow> disk_serves disk D \<and> cache_ok D (dev st) \<and> volume_sane (dev st)"

definition dev_bytes :: "(nat \<Rightarrow> u8) \<Rightarrow> part_state \<Rightarrow> nat \<Rightarrow> nat \<Rightarrow> u8 list" where
  "dev_bytes D st = volume_bytes D (dev st)"

text \<open>Everything but the allocator and the device's cache.\<close>

definition frame :: "part_state \<Rightarrow> part_state" where
  "frame st = st\<lparr>pstate := \<lparr>memmap = [], memmap_max_entries = 0, keep_first_page = False,
      allocations_disallowed = False, conv_base = 0, mem = (\<lambda>_. 0)\<rparr>, dev := uncached (dev st)\<rparr>"

lemma frame_fields:
  assumes "frame st = frame st'"
  shows "uncached (dev st) = uncached (dev st')" "dev_id st = dev_id st'" "ebr_part st = ebr_part st'"
    "gpt_memo_volume st = gpt_memo_volume st'" "gpt_memo_header st = gpt_memo_header st'"
    "gpt_memo_lba st = gpt_memo_lba st'" "gpt_memo_lb_size st = gpt_memo_lb_size st'"
  using arg_cong [OF assms, of dev] arg_cong [OF assms, of dev_id] arg_cong [OF assms, of ebr_part]
    arg_cong [OF assms, of gpt_memo_volume] arg_cong [OF assms, of gpt_memo_header]
    arg_cong [OF assms, of gpt_memo_lba] arg_cong [OF assms, of gpt_memo_lb_size]
  by (simp_all add: frame_def)

interpretation vol: byte_source "dev_read disk" "dev_ok disk D" "dev_bytes D" frame for disk D
proof
  fix s loc n r s' bs l k
  assume rd: "dev_read disk s loc n = Inr (r, s')" and ok: "dev_ok disk D s" and le: "unat loc + unat n \<le> 2 ^ 64"
  from rd obtain p v where v: "volume_read disk (pstate s) (dev s) loc n = Inr (r, p, v)"
    and s': "s' = s\<lparr>pstate := p, dev := v\<rparr>"
    by (auto simp: dev_read_def split: sum.splits)
  from ok have k: "disk_serves disk D" "cache_ok D (dev s)" "volume_sane (dev s)" by (simp_all add: dev_ok_def)
  note q = volume_read_ok [OF v k le]
  from q(1,2) k uncached_same [OF q(2)] show "dev_ok disk D s' \<and> dev_bytes D s' = dev_bytes D s \<and> frame s' = frame s"
    by (simp add: dev_ok_def dev_bytes_def frame_def s')
next
  fix s loc n bs s'
  assume rd: "dev_read disk s loc n = Inr (Some bs, s')" and ok: "dev_ok disk D s" and le: "unat loc + unat n \<le> 2 ^ 64"
  from rd obtain p v where v: "volume_read disk (pstate s) (dev s) loc n = Inr (Some bs, p, v)"
    by (auto simp: dev_read_def split: sum.splits)
  from ok have k: "disk_serves disk D" "cache_ok D (dev s)" "volume_sane (dev s)" by (simp_all add: dev_ok_def)
  from volume_read_ok(3) [OF v k le refl] show "bs = dev_bytes D s (unat loc) (unat n)" by (simp add: dev_bytes_def)
next
  fix s :: part_state and l n k
  show "dev_bytes D s l n @ dev_bytes D s (l + n) k = dev_bytes D s l (n + k)"
    unfolding dev_bytes_def by (rule volume_bytes_append)
qed

section \<open>What a verified header guarantees\<close>

abbreviation array_bytes :: "u8 list \<Rightarrow> nat" where
  "array_bytes h \<equiv> unat (gh_number_of_entries h) * unat (gh_entry_size h)"

definition crc32 :: "u8 list \<Rightarrow> u32" where
  "crc32 bs = NOT (crc32_update 0xffffffff bs)"

text \<open>The array of entries: its size, its place outside the usable blocks, its CRC.\<close>

definition array_valid :: "(nat \<Rightarrow> u8) \<Rightarrow> part_state \<Rightarrow> u8 list \<Rightarrow> u64 \<Rightarrow> int \<Rightarrow> bool" where
  "array_valid D st h lba lb \<longleftrightarrow>
     (let first = unat (gh_partition_entry_lba h) * nat lb; n = array_bytes h
      in 128 \<le> unat (gh_entry_size h) \<and> gh_entry_size h AND (gh_entry_size h - 1) = 0 \<and>
         0 < n \<and> n \<le> 0x100000 \<and> first + n \<le> unat (sect_count (dev st)) * 512 \<and>
         gh_first_usable_lba h \<le> gh_last_usable_lba h \<and>
         (first + n \<le> unat (gh_first_usable_lba h) * nat lb \<or>
          unat (gh_last_usable_lba h) * nat lb + nat lb \<le> first \<and> first + n \<le> unat lba * nat lb) \<and>
         crc32 (dev_bytes D st first n) = gh_array_crc32 h)"

definition header_valid :: "(nat \<Rightarrow> u8) \<Rightarrow> part_state \<Rightarrow> u8 list \<Rightarrow> u64 \<Rightarrow> int \<Rightarrow> bool" where
  "header_valid D st h lba lb \<longleftrightarrow>
     header_signed h \<and> gh_revision h = 0x00010000 \<and> gh_my_lba h = lba \<and>
     92 \<le> unat (gh_header_size h) \<and> unat (gh_header_size h) \<le> nat lb \<and>
     crc32 (zeroed_crc h @ dev_bytes D st (unat lba * nat lb + 92) (unat (gh_header_size h) - 92)) = gh_crc32 h"

definition sized :: "volume \<Rightarrow> bool" where
  "sized v \<longleftrightarrow> unat (sect_count v) * 512 < 2 ^ 64"

definition lb_guess :: "int \<Rightarrow> bool" where
  "lb_guess lb \<longleftrightarrow> lb = 512 \<or> lb = 2048 \<or> lb = 4096"

lemma lb_guess_nat:
  assumes "lb_guess lb"
  obtains m where "nat lb = 512 * m" "unat (word_of_int lb :: u64) = 512 * m" "unat (word_of_int (lb div 512) :: u64) = m"
    "0 < m" "m \<le> 8" "(2 :: nat) ^ 64 = 512 * m * (2 ^ 64 div (512 * m))"
  using assms by (auto simp: lb_guess_def)

lemma ceil_blocks:
  fixes n lb :: nat
  assumes "0 < lb"
  shows "n \<le> (n + lb - 1) div lb * lb"
proof -
  have "(n + lb - 1) div lb * lb + (n + lb - 1) mod lb = n + lb - 1" by simp
  moreover have "(n + lb - 1) mod lb < lb" using assms by simp
  ultimately show ?thesis by linarith
qed

text \<open>Peeling off a guard whose rejection is not what happened.\<close>

lemma reject_if:
  assumes "(if c then Inr ((False, x), s) else X) = Inr ((ok, b), s')" and "\<not> (s' = s \<and> b = x \<and> \<not> ok)"
  obtains "\<not> c" "X = Inr ((ok, b), s')"
  using assms by (auto split: if_splits)

lemma reject_None:
  assumes "(case v of None \<Rightarrow> Inr ((False, x), s) | Some w \<Rightarrow> f w) = Inr ((ok, b), s')" and "\<not> (s' = s \<and> b = x \<and> \<not> ok)"
  obtains w where "v = Some w" "f w = Inr ((ok, b), s')"
  using assms by (auto split: option.splits)

lemma gpt_verify_array_ok:
  assumes ret: "gpt_verify_array disk st h lba lb budget = Inr ((ok, b), st')"
    and dv: "dev_ok disk D st" and lb: "lb_guess lb" and sz: "sized (dev st)"
  shows "dev_ok disk D st' \<and> frame st' = frame st \<and> b \<le> budget \<and> (ok \<longrightarrow> array_valid D st h lba lb)"
proof (cases "st' = st \<and> b = budget \<and> \<not> ok")
  case True
  with dv show ?thesis by simp
next
  case False
  from lb obtain m where m: "nat lb = 512 * m" "unat (word_of_int lb :: u64) = 512 * m"
    "unat (word_of_int (lb div 512) :: u64) = m" "0 < m" "m \<le> 8"
    by (rule lb_guess_nat)
  let ?lb = "word_of_int lb :: u64" and ?a = "gh_partition_entry_lba h"
  have n1: "sect_count (dev st) \<noteq> -1" using sz by (auto simp: sized_def unsigned_minus_1_eq_mask mask_eq_exp_minus_1)
  from ret obtain n e loc r where es: "\<not> gh_entry_size h < 128" "gh_entry_size h AND (gh_entry_size h - 1) = 0"
    and n: "CHECKED_MUL (ucast (gh_number_of_entries h) :: u64) (ucast (gh_entry_size h)) = Some n" "n \<noteq> 0"
      "\<not> n > GPT_MAX_ARRAY_SIZE" "\<not> n > budget"
    and e: "CHECKED_ADD ?a ((n + ?lb - 1) div ?lb) = Some e"
    and ul: "\<not> gh_first_usable_lba h > gh_last_usable_lba h"
    and place: "\<not> (?a < gh_first_usable_lba h \<and> e > gh_first_usable_lba h)"
      "\<not> (\<not> ?a < gh_first_usable_lba h \<and> (?a \<le> gh_last_usable_lba h \<or> e > lba))"
    and dev: "\<not> (sect_count (dev st) \<noteq> -1 \<and> e > sect_count (dev st) div word_of_int (lb div 512))"
    and loc: "CHECKED_MUL ?a ?lb = Some loc"
    and crc: "crc32_volume_range (dev_read disk) st loc n 0xffffffff = Inr (r, st')"
    and ok: "ok = (r = Some (NOT (gh_array_crc32 h)))" and b: "b = budget - n"
    unfolding gpt_verify_array_def Let_def
    by (elim reject_if [OF _ False] reject_None [OF _ False] bindo_InrE) (auto elim!: reject_if [OF _ False])
  have un: "unat n = array_bytes h" using CHECKED_MUL_unat [OF n(1)] by (simp add: unat_ucast_up)
  have n20: "unat n \<le> 0x100000" using n(3) by (simp add: word_less_nat_alt)
  have ue: "unat e = unat ?a + (unat n + 512 * m - 1) div (512 * m)"
  proof -
    have "unat (n + ?lb - 1) = unat n + 512 * m - 1"
      using n20 m by (simp add: unat_word_ariths unat_sub_if_size word_size)
    then show ?thesis using CHECKED_ADD_unat [OF e] m(2) by (simp add: unat_div)
  qed
  have ul': "unat loc = unat ?a * (512 * m)" using CHECKED_MUL_unat [OF loc] m(2) by simp
  have end': "unat loc + unat n \<le> unat e * (512 * m)"
    using ceil_blocks [of "512 * m" "unat n"] m(4) unfolding ul' ue by (simp add: algebra_simps)
  have "unat e \<le> unat (sect_count (dev st)) div m" using dev n1 m(3) by (simp add: word_less_nat_alt unat_div)
  then have "unat e * m \<le> unat (sect_count (dev st))" using m(4) by (metis div_times_less_eq_dividend le_trans mult_le_mono1)
  then have inside: "unat loc + unat n \<le> unat (sect_count (dev st)) * 512" using end' by linarith
  then have "unat loc + unat n \<le> 2 ^ 64" using sz by (simp add: sized_def)
  from vol.crc_range [OF crc dv this] have k: "dev_ok disk D st'" "frame st' = frame st"
    "\<forall>c. r = Some c \<longrightarrow> c = crc32_update 0xffffffff (dev_bytes D st (unat loc) (unat n))" by simp_all
  have "array_valid D st h lba lb" if ok
  proof -
    have c: "crc32 (dev_bytes D st (unat loc) (unat n)) = gh_array_crc32 h"
    proof -
      have "NOT (gh_array_crc32 h) = crc32_update 0xffffffff (dev_bytes D st (unat loc) (unat n))"
        using k(3) ok that by blast
      then show ?thesis unfolding crc32_def by (metis bit.double_compl)
    qed
    have pl: "unat loc + unat n \<le> unat (gh_first_usable_lba h) * (512 * m) \<or>
       unat (gh_last_usable_lba h) * (512 * m) + 512 * m \<le> unat loc \<and> unat loc + unat n \<le> unat lba * (512 * m)"
    proof (cases "?a < gh_first_usable_lba h")
      case True
      with place(1) have "unat e \<le> unat (gh_first_usable_lba h)" by (simp add: word_less_nat_alt)
      then have "unat e * (512 * m) \<le> unat (gh_first_usable_lba h) * (512 * m)" by simp
      with end' show ?thesis by linarith
    next
      case False
      with place(2) have "unat (gh_last_usable_lba h) + 1 \<le> unat ?a" "unat e \<le> unat lba"
        by (simp_all add: word_less_nat_alt word_le_nat_alt)
      then have "(unat (gh_last_usable_lba h) + 1) * (512 * m) \<le> unat loc" "unat e * (512 * m) \<le> unat lba * (512 * m)"
        unfolding ul' by (intro mult_le_mono1; simp)+
      then have "unat (gh_last_usable_lba h) * (512 * m) + 512 * m \<le> unat loc" "unat loc + unat n \<le> unat lba * (512 * m)"
        using end' by (simp_all only: distrib_right mult_1)
      then show ?thesis by blast
    qed
    have "128 \<le> unat (gh_entry_size h)" using es(1) by (simp add: word_less_nat_alt)
    moreover have "0 < unat n" using n(2) by (simp add: unat_gt_0)
    ultimately show ?thesis
      using es(2) n20 ul pl c inside unfolding array_valid_def Let_def m(1) un [symmetric] ul' [symmetric]
      by (simp add: word_less_nat_alt word_le_nat_alt)
  qed
  moreover have "b \<le> budget" unfolding b using n(4) by (simp add: word_sub_le)
  ultimately show ?thesis using k by blast
qed

lemma block_fits:
  assumes "lb_guess lb" and "CHECKED_MUL c (word_of_int lb :: u64) = Some loc"
  shows "unat loc = unat c * nat lb" and "unat loc + nat lb \<le> 2 ^ 64"
proof -
  from assms(1) obtain m where m: "nat lb = 512 * m" "unat (word_of_int lb :: u64) = 512 * m" "0 < m"
    "(2 :: nat) ^ 64 = 512 * m * (2 ^ 64 div (512 * m))"
    by (rule lb_guess_nat)
  show u: "unat loc = unat c * nat lb" using CHECKED_MUL_unat [OF assms(2)] m by simp
  from m(4) obtain q where q: "(2 :: nat) ^ 64 = 512 * m * q" by blast
  have "unat loc < 512 * m * q" using unsigned_less [of loc, where 'a = nat] unfolding q [symmetric] by simp
  then have "512 * m * unat c < 512 * m * q" unfolding u m(1) by (simp only: mult.commute)
  then have "unat c + 1 \<le> q" by simp
  then have "512 * m * (unat c + 1) \<le> 512 * m * q" by (rule mult_le_mono2)
  then show "unat loc + nat lb \<le> 2 ^ 64" unfolding u m(1) q by (simp add: algebra_simps)
qed

lemma gpt_verify_header_ok:
  assumes ret: "gpt_verify_header disk st h lba lb budget = Inr ((ok, b), st')"
    and dv: "dev_ok disk D st" and lb: "lb_guess lb" and sz: "sized (dev st)"
  shows "dev_ok disk D st' \<and> frame st' = frame st \<and>
    (ok \<longrightarrow> header_valid D st h lba lb \<and> array_valid D st h lba lb)"
proof (cases "st' = st \<and> b = budget \<and> \<not> ok")
  case True
  with dv show ?thesis by simp
next
  case False
  let ?hs = "gh_header_size h" and ?c0 = "crc32_update 0xffffffff (zeroed_crc h)"
  let ?crc = "\<lambda>loc. if ?hs > 92 then
       (case CHECKED_ADD loc 92 of
          None \<Rightarrow> Inr (None, st)
        | Some tail \<Rightarrow> crc32_volume_range (dev_read disk) st tail (ucast ?hs - 92) ?c0)
     else Inr (Some ?c0, st)"
  from ret obtain loc r st1 where sig: "header_signed h" and rev: "gh_revision h = 0x00010000"
    and hs: "\<not> (?hs < 92 \<or> (ucast ?hs :: u64) > word_of_int lb)" and my: "gh_my_lba h = lba"
    and loc: "CHECKED_MUL lba (word_of_int lb) = Some loc"
    and crc: "?crc loc = Inr (r, st1)"
    and rest: "(if r \<noteq> Some (NOT (gh_crc32 h)) then Inr ((False, budget), st1)
                else gpt_verify_array disk st1 h lba lb budget) = Inr ((ok, b), st')"
    unfolding gpt_verify_header_def Let_def
    by (elim reject_if [OF _ False] reject_None [OF _ False] bindo_InrE) auto
  have uhs: "92 \<le> unat ?hs" "unat ?hs \<le> nat lb"
  proof -
    from lb obtain m where "nat lb = 512 * m" "unat (word_of_int lb :: u64) = 512 * m" by (rule lb_guess_nat)
    then show "92 \<le> unat ?hs" "unat ?hs \<le> nat lb"
      using hs by (simp_all add: word_less_nat_alt unat_ucast_up)
  qed
  note bf = block_fits [OF lb loc]
  have crc_ok: "dev_ok disk D st1 \<and> frame st1 = frame st \<and> (\<forall>c. r = Some c \<longrightarrow>
      c = crc32_update 0xffffffff (zeroed_crc h @ dev_bytes D st (unat lba * nat lb + 92) (unat ?hs - 92)))"
  proof (cases "?hs > 92")
    case False
    then have "unat ?hs = 92" using uhs by (simp add: word_less_nat_alt)
    moreover have "dev_bytes D st l 0 = []" for l by (simp add: dev_bytes_def volume_bytes_def)
    ultimately show ?thesis using crc False dv by auto
  next
    case True
    show ?thesis
    proof (cases "CHECKED_ADD loc 92")
      case None
      with crc True dv show ?thesis by auto
    next
      case (Some tail)
      have ut: "unat tail = unat lba * nat lb + 92" using CHECKED_ADD_unat [OF Some] bf(1) by simp
      have un: "unat (ucast ?hs - 92 :: u64) = unat ?hs - 92"
        using uhs(1) by (simp add: unat_sub word_le_nat_alt unat_ucast_up)
      have cr: "crc32_volume_range (dev_read disk) st tail (ucast ?hs - 92) ?c0 = Inr (r, st1)"
        using crc True Some by simp
      have "unat tail + unat (ucast ?hs - 92 :: u64) \<le> 2 ^ 64"
        using ut un uhs bf by linarith
      from vol.crc_range [OF cr dv this] show ?thesis
        unfolding ut un by (simp add: crc32_update_def)
    qed
  qed
  then have k: "dev_ok disk D st1" "frame st1 = frame st" by simp_all
  note f = frame_fields [OF k(2)]
  show ?thesis
  proof (cases "r = Some (NOT (gh_crc32 h))")
    case False
    with rest have "st' = st1" "\<not> ok" by simp_all
    with k show ?thesis by simp
  next
    case True
    have "sized (dev st1)" using sz uncached_fields(2) [OF f(1)] by (simp add: sized_def)
    with rest True gpt_verify_array_ok [OF _ k(1) lb, of h lba budget ok b st'] have
      a: "dev_ok disk D st'" "frame st' = frame st1" "ok \<longrightarrow> array_valid D st1 h lba lb" by auto
    have "NOT (gh_crc32 h) = crc32_update 0xffffffff (zeroed_crc h @ dev_bytes D st (unat lba * nat lb + 92) (unat ?hs - 92))"
      using crc_ok True by blast
    then have "header_valid D st h lba lb"
      unfolding header_valid_def crc32_def using sig rev my uhs by (metis bit.double_compl)
    moreover have "array_valid D st1 h lba lb = array_valid D st h lba lb"
      using uncached_bytes [OF f(1)] uncached_fields(2) [OF f(1)] by (simp add: array_valid_def dev_bytes_def)
    ultimately show ?thesis using a k by simp
  qed
qed

section \<open>The search finds only verified tables\<close>

definition gpt_valid :: "(nat \<Rightarrow> u8) \<Rightarrow> part_state \<Rightarrow> u8 list \<Rightarrow> u64 \<Rightarrow> int \<Rightarrow> bool" where
  "gpt_valid D st h lba lb \<longleftrightarrow> lb_guess lb \<and> h = dev_bytes D st (unat lba * nat lb) 92 \<and>
     header_valid D st h lba lb \<and> array_valid D st h lba lb"

definition memo_ok :: "(nat \<Rightarrow> u8) \<Rightarrow> part_state \<Rightarrow> bool" where
  "memo_ok D st \<longleftrightarrow> (gpt_memo_volume st = Some (dev_id st) \<longrightarrow>
     gpt_valid D st (gpt_memo_header st) (gpt_memo_lba st) (gpt_memo_lb_size st))"

lemma same_device:
  assumes "uncached (dev st') = uncached (dev st)"
  shows "gpt_valid D st' = gpt_valid D st" and "sized (dev st') = sized (dev st)" and "dev_bytes D st' = dev_bytes D st"
    and "header_valid D st' = header_valid D st" and "array_valid D st' = array_valid D st"
  using uncached_bytes [OF assms] uncached_fields(2) [OF assms]
  by (simp_all add: gpt_valid_def header_valid_def array_valid_def sized_def dev_bytes_def fun_eq_iff)

lemma frame_memo:
  assumes "frame st' = frame st"
  shows "memo_ok D st' = memo_ok D st"
  unfolding memo_ok_def same_device(1) [OF frame_fields(1) [OF assms]] frame_fields(2-) [OF assms] by (rule refl)

lemma read_block:
  assumes "dev_read disk st loc n = Inr (r, st')" and "dev_ok disk D st" and "unat loc + unat n \<le> 2 ^ 64"
  shows "dev_ok disk D st'" and "frame st' = frame st" and "r = Some bs \<Longrightarrow> bs = dev_bytes D st (unat loc) (unat n)"
  using vol.read_keeps [OF assms] vol.read_bytes [OF _ assms(2,3)] assms(1) by blast+

lemma try_candidates_ok:
  assumes "try_candidates disk st g budget cs = Inr ((found, b), st')" and "dev_ok disk D st" and "sized (dev st)"
    and "lb_guess g"
  shows "dev_ok disk D st' \<and> frame st' = frame st \<and> (\<forall>h c. found = Some (h, c) \<longrightarrow> gpt_valid D st h c g)"
  using assms
proof (induction cs arbitrary: st budget)
  case (Cons c cs)
  show ?case
  proof (cases "CHECKED_MUL c (word_of_int g :: u64)")
    case None
    with Cons.prems(1) have "try_candidates disk st g budget cs = Inr ((found, b), st')" by simp
    from Cons.IH [OF this Cons.prems(2-4)] show ?thesis .
  next
    case (Some loc)
    note bf = block_fits [OF Cons.prems(4) Some]
    have fits: "unat loc + unat (92 :: u64) \<le> 2 ^ 64"
      using bf(2) Cons.prems(4) by (auto simp: lb_guess_def)
    from Cons.prems(1) Some obtain r st1 where rd: "dev_read disk st loc 92 = Inr (r, st1)"
      by (auto simp: bindo_Inr)
    note k = read_block [OF rd Cons.prems(2) fits]
    note f = frame_fields(1) [OF k(2)]
    note same = same_device [OF f]
    show ?thesis
    proof (cases r)
      case None
      with Cons.prems(1) Some rd have "try_candidates disk st1 g budget cs = Inr ((found, b), st')" by simp
      from Cons.IH [OF this k(1)] Cons.prems(3,4) same k(2) show ?thesis by simp
    next
      case h: (Some h)
      from Cons.prems(1) Some rd h obtain ok b1 st2 where
        vf: "gpt_verify_header disk st1 h c g budget = Inr ((ok, b1), st2)" and
        rest: "(if ok then Inr ((Some (h, c), b1), st2) else try_candidates disk st2 g b1 cs) = Inr ((found, b), st')"
        by (auto simp: bindo_Inr)
      from gpt_verify_header_ok [OF vf k(1) Cons.prems(4)] Cons.prems(3) same
      have v: "dev_ok disk D st2" "frame st2 = frame st1"
        "ok \<longrightarrow> header_valid D st h c g \<and> array_valid D st h c g" by simp_all
      show ?thesis
      proof (cases ok)
        case True
        have "h = dev_bytes D st (unat c * nat g) 92" using k(3) [OF h] bf(1) by simp
        with True v rest k(2) Cons.prems(4) show ?thesis by (auto simp: gpt_valid_def)
      next
        case False
        with rest have rec: "try_candidates disk st2 g b1 cs = Inr ((found, b), st')" by simp
        have "frame st2 = frame st" using v(2) k(2) by simp
        note s2 = same_device [OF frame_fields(1) [OF this]]
        from Cons.IH [OF rec v(1)] s2 Cons.prems(3,4) \<open>frame st2 = frame st\<close> show ?thesis by simp
      qed
    qed
  qed
qed simp

lemma try_guess_ok:
  assumes ret: "try_guess disk st g budget = Inr ((found, b), st')" and dv: "dev_ok disk D st" and sz: "sized (dev st)"
    and g: "lb_guess g"
  shows "dev_ok disk D st' \<and> frame st' = frame st \<and> (\<forall>h c. found = Some (h, c) \<longrightarrow> gpt_valid D st h c g)"
proof -
  from ret obtain r st1 ok b1 st2 where rd: "dev_read disk st (word_of_int g) 92 = Inr (r, st1)"
    and vf: "(case r of None \<Rightarrow> Inr ((False, budget), st1) | Some h \<Rightarrow> gpt_verify_header disk st1 h 1 g budget) = Inr ((ok, b1), st2)"
    and rest: "(if ok then Inr ((map_option (\<lambda>h. (h, 1)) r, b1), st2)
       else try_candidates disk st2 g b1 (alternate_candidates (dev st2) g r)) = Inr ((found, b), st')"
    by (auto simp: try_guess_def bindo_Inr)
  have ug: "unat (word_of_int g :: u64) = nat g" using g by (auto simp: lb_guess_def)
  have "unat (word_of_int g :: u64) + unat (92 :: u64) \<le> 2 ^ 64" using g by (auto simp: lb_guess_def)
  note k = read_block [OF rd dv this]
  note same = same_device [OF frame_fields(1) [OF k(2)]]
  have v: "dev_ok disk D st2 \<and> frame st2 = frame st \<and> (ok \<longrightarrow> (\<exists>h. r = Some h \<and> gpt_valid D st h 1 g))"
  proof (cases r)
    case None
    with vf k show ?thesis by simp
  next
    case (Some h)
    with vf have "gpt_verify_header disk st1 h 1 g budget = Inr ((ok, b1), st2)" by simp
    from gpt_verify_header_ok [OF this k(1) g] sz same k(2) Some k(3) [OF Some] g ug show ?thesis
      by (auto simp: gpt_valid_def)
  qed
  show ?thesis
  proof (cases ok)
    case True
    with rest v show ?thesis by auto
  next
    case False
    have "frame st2 = frame st" using v by simp
    note s2 = same_device [OF frame_fields(1) [OF this]]
    from False rest have "try_candidates disk st2 g b1 (alternate_candidates (dev st2) g r) = Inr ((found, b), st')" by simp
    from try_candidates_ok [OF this conjunct1 [OF v] _ g] v sz s2 show ?thesis by simp
  qed
qed

text \<open>What every operation on the device keeps, the memo included.\<close>

definition part_ok :: "disk \<Rightarrow> (nat \<Rightarrow> u8) \<Rightarrow> part_state \<Rightarrow> bool" where
  "part_ok disk D st \<longleftrightarrow> dev_ok disk D st \<and> sized (dev st) \<and> memo_ok D st"

definition keeps :: "disk \<Rightarrow> (nat \<Rightarrow> u8) \<Rightarrow> part_state \<Rightarrow> part_state \<Rightarrow> bool" where
  "keeps disk D st st' \<longleftrightarrow> part_ok disk D st' \<and> uncached (dev st') = uncached (dev st) \<and> dev_id st' = dev_id st \<and>
     ebr_part st' = ebr_part st"

lemma keeps_trans: "keeps disk D st st' \<Longrightarrow> keeps disk D st' st'' \<Longrightarrow> keeps disk D st st''"
  by (simp add: keeps_def)

lemma keeps_refl: "part_ok disk D st \<Longrightarrow> keeps disk D st st"
  by (simp add: keeps_def)

lemma keeps_frame:
  assumes "part_ok disk D st" and "dev_ok disk D st'" and "frame st' = frame st"
  shows "keeps disk D st st'"
  using assms frame_fields(1-3) [OF assms(3)] frame_memo [OF assms(3)] same_device(2) [OF frame_fields(1) [OF assms(3)]]
  by (simp add: keeps_def part_ok_def)

lemma read_keeps_part:
  assumes "dev_read disk st loc n = Inr (r, st')" and "part_ok disk D st" and "unat loc + unat n \<le> 2 ^ 64"
  shows "keeps disk D st st'"
  using read_block [OF assms(1) _ assms(3), of D] keeps_frame [OF assms(2)] assms(2) by (simp add: part_ok_def)

lemma keeps_update:
  assumes "keeps disk D st st1" and "gpt_memo_volume (f st1) = gpt_memo_volume st1" "gpt_memo_header (f st1) = gpt_memo_header st1"
    "gpt_memo_lba (f st1) = gpt_memo_lba st1" "gpt_memo_lb_size (f st1) = gpt_memo_lb_size st1"
    "dev (f st1) = dev st1" "dev_id (f st1) = dev_id st1" "ebr_part (f st1) = ebr_part st1"
  shows "keeps disk D st (f st1)"
proof -
  have "gpt_valid D (f st1) = gpt_valid D st1" using assms(6) by (intro same_device(1)) simp
  with assms show ?thesis by (simp add: keeps_def part_ok_def dev_ok_def memo_ok_def)
qed

lemma none_store_keeps:
  assumes "gpt_memo_none_store disk st = Inr (u, st')" and "part_ok disk D st"
  shows "keeps disk D st st'"
proof -
  let ?st = "st\<lparr>gpt_memo_none_volume := Some (dev_id st)\<rparr>"
  have k0: "keeps disk D st ?st" by (rule keeps_update [OF keeps_refl [OF assms(2)]]) simp_all
  from assms(1) obtain r st1 where rd: "dev_read disk ?st 512 92 = Inr (r, st1)"
    and st': "st' = (case r of None \<Rightarrow> st1\<lparr>gpt_memo_none_readable := False\<rparr>
      | Some b \<Rightarrow> st1\<lparr>gpt_memo_none_readable := True, gpt_memo_none_block := b\<rparr>)"
    by (auto simp: gpt_memo_none_store_def bindo_Inr)
  have "keeps disk D ?st st1" using k0 by (intro read_keeps_part [OF rd]) (simp_all add: keeps_def)
  then have k1: "keeps disk D st st1" by (rule keeps_trans [OF k0])
  show ?thesis unfolding st' by (cases r) (simp_all, (rule keeps_update [OF k1]; simp)+)
qed

lemma none_hit_keeps:
  assumes "gpt_memo_none_hit disk st = Inr (b, st')" and "part_ok disk D st"
  shows "keeps disk D st st'"
proof (cases "gpt_memo_none_volume st = Some (dev_id st)")
  case True
  with assms(1) obtain r where "dev_read disk st 512 92 = Inr (r, st')"
    by (auto simp: gpt_memo_none_hit_def bindo_Inr split: option.splits)
  with assms(2) show ?thesis by (auto intro: read_keeps_part)
qed (use assms in \<open>simp add: gpt_memo_none_hit_def keeps_refl\<close>)

lemma memo_hit_keeps:
  assumes "gpt_memo_hit disk st = Inr (r, st')" and "part_ok disk D st"
  shows "keeps disk D st st'" and "r = Some (h, lb) \<Longrightarrow> \<exists>lba. gpt_valid D st h lba lb"
proof -
  have "keeps disk D st st' \<and> (\<forall>h lb. r = Some (h, lb) \<longrightarrow> (\<exists>lba. gpt_valid D st h lba lb))"
  proof (cases "gpt_memo_volume st = Some (dev_id st)")
    case True
    then have v: "gpt_valid D st (gpt_memo_header st) (gpt_memo_lba st) (gpt_memo_lb_size st)"
      using assms(2) by (simp add: part_ok_def memo_ok_def)
    then have lb: "lb_guess (gpt_memo_lb_size st)" by (simp add: gpt_valid_def)
    show ?thesis
    proof (cases "CHECKED_MUL (gpt_memo_lba st) (word_of_int (gpt_memo_lb_size st) :: u64)")
      case None
      with assms True show ?thesis by (simp add: gpt_memo_hit_def keeps_refl)
    next
      case (Some loc)
      from assms(1) True Some obtain q where rd: "dev_read disk st loc 92 = Inr (q, st')"
        and r: "r = (if q \<noteq> Some (gpt_memo_header st') then None else Some (gpt_memo_header st', gpt_memo_lb_size st'))"
        by (auto simp: gpt_memo_hit_def bindo_Inr split: if_splits)
      have le: "unat loc + unat (92 :: u64) \<le> 2 ^ 64" using block_fits(2) [OF lb Some] lb by (auto simp: lb_guess_def)
      have "frame st' = frame st" using read_block(2) [OF rd _ le] assms(2) by (auto simp: part_ok_def)
      note f = frame_fields [OF this]
      from r f v have "\<forall>h lb. r = Some (h, lb) \<longrightarrow> (\<exists>lba. gpt_valid D st h lba lb)" by (auto split: if_splits)
      with read_keeps_part [OF rd assms(2) le] show ?thesis by blast
    qed
  qed (use assms in \<open>simp add: gpt_memo_hit_def keeps_refl\<close>)
  then show "keeps disk D st st'" and "r = Some (h, lb) \<Longrightarrow> \<exists>lba. gpt_valid D st h lba lb" by blast+
qed

lemma protective_keeps:
  assumes "protective_from disk st is = Inr (b, st')" and "part_ok disk D st" and "\<forall>i \<in> set is. i < 4"
  shows "keeps disk D st st'"
  using assms
proof (induction "is" arbitrary: st)
  case (Cons i "is")
  from Cons.prems(1) obtain r st1 where rd: "dev_read disk st (0x1be + 16 * of_nat i + 4) 1 = Inr (r, st1)"
    and rest: "(case r of None \<Rightarrow> Inr (False, st1)
       | Some type \<Rightarrow> if type ! 0 = 0xee then Inr (True, st1) else protective_from disk st1 is) = Inr (b, st')"
    by (auto simp: bindo_Inr)
  have "i = 0 \<or> i = 1 \<or> i = 2 \<or> i = 3" using Cons.prems(3) by auto
  then have "unat (0x1be + 16 * of_nat i + 4 :: u64) + unat (1 :: u64) \<le> 2 ^ 64" by auto
  from read_keeps_part [OF rd Cons.prems(2) this] have k: "keeps disk D st st1" .
  then have "part_ok disk D st1" by (simp add: keeps_def)
  with Cons.IH [of st1] Cons.prems(3) rest k show ?case
    by (auto split: option.splits if_splits intro: keeps_trans)
qed (simp add: keeps_refl)

lemma try_guesses_ok:
  assumes "try_guesses disk st budget gs = Inr (r, st')" and "part_ok disk D st" and "\<forall>g \<in> set gs. lb_guess g"
  shows "keeps disk D st st' \<and> (\<forall>h lb. r = Some (h, lb) \<longrightarrow> (\<exists>lba. gpt_valid D st h lba lb))"
  using assms
proof (induction gs arbitrary: st budget)
  case Nil
  then show ?case by (auto simp: bindo_Inr intro: none_store_keeps)
next
  case (Cons g gs)
  from Cons.prems(1) obtain found b1 st1 where tg: "try_guess disk st g budget = Inr ((found, b1), st1)"
    and rest: "(case found of None \<Rightarrow> try_guesses disk st1 b1 gs
       | Some (h, lba) \<Rightarrow> Inr (Some (h, g), gpt_memo_store st1 h lba g)) = Inr (r, st')"
    by (auto simp: bindo_Inr)
  have "dev_ok disk D st" "sized (dev st)" "lb_guess g" using Cons.prems(2,3) by (simp_all add: part_ok_def)
  note t = try_guess_ok [OF tg this]
  have k: "keeps disk D st st1" using t by (intro keeps_frame [OF Cons.prems(2)]) simp_all
  note same = same_device(1) [of st1 st D]
  show ?case
  proof (cases found)
    case None
    with rest have "try_guesses disk st1 b1 gs = Inr (r, st')" by simp
    from Cons.IH [OF this] k Cons.prems(3) same show ?thesis
      by (auto simp: keeps_def)
  next
    case (Some hl)
    obtain h lba where hl: "hl = (h, lba)" by (cases hl)
    let ?st = "gpt_memo_store st1 h lba g"
    from rest Some hl have r: "r = Some (h, g)" "st' = ?st" by simp_all
    have v: "gpt_valid D st h lba g" using t Some hl by blast
    have "uncached (dev ?st) = uncached (dev st)" using k by (simp add: gpt_memo_store_def keeps_def)
    from same_device(1) [OF this, of D] same_device(2) [OF this] k v have "keeps disk D st ?st"
      by (simp add: keeps_def part_ok_def memo_ok_def gpt_memo_store_def dev_ok_def)
    with r v show ?thesis by auto
  qed
qed

lemma gpt_locate_header_ok:
  assumes ret: "gpt_locate_header disk st = Inr (r, st')" and ok: "part_ok disk D st"
  shows "keeps disk D st st' \<and> (\<forall>h lb. r = Some (h, lb) \<longrightarrow> (\<exists>lba. gpt_valid D st h lba lb))"
proof -
  from ret obtain hit st1 where mh: "gpt_memo_hit disk st = Inr (hit, st1)"
    and rest1: "(if hit \<noteq> None then Inr (hit, st1) else
      bindo (gpt_memo_none_hit disk st1) (\<lambda>none st2.
         if none then Inr (None, st2)
         else bindo (gpt_protective_mbr disk st2) (\<lambda>protective st3.
           if \<not> protective then Inr (None, st3)
           else try_guesses disk st3 (GPT_MAX_ARRAY_SIZE * 2) [512, 2048, 4096]))) = Inr (r, st')"
    unfolding gpt_locate_header_def by (rule bindo_InrE)
  note k1 = memo_hit_keeps [OF mh ok]
  show ?thesis
  proof (cases hit)
    case (Some x)
    with rest1 have "r = hit" "st' = st1" by simp_all
    with k1 show ?thesis by simp
  next
    case None
    from rest1 None obtain none st2 where nh: "gpt_memo_none_hit disk st1 = Inr (none, st2)"
      and rest2: "(if none then Inr (None, st2)
         else bindo (gpt_protective_mbr disk st2) (\<lambda>protective st3.
           if \<not> protective then Inr (None, st3)
           else try_guesses disk st3 (GPT_MAX_ARRAY_SIZE * 2) [512, 2048, 4096])) = Inr (r, st')"
      by (auto elim: bindo_InrE)
    have "part_ok disk D st1" using k1(1) by (simp add: keeps_def)
    from none_hit_keeps [OF nh this] k1(1) have k2: "keeps disk D st st2" by (blast intro: keeps_trans)
    show ?thesis
    proof (cases none)
      case True
      with rest2 k2 show ?thesis by simp
    next
      case False
      with rest2 obtain pr st3 where pm: "gpt_protective_mbr disk st2 = Inr (pr, st3)"
        and rest3: "(if \<not> pr then Inr (None, st3)
           else try_guesses disk st3 (GPT_MAX_ARRAY_SIZE * 2) [512, 2048, 4096]) = Inr (r, st')"
        by (auto elim: bindo_InrE)
      have "part_ok disk D st2" using k2 by (simp add: keeps_def)
      from protective_keeps [OF pm [unfolded gpt_protective_mbr_def] this] k2
      have k3: "keeps disk D st st3" by (auto intro: keeps_trans)
      show ?thesis
      proof (cases pr)
        case False
        with rest3 k3 show ?thesis by simp
      next
        case True
        with rest3 have "try_guesses disk st3 (GPT_MAX_ARRAY_SIZE * 2) [512, 2048, 4096] = Inr (r, st')" by simp
        from try_guesses_ok [OF this, of D] k3 same_device(1) [of st3 st D] show ?thesis
          by (auto simp: keeps_def lb_guess_def)
      qed
    qed
  qed
qed

section \<open>The CRC tells one changed byte\<close>

text \<open>Bit 31 of the polynomial is set, so a step can be undone and the register is never forgotten.\<close>

lemma crc_bit_msb: "bit (crc_bit c) 31 = bit c 0"
proof -
  have p: "bit (0xedb88320 :: u32) 31" by code_simp
  have "\<not> bit (drop_bit 1 c) 31" using impossible_bit [of 32 c] by (simp add: bit_drop_bit_eq)
  then show ?thesis using p by (simp add: crc_bit_def bit_xor_iff bit_0 and_one_eq odd_iff_mod_2_eq_one)
qed

lemma xor_cancel: "(x :: 'a :: len word) XOR k = y XOR k \<Longrightarrow> x = y"
  by (metis xor.assoc xor_self_eq xor.right_neutral)

lemma crc_bit_inj: "crc_bit a = crc_bit b \<Longrightarrow> a = b"
proof -
  assume eq: "crc_bit a = crc_bit b"
  then have z: "bit a 0 = bit b 0" using crc_bit_msb by metis
  then have "drop_bit 1 a = drop_bit 1 b"
    using eq by (auto simp: crc_bit_def bit_0 and_one_eq odd_iff_mod_2_eq_one dest: xor_cancel split: if_splits)
  then have "bit a (Suc n) = bit b (Suc n)" for n
    by (metis bit_drop_bit_eq comp_apply plus_1_eq_Suc)
  with z show "a = b" by (intro bit_eqI) (metis old.nat.exhaust)
qed

lemma crc_bits_inj: "(crc_bit ^^ n) a = (crc_bit ^^ n) b \<Longrightarrow> a = b"
  by (induction n) (auto dest: crc_bit_inj)

lemma crc_byte_inj: "crc_byte c x = crc_byte d x \<Longrightarrow> c = d" "crc_byte c x = crc_byte c y \<Longrightarrow> x = y"
proof -
  show "c = d" if "crc_byte c x = crc_byte d x"
    using crc_bits_inj [OF that [unfolded crc_byte_def]] by (rule xor_cancel)
  assume "crc_byte c x = crc_byte c y"
  then have "(ucast x :: u32) XOR c = ucast y XOR c"
    unfolding crc_byte_def by (metis crc_bits_inj xor.commute)
  then have "(ucast x :: u32) = ucast y" by (rule xor_cancel)
  then have "unat (ucast x :: u32) = unat (ucast y :: u32)" by simp
  then show "x = y" by (simp add: unat_ucast_up word_unat_eq_iff)
qed

lemma crc32_update_inj: "crc32_update c bs = crc32_update d bs \<Longrightarrow> c = d"
  by (induction bs arbitrary: c d) (auto simp: crc32_update_def dest: crc_byte_inj(1))

lemma crc32_detects:
  assumes "x \<noteq> y"
  shows "crc32 (pre @ x # post) \<noteq> crc32 (pre @ y # post)"
proof
  assume "crc32 (pre @ x # post) = crc32 (pre @ y # post)"
  then have "crc32_update (crc_byte (crc32_update 0xffffffff pre) x) post = crc32_update (crc_byte (crc32_update 0xffffffff pre) y) post"
    by (simp add: crc32_def crc32_update_def)
  from crc_byte_inj(2) [OF crc32_update_inj [OF this]] assms show False by simp
qed

section \<open>Partitions lie on their device\<close>

text \<open>A volume of its own: sane, with an empty cache, on sectors of the device.\<close>

definition partition_of :: "volume \<Rightarrow> volume \<Rightarrow> bool" where
  "partition_of v p \<longleftrightarrow> volume_sane p \<and> sector_size p = sector_size v \<and> fastest_xfer_size p = fastest_xfer_size v \<and>
     \<not> vpxe p \<and> vcache p = None \<and> \<not> cache_status p \<and> 0 < unat (sect_count p) \<and>
     unat (first_sect p) + unat (sect_count p) \<le> unat (sect_count v)"

lemma child_volume_fields [simp]:
  "drive (child_volume v k f c) = drive v" "fastest_xfer_size (child_volume v k f c) = fastest_xfer_size v"
  "sector_size (child_volume v k f c) = sector_size v" "vpxe (child_volume v k f c) = False"
  "vcache (child_volume v k f c) = None" "cache_status (child_volume v k f c) = False"
  "first_sect (child_volume v k f c) = f" "sect_count (child_volume v k f c) = c"
  "is_optical (child_volume v k f c) = is_optical v" "partition (child_volume v k f c) = k"
  by (simp_all add: child_volume_def)

lemma range_valid_unat:
  assumes "partition_range_valid v f c" and "sized v"
  shows "0 < unat c" and "unat f + unat c \<le> unat (sect_count v)" and "unat f + unat c < 2 ^ 64"
proof -
  have n1: "sect_count v \<noteq> -1" using assms(2) by (auto simp: sized_def unsigned_minus_1_eq_mask mask_eq_exp_minus_1)
  from assms(1) obtain e where e: "CHECKED_ADD f c = Some e" "c \<noteq> 0" "\<not> e > sect_count v"
    using n1 by (auto simp: partition_range_valid_def split: if_splits option.splits)
  show "0 < unat c" using e(2) by (simp add: unat_gt_0)
  show "unat f + unat c \<le> unat (sect_count v)" "unat f + unat c < 2 ^ 64"
    using CHECKED_ADD_unat [OF e(1)] e(3) unsigned_less [of e, where 'a = nat] by (simp_all add: word_less_nat_alt)
qed

lemma child_partition_of:
  assumes "partition_range_valid v f c" and "sized v" and "volume_sane v"
  shows "partition_of v (child_volume v k f c)"
  using range_valid_unat [OF assms(1,2)] assms(3)
  by (simp add: partition_of_def volume_sane_def)

lemma gpt_entry_range_Found:
  assumes "gpt_entry_range v lb entry = Found (f, c)" and "lb_guess lb"
  shows "partition_range_valid v f c" and "take 16 entry \<noteq> replicate 16 0"
    and "unat f * 512 = unat (le64_at entry 32) * nat lb"
    and "unat (le64_at entry 32) \<le> unat (le64_at entry 40)"
    and "unat c * 512 = (unat (le64_at entry 40) - unat (le64_at entry 32) + 1) * nat lb"
proof -
  from assms(2) obtain m where m: "nat lb = 512 * m" "unat (word_of_int (lb div 512) :: u64) = m"
    by (rule lb_guess_nat)
  let ?s = "le64_at entry 32" and ?e = "le64_at entry 40"
  from assms(1) have r: "partition_range_valid v f c" "take 16 entry \<noteq> replicate 16 0" "\<not> ?e < ?s"
    "CHECKED_MUL ?s (word_of_int (lb div 512)) = Some f" "?e - ?s \<noteq> -1"
    "CHECKED_MUL (?e - ?s + 1) (word_of_int (lb div 512)) = Some c"
    unfolding gpt_entry_range_def Let_def by (auto split: if_splits option.splits)
  show "partition_range_valid v f c" "take 16 entry \<noteq> replicate 16 0" by (fact r)+
  show "unat f * 512 = unat ?s * nat lb" using CHECKED_MUL_unat [OF r(4)] m by simp
  show le: "unat ?s \<le> unat ?e" using r(3) by (simp add: word_less_nat_alt)
  have "unat (?e - ?s + 1) = Suc (unat (?e - ?s))"
    using r(5) unatSuc [of "?e - ?s"] by (metis add.commute add_eq_0_iff)
  then have "unat (?e - ?s + 1) = unat ?e - unat ?s + 1" using le by (simp add: unat_sub word_le_nat_alt)
  then show "unat c * 512 = (unat ?e - unat ?s + 1) * nat lb" using CHECKED_MUL_unat [OF r(6)] m by simp
qed

text \<open>The entry of partition \<open>i\<close> in a verified table.\<close>

definition gpt_entry :: "(nat \<Rightarrow> u8) \<Rightarrow> part_state \<Rightarrow> u8 list \<Rightarrow> int \<Rightarrow> nat \<Rightarrow> u8 list" where
  "gpt_entry D st h lb i =
     dev_bytes D st (unat (gh_partition_entry_lba h) * nat lb + i * unat (gh_entry_size h)) 128"

lemma gpt_get_part_ok:
  assumes ret: "gpt_get_part disk st i = Inr (r, st')" and ok: "part_ok disk D st" and i: "0 \<le> i" "i < 2 ^ 31"
  shows "keeps disk D st st' \<and> (\<forall>p. r = Found p \<longrightarrow> partition_of (dev st) p \<and> partition p = i + 1 \<and> (\<exists>h lba lb. gpt_valid D st h lba lb \<and>
     nat i < unat (gh_number_of_entries h) \<and> take 16 (gpt_entry D st h lb (nat i)) \<noteq> replicate 16 0 \<and>
     unat (first_sect p) * 512 = unat (le64_at (gpt_entry D st h lb (nat i)) 32) * nat lb \<and>
     unat (sect_count p) * 512 = (unat (le64_at (gpt_entry D st h lb (nat i)) 40) -
       unat (le64_at (gpt_entry D st h lb (nat i)) 32) + 1) * nat lb))"
proof -
  from ret obtain loc st1 where lh: "gpt_locate_header disk st = Inr (loc, st1)"
    by (auto simp: gpt_get_part_def bindo_Inr)
  note l = gpt_locate_header_ok [OF lh ok]
  have k1: "keeps disk D st st1" using l by simp
  then have ok1: "part_ok disk D st1" and u1: "uncached (dev st1) = uncached (dev st)" by (simp_all add: keeps_def)
  show ?thesis
  proof (cases loc)
    case None
    with ret lh have "r = INVALID_TABLE" "st' = st1" by (simp_all add: gpt_get_part_def)
    with k1 show ?thesis by simp
  next
    case (Some hl)
    obtain h lb where hl: "hl = (h, lb)" by (cases hl)
    from l Some hl obtain lba where v: "gpt_valid D st h lba lb" by blast
    then have lb: "lb_guess lb" and arr: "array_valid D st h lba lb" unfolding gpt_valid_def by blast+
    let ?n = "gh_number_of_entries h" and ?es = "gh_entry_size h" and ?a = "gh_partition_entry_lba h"
    let ?mk = "\<lambda>entry f c. (child_volume (dev st') (i + 1) f c)\<lparr>part_guid_valid := True,
      part_guid := take 16 (drop 16 entry), part_type_guid_valid := True, part_type_guid := take 16 entry\<rparr>"
    consider (early) "st' = st1" "\<forall>p. r \<noteq> Found p"
      | (entry) ao eo e where "\<not> (word_of_int i :: u32) \<ge> (if ?n > 256 then 256 else ?n)"
          "CHECKED_MUL ?a (word_of_int lb) = Some ao" "CHECKED_ADD ao (word_of_int i * ucast ?es) = Some eo"
          "dev_read disk st1 eo 128 = Inr (e, st')"
          "r = (case e of None \<Rightarrow> END_OF_TABLE | Some entry \<Rightarrow> gpt_entry_volume (dev st') lb i entry)"
    proof (cases "gpt_entry_offset h lb i")
      case (Found eo)
      with ret lh Some hl obtain e where "dev_read disk st1 eo 128 = Inr (e, st')"
        "r = (case e of None \<Rightarrow> END_OF_TABLE | Some entry \<Rightarrow> gpt_entry_volume (dev st') lb i entry)"
        by (auto simp: gpt_get_part_def bindo_Inr)
      moreover from Found obtain ao where "\<not> (word_of_int i :: u32) \<ge> (if ?n > 256 then 256 else ?n)"
          "CHECKED_MUL ?a (word_of_int lb) = Some ao" "CHECKED_ADD ao (word_of_int i * ucast ?es) = Some eo"
        unfolding gpt_entry_offset_def Let_def by (auto split: if_split_asm option.splits)
      ultimately show thesis by (intro entry)
    qed (use ret lh Some hl in \<open>auto simp: gpt_get_part_def intro: early\<close>)
    then show ?thesis
    proof cases
      case early
      with k1 show ?thesis by simp
    next
      case entry
      have ui: "unat (word_of_int i :: u32) = nat i" "unat (word_of_int i :: u64) = nat i"
        using i uint_word_of_int_id [of i, where 'a = 32] uint_word_of_int_id [of i, where 'a = 64]
        by (simp_all flip: nat_uint_eq)
      have "nat i < unat ?n"
        using entry(1) by (auto simp: word_le_nat_alt word_less_nat_alt ui not_le split: if_splits)
      have ues: "unat (ucast ?es :: u64) = unat ?es" by (simp add: unat_ucast_up)
      have es: "128 \<le> unat ?es" and inside: "unat ?a * nat lb + unat ?n * unat ?es \<le> unat (sect_count (dev st)) * 512"
        using arr by (simp_all add: array_valid_def Let_def)
      have sz: "unat (sect_count (dev st)) * 512 < 2 ^ 64" using ok by (simp add: part_ok_def sized_def)
      have "(nat i + 1) * unat ?es \<le> unat ?n * unat ?es" using \<open>nat i < unat ?n\<close> by (intro mult_le_mono1) simp
      then have fit: "unat ?a * nat lb + nat i * unat ?es + 128 \<le> unat (sect_count (dev st)) * 512"
        using inside es by (simp add: distrib_right)
      then have "nat i * unat ?es < 2 ^ 64" using sz by linarith
      then have "unat (word_of_int i * ucast ?es :: u64) = nat i * unat ?es"
        by (simp add: unat_word_ariths ui ues)
      then have eo: "unat eo = unat ?a * nat lb + nat i * unat ?es"
        using CHECKED_ADD_unat [OF entry(3)] block_fits(1) [OF lb entry(2)] by simp
      have le: "unat eo + unat (128 :: u64) \<le> 2 ^ 64" using fit sz eo by simp
      have "dev_ok disk D st1" using ok1 by (simp add: part_ok_def)
      note rb = read_block [OF entry(4) this le]
      have k2: "keeps disk D st st'" using read_keeps_part [OF entry(4) ok1 le] k1 by (blast intro: keeps_trans)
      have same: "dev_bytes D st1 = dev_bytes D st" using same_device(3) [OF u1] .
      have fields: "uncached (dev st') = uncached (dev st)" and ok': "part_ok disk D st'" using k2 by (simp_all add: keeps_def)
      note uf = uncached_fields [OF fields]
      have "partition_of (dev st) p \<and> partition p = i + 1 \<and> (\<exists>h lba lb. gpt_valid D st h lba lb \<and>
          nat i < unat (gh_number_of_entries h) \<and> take 16 (gpt_entry D st h lb (nat i)) \<noteq> replicate 16 0 \<and>
          unat (first_sect p) * 512 = unat (le64_at (gpt_entry D st h lb (nat i)) 32) * nat lb \<and>
          unat (sect_count p) * 512 = (unat (le64_at (gpt_entry D st h lb (nat i)) 40) -
            unat (le64_at (gpt_entry D st h lb (nat i)) 32) + 1) * nat lb)" if "r = Found p" for p
      proof -
        from entry(5) that obtain ent f c where e: "e = Some ent" and er: "gpt_entry_range (dev st') lb ent = Found (f, c)"
          and p: "p = ?mk ent f c" by (auto simp: gpt_entry_volume_def split: option.splits lookup.splits)
        have ent: "ent = gpt_entry D st h lb (nat i)" using rb(3) [OF e] same eo by (simp add: gpt_entry_def)
        note g = gpt_entry_range_Found [OF er lb]
        have "partition_of (dev st') (child_volume (dev st') (i + 1) f c)"
          using ok' by (intro child_partition_of [OF g(1)]) (simp_all add: part_ok_def dev_ok_def)
        then have "partition_of (dev st) p" using uf by (simp add: p partition_of_def volume_sane_def)
        moreover have "first_sect p = f" "sect_count p = c" "partition p = i + 1" by (simp_all add: p)
        ultimately show ?thesis using v \<open>nat i < unat ?n\<close> g unfolding ent by metis
      qed
      with k2 show ?thesis by blast
    qed
  qed
qed

end
