(* ===== verification/Mbr.thy ===== *)
theory Mbr
  imports Gpt_Correct
begin

text \<open>
  Master boot records, \<^verbatim>\<open>src/common/lib/part.s2.c\<close>: primary entries, the chain of extended boot
  records with its resume point, and \<open>part_get\<close>, which tries the GUID table first. The
  extended partition is a volume of its own, kept in \<open>ebr_part\<close>; file-system probing of the
  partition found is not modelled.
\<close>

record mbr_part =
  mp_type :: u8
  mp_first :: u64
  mp_count :: u64

definition mbr_read_entry ::
  "('s \<Rightarrow> u64 \<Rightarrow> u64 \<Rightarrow> (u8 list option \<times> 's) outcome) \<Rightarrow> volume \<Rightarrow> 's \<Rightarrow> u64 \<Rightarrow> (mbr_part option \<times> 's) outcome" where
  "mbr_read_entry read v s offset =
     bindo (read s offset 16) (\<lambda>r s1.
       Inr (map_option (\<lambda>e.
         (let mult = (if is_optical v then 1 else word_of_int (sector_size v) div 512)
          in \<lparr>mp_type = e ! 4, mp_first = ucast (le32_at e 8) * mult, mp_count = ucast (le32_at e 12) * mult\<rparr>)) r, s1))"

section \<open>Is there a boot record?\<close>

fun all_checks ::
  "('s \<Rightarrow> u64 \<Rightarrow> u64 \<Rightarrow> (u8 list option \<times> 's) outcome) \<Rightarrow> 's \<Rightarrow> (u64 \<times> u64 \<times> (u8 list \<Rightarrow> bool)) list \<Rightarrow> (bool \<times> 's) outcome" where
  "all_checks read s [] = Inr (True, s)"
| "all_checks read s ((loc, n, p) # cs) =
     bindo (read s loc n) (\<lambda>r s1.
       case r of
         None \<Rightarrow> Inr (False, s1)
       | Some b \<Rightarrow> if p b then all_checks read s1 cs else Inr (False, s1))"

definition boot_flag :: "u8 list \<Rightarrow> bool" where
  "boot_flag b \<longleftrightarrow> b ! 0 = 0x00 \<or> b ! 0 = 0x80"

text \<open>The reads of \<open>is_valid_mbr\<close> in order, each with the test that must hold.\<close>

definition mbr_checks :: "(u64 \<times> u64 \<times> (u8 list \<Rightarrow> bool)) list" where
  "mbr_checks =
     [(510, 2, \<lambda>b. le16_at b 0 = 0xaa55),
      (446, 1, boot_flag), (462, 1, boot_flag), (478, 1, boot_flag), (494, 1, boot_flag),
      (3, 4, \<lambda>b. b \<noteq> [0x4e, 0x54, 0x46, 0x53]),
      (54, 3, \<lambda>b. b \<noteq> [0x46, 0x41, 0x54]),
      (82, 3, \<lambda>b. b \<noteq> [0x46, 0x41, 0x54]),
      (3, 5, \<lambda>b. b \<noteq> [0x46, 0x41, 0x54, 0x33, 0x32]),
      (1080, 2, \<lambda>b. le16_at b 0 \<noteq> 0xef53)]"

definition is_valid_mbr :: "disk \<Rightarrow> part_state \<Rightarrow> (bool \<times> part_state) outcome" where
  "is_valid_mbr disk st = all_checks (dev_read disk) st mbr_checks"

definition mbr_get_id :: "disk \<Rightarrow> part_state \<Rightarrow> (u32 \<times> part_state) outcome" where
  "mbr_get_id disk st =
     bindo (is_valid_mbr disk st) (\<lambda>ok st1.
       if \<not> ok then Inr (0, st1)
       else bindo (dev_read disk st1 0x1b8 4) (\<lambda>r st2.
         Inr (case r of None \<Rightarrow> 0 | Some b \<Rightarrow> le32_at b 0, st2)))"

section \<open>Logical partitions\<close>

definition extended_type :: "u8 \<Rightarrow> bool" where
  "extended_type t \<longleftrightarrow> t = 0x0f \<or> t = 0x05 \<or> t = 0x85"

text \<open>The absolute first sector of a logical entry that lies in the extended partition and on the device.\<close>

definition mbr_logical_entry_contained :: "volume \<Rightarrow> volume \<Rightarrow> u64 \<Rightarrow> mbr_part \<Rightarrow> u64 option" where
  "mbr_logical_entry_contained extended backing ebr_sector entry =
     (case CHECKED_ADD ebr_sector (mp_first entry) of
        None \<Rightarrow> None
      | Some rel_first \<Rightarrow>
          if \<not> partition_range_valid extended rel_first (mp_count entry) then None
          else case CHECKED_ADD (first_sect extended) rel_first of
            None \<Rightarrow> None
          | Some first \<Rightarrow> if partition_range_valid backing first (mp_count entry) then Some first else None)"

definition ebr_read :: "disk \<Rightarrow> part_state \<Rightarrow> u64 \<Rightarrow> u64 \<Rightarrow> (u8 list option \<times> part_state) outcome" where
  "ebr_read disk st loc cnt =
     (case ebr_part st of
        None \<Rightarrow> Inr (None, st)
      | Some v \<Rightarrow>
          (case volume_read disk (pstate st) v loc cnt of
             Inl e \<Rightarrow> Inl e
           | Inr (r, s', v') \<Rightarrow> Inr (r, st\<lparr>pstate := s', ebr_part := Some v'\<rparr>)))"

text \<open>
  The loop over the four slots of one record: a result that ends the lookup, or the number
  of logical partitions counted so far and the link to the next record.
\<close>

fun logical_slots ::
  "disk \<Rightarrow> volume \<Rightarrow> part_state \<Rightarrow> u64 \<Rightarrow> u64 \<Rightarrow> int \<Rightarrow> int \<Rightarrow> (u64 \<times> u64) option \<Rightarrow> nat list
     \<Rightarrow> (((u64 \<times> u64) lookup + (int \<times> (u64 \<times> u64) option)) \<times> part_state) outcome" where
  "logical_slots disk ext st ebr_sector ebr_size number accepted link [] = Inr (Inr (accepted, link), st)"
| "logical_slots disk ext st ebr_sector ebr_size number accepted link (i # is) =
     bindo (mbr_read_entry (ebr_read disk) ext st (ebr_sector * 512 + 0x1be + 16 * of_nat i)) (\<lambda>r st1.
       case r of
         None \<Rightarrow> Inr (Inl END_OF_TABLE, st1)
       | Some entry \<Rightarrow>
           if extended_type (mp_type entry) then
             logical_slots disk ext st1 ebr_sector ebr_size number accepted
               (if link = None \<and> mp_count entry \<noteq> 0 then Some (mp_first entry, mp_count entry) else link) is
           else if mp_count entry = 0 then
             logical_slots disk ext st1 ebr_sector ebr_size number accepted link is
           else (let contained = mbr_logical_entry_contained ext (dev st1) ebr_sector entry;
                     within_link = (mp_first entry + mp_count entry \<le> ebr_size)
                 in if i \<ge> 2 \<and> (contained = None \<or> \<not> within_link)
                    then logical_slots disk ext st1 ebr_sector ebr_size number accepted link is
                    else if accepted = number then
                      Inr (Inl (case contained of None \<Rightarrow> NO_PARTITION | Some first \<Rightarrow> Found (first, mp_count entry)), st1)
                    else logical_slots disk ext st1 ebr_sector ebr_size number (accepted + 1) link is))"

definition walk_memo :: "part_state \<Rightarrow> int \<Rightarrow> u64 \<Rightarrow> u64 \<Rightarrow> part_state" where
  "walk_memo st accepted ebr_sector ebr_size =
     st\<lparr>ebr_part := map_option (\<lambda>v. v\<lparr>ebr_walk_index := accepted, ebr_walk_sector := ebr_sector,
                                     ebr_walk_size := ebr_size\<rparr>) (ebr_part st)\<rparr>"

text \<open>The chain, for at most the given number of links.\<close>

fun logical_walk ::
  "disk \<Rightarrow> nat \<Rightarrow> volume \<Rightarrow> part_state \<Rightarrow> u64 \<Rightarrow> u64 \<Rightarrow> int \<Rightarrow> int \<Rightarrow> ((u64 \<times> u64) lookup \<times> part_state) outcome" where
  "logical_walk disk 0 ext st ebr_sector ebr_size number accepted = Inr (END_OF_TABLE, st)"
| "logical_walk disk (Suc n) ext st ebr_sector ebr_size number accepted =
     bindo (ebr_read disk (walk_memo st accepted ebr_sector ebr_size) (ebr_sector * 512 + 510) 2) (\<lambda>r st1.
       if map_option (\<lambda>b. le16_at b 0) r \<noteq> Some 0xaa55 then Inr (END_OF_TABLE, st1)
       else bindo (logical_slots disk ext st1 ebr_sector ebr_size number accepted None [0, 1, 2, 3]) (\<lambda>res st2.
         case res of
           Inl x \<Rightarrow> Inr (x, st2)
         | Inr (accepted', None) \<Rightarrow> Inr (END_OF_TABLE, st2)
         | Inr (accepted', Some (link_first, link_count)) \<Rightarrow>
             if link_first = 0 \<or> link_first \<le> ebr_sector then Inr (END_OF_TABLE, st2)
             else if link_first \<ge> sect_count ext then Inr (END_OF_TABLE, st2)
             else logical_walk disk n ext st2 link_first link_count number accepted'))"

definition mbr_get_logical_part :: "disk \<Rightarrow> part_state \<Rightarrow> volume \<Rightarrow> int \<Rightarrow> (volume lookup \<times> part_state) outcome" where
  "mbr_get_logical_part disk st ext number =
     (if number \<ge> 256 then Inr (END_OF_TABLE, st)
      else (let (accepted, ebr_sector, ebr_size) =
                  (if ebr_walk_index ext \<le> number then (ebr_walk_index ext, ebr_walk_sector ext, ebr_walk_size ext)
                   else (0, 0, sect_count ext))
            in bindo (logical_walk disk 256 ext st ebr_sector ebr_size number accepted) (\<lambda>r st1.
                 Inr (case r of
                        Found (first, cnt) \<Rightarrow> Found (child_volume ext (number + 4 + 1) first cnt)
                      | NO_PARTITION \<Rightarrow> NO_PARTITION
                      | INVALID_TABLE \<Rightarrow> INVALID_TABLE
                      | END_OF_TABLE \<Rightarrow> END_OF_TABLE, st1))))"

section \<open>Primary partitions\<close>

text \<open>Any size of \<open>struct volume\<close> up to a page is rounded to one page by the allocator.\<close>

abbreviation SIZEOF_VOLUME :: u64 where "SIZEOF_VOLUME \<equiv> 256"

fun find_extended :: "disk \<Rightarrow> part_state \<Rightarrow> nat list \<Rightarrow> (volume option \<times> part_state) outcome" where
  "find_extended disk st [] = Inr (None, st)"
| "find_extended disk st (i # is) =
     bindo (mbr_read_entry (dev_read disk) (dev st) st (0x1be + 16 * of_nat i)) (\<lambda>r st1.
       case r of
         None \<Rightarrow> find_extended disk st1 is
       | Some entry \<Rightarrow>
           if \<not> extended_type (mp_type entry) then find_extended disk st1 is
           else if mp_count entry = 0 then find_extended disk st1 is
           else if \<not> partition_range_valid (dev st1) (mp_first entry) (mp_count entry) then find_extended disk st1 is
           else (case ext_mem_alloc (pstate st1) SIZEOF_VOLUME of
                   Inl e \<Rightarrow> Inl e
                 | Inr (_, s') \<Rightarrow>
                     (let ext = (child_volume (dev st1) (int i + 1) (mp_first entry) (mp_count entry))
                            \<lparr>ebr_walk_size := mp_count entry\<rparr>
                      in Inr (Some ext, st1\<lparr>pstate := s', ebr_part := Some ext\<rparr>))))"

definition mbr_get_part :: "disk \<Rightarrow> part_state \<Rightarrow> int \<Rightarrow> (volume lookup \<times> part_state) outcome" where
  "mbr_get_part disk st number =
     bindo (is_valid_mbr disk st) (\<lambda>ok st1.
       if \<not> ok then Inr (INVALID_TABLE, st1)
       else if number > 3 then
         (case ebr_part st1 of
            Some ext \<Rightarrow> mbr_get_logical_part disk st1 ext (number - 4)
          | None \<Rightarrow>
              bindo (find_extended disk st1 [0, 1, 2, 3]) (\<lambda>e st2.
                case e of
                  None \<Rightarrow> Inr (END_OF_TABLE, st2)
                | Some ext \<Rightarrow> mbr_get_logical_part disk st2 ext (number - 4)))
       else bindo (mbr_read_entry (dev_read disk) (dev st1) st1 (0x1be + 16 * word_of_int number)) (\<lambda>r st2.
         Inr (case r of
                None \<Rightarrow> END_OF_TABLE
              | Some entry \<Rightarrow>
                  if mp_type entry = 0 then NO_PARTITION
                  else if mp_count entry = 0 then NO_PARTITION
                  else if \<not> partition_range_valid (dev st2) (mp_first entry) (mp_count entry) then NO_PARTITION
                  else Found (child_volume (dev st2) (number + 1) (mp_first entry) (mp_count entry)), st2)))"

definition part_get :: "disk \<Rightarrow> part_state \<Rightarrow> int \<Rightarrow> (volume lookup \<times> part_state) outcome" where
  "part_get disk st number =
     (if number < 0 then Inr (NO_PARTITION, st)
      else bindo (gpt_get_part disk st number) (\<lambda>r st1.
        if r \<noteq> INVALID_TABLE then Inr (r, st1) else mbr_get_part disk st1 number))"

end
