(* ===== verification/Mbr_Correct.thy ===== *)
theory Mbr_Correct
  imports Mbr
begin

text \<open>
  Every partition the lookup reports lies on its device, whichever table describes it, and
  the lookup keeps the caches of the device and of the extended partition true to the medium.
\<close>

section \<open>The extended partition\<close>

definition ebr_volume_ok :: "(nat \<Rightarrow> u8) \<Rightarrow> volume \<Rightarrow> volume \<Rightarrow> bool" where
  "ebr_volume_ok D v e \<longleftrightarrow> cache_ok D e \<and> volume_sane e \<and> sect_count e \<noteq> -1 \<and>
     sector_size e = sector_size v \<and> fastest_xfer_size e = fastest_xfer_size v"

definition ebr_ok :: "(nat \<Rightarrow> u8) \<Rightarrow> part_state \<Rightarrow> bool" where
  "ebr_ok D st \<longleftrightarrow> (\<forall>e. ebr_part st = Some e \<longrightarrow> ebr_volume_ok D (dev st) e)"

definition lookup_ok :: "disk \<Rightarrow> (nat \<Rightarrow> u8) \<Rightarrow> part_state \<Rightarrow> bool" where
  "lookup_ok disk D st \<longleftrightarrow> part_ok disk D st \<and> ebr_ok D st"

definition retains :: "disk \<Rightarrow> (nat \<Rightarrow> u8) \<Rightarrow> part_state \<Rightarrow> part_state \<Rightarrow> bool" where
  "retains disk D st st' \<longleftrightarrow> lookup_ok disk D st' \<and> uncached (dev st') = uncached (dev st)"

lemma retains_refl: "lookup_ok disk D st \<Longrightarrow> retains disk D st st"
  by (simp add: retains_def)

lemma retains_trans: "retains disk D st st' \<Longrightarrow> retains disk D st' st'' \<Longrightarrow> retains disk D st st''"
  by (simp add: retains_def)

lemma retains_ok: "retains disk D st st' \<Longrightarrow> lookup_ok disk D st'"
  by (simp add: retains_def)

lemma keeps_retains:
  assumes "keeps disk D st st'" and "lookup_ok disk D st"
  shows "retains disk D st st'"
proof -
  from assms(1) have "uncached (dev st') = uncached (dev st)" by (simp add: keeps_def)
  from uncached_fields(3,4) [OF this] assms show ?thesis
    by (simp add: keeps_def retains_def lookup_ok_def ebr_ok_def ebr_volume_ok_def)
qed

lemma dev_read_retains:
  assumes "dev_read disk st loc n = Inr (r, st')" and "lookup_ok disk D st" and "unat loc + unat n \<le> 2 ^ 64"
  shows "retains disk D st st'"
  using read_keeps_part [OF assms(1) _ assms(3)] assms(2) by (intro keeps_retains) (simp_all add: lookup_ok_def)

text \<open>The allocator and the extended partition's own fields are not part of what a device promises.\<close>

lemma set_ebr_retains:
  assumes "lookup_ok disk D st" and "\<And>e. eb = Some e \<Longrightarrow> ebr_volume_ok D (dev st) e"
  shows "retains disk D st (st\<lparr>pstate := s, ebr_part := eb\<rparr>)"
proof -
  let ?st = "st\<lparr>pstate := s, ebr_part := eb\<rparr>"
  have "gpt_valid D ?st = gpt_valid D st" by (intro same_device(1)) simp
  with assms show ?thesis
    by (simp add: retains_def lookup_ok_def part_ok_def dev_ok_def memo_ok_def ebr_ok_def)
qed

lemma ebr_read_retains:
  assumes ret: "ebr_read disk st loc n = Inr (r, st')" and ok: "lookup_ok disk D st"
  shows "retains disk D st st'"
proof (cases "ebr_part st")
  case None
  with ret ok show ?thesis by (simp add: ebr_read_def retains_refl)
next
  case (Some e)
  with ret obtain p v where rd: "volume_read disk (pstate st) e loc n = Inr (r, p, v)"
    and st': "st' = st\<lparr>pstate := p, ebr_part := Some v\<rparr>"
    by (auto simp: ebr_read_def split: sum.splits)
  from ok Some have e: "ebr_volume_ok D (dev st) e" and d: "disk_serves disk D"
    by (simp_all add: lookup_ok_def ebr_ok_def part_ok_def dev_ok_def)
  then have c: "cache_ok D e" "volume_sane e" "sect_count e = -1 \<Longrightarrow> unat loc + unat n \<le> 2 ^ 64"
    by (simp_all add: ebr_volume_ok_def)
  note k = volume_read_ok [OF rd d c]
  have "ebr_volume_ok D (dev st) v"
    using e k(1) uncached_sane [OF k(2)] uncached_fields [OF k(2)] by (simp add: ebr_volume_ok_def)
  then show ?thesis unfolding st' by (intro set_ebr_retains [OF ok]) simp
qed

lemma walk_fields_ok:
  assumes "ebr_volume_ok D v e"
  shows "ebr_volume_ok D v (e\<lparr>ebr_walk_index := a, ebr_walk_sector := b, ebr_walk_size := c\<rparr>)"
proof -
  have "cache_window (e\<lparr>ebr_walk_index := a, ebr_walk_sector := b, ebr_walk_size := c\<rparr>) = cache_window e"
    by (simp add: cache_window_def fun_eq_iff Let_def cong: option.case_cong if_cong)
  then have "cache_ok D (e\<lparr>ebr_walk_index := a, ebr_walk_sector := b, ebr_walk_size := c\<rparr>) = cache_ok D e"
    by (simp add: cache_ok_def)
  with assms show ?thesis by (auto simp: ebr_volume_ok_def volume_sane_def)
qed

lemma walk_memo_retains:
  assumes "lookup_ok disk D st"
  shows "retains disk D st (walk_memo st a b c)"
proof -
  let ?eb = "map_option (\<lambda>v. v\<lparr>ebr_walk_index := a, ebr_walk_sector := b, ebr_walk_size := c\<rparr>) (ebr_part st)"
  have "retains disk D st (st\<lparr>pstate := pstate st, ebr_part := ?eb\<rparr>)"
    using assms by (intro set_ebr_retains) (auto simp: lookup_ok_def ebr_ok_def intro: walk_fields_ok)
  then show ?thesis by (simp add: walk_memo_def)
qed

text \<open>An entry read through any reader keeps what that reader keeps.\<close>

lemma entry_read:
  assumes "mbr_read_entry read v s off = Inr (r, s')"
  obtains b where "read s off 16 = Inr (b, s')"
    "r = map_option (\<lambda>e. let mult = (if is_optical v then 1 else word_of_int (sector_size v) div 512)
       in \<lparr>mp_type = e ! 4, mp_first = ucast (le32_at e 8) * mult, mp_count = ucast (le32_at e 12) * mult\<rparr>) b"
  using assms by (auto simp: mbr_read_entry_def bindo_Inr)

section \<open>The walk over logical partitions\<close>

lemma contained_valid:
  "mbr_logical_entry_contained ext v b entry = Some f \<Longrightarrow> partition_range_valid v f (mp_count entry)"
  by (auto simp: mbr_logical_entry_contained_def split: option.splits if_splits)

lemma range_valid_same:
  "sect_count v = sect_count v' \<Longrightarrow> partition_range_valid v f c = partition_range_valid v' f c"
  by (simp add: partition_range_valid_def cong: option.case_cong)

lemma logical_slots_ok:
  assumes "logical_slots disk ext st b bs number acc link is = Inr (r, st')" and "lookup_ok disk D st"
  shows "retains disk D st st' \<and> (\<forall>f c. r = Inl (Found (f, c)) \<longrightarrow> partition_range_valid (dev st) f c)"
  using assms
proof (induction "is" arbitrary: st acc link)
  case (Cons i "is")
  from Cons.prems(1) obtain e st1 where
    e: "mbr_read_entry (ebr_read disk) ext st (b * 512 + 0x1be + 16 * of_nat i) = Inr (e, st1)"
    by (auto simp: bindo_Inr)
  then have k: "retains disk D st st1" using Cons.prems(2) by (auto elim!: entry_read intro: ebr_read_retains)
  then have same: "partition_range_valid (dev st1) f c = partition_range_valid (dev st) f c" for f c
    by (intro range_valid_same uncached_fields(2)) (simp add: retains_def)
  consider (rest) acc' link' where "logical_slots disk ext st1 b bs number acc' link' is = Inr (r, st')"
    | (stop) "st' = st1" "\<And>f c. r \<noteq> Inl (Found (f, c))"
    | (found) f entry where "st' = st1" "r = Inl (Found (f, mp_count entry))"
        "mbr_logical_entry_contained ext (dev st1) b entry = Some f"
    using Cons.prems(1) e by (auto simp: Let_def split: if_split_asm option.split_asm)
  then show ?case
  proof cases
    case rest
    from Cons.IH [OF this retains_ok [OF k]] k same show ?thesis by (blast intro: retains_trans)
  next
    case found
    with k contained_valid [OF found(3)] same show ?thesis by simp
  qed (use k in simp)
qed (auto simp: retains_refl)

lemma logical_walk_ok:
  assumes "logical_walk disk n ext st b bs number acc = Inr (r, st')" and "lookup_ok disk D st"
  shows "retains disk D st st' \<and> (\<forall>f c. r = Found (f, c) \<longrightarrow> partition_range_valid (dev st) f c)"
  using assms
proof (induction n arbitrary: st b bs acc)
  case (Suc n)
  from Suc.prems(1) obtain sig st1 where
    rd: "ebr_read disk (walk_memo st acc b bs) (b * 512 + 510) 2 = Inr (sig, st1)"
    by (auto simp: bindo_Inr)
  have k: "retains disk D st st1"
    using walk_memo_retains [OF Suc.prems(2)] ebr_read_retains [OF rd retains_ok]
    by (blast intro: retains_trans)
  show ?case
  proof (cases "map_option (\<lambda>b. le16_at b 0) sig = Some 0xaa55")
    case False
    with Suc.prems(1) rd k show ?thesis by simp
  next
    case True
    with Suc.prems(1) rd obtain res st2 where
      sl: "logical_slots disk ext st1 b bs number acc None [0, 1, 2, 3] = Inr (res, st2)"
      and rest: "(case res of Inl x \<Rightarrow> Inr (x, st2) | Inr (acc', None) \<Rightarrow> Inr (END_OF_TABLE, st2)
         | Inr (acc', Some (lf, lc)) \<Rightarrow> if lf = 0 \<or> lf \<le> b then Inr (END_OF_TABLE, st2)
             else if lf \<ge> sect_count ext then Inr (END_OF_TABLE, st2)
             else logical_walk disk n ext st2 lf lc number acc') = Inr (r, st')"
      by (auto simp del: logical_slots.simps elim!: bindo_InrE)
    note s = logical_slots_ok [OF sl retains_ok [OF k]]
    then have k2: "retains disk D st st2" using k by (blast intro: retains_trans)
    have same: "partition_range_valid (dev x) f c = partition_range_valid (dev st) f c"
      if "retains disk D st x" for x f c
      using that by (intro range_valid_same uncached_fields(2)) (simp add: retains_def)
    consider (stop) "st' = st2" "res = Inl r" | (ends) "st' = st2" "r = END_OF_TABLE"
      | (next_link) lf lc acc' where "logical_walk disk n ext st2 lf lc number acc' = Inr (r, st')"
    proof (cases res)
      case (Inr al)
      show thesis
      proof (cases "snd al")
        case None
        with rest Inr show thesis by (cases al) (auto intro: ends)
      next
        case (Some l)
        with rest Inr show thesis by (cases al; cases l) (auto split: if_split_asm intro: ends next_link)
      qed
    qed (use rest stop in simp)
    then show ?thesis
    proof cases
      case next_link
      from Suc.IH [OF this retains_ok [OF k2]] k2 same [OF k2] show ?thesis by (blast intro: retains_trans)
    qed (use s k2 same [OF k] in auto)
  qed
qed (simp add: retains_refl)

section \<open>The lookup\<close>

lemma device_facts:
  assumes "lookup_ok disk D st"
  shows "sized (dev st)" and "volume_sane (dev st)" and "sect_count (dev st) \<noteq> -1"
  using assms by (auto simp: lookup_ok_def part_ok_def dev_ok_def sized_def unsigned_minus_1_eq_mask mask_eq_exp_minus_1)

text \<open>The volume of a valid range, inheriting from any volume of the same geometry.\<close>

lemma range_partition:
  assumes "partition_range_valid v f c" and "sized v" and "volume_sane v"
    and "sector_size e = sector_size v" and "fastest_xfer_size e = fastest_xfer_size v"
  shows "partition_of v (child_volume e k f c)"
  using child_partition_of [OF assms(1-3), of k] assms(4,5) by (simp add: partition_of_def volume_sane_def)

lemma partition_of_same:
  assumes "uncached v = uncached v'"
  shows "partition_of v p = partition_of v' p"
  using uncached_fields [OF assms] by (simp add: partition_of_def)

lemma logical_part_ok:
  assumes ret: "mbr_get_logical_part disk st ext number = Inr (r, st')" and ok: "lookup_ok disk D st"
    and e: "ebr_volume_ok D (dev st) ext"
  shows "retains disk D st st' \<and> (\<forall>p. r = Found p \<longrightarrow> partition_of (dev st) p \<and> partition p = number + 5)"
proof (cases "number \<ge> 256")
  case True
  with ret ok show ?thesis by (auto simp: mbr_get_logical_part_def intro: retains_refl)
next
  case False
  with ret obtain b bs acc res where w: "logical_walk disk 256 ext st b bs number acc = Inr (res, st')"
    and r: "r = (case res of Found (first, cnt) \<Rightarrow> Found (child_volume ext (number + 4 + 1) first cnt)
      | NO_PARTITION \<Rightarrow> NO_PARTITION | INVALID_TABLE \<Rightarrow> INVALID_TABLE | END_OF_TABLE \<Rightarrow> END_OF_TABLE)"
    by (auto simp: mbr_get_logical_part_def bindo_Inr split: prod.splits)
  note k = logical_walk_ok [OF w ok]
  have "partition_of (dev st) p \<and> partition p = number + 5" if p: "r = Found p" for p
  proof -
    from p r obtain f c where res: "res = Found (f, c)" and pv: "p = child_volume ext (number + 4 + 1) f c"
      by (auto split: lookup.splits prod.splits)
    have "partition_range_valid (dev st) f c" using k res by blast
    then show ?thesis unfolding pv using device_facts [OF ok] e
      by (auto intro!: range_partition simp: ebr_volume_ok_def)
  qed
  with k show ?thesis by blast
qed

lemma find_extended_ok:
  assumes "find_extended disk st is = Inr (r, st')" and "lookup_ok disk D st" and "\<forall>i \<in> set is. i < 4"
  shows "retains disk D st st' \<and> (\<forall>e. r = Some e \<longrightarrow> ebr_volume_ok D (dev st') e)"
  using assms
proof (induction "is" arbitrary: st)
  case (Cons i "is")
  from Cons.prems(1) obtain e st1 where
    e: "mbr_read_entry (dev_read disk) (dev st) st (0x1be + 16 * of_nat i) = Inr (e, st1)"
    by (auto simp: bindo_Inr)
  have "i = 0 \<or> i = 1 \<or> i = 2 \<or> i = 3" using Cons.prems(3) by auto
  then have "unat (0x1be + 16 * of_nat i :: u64) + unat (16 :: u64) \<le> 2 ^ 64"
    by auto
  with e have k: "retains disk D st st1" using Cons.prems(2) by (auto elim!: entry_read intro: dev_read_retains)
  consider (rest) "find_extended disk st1 is = Inr (r, st')"
    | (found) f c a s ext where "partition_range_valid (dev st1) f c" "ext = (child_volume (dev st1) a f c)\<lparr>ebr_walk_size := c\<rparr>"
        "r = Some ext" "st' = st1\<lparr>pstate := s, ebr_part := Some ext\<rparr>"
  proof (cases e)
    case (Some entry)
    show thesis
    proof (cases "extended_type (mp_type entry) \<and> mp_count entry \<noteq> 0 \<and>
        partition_range_valid (dev st1) (mp_first entry) (mp_count entry)")
      case True
      with Some Cons.prems(1) e show thesis
        by (cases "ext_mem_alloc (pstate st1) SIZEOF_VOLUME") (auto simp: Let_def intro: found)
    next
      case False
      with Some Cons.prems(1) e show thesis by (intro rest) (auto split: if_split_asm)
    qed
  qed (use Cons.prems(1) e rest in simp)
  then show ?case
  proof cases
    case rest
    from Cons.IH [OF this retains_ok [OF k]] Cons.prems(3) k show ?thesis by (auto intro: retains_trans)
  next
    case found
    have p: "partition_of (dev st1) (child_volume (dev st1) a f c)"
      using device_facts [OF retains_ok [OF k]] by (intro child_partition_of [OF found(1)]) simp_all
    note u = range_valid_unat [OF found(1) device_facts(1) [OF retains_ok [OF k]]]
    have "c \<noteq> -1" using u(2) device_facts(1) [OF retains_ok [OF k]]
      by (auto simp: sized_def unsigned_minus_1_eq_mask mask_eq_exp_minus_1)
    with p have "ebr_volume_ok D (dev st1) ext"
      by (simp add: found(2) ebr_volume_ok_def partition_of_def cache_ok_def volume_sane_def)
    then have "retains disk D st1 st'" "ebr_volume_ok D (dev st') ext"
      unfolding found(4) by (auto intro: set_ebr_retains [OF retains_ok [OF k]])
    with k found(3) show ?thesis by (auto intro: retains_trans)
  qed
qed (simp add: retains_refl)

lemma all_checks_retains:
  assumes "all_checks (dev_read disk) st cs = Inr (r, st')" and "lookup_ok disk D st"
    and "\<forall>(loc, n, p) \<in> set cs. unat loc + unat n \<le> 2 ^ 64"
  shows "retains disk D st st'"
  using assms
proof (induction cs arbitrary: st)
  case (Cons c cs)
  obtain loc n p where c: "c = (loc, n, p)" by (cases c)
  from Cons.prems(1) c obtain b st1 where rd: "dev_read disk st loc n = Inr (b, st1)"
    by (auto simp: bindo_Inr)
  have k: "retains disk D st st1" using Cons.prems c by (intro dev_read_retains [OF rd]) auto
  consider "st' = st1" | "all_checks (dev_read disk) st1 cs = Inr (r, st')"
    using Cons.prems(1) c rd by (auto split: option.splits if_split_asm)
  then show ?case
    using Cons.IH [OF _ retains_ok [OF k]] Cons.prems(3) k by cases (auto intro: retains_trans)
qed (simp add: retains_refl)

lemma is_valid_mbr_retains:
  assumes "is_valid_mbr disk st = Inr (r, st')" and "lookup_ok disk D st"
  shows "retains disk D st st'"
  using assms unfolding is_valid_mbr_def by (rule all_checks_retains) (simp add: mbr_checks_def)

text \<open>A primary entry of a boot record, at its offset in the first sector.\<close>

definition mbr_entry :: "(nat \<Rightarrow> u8) \<Rightarrow> part_state \<Rightarrow> nat \<Rightarrow> u8 list" where
  "mbr_entry D st i = dev_bytes D st (0x1be + 16 * i) 16"

text \<open>What the entry says, scaled to the device's sectors.\<close>

abbreviation mbr_mult :: "volume \<Rightarrow> u64" where
  "mbr_mult v \<equiv> (if is_optical v then 1 else word_of_int (sector_size v) div 512)"

definition primary_range :: "(nat \<Rightarrow> u8) \<Rightarrow> part_state \<Rightarrow> int \<Rightarrow> volume \<Rightarrow> bool" where
  "primary_range D st i p \<longleftrightarrow> mbr_entry D st (nat i) ! 4 \<noteq> 0 \<and>
     first_sect p = ucast (le32_at (mbr_entry D st (nat i)) 8) * mbr_mult (dev st) \<and>
     sect_count p = ucast (le32_at (mbr_entry D st (nat i)) 12) * mbr_mult (dev st)"

lemma mbr_get_part_ok:
  assumes ret: "mbr_get_part disk st i = Inr (r, st')" and ok: "lookup_ok disk D st" and i: "0 \<le> i"
  shows "retains disk D st st' \<and> (\<forall>p. r = Found p \<longrightarrow> partition_of (dev st) p \<and> partition p = i + 1 \<and>
     (i \<le> 3 \<longrightarrow> primary_range D st i p))"
proof -
  from ret obtain b st1 where v: "is_valid_mbr disk st = Inr (b, st1)"
    and rest: "(if \<not> b then Inr (INVALID_TABLE, st1) else if i > 3 then
         (case ebr_part st1 of
            Some ext \<Rightarrow> mbr_get_logical_part disk st1 ext (i - 4)
          | None \<Rightarrow>
              bindo (find_extended disk st1 [0, 1, 2, 3]) (\<lambda>e st2.
                case e of
                  None \<Rightarrow> Inr (END_OF_TABLE, st2)
                | Some ext \<Rightarrow> mbr_get_logical_part disk st2 ext (i - 4)))
       else bindo (mbr_read_entry (dev_read disk) (dev st1) st1 (0x1be + 16 * word_of_int i)) (\<lambda>r st2.
         Inr (case r of
                None \<Rightarrow> END_OF_TABLE
              | Some entry \<Rightarrow>
                  if mp_type entry = 0 then NO_PARTITION
                  else if mp_count entry = 0 then NO_PARTITION
                  else if \<not> partition_range_valid (dev st2) (mp_first entry) (mp_count entry) then NO_PARTITION
                  else Found (child_volume (dev st2) (i + 1) (mp_first entry) (mp_count entry)), st2))) = Inr (r, st')"
    unfolding mbr_get_part_def by (rule bindo_InrE)
  have k1: "retains disk D st st1" by (rule is_valid_mbr_retains [OF v ok])
  note same = partition_of_same [of "dev x" "dev st" for x]
  consider (none) "r = INVALID_TABLE" "st' = st1"
    | (logical) st2 ext where "i > 3" "retains disk D st1 st2" "ebr_volume_ok D (dev st2) ext"
        "mbr_get_logical_part disk st2 ext (i - 4) = Inr (r, st')"
    | (no_ext) "r = END_OF_TABLE" "retains disk D st1 st'"
    | (primary) e where "i \<le> 3" "mbr_read_entry (dev_read disk) (dev st1) st1 (0x1be + 16 * word_of_int i) = Inr (e, st')"
        "\<And>p. r = Found p \<Longrightarrow> \<exists>entry. e = Some entry \<and> mp_type entry \<noteq> 0 \<and>
           partition_range_valid (dev st') (mp_first entry) (mp_count entry) \<and>
           p = child_volume (dev st') (i + 1) (mp_first entry) (mp_count entry)"
  proof (cases "b \<and> i > 3")
    case True
    show thesis
    proof (cases "ebr_part st1")
      case None
      with rest True obtain e st2 where f: "find_extended disk st1 [0, 1, 2, 3] = Inr (e, st2)"
        and g: "(case e of None \<Rightarrow> Inr (END_OF_TABLE, st2)
           | Some ext \<Rightarrow> mbr_get_logical_part disk st2 ext (i - 4)) = Inr (r, st')"
        by (auto elim!: bindo_InrE simp del: find_extended.simps)
      from find_extended_ok [OF f retains_ok [OF k1]] g True show thesis
        by (cases e) (auto intro: logical no_ext)
    next
      case (Some ext)
      have "ebr_volume_ok D (dev st1) ext" using retains_ok [OF k1] Some by (simp add: lookup_ok_def ebr_ok_def)
      with Some rest True show thesis by (intro logical [OF _ retains_refl [OF retains_ok [OF k1]]]) simp_all
    qed
  next
    case False
    show thesis
    proof (cases b)
      case True
      with False rest obtain e where
        e: "mbr_read_entry (dev_read disk) (dev st1) st1 (0x1be + 16 * word_of_int i) = Inr (e, st')"
        "r = (case e of None \<Rightarrow> END_OF_TABLE | Some entry \<Rightarrow>
            if mp_type entry = 0 then NO_PARTITION else if mp_count entry = 0 then NO_PARTITION
            else if \<not> partition_range_valid (dev st') (mp_first entry) (mp_count entry) then NO_PARTITION
            else Found (child_volume (dev st') (i + 1) (mp_first entry) (mp_count entry)))"
        by (auto elim!: bindo_InrE)
      from True False show thesis
        by (intro primary [OF _ e(1)]; cases e) (simp_all add: e(2) split: if_split_asm)
    qed (use rest none in simp)
  qed
  then show ?thesis
  proof cases
    case logical
    note k2 = retains_trans [OF k1 logical(2)]
    from logical_part_ok [OF logical(4) retains_ok [OF k2] logical(3)] k2
    show ?thesis using same [of st2] logical(1) by (auto simp: retains_def)
  next
    case primary
    have "i = 0 \<or> i = 1 \<or> i = 2 \<or> i = 3" using i primary(1) by auto
    then have off: "unat (0x1be + 16 * word_of_int i :: u64) + unat (16 :: u64) \<le> 2 ^ 64"
      "unat (0x1be + 16 * word_of_int i :: u64) = 0x1be + 16 * nat i" by auto
    from primary(2) obtain bs where rd: "dev_read disk st1 (0x1be + 16 * word_of_int i) 16 = Inr (bs, st')"
      and e: "e = map_option (\<lambda>e. let mult = mbr_mult (dev st1)
       in \<lparr>mp_type = e ! 4, mp_first = ucast (le32_at e 8) * mult, mp_count = ucast (le32_at e 12) * mult\<rparr>) bs"
      by (rule entry_read)
    have k2: "retains disk D st st'"
      using dev_read_retains [OF rd retains_ok [OF k1] off(1)] k1 by (blast intro: retains_trans)
    have u1: "uncached (dev st1) = uncached (dev st)" using k1 by (simp add: retains_def)
    have "dev_ok disk D st1" using retains_ok [OF k1] by (simp add: lookup_ok_def part_ok_def)
    from read_block(3) [OF rd this off(1)] off(2) same_device(3) [OF u1]
    have bs: "bs = Some x \<Longrightarrow> x = mbr_entry D st (nat i)" for x by (simp add: mbr_entry_def)
    have "partition_of (dev st) p \<and> partition p = i + 1 \<and> primary_range D st i p" if "r = Found p" for p
    proof -
      from primary(3) [OF that] obtain entry where entry: "e = Some entry" "mp_type entry \<noteq> 0"
        "partition_range_valid (dev st') (mp_first entry) (mp_count entry)"
        "p = child_volume (dev st') (i + 1) (mp_first entry) (mp_count entry)" by blast
      have "partition_of (dev st') p"
        unfolding entry(4) using device_facts [OF retains_ok [OF k2]] by (intro child_partition_of [OF entry(3)])
      then have po: "partition_of (dev st) p" using same [of st'] k2 by (simp add: retains_def)
      from entry(1) e obtain x where x: "bs = Some x" "entry = (let mult = mbr_mult (dev st1)
         in \<lparr>mp_type = x ! 4, mp_first = ucast (le32_at x 8) * mult, mp_count = ucast (le32_at x 12) * mult\<rparr>)"
        by (cases bs) simp_all
      from x(2) have "mp_type entry = mbr_entry D st (nat i) ! 4"
        "mp_first entry = ucast (le32_at (mbr_entry D st (nat i)) 8) * mbr_mult (dev st)"
        "mp_count entry = ucast (le32_at (mbr_entry D st (nat i)) 12) * mbr_mult (dev st)"
        unfolding bs [OF x(1)] Let_def uncached_fields(3,6) [OF u1] by simp_all
      with po entry(2,4) show ?thesis by (simp add: primary_range_def)
    qed
    with k2 show ?thesis by blast
  qed (use k1 in \<open>auto intro: retains_trans\<close>)
qed

lemma part_get_ok:
  assumes ret: "part_get disk st i = Inr (r, st')" and ok: "lookup_ok disk D st" and i: "i < 2 ^ 31"
  shows "retains disk D st st'" and "r = Found p \<Longrightarrow> partition_of (dev st) p \<and> partition p = i + 1"
proof -
  have "retains disk D st st' \<and> (\<forall>p. r = Found p \<longrightarrow> partition_of (dev st) p \<and> partition p = i + 1)"
  proof (cases "i < 0")
    case True
    with ret ok show ?thesis by (simp add: part_get_def retains_refl)
  next
    case False
    with ret obtain g st1 where g: "gpt_get_part disk st i = Inr (g, st1)"
      and rest: "(if g \<noteq> INVALID_TABLE then Inr (g, st1) else mbr_get_part disk st1 i) = Inr (r, st')"
      by (auto simp: part_get_def elim: bindo_InrE)
    have "part_ok disk D st" using ok by (simp add: lookup_ok_def)
    note k = gpt_get_part_ok [OF g this _ i]
    have k1: "retains disk D st st1" using k False ok by (auto intro: keeps_retains)
    show ?thesis
    proof (cases "g = INVALID_TABLE")
      case True
      with rest have m: "mbr_get_part disk st1 i = Inr (r, st')" by simp
      have "partition_of (dev st1) p = partition_of (dev st) p" for p
        using k1 by (intro partition_of_same) (simp add: retains_def)
      with mbr_get_part_ok [OF m retains_ok [OF k1]] False k1 show ?thesis by (auto intro: retains_trans)
    next
      case neq: False
      with rest k k1 False show ?thesis by auto
    qed
  qed
  then show "retains disk D st st'" "r = Found p \<Longrightarrow> partition_of (dev st) p \<and> partition p = i + 1" by blast+
qed

end
