(* ===== verification/Small_Device.thy ===== *)
theory Small_Device
  imports Reader
begin

text \<open>
  The concrete input of the witnesses about volumes: a device of eight sectors whose only block
  is already in its cache, and a megabyte of memory for the allocations.
\<close>

section \<open>A small device\<close>

definition medium :: "u8 list \<Rightarrow> nat \<Rightarrow> u8" where
  "medium bs k = (if k < length bs then bs ! k else 0)"

definition driver :: "u8 list \<Rightarrow> disk" where
  "driver bs v sec n = Some (map (medium bs) [unat sec * nat (sector_size v) ..< (unat sec + unat n) * nat (sector_size v)])"

text \<open>\<open>n\<close> sectors, all of them one block, which the cache holds.\<close>

definition cached_device :: "u64 \<Rightarrow> u8 list \<Rightarrow> volume" where
  "cached_device n bs =
     \<lparr>drive = 0x80, fastest_xfer_size = n, vindex = 1, is_optical = False, vpxe = False, partition = 0,
      sector_size = 512, max_partition = -1, cache_status = True, vcache = Some bs, cached_block = 0,
      ebr_walk_index = 0, ebr_walk_sector = 0, ebr_walk_size = 0, first_sect = 0, sect_count = n,
      part_guid_valid = False, part_guid = [], part_type_guid_valid = False, part_type_guid = []\<rparr>"

lemma driver_serves: "disk_serves (driver bs) (medium bs)"
  by (simp add: disk_serves_def driver_def)

lemma cached_window:
  assumes "0 < n" and "n < 65536"
  shows "cache_window (cached_device n bs) 0 = Some (0, n)"
proof -
  have "n \<noteq> -1" "\<not> n \<le> 0" using assms by auto
  moreover have "unat n < 65536" using assms by (simp add: word_less_nat_alt)
  then have "unat n < 18446744073709551616" by linarith
  ultimately show ?thesis
    by (simp add: cache_window_def cached_device_def CHECKED_MUL_def CHECKED_ADD_def DIV_ROUNDUP_def)
qed

lemma device_size:
  fixes n :: u64 assumes "n < 65536"
  shows "CHECKED_MUL n 512 = Some (n * 512)" and "unat (n * 512) = unat n * 512"
proof -
  have "unat n < 65536" using assms by (simp add: word_less_nat_alt)
  then show "CHECKED_MUL n 512 = Some (n * 512)" and "unat (n * 512) = unat n * 512"
    by (simp_all add: CHECKED_MUL_def unat_word_ariths)
qed

lemma cached_device_ok:
  assumes "length bs = unat n * 512" and "0 < n" and "n < 65536"
  shows "cache_ok (medium bs) (cached_device n bs)" and "volume_sane (cached_device n bs)"
proof -
  have "map (medium bs) [0..<unat n * 512] = bs" using assms by (intro nth_equalityI) (simp_all add: medium_def)
  then show "cache_ok (medium bs) (cached_device n bs)"
    using cached_window [OF assms(2,3), of bs] assms device_size [OF assms(3)]
    by (simp add: cache_ok_def) (simp add: cached_device_def)
  show "volume_sane (cached_device n bs)"
    using assms unsigned_less [of n, where 'a = nat] by (simp add: volume_sane_def cached_device_def)
qed

lemma cached_read_volume:
  assumes "length bs = unat n * 512" and "0 < n" and "n < 65536" and "0 < cnt" and "unat loc + unat cnt \<le> unat n * 512"
  shows "volume_read disk s (cached_device n bs) loc cnt =
    Inr (Some (take (unat cnt) (drop (unat loc) bs)), s, cached_device n bs)"
proof -
  note z = device_size [OF assms(3)]
  have l: "loc < n * 512" using assms(4,5) z(2) by (simp add: word_less_nat_alt)
  then have ll: "loc div (n * 512) = 0" "loc mod (n * 512) = loc" "n * 512 \<noteq> 0"
    by (simp_all add: word_unat_eq_iff unat_div unat_mod word_less_nat_alt)
  have u: "unat (n * 512 - loc) = unat n * 512 - unat loc" using l z(2) by (simp add: unat_sub less_imp_le)
  have nn: "\<not> cnt > n * 512 - loc" using assms(5) u by (simp add: word_less_nat_alt)
  have "read_loop disk s (cached_device n bs) (n * 512) loc cnt 0 =
      Inr (Some (take (unat cnt) (drop (unat loc) bs)), s, cached_device n bs)" for s
    using assms(4) nn ll
    by (simp add: read_loop.simps [of disk _ _ "n * 512" loc cnt 0] read_loop.simps [of disk _ _ "n * 512" loc cnt cnt] cache_block_def)
       (simp add: cached_device_def)
  moreover have "n \<noteq> -1" "n \<noteq> 0" "\<not> n * 512 \<le> loc" using assms(2,3) l by auto
  ultimately show ?thesis
    using nn z(1) by (simp add: volume_read_def) (simp add: cached_device_def)
qed

text \<open>Eight sectors are enough for most inputs.\<close>

definition small_device :: "u8 list \<Rightarrow> volume" where
  "small_device bs =
     \<lparr>drive = 0x80, fastest_xfer_size = 8, vindex = 1, is_optical = False, vpxe = False, partition = 0,
      sector_size = 512, max_partition = -1, cache_status = True, vcache = Some bs, cached_block = 0,
      ebr_walk_index = 0, ebr_walk_sector = 0, ebr_walk_size = 0, first_sect = 0, sect_count = 8,
      part_guid_valid = False, part_guid = [], part_type_guid_valid = False, part_type_guid = []\<rparr>"

lemma small_device_cached: "small_device bs = cached_device 8 bs"
  by (simp add: small_device_def cached_device_def)

lemma small_device_ok:
  assumes "length bs = 4096"
  shows "cache_ok (medium bs) (small_device bs)" and "volume_sane (small_device bs)"
  using cached_device_ok [of bs 8] assms by (simp_all add: small_device_cached)

lemma small_read_volume:
  assumes "length bs = 4096" and "0 < n" and "unat loc + unat n \<le> 4096"
  shows "volume_read disk s (small_device bs) loc n =
    Inr (Some (take (unat n) (drop (unat loc) bs)), s, small_device bs)"
  using cached_read_volume [of bs 8 n loc] assms by (simp add: small_device_cached)

section \<open>A small heap\<close>

text \<open>One megabyte of usable memory of which the topmost \<open>n\<close> pages are handed out.\<close>

definition small_heap :: "nat \<Rightarrow> (u64 \<Rightarrow> u8) \<Rightarrow> pmm_state" where
  "small_heap n m =
     \<lparr>memmap = \<lparr>mbase = 0x100000, mlength = 0x100000 - of_nat n * 4096, mtype = MEMMAP_USABLE\<rparr> #
        (if n = 0 then []
         else [\<lparr>mbase = 0x200000 - of_nat n * 4096, mlength = of_nat n * 4096, mtype = MEMMAP_BOOTLOADER_RECLAIMABLE\<rparr>]),
      memmap_max_entries = 64, keep_first_page = False, allocations_disallowed = False, conv_base = 0x1000, mem = m\<rparr>"

definition forget :: "pmm_state \<Rightarrow> pmm_state" where
  "forget s = s\<lparr>mem := (\<lambda>_. 0)\<rparr>"

lemma forget_small: "forget s = small_heap n (\<lambda>_. 0) \<Longrightarrow> \<exists>m. s = small_heap n m"
  by (cases s) (auto simp: forget_def small_heap_def)

lemma small_alloc_maps:
  "map_sum id (map_prod id forget) (ext_mem_alloc (small_heap 0 m) 80) = Inr (0x1ff000, small_heap 1 (\<lambda>_. 0))"
  "map_sum id (map_prod id forget) (ext_mem_alloc (small_heap 0 m) 512) = Inr (0x1ff000, small_heap 1 (\<lambda>_. 0))"
  "map_sum id (map_prod id forget) (ext_mem_alloc (small_heap 0 m) 8) = Inr (0x1ff000, small_heap 1 (\<lambda>_. 0))"
  "map_sum id (map_prod id forget) (ext_mem_alloc (small_heap 1 m) 80) = Inr (0x1fe000, small_heap 2 (\<lambda>_. 0))"
  "map_sum id (map_prod id forget) (ext_mem_alloc (small_heap 2 m) 8) = Inr (0x1fd000, small_heap 3 (\<lambda>_. 0))"
  by code_simp+

lemma small_free_map: "map_sum id forget (pmm_free (small_heap 1 m) 0x1ff000 512) = Inr (small_heap 0 (\<lambda>_. 0))"
  by code_simp

lemma allocated:
  assumes "map_sum id (map_prod id forget) x = Inr (p, small_heap n (\<lambda>_. 0))"
  shows "\<exists>m. x = Inr (p, small_heap n m)"
  using assms forget_small [of _ n] by (cases x) auto

lemma freed:
  assumes "map_sum id forget x = Inr (small_heap n (\<lambda>_. 0))"
  shows "\<exists>m. x = Inr (small_heap n m)"
  using assms forget_small [of _ n] by (cases x) auto

lemmas small_allocs = small_alloc_maps [THEN allocated]
lemmas small_free = small_free_map [THEN freed]

end
