(* ===== verification/Partition_Properties.thy ===== *)
theory Partition_Properties
  imports Mbr_Correct Small_Device
begin

text \<open>
  The properties of the volume reader and of the partition tables. The witnesses use a small
  device of eight sectors whose only block is already in its cache, once with a GUID table
  and once with a boot record.
\<close>

section \<open>A lookup on a small device\<close>

definition small_state :: "u8 list \<Rightarrow> part_state" where
  "small_state bs =
     \<lparr>pstate = \<lparr>memmap = [], memmap_max_entries = 64, keep_first_page = False, allocations_disallowed = False,
         conv_base = 0x1000, mem = (\<lambda>_. 0)\<rparr>,
      dev = small_device bs, dev_id = 0, ebr_part = None, gpt_memo_volume = None, gpt_memo_header = [],
      gpt_memo_lba = 0, gpt_memo_lb_size = 0, gpt_memo_none_volume = None, gpt_memo_none_block = [],
      gpt_memo_none_readable = False\<rparr>"

lemma small_ok:
  assumes "length bs = 4096"
  shows "lookup_ok (driver bs) (medium bs) (small_state bs)"
proof -
  have "sized (small_device bs)" by (simp add: sized_def small_device_def)
  with small_device_ok [OF assms] show ?thesis
    by (simp add: lookup_ok_def part_ok_def dev_ok_def ebr_ok_def memo_ok_def small_state_def driver_serves)
qed

lemma small_read:
  assumes "dev st = small_device bs" and "length bs = 4096" and "0 < n" and "unat loc + unat n \<le> 4096"
  shows "dev_read disk st loc n = Inr (Some (take (unat n) (drop (unat loc) bs)), st)"
  using small_read_volume [OF assms(2-4)] assms(1) [symmetric] by (simp add: dev_read_def)

section \<open>A device with a GUID table\<close>

definition le32_bytes :: "u32 \<Rightarrow> u8 list" where
  "le32_bytes c = [ucast c, ucast (drop_bit 8 c), ucast (drop_bit 16 c), ucast (drop_bit 24 c)]"

lemma le32_bytes_read:
  fixes c :: u32
  shows "ucast (ucast c :: u8) OR push_bit 8 (ucast (ucast (drop_bit 8 c) :: u8)) OR
     push_bit 16 (ucast (ucast (drop_bit 16 c) :: u8)) OR push_bit 24 (ucast (ucast (drop_bit 24 c) :: u8)) = c"
proof (rule bit_word_eqI)
  fix n assume "n < LENGTH(32)"
  then show "bit (ucast (ucast c :: u8) OR push_bit 8 (ucast (ucast (drop_bit 8 c) :: u8)) OR
     push_bit 16 (ucast (ucast (drop_bit 16 c) :: u8)) OR push_bit 24 (ucast (ucast (drop_bit 24 c) :: u8)) :: u32) n = bit c n"
    by (cases "n < 8"; cases "n < 16"; cases "n < 24")
      (auto simp: bit_or_iff bit_push_bit_iff bit_ucast_iff bit_drop_bit_eq)
qed

definition sample_entry :: "u8 list" where
  "sample_entry = [0xa2, 0xa0, 0xd0, 0xeb, 0xe5, 0xb9, 0x33, 0x44, 0x87, 0xc0, 0x68, 0xb6, 0xb7, 0x26, 0x99, 0xc7,
      1, 2, 3, 4, 5, 6, 7, 8, 9, 10, 11, 12, 13, 14, 15, 16,
      3, 0, 0, 0, 0, 0, 0, 0,  5, 0, 0, 0, 0, 0, 0, 0] @ replicate 80 0"

definition sample_header :: "u32 \<Rightarrow> u32 \<Rightarrow> u8 list" where
  "sample_header own arr =
     [0x45, 0x46, 0x49, 0x20, 0x50, 0x41, 0x52, 0x54, 0, 0, 1, 0, 92, 0, 0, 0] @ le32_bytes own @
     [0, 0, 0, 0,  1, 0, 0, 0, 0, 0, 0, 0,  7, 0, 0, 0, 0, 0, 0, 0,  3, 0, 0, 0, 0, 0, 0, 0,  6, 0, 0, 0, 0, 0, 0, 0,
      21, 22, 23, 24, 25, 26, 27, 28, 29, 30, 31, 32, 33, 34, 35, 36,  2, 0, 0, 0, 0, 0, 0, 0,  1, 0, 0, 0, 128, 0, 0, 0]
     @ le32_bytes arr"

definition array_crc :: u32 where "array_crc = crc32 sample_entry"

definition header_crc :: u32 where "header_crc = crc32 (sample_header 0 array_crc)"

definition gpt_header :: "u8 list" where "gpt_header = sample_header header_crc array_crc"

definition gpt_device :: "u8 list" where
  "gpt_device = replicate 446 0 @ [0, 0, 2, 0, 0xee, 0xff, 0xff, 0xff, 1, 0, 0, 0, 7, 0, 0, 0] @ replicate 48 0 @ [0x55, 0xaa] @
     gpt_header @ replicate 420 0 @ sample_entry @ replicate 2944 0"

lemma gpt_lengths [simp]: "length sample_entry = 128" "length gpt_header = 92" "length gpt_device = 4096"
  by (simp_all add: sample_entry_def gpt_header_def sample_header_def gpt_device_def le32_bytes_def)

lemma gpt_header_fields:
  "header_signed gpt_header" "gh_revision gpt_header = 0x00010000" "gh_header_size gpt_header = 92"
  "gh_my_lba gpt_header = 1" "gh_first_usable_lba gpt_header = 3" "gh_last_usable_lba gpt_header = 6"
  "gh_partition_entry_lba gpt_header = 2" "gh_number_of_entries gpt_header = 1" "gh_entry_size gpt_header = 128"
  "gh_crc32 gpt_header = header_crc" "gh_array_crc32 gpt_header = array_crc"
  by (simp_all add: gpt_header_def sample_header_def le32_bytes_def header_signed_def le64_at_def le32_at_def
      le32_bytes_read) code_simp?

abbreviation gpt_state :: part_state where "gpt_state \<equiv> small_state gpt_device"

lemma gpt_state_ok: "lookup_ok (driver gpt_device) (medium gpt_device) gpt_state"
  by (rule small_ok) simp

lemma gpt_state_dev [simp]: "dev (small_state bs) = small_device bs" "dev (gpt_memo_store st h l b) = dev st"
  by (simp_all add: small_state_def gpt_memo_store_def)

lemmas gpt_read = small_read [of _ gpt_device, simplified gpt_lengths, OF _ refl]

lemma gpt_blocks:
  "gpt_device ! 450 = 0xee" "take 92 (drop 512 gpt_device) = gpt_header"
  "take 128 (drop 1024 gpt_device) = sample_entry"
  by (simp_all add: gpt_device_def nth_append)

lemma header_crc_zeroed: "crc32_update 0xffffffff (zeroed_crc gpt_header) = NOT header_crc"
proof -
  have "zeroed_crc gpt_header = sample_header 0 array_crc"
    by (simp add: zeroed_crc_def gpt_header_def sample_header_def le32_bytes_def)
  then show ?thesis by (simp add: header_crc_def crc32_def)
qed

lemma gpt_array_crc:
  "crc32_volume_range (dev_read disk) gpt_state 1024 128 0xffffffff = Inr (Some (NOT array_crc), gpt_state)"
  by (simp add: crc32_volume_range.simps [of _ gpt_state 1024] crc32_volume_range.simps [of _ gpt_state _ 0]
      gpt_read gpt_blocks array_crc_def crc32_def)

lemma gpt_verifies:
  "gpt_verify_header disk gpt_state gpt_header 1 512 b = Inr ((True, b - 128), gpt_state)" if "b \<ge> 128"
proof -
  have "sect_count (small_device gpt_device) = 8" by (simp add: small_device_def)
  moreover have "\<not> b < 128" using that by simp
  ultimately show ?thesis
    by (simp add: gpt_verify_header_def gpt_verify_array_def gpt_header_fields CHECKED_MUL_def CHECKED_ADD_def
        header_crc_zeroed gpt_array_crc bindo_def)
qed

lemma gpt_locates:
  "gpt_locate_header disk gpt_state = Inr (Some (gpt_header, 512), gpt_memo_store gpt_state gpt_header 1 512)"
proof -
  have m: "gpt_memo_volume gpt_state = None" "gpt_memo_none_volume gpt_state = None"
    by (simp_all add: small_state_def)
  have p: "gpt_protective_mbr disk gpt_state = Inr (True, gpt_state)"
    by (simp add: gpt_protective_mbr_def gpt_read gpt_blocks)
  show ?thesis
    by (simp add: gpt_locate_header_def gpt_memo_hit_def gpt_memo_none_hit_def m p try_guess_def gpt_read gpt_blocks
        gpt_verifies)
qed

lemma sample_lbas: "le64_at sample_entry 32 = 3" "le64_at sample_entry 40 = 5"
  by (simp_all add: sample_entry_def le64_at_def le32_at_def)

definition gpt_partition :: volume where
  "gpt_partition = (child_volume (small_device gpt_device) 1 3 3)
     \<lparr>part_guid_valid := True, part_guid := take 16 (drop 16 sample_entry),
      part_type_guid_valid := True, part_type_guid := take 16 sample_entry\<rparr>"

lemma gpt_gets:
  "gpt_get_part disk gpt_state 0 = Inr (Found gpt_partition, gpt_memo_store gpt_state gpt_header 1 512)"
proof -
  have "take 16 sample_entry \<noteq> replicate 16 0" by (auto simp: sample_entry_def dest!: arg_cong [where f = hd])
  moreover have "sect_count (small_device gpt_device) = 8" by (simp add: small_device_def)
  ultimately have "gpt_entry_volume (small_device gpt_device) 512 0 sample_entry = Found gpt_partition"
    by (simp add: gpt_entry_volume_def gpt_entry_range_def sample_lbas CHECKED_MUL_def CHECKED_ADD_def
        partition_range_valid_def gpt_partition_def)
  then show ?thesis
    by (simp add: gpt_get_part_def gpt_locates gpt_entry_offset_def gpt_header_fields CHECKED_MUL_def CHECKED_ADD_def
        gpt_read gpt_blocks)
qed

section \<open>A device with a boot record\<close>

definition mbr_device :: "u8 list" where
  "mbr_device = replicate 446 0 @ [0x80, 0, 2, 0, 0x83, 0, 0, 0, 2, 0, 0, 0, 3, 0, 0, 0] @ replicate 48 0 @ [0x55, 0xaa] @
     replicate 3584 0"

lemma mbr_length [simp]: "length mbr_device = 4096"
  by (simp add: mbr_device_def)

abbreviation mbr_state :: part_state where "mbr_state \<equiv> small_state mbr_device"

lemma mbr_state_ok: "lookup_ok (driver mbr_device) (medium mbr_device) mbr_state"
  by (rule small_ok) simp

lemmas mbr_read = small_read [of _ mbr_device, simplified mbr_length, OF _ refl]

lemma mbr_gets_primary: "mbr_get_part disk mbr_state 0 = Inr (Found (child_volume (small_device mbr_device) 1 2 3), mbr_state)"
  and mbr_gets: "part_get disk mbr_state 0 = Inr (Found (child_volume (small_device mbr_device) 1 2 3), mbr_state)"
proof -
  let ?p = "child_volume (small_device mbr_device) 1 2 3"
  have b: "take 1 (drop 446 mbr_device) = [0x80]" "take 2 (drop 510 mbr_device) = [0x55, 0xaa]"
    "take 1 (drop 462 mbr_device) = [0]" "take 1 (drop 478 mbr_device) = [0]" "take 1 (drop 494 mbr_device) = [0]"
    "take 1 (drop 450 mbr_device) = [0x83]" "take 1 (drop 466 mbr_device) = [0]" "take 1 (drop 482 mbr_device) = [0]"
    "take 1 (drop 498 mbr_device) = [0]" "take 4 (drop 3 mbr_device) = [0, 0, 0, 0]" "take 3 (drop 54 mbr_device) = [0, 0, 0]"
    "take 3 (drop 82 mbr_device) = [0, 0, 0]" "take 5 (drop 3 mbr_device) = [0, 0, 0, 0, 0]"
    "take 2 (drop 1080 mbr_device) = [0, 0]"
    "take 16 (drop 446 mbr_device) = [0x80, 0, 2, 0, 0x83, 0, 0, 0, 2, 0, 0, 0, 3, 0, 0, 0]"
    by (simp_all add: mbr_device_def numeral_eq_Suc)
  have n: "mbr_device ! 446 = 0x80" "mbr_device ! 450 = 0x83" by (simp_all add: mbr_device_def nth_append)
  have z: "mbr_device ! k = 0"
    if "k = 462 \<or> k = 466 \<or> k = 478 \<or> k = 482 \<or> k = 494 \<or> k = 498" for k
    using that by (auto simp: mbr_device_def nth_append)
  have m: "gpt_memo_volume mbr_state = None" "gpt_memo_none_volume mbr_state = None"
    by (simp_all add: small_state_def)
  have "gpt_get_part disk mbr_state 0 = Inr (INVALID_TABLE, mbr_state)"
    by (simp add: gpt_get_part_def gpt_locate_header_def gpt_memo_hit_def gpt_memo_none_hit_def m gpt_protective_mbr_def
        mbr_read n z)
  moreover have "is_valid_mbr disk mbr_state = Inr (True, mbr_state)"
    by (simp add: is_valid_mbr_def mbr_checks_def mbr_read b n z boot_flag_def le16_at_def)
  moreover have "sect_count (small_device mbr_device) = 8" "sector_size (small_device mbr_device) = 512"
    "\<not> is_optical (small_device mbr_device)" by (simp_all add: small_device_def)
  ultimately show "mbr_get_part disk mbr_state 0 = Inr (Found ?p, mbr_state)" and "part_get disk mbr_state 0 = Inr (Found ?p, mbr_state)"
    by (simp_all add: part_get_def mbr_get_part_def mbr_read_entry_def mbr_read b le32_at_def partition_range_valid_def CHECKED_ADD_def)
qed

section \<open>Reading a volume\<close>

text \<open>
  C20: \<open>volume_read\<close> delivers the medium. A successful read yields exactly the bytes of the
  volume's range of the medium, whatever the block in the cache was, and lies inside a volume
  of known size; a failed one delivers nothing. Either way the cache still holds what it
  claims to hold and no other field of the volume changes.
\<close>

theorem volume_read_medium:
  assumes "volume_read disk s v loc cnt = Inr (r, s', v')" and "disk_serves disk D" and "cache_ok D v"
    and "volume_sane v" and "sect_count v \<noteq> -1"
  shows "cache_ok D v' \<and> uncached v' = uncached v \<and>
    (\<forall>bs. r = Some bs \<longrightarrow> bs = volume_bytes D v (unat loc) (unat cnt) \<and>
       unat loc + unat cnt \<le> unat (sect_count v) * 512)"
proof -
  have "sect_count v = -1 \<Longrightarrow> unat loc + unat cnt \<le> 2 ^ 64" using assms(5) by simp
  note k = volume_read_ok [OF assms(1-4) this]
  have "unat loc + unat cnt \<le> unat (sect_count v) * 512" if "r = Some bs" for bs
  proof -
    from assms(1,5) that obtain n where n: "CHECKED_MUL (sect_count v) 512 = Some n" "\<not> loc \<ge> n" "\<not> cnt > n - loc"
      by (auto simp: volume_read_def Let_def split: if_split_asm option.split_asm)
    then have "unat loc < unat n" "unat cnt \<le> unat n - unat loc"
      by (simp_all add: word_less_nat_alt word_le_nat_alt unat_sub)
    with CHECKED_MUL_unat [OF n(1)] show ?thesis by simp
  qed
  with k show ?thesis by blast
qed

theorem volume_read_medium_witness:
  "\<exists>r s' v'. volume_read (driver mbr_device) (pstate mbr_state) (small_device mbr_device) 510 2 = Inr (r, s', v') \<and>
     r = Some (volume_bytes (medium mbr_device) (small_device mbr_device) 510 2)"
proof -
  have ok: "cache_ok (medium mbr_device) (small_device mbr_device)" "volume_sane (small_device mbr_device)"
    using mbr_state_ok by (simp_all add: lookup_ok_def part_ok_def dev_ok_def)
  have "sect_count (small_device mbr_device) \<noteq> -1" by (simp add: small_device_def)
  from volume_read_medium [OF _ driver_serves ok this] small_read_volume [of mbr_device 2 510]
  show ?thesis by fastforce
qed

section \<open>GUID tables\<close>

text \<open>
  C19: \<open>gpt_locate_header\<close> only returns a verified table. The header carries the signature,
  the revision and its own address, its CRC and the CRC of the array of entries match the
  medium, and the array lies on the device and outside the usable blocks; this also holds when
  the answer comes from the memo, which is kept true.
\<close>

theorem gpt_locate_header_verified:
  assumes "gpt_locate_header disk st = Inr (r, st')" and "part_ok disk D st"
  shows "part_ok disk D st' \<and> uncached (dev st') = uncached (dev st) \<and>
    (\<forall>h lb. r = Some (h, lb) \<longrightarrow> (\<exists>lba. lb_guess lb \<and> h = dev_bytes D st (unat lba * nat lb) 92 \<and>
       header_valid D st h lba lb \<and> array_valid D st h lba lb))"
  using gpt_locate_header_ok [OF assms] unfolding keeps_def gpt_valid_def by blast

theorem gpt_locate_header_verified_witness:
  "\<exists>st'. gpt_locate_header (driver gpt_device) gpt_state = Inr (Some (gpt_header, 512), st') \<and>
     (\<exists>lba. array_valid (medium gpt_device) gpt_state gpt_header lba 512)"
  using gpt_locate_header_verified [OF gpt_locates, of "driver gpt_device" "medium gpt_device"] gpt_state_ok gpt_locates
  by (auto simp: lookup_ok_def)

text \<open>
  C21: a partition reported by \<open>gpt_get_part\<close> is the one its entry describes: the entry is
  in use and belongs to a verified table, and the volume's sectors are the entry's inclusive
  range of blocks, converted to sectors of 512 bytes.
\<close>

theorem gpt_get_part_entry:
  assumes "gpt_get_part disk st i = Inr (Found p, st')" and "part_ok disk D st" and "0 \<le> i" "i < 2 ^ 31"
  shows "\<exists>h lba lb. gpt_valid D st h lba lb \<and> nat i < unat (gh_number_of_entries h) \<and>
     (let e = gpt_entry D st h lb (nat i)
      in take 16 e \<noteq> replicate 16 0 \<and> unat (first_sect p) * 512 = unat (le64_at e 32) * nat lb \<and>
         unat (sect_count p) * 512 = (unat (le64_at e 40) - unat (le64_at e 32) + 1) * nat lb)"
  using gpt_get_part_ok [OF assms] unfolding Let_def by blast

theorem gpt_get_part_entry_witness:
  "\<exists>p st'. gpt_get_part (driver gpt_device) gpt_state 0 = Inr (Found p, st') \<and>
     (\<exists>h lba lb. gpt_valid (medium gpt_device) gpt_state h lba lb \<and> 0 < unat (gh_number_of_entries h))"
  using gpt_get_part_entry [OF gpt_gets, of "driver gpt_device" "medium gpt_device"] gpt_state_ok gpt_gets
  by (fastforce simp: lookup_ok_def)


section \<open>Every table\<close>

text \<open>
  C18: every partition \<open>part_get\<close> reports lies on its device, whether it comes from a GUID
  table, a primary entry or a chain of extended boot records, carries the number asked for,
  starts with an empty cache and can itself be read as a volume; the lookup leaves the device,
  the memo and the extended partition's cache in order for the next one.
\<close>

theorem part_get_on_device:
  assumes "part_get disk st i = Inr (r, st')" and "lookup_ok disk D st" and "i < 2 ^ 31"
  shows "lookup_ok disk D st' \<and> uncached (dev st') = uncached (dev st) \<and>
    (\<forall>p. r = Found p \<longrightarrow> partition p = i + 1 \<and> volume_sane p \<and> cache_ok D p \<and> 0 < unat (sect_count p) \<and>
       unat (first_sect p) + unat (sect_count p) \<le> unat (sect_count (dev st)))"
  using part_get_ok [OF assms] unfolding retains_def partition_of_def cache_ok_def by auto

theorem part_get_on_device_witness:
  "\<exists>p st'. part_get (driver mbr_device) mbr_state 0 = Inr (Found p, st') \<and> partition p = 1 \<and>
     lookup_ok (driver mbr_device) (medium mbr_device) st'"
  using part_get_on_device [OF mbr_gets mbr_state_ok] mbr_gets [of "driver mbr_device"] by fastforce

text \<open>
  C22: on a device without a GUID table, the first four partitions are the four entries of the
  boot record: the entry has a type, and its start and length, scaled from the device's sectors,
  are the volume's.
\<close>

theorem mbr_primary_entry:
  assumes "mbr_get_part disk st i = Inr (Found p, st')" and "lookup_ok disk D st" and "0 \<le> i" "i \<le> 3"
  shows "mbr_entry D st (nat i) ! 4 \<noteq> 0 \<and>
    first_sect p = ucast (le32_at (mbr_entry D st (nat i)) 8) * mbr_mult (dev st) \<and>
    sect_count p = ucast (le32_at (mbr_entry D st (nat i)) 12) * mbr_mult (dev st)"
  using mbr_get_part_ok [OF assms(1-3)] assms(4) unfolding primary_range_def by blast

theorem mbr_primary_entry_witness:
  "\<exists>p st'. mbr_get_part (driver mbr_device) mbr_state 0 = Inr (Found p, st') \<and>
     mbr_entry (medium mbr_device) mbr_state 0 ! 4 \<noteq> 0"
  using mbr_primary_entry [OF mbr_gets_primary mbr_state_ok] mbr_gets_primary [of "driver mbr_device"] by fastforce

end
