(* ===== verification/Fat32.thy ===== *)
theory Fat32
  imports Reader Cstring
begin

text \<open>
  The FAT file system, \<^verbatim>\<open>src/common/fs/fat32.s2.c\<close>: the boot sector, cluster chains,
  directories with long names, path lookup and reading. Buffers are byte lists beside the
  address the allocator gave them; directory entries are their 32 bytes. \<^const>\<open>None\<close> is the
  error return (a null pointer, a nonzero code, \<open>false\<close>).
\<close>

definition chars :: "u8 list \<Rightarrow> string" where
  "chars bs = map (\<lambda>b. char_of (unat b)) bs"

section \<open>The boot sector\<close>

record fat32_context =
  fat_type :: int
  bytes_per_sector :: u16
  sectors_per_cluster :: u8
  reserved_sectors :: u16
  number_of_fats :: u8
  hidden_sectors :: u32
  sectors_per_fat :: u32
  fat_start_lba :: u32
  data_start_lba :: u32
  root_directory_cluster :: u32
  root_entries :: u16
  root_start :: u32
  root_size :: u32

definition fat32_signed :: "u8 list \<Rightarrow> bool" where
  "fat32_signed bpb \<longleftrightarrow> strncmp (chars (drop 0x36 bpb)) ''FAT'' 3 = 0 \<or>
     strncmp (chars (drop 0x52 bpb)) ''FAT'' 3 = 0 \<or> strncmp (chars (drop 0x03 bpb)) ''FAT32'' 5 = 0"

definition fat32_type_of :: "u64 \<Rightarrow> int" where
  "fat32_type_of clusters_count = (if clusters_count < 4085 then 12 else if clusters_count < 65525 then 16 else 32)"

abbreviation bpb_bps :: "u8 list \<Rightarrow> u16" where "bpb_bps b \<equiv> le16_at b 11"
abbreviation bpb_spc :: "u8 list \<Rightarrow> u8" where "bpb_spc b \<equiv> b ! 13"
abbreviation bpb_reserved :: "u8 list \<Rightarrow> u16" where "bpb_reserved b \<equiv> le16_at b 14"
abbreviation bpb_fats :: "u8 list \<Rightarrow> u8" where "bpb_fats b \<equiv> b ! 16"
abbreviation bpb_root_entries :: "u8 list \<Rightarrow> u16" where "bpb_root_entries b \<equiv> le16_at b 17"
abbreviation bpb_sectors_16 :: "u8 list \<Rightarrow> u16" where "bpb_sectors_16 b \<equiv> le16_at b 19"
abbreviation bpb_fat_16 :: "u8 list \<Rightarrow> u16" where "bpb_fat_16 b \<equiv> le16_at b 22"
abbreviation bpb_sectors_32 :: "u8 list \<Rightarrow> u32" where "bpb_sectors_32 b \<equiv> le32_at b 32"
abbreviation bpb_fat_32 :: "u8 list \<Rightarrow> u32" where "bpb_fat_32 b \<equiv> le32_at b 36"

definition bpb_valid :: "u8 list \<Rightarrow> bool" where
  "bpb_valid b \<longleftrightarrow> bpb_spc b \<in> set [1, 2, 4, 8, 16, 32, 64, 128] \<and> bpb_bps b \<in> set [512, 1024, 2048, 4096] \<and>
     \<not> (bpb_fats b = 0 \<or> bpb_fats b > 4) \<and> bpb_reserved b \<noteq> 0"

text \<open>The number of data clusters, which decides the type of the FAT.\<close>

definition bpb_clusters :: "u8 list \<Rightarrow> u64 option" where
  "bpb_clusters b =
     (let root_dir_sects = (ucast (bpb_root_entries b) * 32 + (ucast (bpb_bps b) - 1)) div ucast (bpb_bps b);
          total_sects = (if bpb_sectors_16 b \<noteq> 0 then ucast (bpb_sectors_16 b) else ucast (bpb_sectors_32 b));
          spf = (if bpb_fat_16 b \<noteq> 0 then ucast (bpb_fat_16 b) else ucast (bpb_fat_32 b));
          metadata_sects = ucast (bpb_reserved b) + ucast (bpb_fats b) * spf + root_dir_sects
      in if metadata_sects \<ge> total_sects then None
         else Some ((total_sects - metadata_sects) div ucast (bpb_spc b)))"

text \<open>Where the root directory and the data start.\<close>

definition fat32_layout :: "u8 list \<Rightarrow> int \<Rightarrow> u32 \<Rightarrow> fat32_context option" where
  "fat32_layout b type fat_sectors =
     (let root_start_64 = ucast (bpb_reserved b) + ucast (bpb_fats b) * ucast fat_sectors :: u64
      in if root_start_64 > 0xffffffff then None
         else case DIV_ROUNDUP (ucast (bpb_root_entries b) * 32 :: u64) (ucast (bpb_bps b)) of
           None \<Rightarrow> None
         | Some rsize \<Rightarrow>
             (case (if type = 32 then Some (ucast root_start_64) else CHECKED_ADD (ucast root_start_64) (ucast rsize)) of
                None \<Rightarrow> None
              | Some data_start \<Rightarrow>
                  Some \<lparr>fat_type = type, bytes_per_sector = bpb_bps b, sectors_per_cluster = bpb_spc b,
                    reserved_sectors = bpb_reserved b, number_of_fats = bpb_fats b,
                    hidden_sectors = le32_at b 28, sectors_per_fat = fat_sectors,
                    fat_start_lba = ucast (bpb_reserved b), data_start_lba = data_start,
                    root_directory_cluster = le32_at b 44, root_entries = bpb_root_entries b,
                    root_start = ucast root_start_64, root_size = ucast rsize\<rparr>))"

definition fat32_parse :: "u8 list \<Rightarrow> fat32_context option" where
  "fat32_parse b =
     (if \<not> fat32_signed b then None
      else if \<not> bpb_valid b then None
      else case bpb_clusters b of
        None \<Rightarrow> None
      | Some clusters_count \<Rightarrow>
          (let type = fat32_type_of clusters_count;
               fat_sectors = (if type = 32 then bpb_fat_32 b else ucast (bpb_fat_16 b))
           in if fat_sectors = 0 then None
              else if type \<noteq> 32 \<and> bpb_root_entries b = 0 then None
              else fat32_layout b type fat_sectors))"

definition fat32_init_context :: "disk \<Rightarrow> vstate \<Rightarrow> (fat32_context option \<times> vstate) outcome" where
  "fat32_init_context disk st =
     bindo (vread disk st 0 512) (\<lambda>r st1. Inr (case r of None \<Rightarrow> None | Some bpb \<Rightarrow> fat32_parse bpb, st1))"

section \<open>The file allocation table\<close>

abbreviation fat_bytes :: "fat32_context \<Rightarrow> u64" where
  "fat_bytes c \<equiv> ucast (sectors_per_fat c) * ucast (bytes_per_sector c)"

definition fat_read ::
  "disk \<Rightarrow> fat32_context \<Rightarrow> vstate \<Rightarrow> u64 \<Rightarrow> u64 \<Rightarrow> (u8 list \<Rightarrow> u32) \<Rightarrow> (u32 option \<times> vstate) outcome" where
  "fat_read disk c st offset width f =
     (if offset + width > fat_bytes c then Inr (None, st)
      else bindo (vread disk st (ucast (fat_start_lba c) * ucast (bytes_per_sector c) + offset) width)
             (\<lambda>r st1. Inr (map_option f r, st1)))"

definition read_cluster_from_map :: "disk \<Rightarrow> fat32_context \<Rightarrow> vstate \<Rightarrow> u32 \<Rightarrow> (u32 option \<times> vstate) outcome" where
  "read_cluster_from_map disk c st cluster =
     (if fat_type c = 12 then
        fat_read disk c st (ucast cluster + ucast (cluster div 2)) 2
          (\<lambda>b. ucast (if cluster mod 2 = 0 then le16_at b 0 AND 0xfff else drop_bit 4 (le16_at b 0)))
      else if fat_type c = 16 then fat_read disk c st (ucast cluster * 2) 2 (\<lambda>b. ucast (le16_at b 0))
      else if fat_type c = 32 then fat_read disk c st (ucast cluster * 4) 4 (\<lambda>b. le32_at b 0 AND 0x0fffffff)
      else Inl ''unreachable'')"

section \<open>Cluster chains\<close>

definition cluster_limit :: "fat32_context \<Rightarrow> u32" where
  "cluster_limit c = (if fat_type c = 12 then 0xfef else 0) OR (if fat_type c = 16 then 0xffef else 0) OR
     (if fat_type c = 32 then 0xfffffef else 0)"

abbreviation FAT32_MAX_CHAIN_LENGTH :: u64 where "FAT32_MAX_CHAIN_LENGTH \<equiv> 16777216"

definition max_clusters :: "fat32_context \<Rightarrow> u64" where
  "max_clusters c =
     (let m = ucast (cluster_limit c - 1); m1 = (if m > FAT32_MAX_CHAIN_LENGTH then FAT32_MAX_CHAIN_LENGTH else m);
          entries = (if fat_type c = 12 then (fat_bytes c * 2) div 3
                     else if fat_type c = 16 then fat_bytes c div 2 else fat_bytes c div 4)
      in if entries < m1 then entries else m1)"

definition readable_cluster_limit :: "fat32_context \<Rightarrow> volume \<Rightarrow> u64 option" where
  "readable_cluster_limit c v =
     (if sect_count v = -1 then Some (ucast (cluster_limit c))
      else case CHECKED_MUL (sect_count v) 512 of
        None \<Rightarrow> None
      | Some n \<Rightarrow>
          (let volume_sectors = n div ucast (bytes_per_sector c);
               data_clusters = (if volume_sectors > ucast (data_start_lba c)
                  then (volume_sectors - ucast (data_start_lba c)) div ucast (sectors_per_cluster c) else 0)
           in Some (if data_clusters + 1 < ucast (cluster_limit c) then data_clusters + 1 else ucast (cluster_limit c))))"

text \<open>The first pass: the number of clusters up to the end mark, at most the given bound.\<close>

function count_chain ::
  "disk \<Rightarrow> fat32_context \<Rightarrow> u64 \<Rightarrow> nat \<Rightarrow> vstate \<Rightarrow> nat \<Rightarrow> u32 \<Rightarrow> (nat option \<times> vstate) outcome" where
  "count_chain disk c readable limit st chain_length cluster =
     (if \<not> chain_length \<le> limit then Inr (None, st)
      else if ucast cluster > readable then Inr (None, st)
      else bindo (read_cluster_from_map disk c st cluster) (\<lambda>r st1.
        case r of
          None \<Rightarrow> Inr (None, st1)
        | Some cluster' \<Rightarrow>
            if cluster' < 0x2 \<or> cluster' > cluster_limit c then Inr (Some chain_length, st1)
            else count_chain disk c readable limit st1 (chain_length + 1) cluster'))"
  by pat_completeness auto
termination
  by (relation "measure (\<lambda>(disk, c, readable, limit, st, n, cluster). Suc limit - n)") auto

declare count_chain.simps [simp del]

text \<open>The second pass: the clusters themselves.\<close>

fun fill_chain :: "disk \<Rightarrow> fat32_context \<Rightarrow> vstate \<Rightarrow> u32 \<Rightarrow> nat \<Rightarrow> (u32 list option \<times> vstate) outcome" where
  "fill_chain disk c st cluster 0 = Inr (Some [], st)"
| "fill_chain disk c st cluster (Suc n) =
     bindo (read_cluster_from_map disk c st cluster) (\<lambda>r st1.
       case r of
         None \<Rightarrow> Inr (None, st1)
       | Some cluster' \<Rightarrow>
           bindo (fill_chain disk c st1 cluster' n) (\<lambda>rest st2. Inr (map_option (\<lambda>cs. cluster # cs) rest, st2)))"

definition cache_cluster_chain ::
  "disk \<Rightarrow> fat32_context \<Rightarrow> vstate \<Rightarrow> u32 \<Rightarrow> ((u64 \<times> u32 list) option \<times> vstate) outcome" where
  "cache_cluster_chain disk c st initial_cluster =
     (if initial_cluster < 0x2 \<or> initial_cluster > cluster_limit c then Inr (None, st)
      else case readable_cluster_limit c (snd st) of
        None \<Rightarrow> Inr (None, st)
      | Some readable \<Rightarrow>
          bindo (count_chain disk c readable (unat (max_clusters c)) st 1 initial_cluster) (\<lambda>r st1.
            case r of
              None \<Rightarrow> Inr (None, st1)
            | Some chain_length \<Rightarrow>
                bindo (valloc_counted st1 (of_nat chain_length) 4) (\<lambda>p st2.
                  bindo (fill_chain disk c st2 initial_cluster chain_length) (\<lambda>chain st3.
                    case chain of
                      None \<Rightarrow> bindo (vfree st3 p (of_nat chain_length * 4)) (\<lambda>_ st4. Inr (None, st4))
                    | Some cs \<Rightarrow> Inr (Some (p, cs), st3)))))"

definition block_size :: "fat32_context \<Rightarrow> u64" where
  "block_size c = ucast (sectors_per_cluster c) * ucast (bytes_per_sector c)"

definition cluster_base :: "fat32_context \<Rightarrow> u32 \<Rightarrow> u64" where
  "cluster_base c cluster =
     (ucast (data_start_lba c) + ucast (cluster - 2) * ucast (sectors_per_cluster c)) * ucast (bytes_per_sector c)"

function read_cluster_chain ::
  "disk \<Rightarrow> fat32_context \<Rightarrow> u32 list \<Rightarrow> vstate \<Rightarrow> u64 \<Rightarrow> u64 \<Rightarrow> u64 \<Rightarrow> (u8 list option \<times> vstate) outcome" where
  "read_cluster_chain disk c cluster_chain st loc cnt progress =
     (if \<not> progress < cnt then Inr (Some [], st)
      else if block_size c = 0 then Inl ''division by zero''
      else (let block = (loc + progress) div block_size c
            in if unat block \<ge> length cluster_chain then Inr (None, st)
               else if cluster_chain ! unat block < 2 then Inr (None, st)
               else (let offset = (loc + progress) mod block_size c;
                         chunk = (if cnt - progress > block_size c - offset then block_size c - offset else cnt - progress)
                     in bindo (vread disk st (cluster_base c (cluster_chain ! unat block) + offset) chunk) (\<lambda>r st1.
                          case r of
                            None \<Rightarrow> Inr (None, st1)
                          | Some piece \<Rightarrow>
                              bindo (read_cluster_chain disk c cluster_chain st1 loc cnt (progress + chunk))
                                (\<lambda>rest st2. Inr (map_option (\<lambda>bs. piece @ bs) rest, st2))))))"
  by pat_completeness auto
termination
proof (relation "measure (\<lambda>(d, c, ch, s, loc, cnt, p). unat cnt - unat p)", goal_cases)
  case (2 disk c ch st loc cnt progress block offset chunk r st1 piece)
  then have "offset < block_size c" by (simp add: word_mod_less)
  from chunk_bounds [OF _ this, of progress cnt] 2 show ?case by auto
qed simp

declare read_cluster_chain.simps [simp del]

section \<open>Names\<close>

definition fat32_lfn_checksum :: "u8 list \<Rightarrow> u8" where
  "fat32_lfn_checksum sfn =
     foldl (\<lambda>s b. (if s AND 1 \<noteq> 0 then 0x80 else 0) + drop_bit 1 s + b) 0 (take 11 sfn)"

text \<open>The low bytes of \<open>size\<close> characters, from character \<open>i\<close> on, as long as they fit.\<close>

fun fat32_lfncpy :: "u8 list \<Rightarrow> nat \<Rightarrow> u8 list \<Rightarrow> nat \<Rightarrow> nat list \<Rightarrow> u8 list" where
  "fat32_lfncpy dest dest_size source dest_offset [] = dest"
| "fat32_lfncpy dest dest_size source dest_offset (i # is) =
     (if dest_offset + i \<ge> dest_size then dest
      else fat32_lfncpy (dest[dest_offset + i := source ! (i * 2)]) dest_size source dest_offset is)"

fun name_8_3 :: "u8 list \<Rightarrow> nat \<Rightarrow> bool \<Rightarrow> string \<Rightarrow> u8 list option" where
  "name_8_3 dest j ext [] = Some dest"
| "name_8_3 dest j ext (ch # src) =
     (if ch = CHR ''.'' then (if ext then None else name_8_3 dest 8 True src)
      else if j \<ge> 11 \<or> (j \<ge> 8 \<and> \<not> ext) then None
      else name_8_3 (dest[j := word_of_int (toupper (code ch))]) (j + 1) ext src)"

definition fat32_filename_to_8_3 :: "string \<Rightarrow> u8 list option" where
  "fat32_filename_to_8_3 src = name_8_3 (replicate 11 0x20) 0 False src"

text \<open>The name collected from a set of long entries, cut after its last non-space.\<close>

fun cut_spaces :: "u8 list \<Rightarrow> nat \<Rightarrow> u8 list" where
  "cut_spaces buf 0 = buf[0 := 0]"
| "cut_spaces buf (Suc j) = (if buf ! j \<noteq> 0x20 then buf[Suc j := 0] else cut_spaces buf j)"

section \<open>Directories\<close>

abbreviation FAT32_LFN_MAX_FILENAME_LENGTH :: nat where "FAT32_LFN_MAX_FILENAME_LENGTH \<equiv> 261"
abbreviation entry_attribute :: "u8 list \<Rightarrow> u8" where "entry_attribute e \<equiv> e ! 11"

record lfn_state =
  current_lfn :: "u8 list"
  lfn_expected :: nat
  lfn_checksum :: u8

text \<open>One long entry: the state after it, and whether it completed a set.\<close>

definition lfn_step :: "lfn_state \<Rightarrow> u8 list \<Rightarrow> lfn_state \<times> bool" where
  "lfn_step l e =
     (let seq_num = unat (e ! 0 AND 0x1f); checksum = e ! 13;
          l1 = (if e ! 0 AND 0x40 \<noteq> 0
                then \<lparr>current_lfn = replicate FAT32_LFN_MAX_FILENAME_LENGTH 0x20, lfn_expected = seq_num,
                      lfn_checksum = checksum\<rparr> else l)
      in if seq_num = 0 \<or> seq_num \<noteq> lfn_expected l1 \<or> checksum \<noteq> lfn_checksum l1
         then (l1\<lparr>lfn_expected := 0\<rparr>, False)
         else (let lfn_index = (seq_num - 1) * 13
               in if lfn_index \<ge> 260 then (l1\<lparr>lfn_expected := 0\<rparr>, False)
                  else (let b1 = fat32_lfncpy (current_lfn l1) FAT32_LFN_MAX_FILENAME_LENGTH (drop 1 e) lfn_index [0..<5];
                            b2 = fat32_lfncpy b1 FAT32_LFN_MAX_FILENAME_LENGTH (drop 14 e) (lfn_index + 5) [0..<6];
                            b3 = fat32_lfncpy b2 FAT32_LFN_MAX_FILENAME_LENGTH (drop 28 e) (lfn_index + 11) [0..<2]
                        in if seq_num \<noteq> 1 then (l1\<lparr>current_lfn := b3, lfn_expected := lfn_expected l1 - 1\<rparr>, False)
                           else (l1\<lparr>current_lfn := cut_spaces b3 260, lfn_expected := lfn_expected l1 - 1\<rparr>, True))))"

text \<open>The short entry a completed set names, if it is the one the set was made for.\<close>

definition named_by_set :: "u8 \<Rightarrow> u8 list list \<Rightarrow> u8 list option" where
  "named_by_set checksum es =
     (case es of
        [] \<Rightarrow> None
      | sfn # _ \<Rightarrow> if sfn ! 0 = 0x00 \<or> sfn ! 0 = 0xE5 \<or> entry_attribute sfn = 0x0F \<or>
            fat32_lfn_checksum sfn \<noteq> checksum then None else Some sfn)"

fun dir_scan :: "bool \<Rightarrow> string \<Rightarrow> lfn_state \<Rightarrow> u8 list list \<Rightarrow> u8 list option" where
  "dir_scan case_insensitive name l [] = None"
| "dir_scan case_insensitive name l (e # es) =
     (if e ! 0 = 0x00 then None
      else if entry_attribute e = 0x0F then
        (if e ! 0 = 0xE5 then dir_scan case_insensitive name (l\<lparr>lfn_expected := 0\<rparr>) es
         else (let (l1, complete) = lfn_step l e
               in if complete \<and>
                     (if case_insensitive then strcasecmp else strcmp) (chars (current_lfn l1)) name = 0
                  then (case named_by_set (lfn_checksum l1) es of
                          Some sfn \<Rightarrow> Some sfn
                        | None \<Rightarrow> dir_scan case_insensitive name (l1\<lparr>lfn_expected := 0\<rparr>) es)
                  else dir_scan case_insensitive name l1 es))
      else if entry_attribute e AND 0x08 \<noteq> 0 then dir_scan case_insensitive name l es
      else (case fat32_filename_to_8_3 name of
              None \<Rightarrow> dir_scan case_insensitive name l es
            | Some fn \<Rightarrow> if strncmp (chars (take 11 e)) (chars fn) 11 = 0 then Some e
                         else dir_scan case_insensitive name l es))"

text \<open>The volume label, when \<open>fat32_open_in\<close> is called without a name.\<close>

fun strip_label :: "u8 list \<Rightarrow> nat \<Rightarrow> u8 list" where
  "strip_label r 0 = r"
| "strip_label r (Suc j) = (if r ! j = 0x20 then strip_label (r[j := 0]) j else r)"

fun label_scan :: "u8 list list \<Rightarrow> u8 list option" where
  "label_scan [] = None"
| "label_scan (e # es) =
     (if e ! 0 = 0x00 then None
      else if entry_attribute e \<noteq> 0x08 then label_scan es
      else Some (strip_label (take 11 e @ [0]) 11))"

definition entries_of :: "u8 list \<Rightarrow> u8 list list" where
  "entries_of bs = map (\<lambda>i. take 32 (drop (32 * i) bs)) [0..<length bs div 32]"

abbreviation MAX_DIRECTORY :: u64 where "MAX_DIRECTORY \<equiv> 268435456"

text \<open>
  A directory in memory: its address, its size and its bytes. A directory is named by the two
  halves of its first cluster; \<^const>\<open>None\<close> is the root of FAT12 and FAT16.
\<close>

definition load_chain_directory ::
  "disk \<Rightarrow> fat32_context \<Rightarrow> vstate \<Rightarrow> u32 \<Rightarrow> ((u64 \<times> u64 \<times> u8 list) option \<times> vstate) outcome" where
  "load_chain_directory disk c st cluster =
     bindo (cache_cluster_chain disk c st cluster) (\<lambda>r st1.
       case r of
         None \<Rightarrow> Inr (None, st1)
       | Some (p, chain) \<Rightarrow>
           (let drop_chain = (\<lambda>st. bindo (vfree st p (of_nat (length chain) * 4)) (\<lambda>_ st'. Inr (None, st')))
            in case CHECKED_MUL (of_nat (length chain)) (block_size c) of
                 None \<Rightarrow> drop_chain st1
               | Some alloc_size \<Rightarrow>
                   if alloc_size > MAX_DIRECTORY then drop_chain st1
                   else bindo (valloc st1 alloc_size) (\<lambda>d st2.
                     bindo (read_cluster_chain disk c chain st2 0 alloc_size 0) (\<lambda>r2 st3.
                       case r2 of
                         None \<Rightarrow> bindo (vfree st3 d alloc_size) (\<lambda>_ st4. drop_chain st4)
                       | Some bs \<Rightarrow> bindo (vfree st3 p (of_nat (length chain) * 4)) (\<lambda>_ st4.
                           Inr (Some (d, alloc_size, bs), st4))))))"

definition load_root_directory ::
  "disk \<Rightarrow> fat32_context \<Rightarrow> vstate \<Rightarrow> ((u64 \<times> u64 \<times> u8 list) option \<times> vstate) outcome" where
  "load_root_directory disk c st =
     (case DIV_ROUNDUP (ucast (root_entries c) * 32) (block_size c) of
        None \<Rightarrow> Inr (None, st)
      | Some dir_chain_len \<Rightarrow>
          (case CHECKED_MUL dir_chain_len (block_size c) of
             None \<Rightarrow> Inr (None, st)
           | Some alloc_size \<Rightarrow>
               if alloc_size > MAX_DIRECTORY then Inr (None, st)
               else bindo (valloc st alloc_size) (\<lambda>d st1.
                 bindo (vread disk st1 (ucast (root_start c) * ucast (bytes_per_sector c)) (ucast (root_entries c) * 32))
                   (\<lambda>r st2.
                     case r of
                       None \<Rightarrow> bindo (vfree st2 d alloc_size) (\<lambda>_ st3. Inr (None, st3))
                     | Some bs \<Rightarrow> Inr (Some (d, alloc_size, bs @ replicate (unat alloc_size - length bs) 0), st2)))))"

definition load_directory ::
  "disk \<Rightarrow> fat32_context \<Rightarrow> vstate \<Rightarrow> (u16 \<times> u16) option \<Rightarrow> ((u64 \<times> u64 \<times> u8 list) option \<times> vstate) outcome" where
  "load_directory disk c st directory =
     (case directory of
        Some (low, high) \<Rightarrow>
          load_chain_directory disk c st (if fat_type c = 32 then ucast low OR push_bit 16 (ucast high) else ucast low)
      | None \<Rightarrow> load_root_directory disk c st)"

definition search_directory ::
  "disk \<Rightarrow> fat32_context \<Rightarrow> vstate \<Rightarrow> (u16 \<times> u16) option
     \<Rightarrow> (u8 list list \<Rightarrow> vstate \<Rightarrow> ('a option \<times> vstate) outcome) \<Rightarrow> ('a option \<times> vstate) outcome" where
  "search_directory disk c st directory search =
     bindo (load_directory disk c st directory) (\<lambda>r st1.
       case r of
         None \<Rightarrow> Inr (None, st1)
       | Some (d, alloc_size, bs) \<Rightarrow>
           bindo (search (entries_of bs) st1) (\<lambda>found st2.
             bindo (vfree st2 d alloc_size) (\<lambda>_ st3. Inr (found, st3))))"

definition fat32_open_in ::
  "disk \<Rightarrow> bool \<Rightarrow> fat32_context \<Rightarrow> vstate \<Rightarrow> (u16 \<times> u16) option \<Rightarrow> string \<Rightarrow> (u8 list option \<times> vstate) outcome" where
  "fat32_open_in disk case_insensitive c st directory name =
     search_directory disk c st directory (\<lambda>es st1.
       Inr (dir_scan case_insensitive name
              \<lparr>current_lfn = replicate FAT32_LFN_MAX_FILENAME_LENGTH 0, lfn_expected = 0, lfn_checksum = 0\<rparr> es, st1))"

definition root_directory :: "fat32_context \<Rightarrow> (u16 \<times> u16) option" where
  "root_directory c =
     (if fat_type c = 32
      then Some (ucast (root_directory_cluster c AND 0xffff), ucast (drop_bit 16 (root_directory_cluster c)))
      else None)"

definition fat32_get_label :: "disk \<Rightarrow> vstate \<Rightarrow> (u8 list option \<times> vstate) outcome" where
  "fat32_get_label disk st =
     bindo (fat32_init_context disk st) (\<lambda>ctx st1.
       case ctx of
         None \<Rightarrow> Inr (None, st1)
       | Some c \<Rightarrow>
           search_directory disk c st1 (root_directory c) (\<lambda>es st2.
             case label_scan es of
               None \<Rightarrow> Inr (None, st2)
             | Some r \<Rightarrow> bindo (valloc st2 12) (\<lambda>_ st3. Inr (Some r, st3))))"

section \<open>Opening and reading a file\<close>

text \<open>
  The next component of the path: its length, and whether a slash follows. \<open>idx\<close> is
  \<open>current_index\<close>, an \<open>unsigned int\<close>.
\<close>

function path_component :: "nat \<Rightarrow> nat \<Rightarrow> string \<Rightarrow> (nat \<times> bool) option" where
  "path_component idx i p =
     (if \<not> i < 260 then None
      else if idx + i \<ge> 2 ^ 32 then None
      else if deref p = NUL then Some (i, False)
      else if deref p = CHR ''/'' then (if idx + (i + 1) \<ge> 2 ^ 32 then None else Some (i, True))
      else path_component idx (i + 1) (tl p))"
  by pat_completeness auto
termination
  by (relation "measure (\<lambda>(idx, i, p). 260 - i)") auto

declare path_component.simps [simp del]

lemma path_component_slash:
  "path_component idx i p = Some (j, True) \<Longrightarrow> i \<le> j \<and> j - i < length p"
proof (induction idx i p rule: path_component.induct)
  case (1 idx i p)
  show ?case
  proof (cases "i < 260 \<and> idx + i < 2 ^ 32 \<and> deref p \<noteq> NUL \<and> deref p \<noteq> CHR ''/''")
    case True
    with "1.prems" have "path_component idx (i + 1) (tl p) = Some (j, True)"
      by (simp add: path_component.simps [of idx i p] not_le)
    with "1.IH" True have "i + 1 \<le> j \<and> j - (i + 1) < length (tl p)" by simp
    with True deref_nonempty [of p] show ?thesis by auto
  next
    case False
    with "1.prems" have "j = i" "deref p = CHR ''/''"
      by (auto simp: path_component.simps [of idx i p] split: if_splits)
    then show ?thesis using deref_nonempty [of p] by simp
  qed
qed

function open_walk ::
  "disk \<Rightarrow> bool \<Rightarrow> fat32_context \<Rightarrow> vstate \<Rightarrow> (u16 \<times> u16) option \<Rightarrow> nat \<Rightarrow> string \<Rightarrow> (u8 list option \<times> vstate) outcome" where
  "open_walk disk case_insensitive c st directory idx p =
     (case path_component idx 0 p of
        None \<Rightarrow> Inr (None, st)
      | Some (i, expect_directory) \<Rightarrow>
          bindo (fat32_open_in disk case_insensitive c st directory (take i p)) (\<lambda>r st1.
            case r of
              None \<Rightarrow> Inr (None, st1)
            | Some file \<Rightarrow>
                if expect_directory then
                  (if entry_attribute file AND 0x10 = 0 then Inr (None, st1)
                   else open_walk disk case_insensitive c st1 (Some (le16_at file 26, le16_at file 20))
                          (idx + (i + 1)) (drop (i + 1) p))
                else Inr (Some file, st1)))"
  by pat_completeness auto
termination
  by (relation "measure (\<lambda>(disk, ci, c, st, d, idx, p). length p)") (auto dest!: path_component_slash)

declare open_walk.simps [simp del]

record fat32_file_handle =
  fat_fd :: u64            \<comment> \<open>the address of the structure\<close>
  fat_context :: fat32_context
  first_cluster :: u32
  size_bytes :: u32
  cluster_chain :: u64     \<comment> \<open>the address of the chain, 0 when there is none\<close>
  chain_clusters :: "u32 list"

abbreviation SIZEOF_FILE_HANDLE :: u64 where "SIZEOF_FILE_HANDLE \<equiv> 80"
abbreviation SIZEOF_FAT32_FILE_HANDLE :: u64 where "SIZEOF_FAT32_FILE_HANDLE \<equiv> 80"

text \<open>The generic handle's address and the file, once its directory entry is found.\<close>

definition fat32_open_entry ::
  "disk \<Rightarrow> fat32_context \<Rightarrow> vstate \<Rightarrow> u8 list \<Rightarrow> ((u64 \<times> fat32_file_handle) option \<times> vstate) outcome" where
  "fat32_open_entry disk c st file =
     bindo (valloc st SIZEOF_FILE_HANDLE) (\<lambda>handle st1.
       bindo (valloc st1 SIZEOF_FAT32_FILE_HANDLE) (\<lambda>fd st2.
         let first = (if fat_type c = 32 then ucast (le16_at file 26) OR push_bit 16 (ucast (le16_at file 20))
                      else ucast (le16_at file 26));
             file_size = le32_at file 28
         in bindo (cache_cluster_chain disk c st2 first) (\<lambda>r st3.
              let (p, chain) = (case r of None \<Rightarrow> (0, []) | Some pc \<Rightarrow> pc)
              in if ucast file_size > of_nat (length chain) * block_size c then
                   bindo (vfree st3 p (of_nat (length chain) * 4)) (\<lambda>_ st4.
                     bindo (vfree st4 fd SIZEOF_FAT32_FILE_HANDLE) (\<lambda>_ st5.
                       bindo (vfree st5 handle SIZEOF_FILE_HANDLE) (\<lambda>_ st6. Inr (None, st6))))
                 else Inr (Some (handle, \<lparr>fat_fd = fd, fat_context = c, first_cluster = first, size_bytes = file_size,
                                  cluster_chain = p, chain_clusters = chain\<rparr>), st3))))"

definition fat32_open ::
  "disk \<Rightarrow> bool \<Rightarrow> vstate \<Rightarrow> string \<Rightarrow> ((u64 \<times> fat32_file_handle) option \<times> vstate) outcome" where
  "fat32_open disk case_insensitive st path =
     bindo (fat32_init_context disk st) (\<lambda>ctx st1.
       case ctx of
         None \<Rightarrow> Inr (None, st1)
       | Some c \<Rightarrow>
           (let p = dropWhile (\<lambda>ch. ch = CHR ''/'') path
            in bindo (open_walk disk case_insensitive c st1 (root_directory c) (length path - length p) p) (\<lambda>r st2.
                 case r of
                   None \<Rightarrow> Inr (None, st2)
                 | Some file \<Rightarrow> fat32_open_entry disk c st2 file)))"

definition fat32_read ::
  "disk \<Rightarrow> fat32_file_handle \<Rightarrow> vstate \<Rightarrow> u64 \<Rightarrow> u64 \<Rightarrow> (u8 list \<times> vstate) outcome" where
  "fat32_read disk f st loc cnt =
     bindo (read_cluster_chain disk (fat_context f) (chain_clusters f) st loc cnt 0) (\<lambda>r st1.
       case r of
         None \<Rightarrow> Inl ''fat32: cluster chain read failed (corrupted filesystem?)''
       | Some bs \<Rightarrow> Inr (bs, st1))"

definition fat32_close :: "fat32_file_handle \<Rightarrow> vstate \<Rightarrow> (unit \<times> vstate) outcome" where
  "fat32_close f st =
     bindo (vfree st (cluster_chain f) (of_nat (length (chain_clusters f)) * 4)) (\<lambda>_ st1.
       vfree st1 (fat_fd f) SIZEOF_FAT32_FILE_HANDLE)"

end
