(* ===== verification/Fat32_Correct.thy ===== *)
theory Fat32_Correct
  imports Fat32
begin

text \<open>
  What the FAT reader delivers: a cluster chain is the path through the table from its first
  cluster to the end mark and visits no cluster twice, and reading it yields the bytes of its
  clusters one after the other.
\<close>

section \<open>Geometry\<close>

definition fat_geometry :: "fat32_context \<Rightarrow> bool" where
  "fat_geometry c \<longleftrightarrow> fat_type c \<in> {12, 16, 32} \<and> unat (bytes_per_sector c) \<in> {512, 1024, 2048, 4096} \<and>
     unat (sectors_per_cluster c) \<in> {1, 2, 4, 8, 16, 32, 64, 128}"

lemma parse_geometry:
  assumes "fat32_parse bpb = Some c"
  shows "fat_geometry c" and "sectors_per_fat c \<noteq> 0" and "reserved_sectors c \<noteq> 0"
    and "number_of_fats c \<noteq> 0" and "fat_type c \<noteq> 32 \<Longrightarrow> root_entries c \<noteq> 0"
proof -
  from assms obtain n t f where l: "fat32_layout bpb t f = Some c" and v: "\<not> \<not> bpb_valid bpb" "f \<noteq> 0"
    "\<not> (t \<noteq> 32 \<and> bpb_root_entries bpb = 0)" "t = fat32_type_of n"
    unfolding fat32_parse_def Let_def by (elim if_NoneE case_NoneE, intro that) (assumption | rule refl)+
  from l have c: "fat_type c = t" "bytes_per_sector c = bpb_bps bpb" "sectors_per_cluster c = bpb_spc bpb"
      "reserved_sectors c = bpb_reserved bpb" "number_of_fats c = bpb_fats bpb" "root_entries c = bpb_root_entries bpb"
      "sectors_per_fat c = f"
    unfolding fat32_layout_def Let_def by (elim if_NoneE case_NoneE; simp only: option.inject; clarsimp)+
  show "fat_geometry c" "sectors_per_fat c \<noteq> 0" "reserved_sectors c \<noteq> 0" "number_of_fats c \<noteq> 0"
    "fat_type c \<noteq> 32 \<Longrightarrow> root_entries c \<noteq> 0"
    using v by (auto simp: c bpb_valid_def fat_geometry_def fat32_type_of_def)
qed

lemma cluster_size_unat:
  assumes "fat_geometry c"
  shows "unat (block_size c) = unat (sectors_per_cluster c) * unat (bytes_per_sector c)"
    and "512 \<le> unat (block_size c)" and "unat (block_size c) \<le> 524288"
proof -
  have "unat (sectors_per_cluster c) * unat (bytes_per_sector c) \<le> 128 * 4096"
    using assms by (intro mult_le_mono) (auto simp: fat_geometry_def)
  moreover have "1 * 512 \<le> unat (sectors_per_cluster c) * unat (bytes_per_sector c)"
    using assms by (intro mult_le_mono) (auto simp: fat_geometry_def)
  ultimately show "unat (block_size c) = unat (sectors_per_cluster c) * unat (bytes_per_sector c)"
    "512 \<le> unat (block_size c)" "unat (block_size c) \<le> 524288"
    by (simp_all add: block_size_def unat_word_ariths unat_ucast_up)
qed

text \<open>Where a cluster lies; the 64-bit computation never wraps.\<close>

lemma cluster_base_unat:
  assumes "fat_geometry c" and "2 \<le> cluster"
  shows "unat (cluster_base c cluster) = unat (data_start_lba c) * unat (bytes_per_sector c) +
      (unat cluster - 2) * unat (block_size c)"
    and "unat (cluster_base c cluster) < 2 ^ 53"
proof -
  let ?n = "unat (data_start_lba c) + (unat cluster - 2) * unat (sectors_per_cluster c)"
  have s: "unat (sectors_per_cluster c) \<le> 128" "unat (bytes_per_sector c) \<le> 4096"
    using assms(1) by (auto simp: fat_geometry_def)
  have cl: "unat (cluster - 2) = unat cluster - 2" using assms(2) by (simp add: unat_sub)
  have lt: "unat (data_start_lba c) < 2 ^ 32" "unat cluster < 2 ^ 32"
    using unsigned_less [of "data_start_lba c", where 'a = nat] unsigned_less [of cluster, where 'a = nat] by simp_all
  have "(unat cluster - 2) * unat (sectors_per_cluster c) \<le> 2 ^ 32 * 128" using lt s by (intro mult_le_mono) auto
  then have n: "?n < 2 ^ 40" using lt by simp
  then have "?n * unat (bytes_per_sector c) \<le> 2 ^ 40 * 4096" using s by (intro mult_le_mono) auto
  then have m: "?n * unat (bytes_per_sector c) < 2 ^ 53" by simp
  have "unat (ucast (data_start_lba c) + ucast (cluster - 2) * ucast (sectors_per_cluster c) :: u64) = ?n"
    using n by (simp add: unat_word_ariths unat_ucast_up cl)
  then have u: "unat (cluster_base c cluster) = ?n * unat (bytes_per_sector c)"
    using m by (simp add: cluster_base_def unat_word_ariths unat_ucast_up)
  then show "unat (cluster_base c cluster) = unat (data_start_lba c) * unat (bytes_per_sector c) +
      (unat cluster - 2) * unat (block_size c)"
    by (simp add: cluster_size_unat(1) [OF assms(1)] algebra_simps)
  show "unat (cluster_base c cluster) < 2 ^ 53" using u m by simp
qed

section \<open>Reading a chain\<close>

definition cluster_bytes :: "(nat \<Rightarrow> u8) \<Rightarrow> vstate \<Rightarrow> fat32_context \<Rightarrow> u32 \<Rightarrow> u8 list" where
  "cluster_bytes D st c k = vol_bytes D st (unat (cluster_base c k)) (unat (block_size c))"

text \<open>The contents of a chain: its clusters, in order.\<close>

definition chain_bytes :: "(nat \<Rightarrow> u8) \<Rightarrow> vstate \<Rightarrow> fat32_context \<Rightarrow> u32 list \<Rightarrow> u8 list" where
  "chain_bytes D st c chain = concat (map (cluster_bytes D st c) chain)"

lemma concat_slice:
  assumes "\<forall>x \<in> set xs. length x = n" and "b < length xs" and "j + k \<le> n"
  shows "take k (drop (b * n + j) (concat xs)) = take k (drop j (xs ! b))"
  using assms
proof (induction xs arbitrary: b)
  case (Cons x xs)
  then show ?case by (cases b) (auto simp: algebra_simps)
qed simp

lemma chain_bytes_length: "length (chain_bytes D st c chain) = length chain * unat (block_size c)"
  by (induction chain) (simp_all add: chain_bytes_def cluster_bytes_def)

lemma chain_bytes_slice:
  assumes "b < length chain" and "j + k \<le> unat (block_size c)"
  shows "take k (drop (b * unat (block_size c) + j) (chain_bytes D st c chain)) =
    vol_bytes D st (unat (cluster_base c (chain ! b)) + j) k"
proof -
  have "take k (drop (b * unat (block_size c) + j) (chain_bytes D st c chain)) =
      take k (drop j (map (cluster_bytes D st c) chain ! b))"
    unfolding chain_bytes_def using assms by (intro concat_slice) (auto simp: cluster_bytes_def)
  moreover have "min k (unat (block_size c) - j) = k" using assms(2) by simp
  ultimately show ?thesis using assms(1) by (simp add: cluster_bytes_def vol_bytes_slice)
qed

lemma stays_chain_bytes: "stays disk D st st' \<Longrightarrow> chain_bytes D st' c = chain_bytes D st c"
  by (simp add: chain_bytes_def cluster_bytes_def [abs_def] stays_bytes fun_eq_iff)

lemma read_chain_from:
  assumes "read_cluster_chain disk c chain st loc cnt progress = Inr (r, st')" and "vol_ok disk D st"
    and "fat_geometry c" and "progress \<le> cnt" and "unat loc + unat cnt < 2 ^ 64"
  shows "stays disk D st st' \<and> (\<forall>bs. r = Some bs \<longrightarrow>
     bs = take (unat cnt - unat progress) (drop (unat loc + unat progress) (chain_bytes D st c chain)) \<and>
     (progress < cnt \<longrightarrow> unat loc + unat cnt \<le> length chain * unat (block_size c)))"
  using assms
proof (induction "unat cnt - unat progress" arbitrary: st progress r rule: less_induct)
  case less
  note unf = read_cluster_chain.simps [of disk c chain st loc cnt progress]
  note bs = cluster_size_unat [OF less.prems(3)]
  show ?case
  proof (cases "progress < cnt")
    case False
    then have "progress = cnt" using less.prems(4) by simp
    with less.prems(1) have "r = Some []" "st' = st" using unf by simp_all
    with \<open>progress = cnt\<close> less.prems(2) show ?thesis by (simp add: stays_refl)
  next
    case True
    define pos where "pos = loc + progress"
    define block where "block = pos div block_size c"
    define offset where "offset = pos mod block_size c"
    define chunk where "chunk = (if cnt - progress > block_size c - offset then block_size c - offset else cnt - progress)"
    have b0: "block_size c \<noteq> 0" using bs(2) by auto
    have lt: "unat progress < unat cnt" using True by (simp add: word_less_nat_alt)
    have upos: "unat pos = unat loc + unat progress"
      using less.prems(5) lt by (simp add: pos_def unat_word_ariths)
    have off: "offset < block_size c" using b0 by (simp add: offset_def word_mod_less)
    note ch = chunk_bounds [OF True off, folded chunk_def]
    have split: "unat pos = unat block * unat (block_size c) + unat offset"
      by (simp add: block_def offset_def unat_div unat_mod)
    show ?thesis
    proof (cases "unat block \<ge> length chain \<or> chain ! unat block < 2")
      case True
      with less.prems(1) \<open>progress < cnt\<close> b0 have "r = None" "st' = st"
        by (auto simp: unf Let_def block_def [symmetric] pos_def [symmetric] split: if_split_asm)
      with less.prems(2) show ?thesis by (simp add: stays_refl)
    next
      case False
      let ?loc = "cluster_base c (chain ! unat block) + offset"
      have "read_cluster_chain disk c chain st loc cnt progress = bindo (vread disk st ?loc chunk) (\<lambda>r st1.
          case r of None \<Rightarrow> Inr (None, st1) | Some piece \<Rightarrow>
            bindo (read_cluster_chain disk c chain st1 loc cnt (progress + chunk))
              (\<lambda>rest st2. Inr (map_option (\<lambda>bs. piece @ bs) rest, st2)))"
        using \<open>progress < cnt\<close> b0 False
        by (subst unf) (simp only: Let_def chunk_def offset_def block_def pos_def de_Morgan_disj not_not if_True if_False simp_thms)
      with less.prems(1) obtain q st1 where rd: "vread disk st ?loc chunk = Inr (q, st1)"
        and rest: "(case q of None \<Rightarrow> Inr (None, st1) | Some piece \<Rightarrow>
           bindo (read_cluster_chain disk c chain st1 loc cnt (progress + chunk))
             (\<lambda>rest st2. Inr (map_option (\<lambda>bs. piece @ bs) rest, st2))) = Inr (r, st')"
        by (auto elim: bindo_InrE)
      have cl: "2 \<le> chain ! unat block" and inb: "unat block < length chain" using False by auto
      note cb = cluster_base_unat(2) [OF less.prems(3) cl]
      have uloc: "unat ?loc = unat (cluster_base c (chain ! unat block)) + unat offset"
        using cb bs(3) off by (simp add: unat_word_ariths word_less_nat_alt)
      have fit: "unat ?loc + unat chunk \<le> 2 ^ 64" using cb bs(3) ch(4) by (simp add: uloc)
      note v = vread_stays [OF rd less.prems(2) fit]
      show ?thesis
      proof (cases q)
        case None
        with rest v(1) show ?thesis by simp
      next
        case (Some piece)
        with rest obtain q2 where rec: "read_cluster_chain disk c chain st1 loc cnt (progress + chunk) = Inr (q2, st')"
          and r: "r = map_option (\<lambda>bs. piece @ bs) q2" by (auto elim: bindo_InrE)
        have "unat cnt - unat (progress + chunk) < unat cnt - unat progress"
          using ch(1-3) lt by simp
        moreover have "progress + chunk \<le> cnt" using ch(2,3) by (simp add: word_le_nat_alt)
        ultimately have IH: "stays disk D st1 st'" "\<And>bs. q2 = Some bs \<Longrightarrow>
            bs = take (unat cnt - unat (progress + chunk)) (drop (unat loc + unat (progress + chunk)) (chain_bytes D st c chain)) \<and>
            (progress + chunk < cnt \<longrightarrow> unat loc + unat cnt \<le> length chain * unat (block_size c))"
          using less.hyps [OF _ rec stays_ok [OF v(1)] less.prems(3) _ less.prems(5)] stays_chain_bytes [OF v(1)] by auto
        have piece: "piece = take (unat chunk) (drop (unat loc + unat progress) (chain_bytes D st c chain))"
          using v(2) [OF Some] chain_bytes_slice [OF inb, of "unat offset" "unat chunk" c D st] ch(4) uloc split upos
          by simp
        have whole: "piece @ take (unat cnt - unat progress - unat chunk)
             (drop (unat loc + unat progress + unat chunk) (chain_bytes D st c chain)) =
           take (unat cnt - unat progress) (drop (unat loc + unat progress) (chain_bytes D st c chain))"
          unfolding piece using ch(3) by (intro slice_append) simp
        have "unat loc + unat cnt \<le> length chain * unat (block_size c)" if "q2 = Some bs" for bs
        proof (cases "progress + chunk < cnt")
          case True
          with IH(2) [OF that] show ?thesis by blast
        next
          case False
          then have "unat cnt = unat progress + unat chunk" using ch(2,3) by (simp add: word_less_nat_alt)
          then have "unat loc + unat cnt \<le> unat block * unat (block_size c) + unat (block_size c)"
            using split upos ch(4) by simp
          also have "\<dots> = Suc (unat block) * unat (block_size c)" by simp
          also have "\<dots> \<le> length chain * unat (block_size c)" using inb by (intro mult_le_mono1) simp
          finally show ?thesis .
        qed
        moreover have "bs = take (unat cnt - unat progress) (drop (unat loc + unat progress) (chain_bytes D st c chain))"
          if "r = Some bs" for bs
        proof -
          from that r obtain bs2 where b2: "q2 = Some bs2" "bs = piece @ bs2" by auto
          with IH(2) [OF b2(1)] ch(2) whole show ?thesis by (simp add: add.assoc)
        qed
        ultimately show ?thesis using stays_trans [OF v(1) IH(1)] r by auto
      qed
    qed
  qed
qed

section \<open>The table\<close>

text \<open>The entry of a cluster, as the medium has it.\<close>

definition fat_entry :: "(nat \<Rightarrow> u8) \<Rightarrow> vstate \<Rightarrow> fat32_context \<Rightarrow> u32 \<Rightarrow> u32" where
  "fat_entry D st c k =
     (let base = unat (fat_start_lba c) * unat (bytes_per_sector c)
      in if fat_type c = 12 then
           (let w = le16_at (vol_bytes D st (base + (unat k + unat k div 2)) 2) 0
            in ucast (if k mod 2 = 0 then w AND 0xfff else drop_bit 4 w))
         else if fat_type c = 16 then ucast (le16_at (vol_bytes D st (base + unat k * 2) 2) 0)
         else le32_at (vol_bytes D st (base + unat k * 4) 4) 0 AND 0x0fffffff)"

lemma fat_read_ok:
  assumes ret: "fat_read disk c st offset width f = Inr (r, st')" and ok: "vol_ok disk D st" and g: "fat_geometry c"
    and o: "unat offset < 2 ^ 36" and w: "unat width \<le> 4"
  shows "stays disk D st st'"
    and "r = Some x \<Longrightarrow> x = f (vol_bytes D st (unat (fat_start_lba c) * unat (bytes_per_sector c) + unat offset) (unat width))"
proof -
  let ?loc = "ucast (fat_start_lba c) * ucast (bytes_per_sector c) + offset :: u64"
  have "unat (fat_start_lba c) * unat (bytes_per_sector c) \<le> 2 ^ 32 * 4096"
    using g unsigned_less [of "fat_start_lba c", where 'a = nat]
    by (intro mult_le_mono) (auto simp: fat_geometry_def)
  then have u: "unat ?loc = unat (fat_start_lba c) * unat (bytes_per_sector c) + unat offset" and le: "unat ?loc + unat width \<le> 2 ^ 64"
    using o w by (simp_all add: unat_word_ariths unat_ucast_up)
  consider "r = None" "st' = st" | q where "vread disk st ?loc width = Inr (q, st')" "r = map_option f q"
    using ret by (auto simp: fat_read_def split: if_split_asm elim!: bindo_InrE)
  then show "stays disk D st st'"
    and "r = Some x \<Longrightarrow> x = f (vol_bytes D st (unat (fat_start_lba c) * unat (bytes_per_sector c) + unat offset) (unat width))"
    using ok vread_stays [OF _ ok le] by (cases; auto simp: stays_refl u)+
qed

lemma read_map_ok:
  assumes ret: "read_cluster_from_map disk c st k = Inr (r, st')" and ok: "vol_ok disk D st" and g: "fat_geometry c"
  shows "stays disk D st st'" and "r = Some x \<Longrightarrow> x = fat_entry D st c k"
proof -
  have k: "unat k < 2 ^ 32" using unsigned_less [of k, where 'a = nat] by simp
  then have o: "unat (ucast k + ucast (k div 2) :: u64) = unat k + unat k div 2" "unat (ucast k * 2 :: u64) = unat k * 2"
    "unat (ucast k * 4 :: u64) = unat k * 4"
    by (simp_all add: unat_word_ariths unat_ucast_up unat_div)
  have b: "unat (ucast k + ucast (k div 2) :: u64) < 2 ^ 36" "unat (ucast k * 2 :: u64) < 2 ^ 36" "unat (ucast k * 4 :: u64) < 2 ^ 36"
    using k unfolding o by simp_all
  have "stays disk D st st' \<and> (\<forall>x. r = Some x \<longrightarrow> x = fat_entry D st c k)"
  proof -
    consider (twelve) "fat_type c = 12" | (sixteen) "fat_type c = 16" | (wide) "fat_type c = 32"
      using g by (auto simp: fat_geometry_def)
    then show ?thesis
    proof cases
      case twelve
      with ret have rd: "fat_read disk c st (ucast k + ucast (k div 2)) 2 (\<lambda>b. ucast (if k mod 2 = 0 then le16_at b 0 AND 0xfff else drop_bit 4 (le16_at b 0))) = Inr (r, st')"
        by (simp add: read_cluster_from_map_def)
      have "x = fat_entry D st c k" if "r = Some x" for x
        using fat_read_ok(2) [OF rd ok g b(1) _ that] twelve by (simp add: fat_entry_def Let_def o)
      with fat_read_ok(1) [OF rd ok g b(1)] show ?thesis by simp
    next
      case sixteen
      with ret have rd: "fat_read disk c st (ucast k * 2) 2 (\<lambda>b. ucast (le16_at b 0)) = Inr (r, st')"
        by (simp add: read_cluster_from_map_def)
      have "x = fat_entry D st c k" if "r = Some x" for x
        using fat_read_ok(2) [OF rd ok g b(2) _ that] sixteen by (simp add: fat_entry_def Let_def o)
      with fat_read_ok(1) [OF rd ok g b(2)] show ?thesis by simp
    next
      case wide
      with ret have rd: "fat_read disk c st (ucast k * 4) 4 (\<lambda>b. le32_at b 0 AND 0x0fffffff) = Inr (r, st')"
        by (simp add: read_cluster_from_map_def)
      have "x = fat_entry D st c k" if "r = Some x" for x
        using fat_read_ok(2) [OF rd ok g b(3) _ that] wide by (simp add: fat_entry_def Let_def o)
      with fat_read_ok(1) [OF rd ok g b(3)] show ?thesis by simp
    qed
  qed
  then show "stays disk D st st'" "r = Some x \<Longrightarrow> x = fat_entry D st c k" by blast+
qed

section \<open>Chains\<close>

text \<open>The nodes met from \<open>x\<close> on, and where the walk stands after them.\<close>

primrec fat_path :: "(u32 \<Rightarrow> u32) \<Rightarrow> u32 \<Rightarrow> u32 list \<Rightarrow> u32 \<Rightarrow> bool" where
  "fat_path f x [] y \<longleftrightarrow> x = y"
| "fat_path f x (k # ks) y \<longleftrightarrow> x = k \<and> fat_path f (f k) ks y"

lemma fat_path_append: "fat_path f x (us @ vs) y \<longleftrightarrow> (\<exists>m. fat_path f x us m \<and> fat_path f m vs y)"
  by (induction us arbitrary: x) auto

lemma fat_path_length:
  "fat_path f x us y \<Longrightarrow> fat_path f x vs z \<Longrightarrow> length us = length vs \<Longrightarrow> us = vs \<and> y = z"
proof (induction us arbitrary: x vs)
  case (Cons u us)
  then show ?case by (cases vs) auto
qed simp

lemma fat_path_unique:
  assumes "fat_path f x us y" and "fat_path f x vs z" and "\<forall>k \<in> set us. P k" and "\<forall>k \<in> set vs. P k" and "\<not> P y" "\<not> P z"
  shows "us = vs"
  using assms
proof (induction us arbitrary: x vs)
  case Nil
  then show ?case by (cases vs) auto
next
  case (Cons u us)
  then show ?case by (cases vs) auto
qed

text \<open>A walk that ends visits no node twice.\<close>

lemma fat_path_distinct:
  assumes "fat_path f x ks y" and "\<forall>k \<in> set ks. P k" and "\<not> P y"
  shows "distinct ks"
  using assms
proof (induction ks arbitrary: x)
  case (Cons k ks)
  have "k \<notin> set ks"
  proof
    assume "k \<in> set ks"
    then obtain us vs where ks: "ks = us @ k # vs" by (meson split_list)
    with Cons.prems(1) have "fat_path f (f k) (us @ k # vs) y" "fat_path f (f k) vs y"
      by (auto simp: fat_path_append)
    from fat_path_unique [OF this] Cons.prems(2,3) ks have "us @ k # vs = vs" by simp
    then show False by (metis length_append length_Cons less_add_same_cancel2 less_irrefl not_add_less2 add_Suc_right lessI)
  qed
  with Cons show ?case by auto
qed simp

definition in_range :: "fat32_context \<Rightarrow> u32 \<Rightarrow> bool" where
  "in_range c k \<longleftrightarrow> 2 \<le> k \<and> k \<le> cluster_limit c"

lemma stays_entry:
  assumes "stays disk D st st'"
  shows "fat_entry D st' c = fat_entry D st c"
  unfolding fat_entry_def [abs_def] stays_bytes [OF assms] by (rule refl)

lemma count_chain_ok:
  assumes "count_chain disk c readable limit st n k = Inr (r, st')" and "vol_ok disk D st" and "fat_geometry c"
  shows "stays disk D st st' \<and> (\<forall>m. r = Some m \<longrightarrow> n \<le> m \<and> m \<le> limit \<and>
     (\<exists>ks y. fat_path (fat_entry D st c) k ks y \<and> length ks = m - n + 1 \<and> (\<forall>x \<in> set (tl ks). in_range c x) \<and> \<not> in_range c y \<and>
        (\<forall>x \<in> set ks. unat x \<le> unat readable)))"
  using assms
proof (induction "Suc limit - n" arbitrary: n st k rule: less_induct)
  case less
  note unf = count_chain.simps [of disk c readable limit st n k]
  show ?case
  proof (cases "n \<le> limit \<and> \<not> ucast k > readable")
    case False
    then have "r = None" "st' = st" using less.prems(1) by (auto simp: unf split: if_split_asm)
    with less.prems(2) show ?thesis by (simp add: stays_refl)
  next
    case True
    then have kr: "unat k \<le> unat readable" by (simp add: not_less word_le_nat_alt unat_ucast_up)
    from True less.prems(1) obtain q st1 where rd: "read_cluster_from_map disk c st k = Inr (q, st1)"
      and rest: "(case q of None \<Rightarrow> Inr (None, st1) | Some k' \<Rightarrow>
         if k' < 0x2 \<or> k' > cluster_limit c then Inr (Some n, st1)
         else count_chain disk c readable limit st1 (n + 1) k') = Inr (r, st')"
      by (auto simp: unf elim!: bindo_InrE)
    note v = read_map_ok [OF rd less.prems(2,3)]
    show ?thesis
    proof (cases q)
      case None
      with rest v(1) show ?thesis by simp
    next
      case (Some k')
      have k': "k' = fat_entry D st c k" by (rule v(2) [OF Some])
      show ?thesis
      proof (cases "in_range c k'")
        case False
        then have "r = Some n" "st' = st1" using rest Some by (auto simp: in_range_def not_le split: if_split_asm)
        moreover have "fat_path (fat_entry D st c) k [k] k'" using k' by simp
        ultimately show ?thesis using v(1) False True kr
          by (auto intro!: exI [of _ "[k]"])
      next
        case in_r: True
        then have rec: "count_chain disk c readable limit st1 (n + 1) k' = Inr (r, st')"
          using rest Some by (auto simp: in_range_def not_less split: if_split_asm)
        have "Suc limit - (n + 1) < Suc limit - n" using True by linarith
        note IH = less.hyps [OF this rec stays_ok [OF v(1)] less.prems(3), unfolded stays_entry [OF v(1)]]
        have "\<exists>ks y. fat_path (fat_entry D st c) k ks y \<and> length ks = m - n + 1 \<and> (\<forall>x \<in> set (tl ks). in_range c x) \<and>
            \<not> in_range c y \<and> (\<forall>x \<in> set ks. unat x \<le> unat readable)"
          if "r = Some m" for m
        proof -
          from IH that obtain ks y where p: "fat_path (fat_entry D st c) k' ks y" "length ks = m - (n + 1) + 1"
            "\<forall>x \<in> set (tl ks). in_range c x" "\<not> in_range c y" "n + 1 \<le> m" "\<forall>x \<in> set ks. unat x \<le> unat readable" by blast
          then have ne: "ks \<noteq> []" by auto
          with p(1) have "hd ks = k'" by (cases ks) auto
          with p(3) in_r ne have "\<forall>x \<in> set ks. in_range c x" by (cases ks) auto
          with p k' kr show ?thesis by (intro exI [of _ "k # ks"] exI [of _ y]) auto
        qed
        with IH v(1) show ?thesis by (fastforce intro: stays_trans)
      qed
    qed
  qed
qed

lemma fill_chain_ok:
  assumes "fill_chain disk c st k n = Inr (r, st')" and "vol_ok disk D st" and "fat_geometry c"
  shows "stays disk D st st' \<and> (\<forall>ks. r = Some ks \<longrightarrow> length ks = n \<and> (\<exists>y. fat_path (fat_entry D st c) k ks y))"
  using assms
proof (induction n arbitrary: st k r)
  case (Suc n)
  from Suc.prems(1) obtain q st1 where rd: "read_cluster_from_map disk c st k = Inr (q, st1)"
    and rest: "(case q of None \<Rightarrow> Inr (None, st1) | Some k' \<Rightarrow>
       bindo (fill_chain disk c st1 k' n) (\<lambda>rest st2. Inr (map_option (\<lambda>cs. k # cs) rest, st2))) = Inr (r, st')"
    by (auto elim!: bindo_InrE)
  note v = read_map_ok [OF rd Suc.prems(2,3)]
  show ?case
  proof (cases q)
    case None
    with rest v(1) show ?thesis by simp
  next
    case (Some k')
    with rest obtain q2 where rec: "fill_chain disk c st1 k' n = Inr (q2, st')" and r: "r = map_option (\<lambda>cs. k # cs) q2"
      by (auto elim!: bindo_InrE)
    note IH = Suc.IH [OF rec stays_ok [OF v(1)] Suc.prems(3), unfolded stays_entry [OF v(1)]]
    with v(1) v(2) [OF Some] r show ?thesis by (auto intro: stays_trans)
  qed
qed (auto simp: stays_refl)

text \<open>The chain handed out: the walk from the first cluster to the end mark, cluster by cluster.\<close>

definition chain_of :: "(nat \<Rightarrow> u8) \<Rightarrow> vstate \<Rightarrow> fat32_context \<Rightarrow> u32 \<Rightarrow> u32 list \<Rightarrow> bool" where
  "chain_of D st c x ks \<longleftrightarrow> ks \<noteq> [] \<and> (\<exists>y. fat_path (fat_entry D st c) x ks y \<and> \<not> in_range c y) \<and>
     (\<forall>k \<in> set ks. in_range c k)"

lemma chain_of_distinct: "chain_of D st c x ks \<Longrightarrow> distinct ks"
  unfolding chain_of_def by (auto intro: fat_path_distinct)

lemma chain_of_unique: "chain_of D st c x ks \<Longrightarrow> chain_of D st c x ks' \<Longrightarrow> ks = ks'"
  unfolding chain_of_def by (elim conjE exE) (rule fat_path_unique [where P = "in_range c"])

text \<open>A cluster that lies wholly on the volume, where its size is known.\<close>

definition on_volume :: "vstate \<Rightarrow> fat32_context \<Rightarrow> u32 \<Rightarrow> bool" where
  "on_volume st c k \<longleftrightarrow> (sect_count (snd st) = -1 \<or>
     unat (cluster_base c k) + unat (block_size c) \<le> unat (sect_count (snd st)) * 512)"

lemma readable_on_volume:
  assumes r: "readable_cluster_limit c (snd st) = Some readable" and k: "unat k \<le> unat readable" "2 \<le> k" and g: "fat_geometry c"
  shows "on_volume st c k"
proof (cases "sect_count (snd st) = -1")
  case False
  let ?bps = "unat (bytes_per_sector c)" and ?spc = "unat (sectors_per_cluster c)" and ?d = "unat (data_start_lba c)"
  from r False obtain n where n: "CHECKED_MUL (sect_count (snd st)) 512 = Some n"
    by (auto simp: readable_cluster_limit_def split: option.splits)
  let ?vs = "n div ucast (bytes_per_sector c)"
  let ?dc = "if ?vs > ucast (data_start_lba c) then (?vs - ucast (data_start_lba c)) div ucast (sectors_per_cluster c) else 0"
  have un: "unat n = unat (sect_count (snd st)) * 512" using CHECKED_MUL_unat [OF n] by simp
  have uvs: "unat ?vs = unat n div ?bps" by (simp add: unat_div unat_ucast_up)
  have le: "unat readable \<le> unat (?dc + 1)"
    using r False n by (auto simp: readable_cluster_limit_def Let_def word_less_nat_alt split: if_splits)
  have pos: "0 < ?spc" "512 \<le> ?bps" using g by (auto simp: fat_geometry_def)
  have lt: "?d < unat ?vs"
  proof (rule ccontr)
    assume "\<not> ?d < unat ?vs"
    then have "?dc = 0" by (simp add: word_less_nat_alt unat_ucast_up)
    with le have "unat readable \<le> 1" by simp
    with k show False by (simp add: word_le_nat_alt)
  qed
  then have dc: "unat ?dc = (unat ?vs - ?d) div ?spc"
    by (simp add: word_less_nat_alt unat_div unat_sub word_le_nat_alt unat_ucast_up)
  have "unat ?vs \<le> unat n div 512" unfolding uvs using pos by (intro div_le_mono2) auto
  then have "unat ?dc < 2 ^ 63" using unsigned_less [of n, where 'a = nat] unfolding dc
    by (intro le_less_trans [OF div_le_dividend]) simp
  then have "unat (?dc + 1) = unat ?dc + 1" by (simp add: unat_word_ariths)
  then have "unat k - 2 + 1 \<le> (unat ?vs - ?d) div ?spc" using k le dc by (simp add: word_le_nat_alt)
  then have "(unat k - 2 + 1) * ?spc \<le> unat ?vs - ?d" by (meson div_times_less_eq_dividend le_trans mult_le_mono1)
  then have "?d + (unat k - 2) * ?spc + ?spc \<le> unat ?vs" using lt by (simp add: algebra_simps)
  then have "(?d + (unat k - 2) * ?spc + ?spc) * ?bps \<le> unat ?vs * ?bps" by (rule mult_le_mono1)
  also have "\<dots> \<le> unat n" unfolding uvs by simp
  finally have "(?d + (unat k - 2) * ?spc + ?spc) * ?bps \<le> unat (sect_count (snd st)) * 512" by (simp add: un)
  then show ?thesis
    using cluster_base_unat(1) [OF g k(2)] by (simp add: on_volume_def cluster_size_unat(1) [OF g] algebra_simps)
qed (simp add: on_volume_def)

lemma cache_cluster_chain_ok:
  assumes ret: "cache_cluster_chain disk c st x = Inr (r, st')" and ok: "vol_ok disk D st" and g: "fat_geometry c"
  shows "stays disk D st st' \<and> (\<forall>p ks. r = Some (p, ks) \<longrightarrow> chain_of D st c x ks \<and> length ks \<le> unat (max_clusters c) \<and>
     (\<forall>k \<in> set ks. on_volume st c k))"
proof (cases "r = None \<and> st' = st")
  case True
  with ok show ?thesis by (simp add: stays_refl)
next
  case False
  obtain readable where x: "in_range c x" and rl: "readable_cluster_limit c (snd st) = Some readable"
    and ret2: "bindo (count_chain disk c readable (unat (max_clusters c)) st 1 x) (\<lambda>q st1. case q of None \<Rightarrow> Inr (None, st1) | Some n \<Rightarrow>
      bindo (valloc_counted st1 (of_nat n) 4) (\<lambda>p st2. bindo (fill_chain disk c st2 x n) (\<lambda>chain st3.
        case chain of None \<Rightarrow> bindo (vfree st3 p (of_nat n * 4)) (\<lambda>_ st4. Inr (None, st4))
        | Some cs \<Rightarrow> Inr (Some (p, cs), st3)))) = Inr (r, st')"
  proof -
    have x: "\<not> (x < 2 \<or> x > cluster_limit c)" using ret False by (auto simp: cache_cluster_chain_def)
    moreover obtain readable where "readable_cluster_limit c (snd st) = Some readable"
      using ret False x by (cases "readable_cluster_limit c (snd st)") (simp_all add: cache_cluster_chain_def)
    ultimately show thesis using ret
      by (intro that [of readable]; simp add: cache_cluster_chain_def in_range_def not_less)
  qed
  from ret2 obtain q st1 where cc: "count_chain disk c readable (unat (max_clusters c)) st 1 x = Inr (q, st1)"
    and rest: "(case q of None \<Rightarrow> Inr (None, st1) | Some n \<Rightarrow>
      bindo (valloc_counted st1 (of_nat n) 4) (\<lambda>p st2. bindo (fill_chain disk c st2 x n) (\<lambda>chain st3.
        case chain of None \<Rightarrow> bindo (vfree st3 p (of_nat n * 4)) (\<lambda>_ st4. Inr (None, st4))
        | Some cs \<Rightarrow> Inr (Some (p, cs), st3)))) = Inr (r, st')"
    by (rule bindo_InrE)
  note c1 = count_chain_ok [OF cc ok g]
  show ?thesis
  proof (cases q)
    case None
    with rest c1 show ?thesis by simp
  next
    case (Some n)
    with rest obtain p st2 f st3 where al: "valloc_counted st1 (of_nat n) 4 = Inr (p, st2)"
      and fc: "fill_chain disk c st2 x n = Inr (f, st3)"
      and fin: "(case f of None \<Rightarrow> bindo (vfree st3 p (of_nat n * 4)) (\<lambda>_ st4. Inr (None, st4))
        | Some cs \<Rightarrow> Inr (Some (p, cs), st3)) = Inr (r, st')"
      by (auto elim!: bindo_InrE)
    have s2: "stays disk D st st2" using c1 valloc_counted_stays [OF al] by (meson stays_ok stays_trans)
    note f1 = fill_chain_ok [OF fc stays_ok [OF s2] g, unfolded stays_entry [OF s2]]
    have s3: "stays disk D st st3" using s2 f1 by (blast intro: stays_trans)
    show ?thesis
    proof (cases f)
      case None
      with fin obtain u where "vfree st3 p (of_nat n * 4) = Inr (u, st')" "r = None" by (auto elim!: bindo_InrE)
      with vfree_stays [OF this(1) stays_ok [OF s3]] s3 show ?thesis by (auto intro: stays_trans)
    next
      case (Some ks)
      with fin have r: "r = Some (p, ks)" "st' = st3" by simp_all
      from c1 \<open>q = Some n\<close> obtain us y where us: "fat_path (fat_entry D st c) x us y" "length us = n" "1 \<le> n"
        "\<forall>k \<in> set (tl us). in_range c k" "\<not> in_range c y" "n \<le> unat (max_clusters c)" "\<forall>k \<in> set us. unat k \<le> unat readable" by fastforce
      from f1 Some obtain z where ks: "fat_path (fat_entry D st c) x ks z" "length ks = n" by blast
      have "ks = us" using fat_path_length [OF ks(1) us(1)] ks(2) us(2) by simp
      moreover have "us \<noteq> []" using us(2,3) by auto
      moreover then have "hd us = x" using us(1) by (cases us) auto
      moreover have "\<forall>k \<in> set us. in_range c k" using us(4) x calculation(2,3) by (cases us) auto
      ultimately have ch: "chain_of D st c x ks" using us(1,5) by (auto simp: chain_of_def)
      have "on_volume st c k" if "k \<in> set ks" for k
        using us(7) \<open>ks = us\<close> ch that by (intro readable_on_volume [OF rl _ _ g]) (auto simp: chain_of_def in_range_def)
      with ch r s3 ks(2) us(6) show ?thesis by simp
    qed
  qed
qed

section \<open>Directories and files\<close>

lemma keeps_chain [volume_rules]:
  "vol_ok disk D st \<Longrightarrow> fat_geometry c \<Longrightarrow> keeps_volume disk D st (cache_cluster_chain disk c st x)"
  by (auto simp: keeps_volume_def dest: cache_cluster_chain_ok)

lemma keeps_read_chain [volume_rules]:
  "vol_ok disk D st \<Longrightarrow> fat_geometry c \<Longrightarrow> unat loc + unat cnt < 2 ^ 64 \<Longrightarrow>
     keeps_volume disk D st (read_cluster_chain disk c chain st loc cnt 0)"
  by (auto simp: keeps_volume_def dest: read_chain_from)

lemma keeps_load_chain:
  assumes "vol_ok disk D st" and "fat_geometry c"
  shows "keeps_volume disk D st (load_chain_directory disk c st x)"
  unfolding load_chain_directory_def Let_def using assms
  by (auto intro!: volume_rules split: option.split prod.split simp: word_less_nat_alt)

lemma keeps_load_root:
  assumes "vol_ok disk D st" and "fat_geometry c"
  shows "keeps_volume disk D st (load_root_directory disk c st)"
proof -
  have "unat (root_start c) * unat (bytes_per_sector c) \<le> 2 ^ 32 * 4096"
    using assms(2) unsigned_less [of "root_start c", where 'a = nat]
    by (intro mult_le_mono) (auto simp: fat_geometry_def)
  moreover have "unat (root_entries c) < 2 ^ 16" using unsigned_less [of "root_entries c", where 'a = nat] by simp
  ultimately have "unat (ucast (root_start c) * ucast (bytes_per_sector c) :: u64) + unat (ucast (root_entries c) * 32 :: u64) \<le> 2 ^ 64"
    by (simp add: unat_word_ariths unat_ucast_up)
  then show ?thesis unfolding load_root_directory_def using assms
    by (auto intro!: volume_rules keeps_vread split: option.split)
qed

lemma keeps_search:
  assumes "vol_ok disk D st" and "fat_geometry c" and "\<And>es st1. vol_ok disk D st1 \<Longrightarrow> keeps_volume disk D st1 (f es st1)"
  shows "keeps_volume disk D st (search_directory disk c st directory f)"
  unfolding search_directory_def load_directory_def using assms
  by (auto intro!: volume_rules keeps_load_chain keeps_load_root split: option.split prod.split)

lemma keeps_open_in: "vol_ok disk D st \<Longrightarrow> fat_geometry c \<Longrightarrow> keeps_volume disk D st (fat32_open_in disk ci c st d name)"
  unfolding fat32_open_in_def by (auto intro!: keeps_search volume_rules)

lemma keeps_open_walk:
  "vol_ok disk D st \<Longrightarrow> fat_geometry c \<Longrightarrow> keeps_volume disk D st (open_walk disk ci c st d idx p)"
proof (induction disk ci c st d idx p rule: open_walk.induct)
  case (1 disk ci c st d idx p)
  then show ?case
    unfolding open_walk.simps [of disk ci c st d idx p]
    by (auto intro!: volume_rules keeps_open_in split: option.split prod.split)
qed

lemma keeps_open_entry:
  "vol_ok disk D st \<Longrightarrow> fat_geometry c \<Longrightarrow> keeps_volume disk D st (fat32_open_entry disk c st file)"
  unfolding fat32_open_entry_def Let_def by (auto intro!: volume_rules split: prod.split)

lemma keeps_init: "vol_ok disk D st \<Longrightarrow> keeps_volume disk D st (fat32_init_context disk st)"
  unfolding fat32_init_context_def by (auto intro!: volume_rules keeps_vread)

lemma max_clusters_bound: "unat (max_clusters c) \<le> 2 ^ 24"
proof -
  have "max_clusters c \<le> 16777216" by (auto simp: max_clusters_def Let_def)
  then show ?thesis by (simp add: word_le_nat_alt)
qed

text \<open>What an open file promises: its clusters are a chain of the table, on the volume, and hold its size.\<close>

definition fat_file :: "(nat \<Rightarrow> u8) \<Rightarrow> vstate \<Rightarrow> fat32_file_handle \<Rightarrow> bool" where
  "fat_file D st f \<longleftrightarrow> fat_geometry (fat_context f) \<and>
     unat (size_bytes f) \<le> length (chain_clusters f) * unat (block_size (fat_context f)) \<and>
     (chain_clusters f \<noteq> [] \<longrightarrow> chain_of D st (fat_context f) (first_cluster f) (chain_clusters f)) \<and>
     (\<forall>k \<in> set (chain_clusters f). on_volume st (fat_context f) k)"

definition fat_contents :: "(nat \<Rightarrow> u8) \<Rightarrow> vstate \<Rightarrow> fat32_file_handle \<Rightarrow> u8 list" where
  "fat_contents D st f = take (unat (size_bytes f)) (chain_bytes D st (fat_context f) (chain_clusters f))"

lemma stays_on_volume: "stays disk D st st' \<Longrightarrow> on_volume st' c k = on_volume st c k"
  using stays_count [of disk D st st'] by (simp add: on_volume_def)

lemma stays_file: "stays disk D st st' \<Longrightarrow> fat_file D st' f = fat_file D st f"
  using stays_entry [of disk D st st'] stays_on_volume [of disk D st st']
  by (simp add: fat_file_def chain_of_def)

lemma open_entry_ok:
  assumes ret: "fat32_open_entry disk c st file = Inr (Some (h, f), st')" and ok: "vol_ok disk D st" and g: "fat_geometry c"
  shows "fat_file D st f \<and> fat_context f = c \<and> size_bytes f = le32_at file 28"
proof -
  let ?x = "if fat_type c = 32 then ucast (le16_at file 26) OR push_bit 16 (ucast (le16_at file 20)) else ucast (le16_at file 26)"
  from ret obtain st1 fd st2 r st3 p chain where al: "valloc st SIZEOF_FILE_HANDLE = Inr (h, st1)"
      "valloc st1 SIZEOF_FAT32_FILE_HANDLE = Inr (fd, st2)" and cc: "cache_cluster_chain disk c st2 ?x = Inr (r, st3)"
    and pc: "(p, chain) = (case r of None \<Rightarrow> (0, []) | Some pc \<Rightarrow> pc)"
    and fit: "\<not> ucast (le32_at file 28) > of_nat (length chain) * block_size c"
    and f: "f = \<lparr>fat_fd = fd, fat_context = c, first_cluster = ?x, size_bytes = le32_at file 28, cluster_chain = p, chain_clusters = chain\<rparr>"
    unfolding fat32_open_entry_def Let_def
    by (auto split: prod.split_asm if_split_asm option.split_asm elim!: bindo_InrE)
  have s2: "stays disk D st st2" using valloc_stays [OF al(1) ok] valloc_stays [OF al(2)] by (blast intro: stays_trans stays_ok)
  note k = cache_cluster_chain_ok [OF cc stays_ok [OF s2] g]
  have ch: "chain \<noteq> [] \<longrightarrow> chain_of D st c ?x chain" "\<forall>k \<in> set chain. on_volume st c k" "length chain \<le> 2 ^ 24"
    using k pc max_clusters_bound [of c] stays_entry [OF s2] stays_on_volume [OF s2]
    by (auto simp: chain_of_def split: option.splits)
  have bs: "unat (block_size c) \<le> 524288" by (rule cluster_size_unat(3) [OF g])
  have "length chain * unat (block_size c) \<le> 2 ^ 24 * 524288" using ch(3) bs by (rule mult_le_mono)
  then have "unat (of_nat (length chain) * block_size c :: u64) = length chain * unat (block_size c)"
    using ch(3) by (simp add: unat_word_ariths unat_of_nat take_bit_nat_eq_self)
  then have "unat (le32_at file 28) \<le> length chain * unat (block_size c)"
    using fit by (simp add: word_less_nat_alt unat_ucast_up)
  then show ?thesis using ch g by (simp add: fat_file_def f)
qed

lemma fat32_open_ok:
  assumes ret: "fat32_open disk ci st path = Inr (r, st')" and ok: "vol_ok disk D st"
  shows "stays disk D st st' \<and> (\<forall>h f. r = Some (h, f) \<longrightarrow> fat_file D st' f \<and>
     fat32_parse (vol_bytes D st 0 512) = Some (fat_context f))"
proof -
  from ret obtain ctx st1 where ic: "fat32_init_context disk st = Inr (ctx, st1)"
    and rest: "(case ctx of None \<Rightarrow> Inr (None, st1) | Some c \<Rightarrow>
       (let p = dropWhile (\<lambda>ch. ch = CHR ''/'') path
        in bindo (open_walk disk ci c st1 (root_directory c) (length path - length p) p) (\<lambda>r st2.
             case r of None \<Rightarrow> Inr (None, st2) | Some file \<Rightarrow> fat32_open_entry disk c st2 file))) = Inr (r, st')"
    unfolding fat32_open_def by (rule bindo_InrE)
  have s1: "stays disk D st st1" by (rule keeps_volumeD [OF keeps_init [OF ok] ic])
  show ?thesis
  proof (cases ctx)
    case None
    with rest s1 show ?thesis by simp
  next
    case (Some c)
    from ic Some obtain bpb where rd: "vread disk st 0 512 = Inr (Some bpb, st1)" and c: "fat32_parse bpb = Some c"
      by (auto simp: fat32_init_context_def elim!: bindo_InrE split: option.splits)
    have parse: "fat32_parse (vol_bytes D st 0 512) = Some c" using vread_stays(2) [OF rd ok] c by simp
    note g = parse_geometry(1) [OF parse]
    let ?p = "dropWhile (\<lambda>ch. ch = CHR ''/'') path"
    from rest Some obtain q st2 where
      w: "open_walk disk ci c st1 (root_directory c) (length path - length ?p) ?p = Inr (q, st2)"
      and rest2: "(case q of None \<Rightarrow> Inr (None, st2) | Some file \<Rightarrow> fat32_open_entry disk c st2 file) = Inr (r, st')"
      by (auto simp: Let_def elim!: bindo_InrE)
    have s2: "stays disk D st st2"
      using keeps_volumeD [OF keeps_open_walk [OF stays_ok [OF s1] g] w] s1 by (blast intro: stays_trans)
    show ?thesis
    proof (cases q)
      case None
      with rest2 s2 show ?thesis by simp
    next
      case (Some entry)
      with rest2 have oe: "fat32_open_entry disk c st2 entry = Inr (r, st')" by simp
      have s3: "stays disk D st2 st'" by (rule keeps_volumeD [OF keeps_open_entry [OF stays_ok [OF s2] g] oe])
      then have "stays disk D st st'" using s2 by (blast intro: stays_trans)
      moreover have "fat_file D st' f \<and> fat_context f = c" if "r = Some (h, f)" for h f
        using open_entry_ok [OF oe [unfolded that] stays_ok [OF s2] g] stays_file [OF s3] by simp
      ultimately show ?thesis using parse by auto
    qed
  qed
qed

lemma fat32_read_ok:
  assumes ret: "fat32_read disk f st loc cnt = Inr (bs, st')" and ok: "vol_ok disk D st" and f: "fat_file D st f"
    and le: "unat loc + unat cnt \<le> unat (size_bytes f)"
  shows "stays disk D st st'" and "bs = take (unat cnt) (drop (unat loc) (fat_contents D st f))"
proof -
  from ret have rc: "read_cluster_chain disk (fat_context f) (chain_clusters f) st loc cnt 0 = Inr (Some bs, st')"
    by (auto simp: fat32_read_def elim!: bindo_InrE split: option.splits)
  have lt: "unat loc + unat cnt < 2 ^ 64" using le unsigned_less [of "size_bytes f", where 'a = nat] by simp
  have g: "fat_geometry (fat_context f)" using f by (simp add: fat_file_def)
  note k = read_chain_from [OF rc ok g _ lt]
  show "stays disk D st st'" using k by simp
  have "bs = take (unat cnt) (drop (unat loc) (chain_bytes D st (fat_context f) (chain_clusters f)))" using k by simp
  then show "bs = take (unat cnt) (drop (unat loc) (fat_contents D st f))"
    using le by (simp add: fat_contents_def drop_take min_def)
qed

end
