(* ===== verification/Fat32_Names.thy ===== *)
theory Fat32_Names
  imports Fat32
begin

text \<open>
  Names in a FAT directory: what the conversion to a short name computes, and what a match
  found by the directory scan means.
\<close>

section \<open>Short names\<close>

definition upper_byte :: "char \<Rightarrow> u8" where
  "upper_byte ch = word_of_int (toupper (code ch))"

definition padded :: "nat \<Rightarrow> string \<Rightarrow> u8 list" where
  "padded n s = map upper_byte s @ replicate (n - length s) 0x20"

lemma name_8_3_plain:
  assumes "CHR ''.'' \<notin> set src" and "length dest = 11" and "j \<le> (if ext then 11 else 8)"
  shows "name_8_3 dest j ext src =
    (if j + length src \<le> (if ext then 11 else 8)
     then Some (take j dest @ map upper_byte src @ drop (j + length src) dest) else None)"
  using assms
proof (induction src arbitrary: dest j)
  case (Cons ch src)
  show ?case
  proof (cases "j < (if ext then 11 else 8)")
    case True
    then have "name_8_3 dest j ext (ch # src) = name_8_3 (dest[j := upper_byte ch]) (j + 1) ext src"
      using Cons.prems(1) by (auto simp: upper_byte_def split: if_splits)
    moreover have "take (j + 1) (dest[j := upper_byte ch]) = take j dest @ [upper_byte ch]"
      using True Cons.prems(2) by (simp add: take_Suc_conv_app_nth split: if_splits)
    moreover have "drop (j + 1 + length src) (dest[j := upper_byte ch]) = drop (j + length (ch # src)) dest" by simp
    moreover have "j + 1 \<le> (if ext then 11 else 8)" using True by (simp split: if_splits)
    ultimately show ?thesis using Cons.IH [of "dest[j := upper_byte ch]" "j + 1"] Cons.prems by simp
  next
    case False
    then show ?thesis using Cons.prems by (auto split: if_splits)
  qed
qed simp

lemma name_8_3_dot:
  assumes "CHR ''.'' \<notin> set base" and "length dest = 11" and "j \<le> 8"
  shows "name_8_3 dest j False (base @ CHR ''.'' # ext) =
    (if j + length base \<le> 8 then name_8_3 (take j dest @ map upper_byte base @ drop (j + length base) dest) 8 True ext
     else None)"
  using assms
proof (induction base arbitrary: dest j)
  case (Cons ch base)
  show ?case
  proof (cases "j < 8")
    case True
    then have "name_8_3 dest j False (ch # base @ CHR ''.'' # ext) = name_8_3 (dest[j := upper_byte ch]) (j + 1) False (base @ CHR ''.'' # ext)"
      using Cons.prems(1) by (auto simp: upper_byte_def)
    moreover have "take (j + 1) (dest[j := upper_byte ch]) = take j dest @ [upper_byte ch]"
      using True Cons.prems(2) by (simp add: take_Suc_conv_app_nth)
    moreover have "drop (j + 1 + length base) (dest[j := upper_byte ch]) = drop (j + length (ch # base)) dest" by simp
    ultimately show ?thesis using Cons.IH [of "dest[j := upper_byte ch]" "j + 1"] Cons.prems True by simp
  next
    case False
    then show ?thesis using Cons.prems by auto
  qed
qed simp

lemma name_8_3_second_dot: "CHR ''.'' \<in> set ext \<Longrightarrow> name_8_3 dest j True ext = None"
  by (induction ext arbitrary: dest j) auto

text \<open>A name without a dot, and a name with one, in the terms of the FAT specification.\<close>

lemma filename_plain:
  assumes "CHR ''.'' \<notin> set base"
  shows "fat32_filename_to_8_3 base = (if length base \<le> 8 then Some (padded 11 base) else None)"
  using name_8_3_plain [OF assms, of "replicate 11 0x20" 0 False]
  by (simp add: fat32_filename_to_8_3_def padded_def)

lemma filename_dotted:
  assumes "CHR ''.'' \<notin> set base"
  shows "fat32_filename_to_8_3 (base @ CHR ''.'' # ext) =
    (if length base \<le> 8 \<and> length ext \<le> 3 \<and> CHR ''.'' \<notin> set ext then Some (padded 8 base @ padded 3 ext) else None)"
proof (cases "length base \<le> 8")
  case False
  then show ?thesis using name_8_3_dot [OF assms, of "replicate 11 0x20" 0] by (simp add: fat32_filename_to_8_3_def)
next
  case True
  let ?d = "map upper_byte base @ replicate (11 - length base) (0x20 :: u8)"
  have eq: "fat32_filename_to_8_3 (base @ CHR ''.'' # ext) = name_8_3 ?d 8 True ext"
    using True name_8_3_dot [OF assms, of "replicate 11 0x20" 0 ext] by (simp add: fat32_filename_to_8_3_def)
  show ?thesis
  proof (cases "CHR ''.'' \<in> set ext")
    case True
    then show ?thesis by (simp add: eq name_8_3_second_dot)
  next
    case False
    have "take 8 ?d = padded 8 base" using True by (simp add: padded_def min_def)
    moreover have "drop (8 + length ext) ?d = replicate (3 - length ext) 0x20" using True by simp
    ultimately show ?thesis
      using name_8_3_plain [OF False, of ?d 8 True] True False by (simp add: eq padded_def)
  qed
qed

definition short_name :: "string \<Rightarrow> u8 list option" where
  "short_name name =
     (let base = takeWhile (\<lambda>ch. ch \<noteq> CHR ''.'') name; rest = dropWhile (\<lambda>ch. ch \<noteq> CHR ''.'') name
      in if rest = [] then (if length base \<le> 8 then Some (padded 11 base) else None)
         else if length base \<le> 8 \<and> length (tl rest) \<le> 3 \<and> CHR ''.'' \<notin> set (tl rest)
         then Some (padded 8 base @ padded 3 (tl rest)) else None)"

section \<open>The directory scan\<close>

text \<open>A match by the short name, or by a long name whose last piece carries the entry's checksum.\<close>

definition short_match :: "string \<Rightarrow> u8 list \<Rightarrow> bool" where
  "short_match name e \<longleftrightarrow> entry_attribute e AND 0x08 = 0 \<and>
     (\<exists>fn. fat32_filename_to_8_3 name = Some fn \<and> strncmp (chars (take 11 e)) (chars fn) 11 = 0)"

definition long_match :: "u8 list \<Rightarrow> u8 list \<Rightarrow> bool" where
  "long_match p e \<longleftrightarrow> entry_attribute p = 0x0F \<and> p ! 0 AND 0x1f = 1 \<and> p ! 13 = fat32_lfn_checksum e \<and>
     e ! 0 \<noteq> 0 \<and> e ! 0 \<noteq> 0xE5 \<and> entry_attribute e \<noteq> 0x0F"

lemma lfn_step_complete:
  assumes "lfn_step l e = (l1, True)"
  shows "lfn_checksum l1 = e ! 13" and "e ! 0 AND 0x1f = 1"
proof -
  from assms have "lfn_checksum l1 = e ! 13 \<and> unat (e ! 0 AND 0x1f) = 1"
    by (auto simp: lfn_step_def Let_def split: if_split_asm)
  then show "lfn_checksum l1 = e ! 13" "e ! 0 AND 0x1f = 1" by (simp_all add: word_unat_eq_iff)
qed

lemma named_by_set_Some:
  "named_by_set k es = Some e \<Longrightarrow> \<exists>rest. es = e # rest \<and> e ! 0 \<noteq> 0 \<and> e ! 0 \<noteq> 0xE5 \<and>
     entry_attribute e \<noteq> 0x0F \<and> fat32_lfn_checksum e = k"
  by (auto simp: named_by_set_def split: list.splits if_split_asm)

lemma dir_scan_sound:
  assumes "dir_scan ci name l es = Some e"
  shows "\<exists>before after. es = before @ e # after \<and> (\<forall>x \<in> set before. x ! 0 \<noteq> 0) \<and> e ! 0 \<noteq> 0 \<and>
    entry_attribute e \<noteq> 0x0F \<and> (short_match name e \<or> before \<noteq> [] \<and> long_match (List.last before) e)"
  using assms
proof (induction es arbitrary: l)
  case (Cons x es)
  have x0: "x ! 0 \<noteq> 0" using Cons.prems by (auto split: if_split_asm)
  consider (rest) l' where "dir_scan ci name l' es = Some e"
    | (long) l1 where "entry_attribute x = 0x0F" "lfn_step l x = (l1, True)" "named_by_set (lfn_checksum l1) es = Some e"
    | (short) "x = e" "entry_attribute x \<noteq> 0x0F" "short_match name x"
  proof (cases "entry_attribute x = 0x0F")
    case True
    obtain l1 b where step: "lfn_step l x = (l1, b)" by (cases "lfn_step l x")
    show thesis
      using Cons.prems True step x0 rest long by (cases b) (auto split: if_split_asm option.split_asm)
  next
    case False
    then show thesis
      using Cons.prems x0 rest short by (auto simp: short_match_def split: if_split_asm option.split_asm)
  qed
  then show ?case
  proof cases
    case rest
    from Cons.IH [OF this] obtain bf af where "es = bf @ e # af" "\<forall>x \<in> set bf. x ! 0 \<noteq> 0" "e ! 0 \<noteq> 0"
      "entry_attribute e \<noteq> 0x0F" "short_match name e \<or> bf \<noteq> [] \<and> long_match (List.last bf) e" by blast
    with x0 show ?thesis by (intro exI [of _ "x # bf"] exI [of _ af]) auto
  next
    case long
    from named_by_set_Some [OF long(3)] obtain af where "es = e # af" and e: "e ! 0 \<noteq> 0" "e ! 0 \<noteq> 0xE5"
      "entry_attribute e \<noteq> 0x0F" "fat32_lfn_checksum e = lfn_checksum l1" by blast
    with lfn_step_complete [OF long(2)] long(1) x0 show ?thesis
      by (intro exI [of _ "[x]"] exI [of _ af]) (simp add: long_match_def)
  next
    case short
    with x0 show ?thesis by (intro exI [of _ "[]"] exI [of _ es]) auto
  qed
qed simp

text \<open>A deleted short entry is not skipped: a name that starts with byte 0xE5 finds it.\<close>

lemma strncmp_refl: "strncmp s s n = 0"
  by (induction n arbitrary: s) (simp_all add: Let_def)

lemma deleted_entry_found:
  assumes "fat32_filename_to_8_3 name = Some fn" and "hd fn = 0xE5" and "e = fn @ 0x20 # replicate 20 0" and "length fn = 11"
  shows "dir_scan ci name l [e] = Some e \<and> e ! 0 = 0xE5"
proof -
  have "e ! 0 = 0xE5" "e ! 11 = 0x20" "take 11 e = fn"
    using assms by (simp_all add: nth_append hd_conv_nth [symmetric] flip: length_greater_0_conv)
  then show ?thesis using assms(1) by (simp add: strncmp_refl)
qed

end
