(* ===== verification/Fat32_Properties.thy ===== *)
theory Fat32_Properties
  imports Fat32_Correct Fat32_Names Small_Device
begin

text \<open>
  The properties of the FAT reader. The witnesses run on a FAT12 volume of eight sectors: a boot
  sector, one table, a root directory of sixteen entries and five clusters, with one file of 600
  bytes in clusters 2 and 3.
\<close>

section \<open>A small FAT volume\<close>

definition fat_boot :: "u8 list" where
  "fat_boot = [0xeb, 0, 0x90] @ replicate 8 0x20 @ [0, 2, 1, 1, 0, 1, 16, 0, 8, 0, 0xf8, 1, 0] @ replicate 30 0 @
     [0x46, 0x41, 0x54, 0x31, 0x32]"

definition fat_file_entry :: "u8 list" where
  "fat_file_entry = [0x48, 0x45, 0x4c, 0x4c, 0x4f, 0x20, 0x20, 0x20, 0x20, 0x20, 0x20, 0x20] @ replicate 14 0 @
     [2, 0, 0x58, 2, 0, 0]"

definition fat_image :: "u8 list" where
  "fat_image = fat_boot @ replicate 453 0 @ [0xf8, 0xff, 0xff, 3, 0xf0, 0xff] @ replicate 506 0 @
     fat_file_entry @ replicate 480 0 @ replicate 1024 0x41 @ replicate 1536 0"

lemma fat_lengths [simp]: "length fat_boot = 59" "length fat_file_entry = 32" "length fat_image = 4096"
  by (simp_all add: fat_boot_def fat_file_entry_def fat_image_def)

definition fat_ctx :: fat32_context where
  "fat_ctx = \<lparr>fat_type = 12, bytes_per_sector = 512, sectors_per_cluster = 1, reserved_sectors = 1, number_of_fats = 1,
     hidden_sectors = 0, sectors_per_fat = 1, fat_start_lba = 1, data_start_lba = 3, root_directory_cluster = 0,
     root_entries = 16, root_start = 2, root_size = 1\<rparr>"

abbreviation fat_vol :: "nat \<Rightarrow> (u64 \<Rightarrow> u8) \<Rightarrow> vstate" where
  "fat_vol n m \<equiv> (small_heap n m, small_device fat_image)"

lemma fat_vol_ok: "vol_ok (driver fat_image) (medium fat_image) (fat_vol n m)"
  using small_device_ok [of fat_image] by (simp add: vol_ok_def driver_serves)

lemma fat_vread:
  assumes "0 < n" and "unat loc + unat n \<le> 4096"
  shows "vread disk (s, small_device fat_image) loc n = Inr (Some (take (unat n) (drop (unat loc) fat_image)), s, small_device fat_image)"
  using small_read_volume [OF _ assms] by (simp add: vread_def)

lemma chars_append: "chars (xs @ ys) = chars xs @ chars ys"
  by (simp add: chars_def)

lemma strncmp_prefix: "strncmp (s @ t) s (length s) = 0"
  by (induction s) (simp_all add: Let_def)

lemma fat_parses: "fat32_parse (take 512 fat_image) = Some fat_ctx"
proof -
  let ?b = "take 512 fat_image"
  have f: "bpb_bps ?b = 512" "bpb_spc ?b = 1" "bpb_reserved ?b = 1" "bpb_fats ?b = 1" "bpb_root_entries ?b = 16"
    "bpb_sectors_16 ?b = 8" "bpb_fat_16 ?b = 1" "le32_at ?b 28 = 0" "le32_at ?b 44 = 0"
    by (simp_all add: fat_image_def fat_boot_def le16_at_def le32_at_def nth_append)
  have "drop 0x36 ?b = [0x46, 0x41, 0x54] @ [0x31, 0x32] @ replicate 453 0"
    by (simp add: fat_image_def fat_boot_def)
  moreover have "chars [0x46, 0x41, 0x54] = ''FAT''" by code_simp
  ultimately have "chars (drop 0x36 ?b) = ''FAT'' @ chars ([0x31, 0x32] @ replicate 453 0)"
    by (metis chars_append)
  then have s: "fat32_signed ?b" using strncmp_prefix [of "''FAT''"]
    by (simp add: fat32_signed_def numeral_3_eq_3)
  show ?thesis
    using f s by (simp add: fat32_parse_def bpb_valid_def bpb_clusters_def fat32_type_of_def fat32_layout_def DIV_ROUNDUP_def
      CHECKED_ADD_def fat_ctx_def)
qed

lemma fat_next:
  "read_cluster_from_map disk fat_ctx (fat_vol n m) 2 = Inr (Some 3, fat_vol n m)"
  "read_cluster_from_map disk fat_ctx (fat_vol n m) 3 = Inr (Some 0xfff, fat_vol n m)"
  by (simp_all add: read_cluster_from_map_def fat_read_def fat_ctx_def fat_vread)
     (simp_all add: fat_image_def fat_boot_def le16_at_def)

lemma fat_limits: "cluster_limit fat_ctx = 0xfef" "max_clusters fat_ctx = 341" "block_size fat_ctx = 512"
  "readable_cluster_limit fat_ctx (small_device fat_image) = Some 6"
  by (simp_all add: cluster_limit_def max_clusters_def block_size_def readable_cluster_limit_def fat_ctx_def small_device_def
      CHECKED_MUL_def)

lemma fat_ctx_fields: "root_entries fat_ctx = 16" "root_start fat_ctx = 2" "bytes_per_sector fat_ctx = 512" "fat_type fat_ctx = 12"
  by (simp_all add: fat_ctx_def)

lemma fat_chain_of_2:
  assumes "ext_mem_alloc (small_heap n m) 8 = Inr (p, small_heap k m')"
  shows "cache_cluster_chain disk fat_ctx (fat_vol n m) 2 = Inr (Some (p, [2, 3]), fat_vol k m')"
proof -
  have "count_chain disk fat_ctx 6 341 (fat_vol n m) 1 2 = Inr (Some 2, fat_vol n m)"
    by (simp add: count_chain.simps [of disk fat_ctx 6 341 "fat_vol n m" _ 2] count_chain.simps [of disk fat_ctx 6 341 "fat_vol n m" _ 3]
        fat_next fat_limits)
  moreover have "fill_chain disk fat_ctx (fat_vol k m') 2 2 = Inr (Some [2, 3], fat_vol k m')"
    by (simp add: numeral_2_eq_2 fat_next)
  ultimately show ?thesis
    using assms by (simp add: cache_cluster_chain_def fat_limits valloc_counted_def ext_mem_alloc_counted_def CHECKED_MUL_def)
qed

lemma fat_scan: "dir_scan ci ''HELLO'' l (fat_file_entry # rest) = Some fat_file_entry"
proof -
  have "fat32_filename_to_8_3 ''HELLO'' = Some (take 11 fat_file_entry)" by code_simp
  moreover have "fat_file_entry ! 0 \<noteq> 0" "fat_file_entry ! 11 = 0x20" by (simp_all add: fat_file_entry_def)
  ultimately show ?thesis by (simp add: strncmp_refl)
qed

lemma fat_finds: "\<exists>m'. open_walk disk ci fat_ctx (fat_vol 0 m) None 1 ''HELLO'' = Inr (Some fat_file_entry, fat_vol 0 m')"
proof -
  obtain m1 where a: "ext_mem_alloc (small_heap 0 m) 512 = Inr (0x1ff000, small_heap 1 m1)" using small_allocs(2) by blast
  obtain m2 where f: "pmm_free (small_heap 1 m1) 0x1ff000 512 = Inr (small_heap 0 m2)" using small_free by blast
  have d: "take 512 (drop 1024 fat_image) = fat_file_entry @ replicate 480 0"
    by (simp add: fat_image_def)
  have r: "DIV_ROUNDUP (ucast (root_entries fat_ctx) * 32) (block_size fat_ctx) = Some 1"
    by (simp add: fat_limits fat_ctx_fields DIV_ROUNDUP_def CHECKED_ADD_def)
  have "load_root_directory disk fat_ctx (fat_vol 0 m) = Inr (Some (0x1ff000, 512, fat_file_entry @ replicate 480 0), fat_vol 1 m1)"
    unfolding load_root_directory_def r
    by (simp add: fat_limits CHECKED_MUL_def valloc_def a fat_ctx_fields fat_vread d)
  moreover have "\<exists>rest. entries_of (fat_file_entry @ replicate 480 0) = fat_file_entry # rest"
    by (simp add: entries_of_def upt_conv_Cons)
  ultimately have "fat32_open_in disk ci fat_ctx (fat_vol 0 m) None ''HELLO'' = Inr (Some fat_file_entry, fat_vol 0 m2)"
    using f fat_scan by (auto simp: fat32_open_in_def search_directory_def load_directory_def vfree_def)
  moreover have "path_component 1 0 ''HELLO'' = Some (5, False)" by (simp add: path_component.simps)
  ultimately have "open_walk disk ci fat_ctx (fat_vol 0 m) None 1 ''HELLO'' = Inr (Some fat_file_entry, fat_vol 0 m2)"
    by (simp add: open_walk.simps [of _ _ _ "fat_vol 0 m"])
  then show ?thesis by blast
qed

definition fat_handle :: fat32_file_handle where
  "fat_handle = \<lparr>fat_fd = 0x1fe000, fat_context = fat_ctx, first_cluster = 2, size_bytes = 600,
     cluster_chain = 0x1fd000, chain_clusters = [2, 3]\<rparr>"

lemma fat_opens: "\<exists>m'. fat32_open disk ci (fat_vol 0 m) ''/HELLO'' = Inr (Some (0x1ff000, fat_handle), fat_vol 3 m')"
proof -
  obtain m1 where w: "open_walk disk ci fat_ctx (fat_vol 0 m) None 1 ''HELLO'' = Inr (Some fat_file_entry, fat_vol 0 m1)"
    using fat_finds by blast
  obtain m2 where a1: "ext_mem_alloc (small_heap 0 m1) 80 = Inr (0x1ff000, small_heap 1 m2)" using small_allocs(1) by blast
  obtain m3 where a2: "ext_mem_alloc (small_heap 1 m2) 80 = Inr (0x1fe000, small_heap 2 m3)" using small_allocs(4) by blast
  obtain m4 where a3: "ext_mem_alloc (small_heap 2 m3) 8 = Inr (0x1fd000, small_heap 3 m4)" using small_allocs(5) by blast
  have "le16_at fat_file_entry 26 = 2" "le32_at fat_file_entry 28 = 600"
    by (simp_all add: fat_file_entry_def le16_at_def le32_at_def nth_append)
  then have "fat32_open_entry disk fat_ctx (fat_vol 0 m1) fat_file_entry = Inr (Some (0x1ff000, fat_handle), fat_vol 3 m4)"
    using fat_chain_of_2 [OF a3, of disk]
    by (simp add: fat32_open_entry_def valloc_def a1 a2 [simplified] fat_ctx_fields Let_def fat_limits) (simp add: fat_handle_def)
  moreover have "fat32_init_context disk (fat_vol 0 m) = Inr (Some fat_ctx, fat_vol 0 m)"
    using fat_parses by (simp add: fat32_init_context_def fat_vread)
  ultimately show ?thesis using w by (auto simp: fat32_open_def root_directory_def fat_ctx_fields Let_def)
qed

lemma fat_path_steps:
  assumes "fat_path f x ks y" and "ks \<noteq> []"
  shows "y = f (List.last ks) \<and> hd ks = x \<and> (\<forall>i. Suc i < length ks \<longrightarrow> ks ! Suc i = f (ks ! i))"
  using assms
proof (induction ks arbitrary: x)
  case (Cons k ks)
  show ?case
  proof (cases ks)
    case Nil
    with Cons.prems show ?thesis by simp
  next
    case (Cons a as)
    with Cons.prems Cons.IH [of "f k"] show ?thesis by (auto simp: nth_Cons split: nat.splits)
  qed
qed simp

section \<open>Cluster chains\<close>

text \<open>
  C24: the chain \<open>cache_cluster_chain\<close> hands out is the walk through the file allocation
  table of the medium: it starts at the cluster asked for, each cluster is the table's entry of
  the one before it, the entry of the last one is an end mark, no cluster is visited twice, the
  length respects the bound, and every cluster lies wholly on the volume.
\<close>

theorem cluster_chain_walk:
  assumes "cache_cluster_chain disk c st x = Inr (Some (p, ks), st')" and "vol_ok disk D st" and "fat_geometry c"
  shows "hd ks = x \<and> (\<forall>i. Suc i < length ks \<longrightarrow> ks ! Suc i = fat_entry D st c (ks ! i)) \<and>
    \<not> in_range c (fat_entry D st c (List.last ks)) \<and> distinct ks \<and> length ks \<le> unat (max_clusters c) \<and>
    (\<forall>k \<in> set ks. in_range c k \<and> on_volume st c k) \<and> vol_ok disk D st'"
proof -
  note k = cache_cluster_chain_ok [OF assms]
  then have ch: "chain_of D st c x ks" by blast
  then obtain y where p: "fat_path (fat_entry D st c) x ks y" "\<not> in_range c y" "ks \<noteq> []" "\<forall>k \<in> set ks. in_range c k"
    by (auto simp: chain_of_def)
  have "y = fat_entry D st c (List.last ks) \<and> hd ks = x \<and> (\<forall>i. Suc i < length ks \<longrightarrow> ks ! Suc i = fat_entry D st c (ks ! i))"
    using p(1,3) by (rule fat_path_steps)
  with p chain_of_distinct [OF ch] k show ?thesis by (auto simp: stays_ok)
qed

theorem cluster_chain_walk_witness:
  "\<exists>st'. cache_cluster_chain (driver fat_image) fat_ctx (fat_vol 0 (\<lambda>_. 0)) 2 = Inr (Some (0x1ff000, [2, 3]), st') \<and>
     distinct [2, 3 :: u32] \<and> on_volume (fat_vol 0 (\<lambda>_. 0)) fat_ctx 3"
proof -
  obtain m where m: "ext_mem_alloc (small_heap 0 (\<lambda>_. 0)) 8 = Inr (0x1ff000, small_heap 1 m)" using small_allocs(3) by blast
  have "fat_geometry fat_ctx" using fat_parses by (rule parse_geometry)
  from cluster_chain_walk [OF fat_chain_of_2 [OF m] fat_vol_ok this] fat_chain_of_2 [OF m] show ?thesis by auto
qed

section \<open>Opening and reading\<close>

text \<open>
  C26: a file \<open>fat32_open\<close> opens keeps its promises: the file system's parameters are those
  of the boot sector and within the FAT specification, its clusters are the table's chain from
  its first cluster, all on the volume, and they hold at least its size. The volume itself is
  left as it was, but for its cache.
\<close>

theorem fat32_open_file:
  assumes "fat32_open disk ci st path = Inr (Some (h, f), st')" and "vol_ok disk D st"
  shows "fat32_parse (vol_bytes D st 0 512) = Some (fat_context f) \<and> fat_geometry (fat_context f) \<and>
    unat (size_bytes f) \<le> length (chain_clusters f) * unat (block_size (fat_context f)) \<and>
    chain_clusters f \<in> {ks. ks = [] \<or> chain_of D st' (fat_context f) (first_cluster f) ks} \<and>
    (\<forall>k \<in> set (chain_clusters f). on_volume st' (fat_context f) k) \<and> vol_ok disk D st' \<and> vol_key st' = vol_key st"
  using fat32_open_ok [OF assms] by (auto simp: fat_file_def stays_def)

theorem fat32_open_file_witness:
  "\<exists>h f st'. fat32_open (driver fat_image) False (fat_vol 0 (\<lambda>_. 0)) ''/HELLO'' = Inr (Some (h, f), st') \<and>
     chain_of (medium fat_image) st' (fat_context f) (first_cluster f) (chain_clusters f) \<and> size_bytes f = 600"
proof -
  obtain m where o: "fat32_open (driver fat_image) False (fat_vol 0 (\<lambda>_. 0)) ''/HELLO'' = Inr (Some (0x1ff000, fat_handle), fat_vol 3 m)"
    using fat_opens by blast
  from fat32_open_file [OF o fat_vol_ok] o show ?thesis by (auto simp: fat_handle_def)
qed

text \<open>
  C25: reading an open file inside its size delivers exactly that part of its contents, the
  bytes of its clusters one after the other, cut at its size.
\<close>

theorem fat32_read_contents:
  assumes "fat32_read disk f st loc cnt = Inr (bs, st')" and "vol_ok disk D st" and "fat_file D st f"
    and "unat loc + unat cnt \<le> unat (size_bytes f)"
  shows "bs = take (unat cnt) (drop (unat loc) (fat_contents D st f)) \<and> length bs = unat cnt \<and> vol_ok disk D st'"
proof -
  note k = fat32_read_ok [OF assms]
  have "length (fat_contents D st f) = unat (size_bytes f)"
    using assms(3) by (simp add: fat_contents_def chain_bytes_length fat_file_def)
  with k assms(4) show ?thesis by (simp add: stays_ok)
qed

theorem fat32_read_contents_witness:
  "\<exists>st'. fat32_read (driver fat_image) fat_handle (fat_vol 0 (\<lambda>_. 0)) 590 2 = Inr ([0x41, 0x41], st') \<and>
     [0x41, 0x41] = take 2 (drop 590 (fat_contents (medium fat_image) (fat_vol 0 (\<lambda>_. 0)) fat_handle))"
proof -
  let ?st = "fat_vol 0 (\<lambda>_. 0)"
  obtain m where o: "fat32_open (driver fat_image) False ?st ''/HELLO'' = Inr (Some (0x1ff000, fat_handle), fat_vol 3 m)"
    using fat_opens by blast
  have f: "fat_file (medium fat_image) ?st fat_handle"
    using fat32_open_ok [OF o fat_vol_ok] stays_file [of "driver fat_image" "medium fat_image" ?st "fat_vol 3 m"] by blast
  have d: "take 2 (drop 2126 fat_image) = [0x41, 0x41]" by (simp add: fat_image_def numeral_2_eq_2)
  have r: "fat32_read (driver fat_image) fat_handle ?st 590 2 = Inr ([0x41, 0x41], ?st)"
    by (simp add: fat32_read_def read_cluster_chain.simps [of _ _ _ ?st 590 2] fat_handle_def fat_limits cluster_base_def)
       (simp add: fat_ctx_def fat_vread d read_cluster_chain.simps [of _ _ _ ?st 590 2 2])
  from fat32_read_contents [OF r fat_vol_ok f] r show ?thesis by (auto simp: fat_handle_def)
qed

section \<open>Names\<close>




end
