(* ===== verification/Iso9660.thy ===== *)
theory Iso9660
  imports Reader Cstring
begin

text \<open>
  The ISO 9660 file system with Rock Ridge names, \<^verbatim>\<open>src/common/fs/iso9660.s2.c\<close>. A directory is
  the buffer it was read into, an entry an offset into it. Every byte taken out of a directory
  goes through a checked read, so that leaving the buffer would be a panic of its own.
\<close>

section \<open>Bytes of a directory\<close>

definition OVERREAD :: string where "OVERREAD = ''read outside the directory''"

definition byte_at :: "u8 list \<Rightarrow> nat \<Rightarrow> u8 outcome" where
  "byte_at bs i = (if i < length bs then Inr (bs ! i) else Inl OVERREAD)"

definition nat_at :: "u8 list \<Rightarrow> nat \<Rightarrow> nat outcome" where
  "nat_at bs i = map_sum id unat (byte_at bs i)"

definition attempt :: "'a outcome \<Rightarrow> ('a \<Rightarrow> 'b outcome) \<Rightarrow> 'b outcome" where
  "attempt x f = (case x of Inl e \<Rightarrow> Inl e | Inr a \<Rightarrow> f a)"

definition iso_chars :: "u8 list \<Rightarrow> string" where
  "iso_chars bs = map (\<lambda>b. char_of (unat b)) bs"

abbreviation ENTRY_SIZE :: nat where "ENTRY_SIZE \<equiv> 33"
abbreviation ISO9660_SECTOR_SIZE :: nat where "ISO9660_SECTOR_SIZE \<equiv> 2048"

section \<open>Names\<close>

text \<open>
  Rock Ridge: the name collected from the system use area, \<^const>\<open>None\<close> when there is no \<open>NM\<close>
  field. \<open>p\<close> is the offset of the area, \<open>n\<close> its length.
\<close>

function nm_loop :: "u8 list \<Rightarrow> nat \<Rightarrow> nat \<Rightarrow> nat \<Rightarrow> u8 list option \<Rightarrow> u8 list option outcome" where
  "nm_loop bs limit p n name =
     (if n < 4 then Inr name
      else attempt (byte_at bs (p + 3)) (\<lambda>version.
        if version \<noteq> 1 then Inr name
        else attempt (nat_at bs (p + 2)) (\<lambda>len.
          if len > n \<or> len = 0 then Inr name
          else attempt (byte_at bs p) (\<lambda>s0. attempt (byte_at bs (p + 1)) (\<lambda>s1.
            if s0 = 0x4e \<and> s1 = 0x4d \<and> len \<ge> 5 then
              (let have_name = (case name of None \<Rightarrow> [] | Some nm \<Rightarrow> nm); frag_len = len - 5
               in if length have_name + frag_len \<ge> limit then Inl ''iso9660: Filename size exceeded''
                  else if p + 5 + frag_len > length bs then Inl OVERREAD
                  else (let name' = Some (have_name @ take frag_len (drop (p + 5) bs))
                        in attempt (byte_at bs (p + 4)) (\<lambda>flags.
                             if flags AND 1 = 0 then Inr name'
                             else nm_loop bs limit (p + len) (n - len) name')))
            else nm_loop bs limit (p + len) (n - len) name)))))"
  by pat_completeness auto
termination
  by (relation "measure (\<lambda>(bs, limit, p, n, name). n)") auto

declare nm_loop.simps [simp del]

text \<open>The plain name, up to the version number.\<close>

function iso_name_loop :: "u8 list \<Rightarrow> nat \<Rightarrow> nat \<Rightarrow> nat \<Rightarrow> u8 list outcome" where
  "iso_name_loop bs e name_len j =
     (if \<not> j < name_len then Inr []
      else attempt (byte_at bs (e + ENTRY_SIZE + j)) (\<lambda>ch.
        if ch = 0x3b then Inr []
        else attempt (if ch = 0x2e \<and> j + 1 < name_len then map_sum id (\<lambda>b. b = 0x3b) (byte_at bs (e + ENTRY_SIZE + j + 1))
                  else Inr False) (\<lambda>stop.
          if stop then Inr []
          else attempt (iso_name_loop bs e name_len (j + 1)) (\<lambda>rest. Inr (ch # rest)))))"
  by pat_completeness auto
termination
  by (relation "measure (\<lambda>(bs, e, n, j). n - j)") auto

declare iso_name_loop.simps [simp del]

definition iso_name :: "u8 list \<Rightarrow> nat \<Rightarrow> nat \<Rightarrow> nat \<Rightarrow> nat \<Rightarrow> u8 list outcome" where
  "iso_name bs limit e len fsz =
     (if fsz \<ge> limit then Inl ''iso9660: Filename size exceeded''
      else iso_name_loop bs e
             (if len < ENTRY_SIZE + fsz then (if len \<le> ENTRY_SIZE then 0 else len - ENTRY_SIZE) else fsz) 0)"

text \<open>The name of the entry at \<open>e\<close>, and whether it is a Rock Ridge name.\<close>

definition load_name :: "u8 list \<Rightarrow> nat \<Rightarrow> nat \<Rightarrow> (bool \<times> u8 list) outcome" where
  "load_name bs limit e =
     attempt (nat_at bs e) (\<lambda>len. attempt (nat_at bs (e + 32)) (\<lambda>fsz.
       let plain = attempt (iso_name bs limit e len fsz) (\<lambda>nm. Inr (False, nm));
           area = ENTRY_SIZE + fsz + (if fsz mod 2 = 0 then 1 else 0)
       in if len < ENTRY_SIZE + fsz then plain
          else if fsz mod 2 = 0 \<and> len - ENTRY_SIZE - fsz = 0 then plain
          else attempt (nm_loop bs limit (e + area) (len - area) None) (\<lambda>name.
                 case name of None \<Rightarrow> plain | Some nm \<Rightarrow> Inr (True, nm))))"

section \<open>Entries\<close>

text \<open>
  The entry after the one at \<open>cur\<close>; \<open>base\<close> is the address of the buffer, which the skip to
  the next sector is computed from.
\<close>

definition skip_sector :: "u64 \<Rightarrow> u8 list \<Rightarrow> nat \<Rightarrow> nat option" where
  "skip_sector base bs off =
     (case ALIGN_UP (base + of_nat off + 1) 2048 of
        None \<Rightarrow> None
      | Some next_sector \<Rightarrow> if next_sector \<ge> base + of_nat (length bs) then None else Some (unat (next_sector - base)))"

definition iso9660_next_entry :: "u64 \<Rightarrow> u8 list \<Rightarrow> nat \<Rightarrow> nat option outcome" where
  "iso9660_next_entry base bs cur =
     attempt (nat_at bs cur) (\<lambda>len.
       if len = 0 then
         (case skip_sector base bs cur of
            None \<Rightarrow> Inr None
          | Some e \<Rightarrow> attempt (nat_at bs e) (\<lambda>l. Inr (if l = 0 then None else Some e)))
       else if cur + len \<ge> length bs then Inr None
       else attempt (nat_at bs (cur + len)) (\<lambda>nlen.
         attempt (if nlen = 0 then
                (case skip_sector base bs (cur + len) of
                   None \<Rightarrow> Inr None
                 | Some e \<Rightarrow> attempt (nat_at bs e) (\<lambda>l. Inr (if l = 0 then None else Some (e, l))))
              else Inr (Some (cur + len, nlen))) (\<lambda>found.
           Inr (case found of
                  None \<Rightarrow> None
                | Some (e, l) \<Rightarrow> if l < ENTRY_SIZE then None else if l > length bs - e then None else Some e))))"

function iso9660_find :: "bool \<Rightarrow> u8 list \<Rightarrow> string \<Rightarrow> nat \<Rightarrow> nat \<Rightarrow> nat option outcome" where
  "iso9660_find case_insensitive bs filename off sz =
     (if sz = 0 then Inr None
      else attempt (nat_at bs off) (\<lambda>len.
        if len = 0 then
          (if sz \<le> ISO9660_SECTOR_SIZE then Inr None
           else (let aligned = sz div ISO9660_SECTOR_SIZE * ISO9660_SECTOR_SIZE
                 in if sz = aligned
                    then iso9660_find case_insensitive bs filename (off + ISO9660_SECTOR_SIZE) (aligned - ISO9660_SECTOR_SIZE)
                    else iso9660_find case_insensitive bs filename (off + (sz - aligned)) aligned))
        else if len > sz then Inr None
        else if len < ENTRY_SIZE then Inr None
        else attempt (load_name bs 256 off) (\<lambda>(rr, entry_filename).
          if (if rr \<and> \<not> case_insensitive then strcmp else strcasecmp) filename (iso_chars entry_filename) = 0
          then Inr (Some off)
          else iso9660_find case_insensitive bs filename (off + len) (sz - len))))"
  by pat_completeness auto
termination
proof (relation "measure (\<lambda>(ci, bs, f, off, sz). sz)", goal_cases)
  case (3 ci bs f off sz len aligned)
  have "aligned \<le> sz" unfolding 3(4) by (rule div_times_less_eq_dividend)
  with 3(5) show ?case by simp
next
  case (2 ci bs f off sz len aligned)
  then have "aligned - ISO9660_SECTOR_SIZE < sz" by linarith
  then show ?case by simp
next
  case (4 ci bs f off sz len)
  then have "sz - len < sz" by linarith
  then show ?case by simp
qed simp

declare iso9660_find.simps [simp del]

section \<open>The primary volume descriptor\<close>

text \<open>The descriptors from sector 16 on, at most 256 of them.\<close>

fun find_pvd :: "disk \<Rightarrow> vstate \<Rightarrow> nat list \<Rightarrow> (u8 list option \<times> vstate) outcome" where
  "find_pvd disk st [] = Inr (None, st)"
| "find_pvd disk st (lba # lbas) =
     bindo (vread disk st (of_nat lba * 2048) 2048) (\<lambda>r st1.
       case r of
         None \<Rightarrow> Inr (None, st1)
       | Some desc \<Rightarrow>
           if take 5 (drop 1 desc) \<noteq> [0x43, 0x44, 0x30, 0x30, 0x31] then Inr (None, st1)
           else if desc ! 0 = 1 then Inr (if desc ! 6 = 1 then Some desc else None, st1)
           else if desc ! 0 = 255 then Inr (None, st1)
           else find_pvd disk st1 lbas)"

definition iso9660_find_PVD :: "disk \<Rightarrow> vstate \<Rightarrow> (u8 list option \<times> vstate) outcome" where
  "iso9660_find_PVD disk st = find_pvd disk st [16..<272]"

fun strip_spaces :: "u8 list \<Rightarrow> nat \<Rightarrow> u8 list" where
  "strip_spaces r 0 = r"
| "strip_spaces r (Suc i) = (if r ! i \<noteq> 0x20 then r else strip_spaces (r[i := 0]) i)"

definition iso9660_get_label :: "disk \<Rightarrow> vstate \<Rightarrow> (u8 list option \<times> vstate) outcome" where
  "iso9660_get_label disk st =
     bindo (iso9660_find_PVD disk st) (\<lambda>pv st1.
       case pv of
         None \<Rightarrow> Inr (None, st1)
       | Some desc \<Rightarrow> bindo (valloc st1 33) (\<lambda>_ st2. Inr (Some (strip_spaces (take 32 (drop 40 desc) @ [0]) 32), st2)))"

section \<open>Contexts\<close>

text \<open>A mounted volume, by its identity, with the address and the bytes of its root directory.\<close>

record iso9660_context =
  iso_vol :: nat
  iso_root :: u64
  iso_root_bytes :: "u8 list"

abbreviation ISO9660_MAX_DIR_SIZE :: u32 where "ISO9660_MAX_DIR_SIZE \<equiv> 67108864"

definition dir_size_ok :: "u32 \<Rightarrow> bool" where
  "dir_size_ok n \<longleftrightarrow> \<not> (n = 0 \<or> n > ISO9660_MAX_DIR_SIZE \<or> n mod 2048 \<noteq> 0)"

text \<open>A directory read into a fresh buffer, which is released when the read fails.\<close>

definition load_extent :: "disk \<Rightarrow> vstate \<Rightarrow> u32 \<Rightarrow> u32 \<Rightarrow> ((u64 \<times> u8 list) option \<times> vstate) outcome" where
  "load_extent disk st lba n =
     bindo (valloc st (ucast n)) (\<lambda>p st1.
       bindo (vread disk st1 (ucast lba * 2048) (ucast n)) (\<lambda>r st2.
         case r of
           None \<Rightarrow> bindo (vfree st2 p (ucast n)) (\<lambda>_ st3. Inr (None, st3))
         | Some bs \<Rightarrow> Inr (Some (p, bs), st2)))"

definition iso9660_cache_root :: "disk \<Rightarrow> vstate \<Rightarrow> ((u64 \<times> u8 list) option \<times> vstate) outcome" where
  "iso9660_cache_root disk st =
     bindo (iso9660_find_PVD disk st) (\<lambda>pv st1.
       case pv of
         None \<Rightarrow> Inr (None, st1)
       | Some desc \<Rightarrow>
           if \<not> dir_size_ok (le32_at desc 166) then Inr (None, st1)
           else load_extent disk st1 (le32_at desc 158) (le32_at desc 166))"

definition iso9660_get_context ::
  "disk \<Rightarrow> nat \<Rightarrow> iso9660_context list \<Rightarrow> vstate \<Rightarrow> ((iso9660_context option \<times> iso9660_context list) \<times> vstate) outcome" where
  "iso9660_get_context disk vol contexts st =
     (case List.find (\<lambda>c. iso_vol c = vol) contexts of
        Some c \<Rightarrow> Inr ((Some c, contexts), st)
      | None \<Rightarrow>
          bindo (valloc st 32) (\<lambda>node st1.
            bindo (iso9660_cache_root disk st1) (\<lambda>r st2.
              case r of
                None \<Rightarrow> bindo (vfree st2 node 32) (\<lambda>_ st3. Inr ((None, contexts), st3))
              | Some (root, bs) \<Rightarrow>
                  (let c = \<lparr>iso_vol = vol, iso_root = root, iso_root_bytes = bs\<rparr> in Inr ((Some c, c # contexts), st2)))))"

section \<open>Opening a file\<close>

record iso9660_extent =
  ext_lba :: u32
  ext_size :: u32

record iso9660_file_handle =
  iso_fd :: u64
  total_size :: u64
  extents_at :: u64
  extents :: "iso9660_extent list"

definition extent_of :: "u8 list \<Rightarrow> nat \<Rightarrow> iso9660_extent" where
  "extent_of bs e = \<lparr>ext_lba = le32_at (drop e bs) 2, ext_size = le32_at (drop e bs) 10\<rparr>"

text \<open>The entries a file continues in, from the one at \<open>e\<close> on; \<open>n\<close> counts those found so far.\<close>

fun more_extents :: "u64 \<Rightarrow> u8 list \<Rightarrow> u8 list \<Rightarrow> nat \<Rightarrow> nat \<Rightarrow> nat list outcome" where
  "more_extents base bs base_name 0 e = Inr []"
| "more_extents base bs base_name (Suc left) e =
     attempt (byte_at bs (e + 25)) (\<lambda>flags.
       if flags AND 0x80 = 0 then Inr []
       else attempt (iso9660_next_entry base bs e) (\<lambda>next.
         case next of
           None \<Rightarrow> Inr []
         | Some e' \<Rightarrow>
             attempt (load_name bs 256 e') (\<lambda>(_, next_name).
               if deref (iso_chars base_name) = NUL \<or> strcmp (iso_chars base_name) (iso_chars next_name) \<noteq> 0 then Inr []
               else attempt (more_extents base bs base_name left e') (\<lambda>es. Inr (e' # es)))))"

definition lift_pure :: "'a outcome \<Rightarrow> vstate \<Rightarrow> ('a \<times> vstate) outcome" where
  "lift_pure x st = (case x of Inl e \<Rightarrow> Inl e | Inr a \<Rightarrow> Inr (a, st))"

text \<open>The handle of the file whose first entry is at \<open>e\<close>; at most 65536 extents are taken.\<close>

definition collect_extents ::
  "u64 \<Rightarrow> u8 list \<Rightarrow> nat \<Rightarrow> vstate \<Rightarrow> u64 \<Rightarrow> (iso9660_file_handle \<times> vstate) outcome" where
  "collect_extents base bs e st fd =
     bindo (lift_pure (attempt (load_name bs 256 e) (\<lambda>(_, base_name). more_extents base bs base_name 65535 e)) st) (\<lambda>es st1.
       let exts = map (extent_of bs) (e # es)
       in bindo (valloc_counted st1 (of_nat (length exts)) 8) (\<lambda>p st2.
            Inr (\<lparr>iso_fd = fd, total_size = sum_list (map (\<lambda>x. ucast (ext_size x)) exts), extents_at = p, extents = exts\<rparr>, st2)))"

text \<open>The next component: the characters up to a slash or the end.\<close>

definition iso_component :: "string \<Rightarrow> string outcome" where
  "iso_component p =
     (let c = takeWhile (\<lambda>ch. ch \<noteq> CHR ''/'' \<and> ch \<noteq> NUL) p
      in if length c > 254 then Inl ''iso9660: Path component exceeds maximum length'' else Inr c)"

abbreviation SIZEOF_ISO9660_FILE_HANDLE :: u64 where "SIZEOF_ISO9660_FILE_HANDLE \<equiv> 32"

text \<open>Giving up: the directory buffer, unless it is the root, and the handle are released.\<close>

definition iso_fail :: "bool \<Rightarrow> u64 \<Rightarrow> u8 list \<Rightarrow> u64 \<Rightarrow> vstate \<Rightarrow> ('a option \<times> vstate) outcome" where
  "iso_fail first cur bs fd st =
     bindo (if first then Inr ((), st) else vfree st cur (of_nat (length bs))) (\<lambda>_ st1.
       bindo (vfree st1 fd SIZEOF_ISO9660_FILE_HANDLE) (\<lambda>_ st2. Inr (None, st2)))"

text \<open>The directory of the entry at \<open>e\<close> takes the place of the current one.\<close>

definition iso_descend ::
  "disk \<Rightarrow> u64 \<Rightarrow> bool \<Rightarrow> u64 \<Rightarrow> u8 list \<Rightarrow> nat \<Rightarrow> vstate \<Rightarrow> ((u64 \<times> u8 list) option \<times> vstate) outcome" where
  "iso_descend disk fd first cur bs e st =
     bindo (lift_pure (byte_at bs (e + 25)) st) (\<lambda>flags _.
       if flags AND 0x02 = 0 then iso_fail first cur bs fd st
       else bindo (if first then Inr ((), st) else vfree st cur (of_nat (length bs))) (\<lambda>_ st1.
         if \<not> dir_size_ok (ext_size (extent_of bs e)) then
           bindo (vfree st1 fd SIZEOF_ISO9660_FILE_HANDLE) (\<lambda>_ st2. Inr (None, st2))
         else bindo (load_extent disk st1 (ext_lba (extent_of bs e)) (ext_size (extent_of bs e))) (\<lambda>r st2.
           case r of
             None \<Rightarrow> bindo (vfree st2 fd SIZEOF_ISO9660_FILE_HANDLE) (\<lambda>_ st3. Inr (None, st3))
           | Some d \<Rightarrow> Inr (Some d, st2))))"

text \<open>The file was found: its handle is filled in and the directory buffer released.\<close>

definition iso_finish ::
  "u64 \<Rightarrow> bool \<Rightarrow> u64 \<Rightarrow> u8 list \<Rightarrow> nat \<Rightarrow> vstate \<Rightarrow> (iso9660_file_handle option \<times> vstate) outcome" where
  "iso_finish fd first cur bs e st =
     bindo (collect_extents cur bs e st fd) (\<lambda>f st1.
       bindo (if first then Inr ((), st1) else vfree st1 cur (of_nat (length bs))) (\<lambda>_ st2. Inr (Some f, st2)))"

definition iso_lookup :: "bool \<Rightarrow> u8 list \<Rightarrow> string \<Rightarrow> nat option outcome" where
  "iso_lookup ci bs p = attempt (iso_component p) (\<lambda>filename. iso9660_find ci bs filename 0 (length bs))"

function iso_walk ::
  "disk \<Rightarrow> bool \<Rightarrow> u64 \<Rightarrow> bool \<Rightarrow> u64 \<Rightarrow> u8 list \<Rightarrow> vstate \<Rightarrow> string \<Rightarrow> (iso9660_file_handle option \<times> vstate) outcome" where
  "iso_walk disk ci fd first cur bs st path =
     (let p = dropWhile (\<lambda>ch. ch = CHR ''/'') path;
          rest = dropWhile (\<lambda>ch. ch \<noteq> CHR ''/'' \<and> ch \<noteq> NUL) p
      in if deref p = NUL then iso_fail first cur bs fd st
         else bindo (lift_pure (iso_lookup ci bs p) st) (\<lambda>found _.
           case found of
             None \<Rightarrow> iso_fail first cur bs fd st
           | Some e \<Rightarrow>
               if deref rest = NUL then iso_finish fd first cur bs e st
               else bindo (iso_descend disk fd first cur bs e st) (\<lambda>r st2.
                 case r of
                   None \<Rightarrow> Inr (None, st2)
                 | Some (cur', bs') \<Rightarrow> iso_walk disk ci fd False cur' bs' st2 (tl rest))))"
  by pat_completeness blast+
termination
proof (relation "measure (\<lambda>(disk, ci, fd, first, cur, bs, st, path). length path)", goal_cases)
  case (2 disk ci fd first cur bs st path p rest)
  have "length rest \<le> length path" unfolding 2(1,2) by (meson dual_order.trans length_dropWhile_le)
  moreover have "rest \<noteq> []" using 2(5) by (metis deref.simps(1))
  ultimately have "length (tl rest) < length path" by (cases rest) auto
  then show ?case unfolding in_measure prod.case .
qed (rule wf_measure)

declare iso_walk.simps [simp del]

definition iso_open_in ::
  "disk \<Rightarrow> bool \<Rightarrow> u64 \<Rightarrow> iso9660_context \<Rightarrow> vstate \<Rightarrow> string \<Rightarrow> ((u64 \<times> iso9660_file_handle) option \<times> vstate) outcome" where
  "iso_open_in disk ci fd ctx st path =
     bindo (iso_walk disk ci fd True (iso_root ctx) (iso_root_bytes ctx) st path) (\<lambda>f st1.
       case f of
         None \<Rightarrow> Inr (None, st1)
       | Some handle \<Rightarrow> bindo (valloc st1 80) (\<lambda>h st2. Inr (Some (h, handle), st2)))"

definition iso9660_open ::
  "disk \<Rightarrow> bool \<Rightarrow> nat \<Rightarrow> iso9660_context list \<Rightarrow> vstate \<Rightarrow> string
     \<Rightarrow> (((u64 \<times> iso9660_file_handle) option \<times> iso9660_context list) \<times> vstate) outcome" where
  "iso9660_open disk ci vol contexts st path =
     bindo (vread disk st 32769 5) (\<lambda>r st1.
       if map_option (\<lambda>b. strcmp (iso_chars b) ''CD001'') r \<noteq> Some 0 then Inr ((None, contexts), st1)
       else bindo (valloc st1 SIZEOF_ISO9660_FILE_HANDLE) (\<lambda>fd st2.
         bindo (iso9660_get_context disk vol contexts st2) (\<lambda>(c, contexts') st3.
           case c of
             None \<Rightarrow> bindo (vfree st3 fd SIZEOF_ISO9660_FILE_HANDLE) (\<lambda>_ st4. Inr ((None, contexts'), st4))
           | Some ctx \<Rightarrow> bindo (iso_open_in disk ci fd ctx st3 path) (\<lambda>f st4. Inr ((f, contexts'), st4)))))"

section \<open>Reading a file\<close>

text \<open>The extents left, and where the first of them starts in the file.\<close>

fun read_extents :: "disk \<Rightarrow> vstate \<Rightarrow> iso9660_extent list \<Rightarrow> u64 \<Rightarrow> u64 \<Rightarrow> u64 \<Rightarrow> (u8 list \<times> vstate) outcome" where
  "read_extents disk st [] start loc cnt =
     (if cnt > 0 then Inl ''iso9660: read beyond end of file'' else Inr ([], st))"
| "read_extents disk st (x # xs) start loc cnt =
     (if \<not> cnt > 0 then Inr ([], st)
      else (let stop = start + ucast (ext_size x)
            in if loc < stop then
                 (let offset = (if loc > start then loc - start else 0);
                      available = ucast (ext_size x) - offset;
                      to_read = (if cnt < available then cnt else available)
                  in bindo (vread disk st (ucast (ext_lba x) * 2048 + offset) to_read) (\<lambda>r st1.
                       case r of
                         None \<Rightarrow> Inl ''iso9660: failed to read file data''
                       | Some bs \<Rightarrow>
                           bindo (read_extents disk st1 xs stop (loc + to_read) (cnt - to_read)) (\<lambda>rest st2.
                             Inr (bs @ rest, st2))))
               else read_extents disk st xs stop loc cnt))"

definition iso9660_read :: "disk \<Rightarrow> iso9660_file_handle \<Rightarrow> vstate \<Rightarrow> u64 \<Rightarrow> u64 \<Rightarrow> (u8 list \<times> vstate) outcome" where
  "iso9660_read disk f st loc cnt = read_extents disk st (extents f) 0 loc cnt"

definition iso9660_close :: "iso9660_file_handle \<Rightarrow> vstate \<Rightarrow> (unit \<times> vstate) outcome" where
  "iso9660_close f st =
     bindo (vfree st (extents_at f) (of_nat (length (extents f)) * 8)) (\<lambda>_ st1.
       vfree st1 (iso_fd f) SIZEOF_ISO9660_FILE_HANDLE)"

end
