(* ===== verification/Iso9660_Directory.thy ===== *)
theory Iso9660_Directory
  imports Iso9660
begin

text \<open>
  Directories of an ISO 9660 volume: no byte outside a directory buffer is ever read, whatever
  the directory holds, and a search of a well-formed directory returns its first record with
  the name asked for.
\<close>

section \<open>Checked reads\<close>

definition in_bounds :: "'a outcome \<Rightarrow> bool" where
  "in_bounds x \<longleftrightarrow> x \<noteq> Inl OVERREAD"

lemma in_bounds_Inr [simp]: "in_bounds (Inr a)"
  by (simp add: in_bounds_def)

lemma in_bounds_panics [simp]: "in_bounds (Inl ''iso9660: Filename size exceeded'')"
  "in_bounds (Inl ''iso9660: Path component exceeds maximum length'')"
  by (simp_all add: in_bounds_def OVERREAD_def)

lemma in_bounds_attempt:
  "in_bounds x \<Longrightarrow> (\<And>a. x = Inr a \<Longrightarrow> in_bounds (f a)) \<Longrightarrow> in_bounds (attempt x f)"
  by (cases x) (simp_all add: attempt_def in_bounds_def)

lemma attempt_simps [simp]: "attempt (Inr a) f = f a" "attempt (Inl e) f = Inl e"
  by (simp_all add: attempt_def)

lemma attempt_Inr: "attempt x f = Inr b \<longleftrightarrow> (\<exists>a. x = Inr a \<and> f a = Inr b)"
  by (cases x) auto

lemma byte_at_in [simp]: "i < length bs \<Longrightarrow> byte_at bs i = Inr (bs ! i)"
  by (simp add: byte_at_def)

lemma nat_at_in [simp]: "i < length bs \<Longrightarrow> nat_at bs i = Inr (unat (bs ! i))"
  by (simp add: nat_at_def)

text \<open>A directory entry that lies in its buffer with all the bytes it declares.\<close>

definition entry_ok :: "u8 list \<Rightarrow> nat \<Rightarrow> bool" where
  "entry_ok bs e \<longleftrightarrow> e < length bs \<and> ENTRY_SIZE \<le> unat (bs ! e) \<and> e + unat (bs ! e) \<le> length bs"

lemma nm_loop_in_bounds: "p + n \<le> length bs \<Longrightarrow> in_bounds (nm_loop bs limit p n name)"
proof (induction n arbitrary: p name rule: less_induct)
  case (less n)
  let ?len = "unat (bs ! (p + 2))"
  have step: "in_bounds (nm_loop bs limit (p + ?len) (n - ?len) name)" if "?len \<noteq> 0" "?len \<le> n" "\<not> n < 4" for name
    using that less.prems by (intro less.IH) auto
  show ?case
  proof (cases "n < 4")
    case False
    with less.prems have r: "p < length bs" "Suc p < length bs" "p + 2 < length bs" "p + 3 < length bs" "p + 4 < length bs \<or> n = 4"
      by auto
    show ?thesis
      unfolding nm_loop.simps [of bs limit p n name] using step False less.prems r by (simp add: Let_def)
  next
    case True
    then show ?thesis unfolding nm_loop.simps [of bs limit p n name] by simp
  qed
qed

lemma iso_name_loop_in_bounds: "e + ENTRY_SIZE + n \<le> length bs \<Longrightarrow> in_bounds (iso_name_loop bs e n j)"
proof (induction "n - j" arbitrary: j rule: less_induct)
  case less
  show ?case
  proof (cases "j < n")
    case True
    then have "in_bounds (iso_name_loop bs e n (j + 1))" using less by simp
    with True less.prems show ?thesis
      unfolding iso_name_loop.simps [of bs e n j] by (auto intro!: in_bounds_attempt)
  next
    case False
    then show ?thesis unfolding iso_name_loop.simps [of bs e n j] by simp
  qed
qed

lemma load_name_in_bounds:
  assumes "entry_ok bs e" shows "in_bounds (load_name bs limit e)"
proof -
  have i: "in_bounds (iso_name bs limit e (unat (bs ! e)) (unat (bs ! (e + 32))))"
    using assms by (auto simp: iso_name_def entry_ok_def intro!: iso_name_loop_in_bounds)
  have "in_bounds (nm_loop bs limit (e + a) (unat (bs ! e) - a) None)" if "a \<le> unat (bs ! e)" for a
    using assms that by (intro nm_loop_in_bounds) (simp add: entry_ok_def)
  with i show ?thesis using assms
    by (auto simp: load_name_def entry_ok_def Let_def intro!: in_bounds_attempt split: option.split)
qed

text \<open>One step of a search: the end, padding up to the next sector, or an entry.\<close>

definition to_next_sector :: "nat \<Rightarrow> nat" where
  "to_next_sector sz = (if sz mod 2048 = 0 then 2048 else sz mod 2048)"

definition name_matches :: "bool \<Rightarrow> string \<Rightarrow> bool \<times> u8 list \<Rightarrow> bool" where
  "name_matches ci filename nm \<longleftrightarrow>
     (if fst nm \<and> \<not> ci then strcmp else strcasecmp) filename (iso_chars (snd nm)) = 0"

lemma to_next_sector_bounds: "0 < to_next_sector sz" "2048 \<le> sz \<Longrightarrow> to_next_sector sz \<le> sz" "to_next_sector sz \<le> 2048"
  using mod_less_divisor [of 2048 sz] mod_less_eq_dividend [of sz 2048] by (simp_all add: to_next_sector_def)

lemma iso9660_find_end [simp]: "iso9660_find ci bs name off 0 = Inr None"
  by (subst iso9660_find.simps) simp

lemma iso9660_find_pad:
  assumes "0 < sz" and "off < length bs" and "bs ! off = 0"
  shows "iso9660_find ci bs name off sz =
    (if sz \<le> 2048 then Inr None else iso9660_find ci bs name (off + to_next_sector sz) (sz - to_next_sector sz))"
proof -
  have "sz = sz div 2048 * 2048 \<longleftrightarrow> sz mod 2048 = 0" "sz - sz div 2048 * 2048 = sz mod 2048" "sz - sz mod 2048 = sz div 2048 * 2048"
    using div_mult_mod_eq [of sz 2048] by linarith+
  then show ?thesis
    using assms by (subst iso9660_find.simps) (auto simp: to_next_sector_def Let_def)
qed

lemma iso9660_find_entry:
  assumes "0 < sz" and "off < length bs" and "bs ! off \<noteq> 0"
  shows "iso9660_find ci bs name off sz =
    (if sz < unat (bs ! off) \<or> unat (bs ! off) < ENTRY_SIZE then Inr None
     else attempt (load_name bs 256 off) (\<lambda>nm.
       if name_matches ci name nm then Inr (Some off)
       else iso9660_find ci bs name (off + unat (bs ! off)) (sz - unat (bs ! off))))"
  using assms by (subst iso9660_find.simps) (auto simp: name_matches_def unat_eq_0 attempt_def split: sum.split)

text \<open>A search stays in the part of the buffer it is given, and what it finds lies there wholly.\<close>

lemma iso9660_find_in_bounds:
  "off + sz \<le> length bs \<Longrightarrow> in_bounds (iso9660_find ci bs name off sz) \<and>
     (\<forall>e. iso9660_find ci bs name off sz = Inr (Some e) \<longrightarrow> entry_ok bs e)"
proof (induction sz arbitrary: off rule: less_induct)
  case (less sz)
  let ?len = "unat (bs ! off)"
  let ?ok = "\<lambda>x. in_bounds x \<and> (\<forall>e. x = Inr (Some e) \<longrightarrow> entry_ok bs e)"
  have step: "?ok (iso9660_find ci bs name (off + k) (sz - k))" if "0 < k" "k \<le> sz" "sz \<noteq> 0" for k
    using that less.prems by (intro less.IH) simp_all
  consider "sz = 0" | (pad) "sz \<noteq> 0" "bs ! off = 0" | (ent) "sz \<noteq> 0" "bs ! off \<noteq> 0" by blast
  then show ?case
  proof cases
    case pad
    then have "iso9660_find ci bs name off sz =
        (if sz \<le> 2048 then Inr None else iso9660_find ci bs name (off + to_next_sector sz) (sz - to_next_sector sz))"
      using less.prems by (intro iso9660_find_pad) simp_all
    with step [of "to_next_sector sz"] to_next_sector_bounds [of sz] pad show ?thesis by simp
  next
    case ent
    then have e: "iso9660_find ci bs name off sz =
      (if sz < ?len \<or> ?len < ENTRY_SIZE then Inr None
       else attempt (load_name bs 256 off) (\<lambda>nm.
         if name_matches ci name nm then Inr (Some off)
         else iso9660_find ci bs name (off + ?len) (sz - ?len)))"
      using less.prems by (intro iso9660_find_entry) simp_all
    show ?thesis
    proof (cases "sz < ?len \<or> ?len < ENTRY_SIZE")
      case False
      then have k: "entry_ok bs off" using less.prems by (auto simp: entry_ok_def)
      with step [of ?len] False ent load_name_in_bounds [OF k, of 256] show ?thesis
        unfolding e by (cases "load_name bs 256 off") (auto simp: in_bounds_def)
    qed (simp add: e)
  qed simp
qed

text \<open>The step to the next entry, and the entries a file continues in.\<close>

lemma window_offset:
  fixes a n :: u64
  assumes le: "a + of_nat off + 1 \<le> n" and lt: "n < a + of_nat len" and "off < len" and "len < 2 ^ 64"
  shows "unat (n - a) < len"
proof -
  have u: "unat (of_nat len :: u64) = len" "unat (of_nat off :: u64) = off"
    using assms by (simp_all add: unat_of_nat take_bit_nat_eq_self)
  show ?thesis
  proof (cases "unat a + len < 2 ^ 64")
    case True
    with \<open>off < len\<close> u have "unat (a + of_nat off + 1) = unat a + off + 1" "unat (a + of_nat len) = unat a + len"
      by (simp_all add: unat_word_ariths)
    with le lt have "a \<le> n" "unat n < unat a + len" by (simp_all add: word_le_nat_alt word_less_nat_alt)
    then show ?thesis by (simp add: unat_sub word_le_nat_alt)
  next
    case False
    have a: "unat a < 2 ^ 64" using unsigned_less [of a] by simp
    have "unat (a + of_nat len) = (unat a + len) mod 2 ^ 64" using u by (simp add: unat_word_ariths)
    also have "\<dots> = unat a + len - 2 ^ 64" using False \<open>len < 2 ^ 64\<close> a by (simp add: mod_if)
    finally have n: "unat n < unat a + len - 2 ^ 64" using lt by (simp add: word_less_nat_alt)
    then have "n < a" using False \<open>len < 2 ^ 64\<close> by (simp add: word_less_nat_alt)
    then have "unat (n - a) = 2 ^ 64 + unat n - unat a" by (simp add: unat_sub_if' word_less_nat_alt word_le_nat_alt)
    with n False a show ?thesis by simp
  qed
qed

lemma skip_sector_inside:
  assumes "skip_sector base bs off = Some e" and "off < length bs" and "length bs < 2 ^ 64"
  shows "e < length bs"
proof -
  from assms(1) obtain n where n: "ALIGN_UP (base + of_nat off + 1) 2048 = Some n" "n < base + of_nat (length bs)" "e = unat (n - base)"
    by (auto simp: skip_sector_def split: option.splits if_splits)
  have "base + of_nat off + 1 \<le> n" using ALIGN_UP_props(1) [OF n(1)] by simp
  from window_offset [OF this n(2) assms(2,3)] n(3) show ?thesis by simp
qed

lemma iso9660_next_entry_ok:
  assumes "entry_ok bs e" and "length bs < 2 ^ 64"
  shows "\<exists>r. iso9660_next_entry base bs e = Inr r \<and> (\<forall>e'. r = Some e' \<longrightarrow> entry_ok bs e')"
proof -
  have e: "e < length bs" "unat (bs ! e) \<noteq> 0" using assms(1) by (auto simp: entry_ok_def)
  let ?n = "e + unat (bs ! e)"
  have fit: "e' + l \<le> length bs" if "\<not> l > length bs - e'" "e' < length bs" for e' l :: nat using that by linarith
  note skip = skip_sector_inside [OF _ _ assms(2), of base ?n]
  show ?thesis
    using e fit by (auto simp: iso9660_next_entry_def entry_ok_def dest: skip split: option.split)
qed

lemma more_extents_in_bounds:
  assumes "entry_ok bs e" and "length bs < 2 ^ 64"
  shows "in_bounds (more_extents base bs base_name n e)"
  using assms(1)
proof (induction n arbitrary: e)
  case (Suc n)
  obtain r where r: "iso9660_next_entry base bs e = Inr r" "\<And>e'. r = Some e' \<Longrightarrow> entry_ok bs e'"
    using iso9660_next_entry_ok [OF Suc.prems assms(2)] by blast
  have "e + 25 < length bs" using Suc.prems by (simp add: entry_ok_def)
  with r Suc.IH load_name_in_bounds show ?case
    by (auto intro!: in_bounds_attempt split: option.split)
qed simp

text \<open>The entries a file continues in lie in the buffer too, so their fields can be read.\<close>

lemma more_extents_entries:
  assumes "entry_ok bs e" and "length bs < 2 ^ 64" and "more_extents base bs base_name n e = Inr es"
  shows "\<forall>e' \<in> set es. entry_ok bs e'"
  using assms(1,3)
proof (induction n arbitrary: e es)
  case (Suc n)
  obtain r where r: "iso9660_next_entry base bs e = Inr r" "\<And>e'. r = Some e' \<Longrightarrow> entry_ok bs e'"
    using iso9660_next_entry_ok [OF Suc.prems(1) assms(2)] by blast
  with Suc show ?case
    by (auto simp: attempt_Inr split: if_splits option.splits)
qed simp

lemma more_extents_length: "more_extents base bs base_name n e = Inr es \<Longrightarrow> length es \<le> n"
proof (induction n arbitrary: e es)
  case (Suc n)
  then show ?case by (auto simp: attempt_Inr split: if_splits option.splits)
qed simp

section \<open>Searching a well-formed directory\<close>

text \<open>An entry's name depends on the bytes of the entry alone, not on where it stands.\<close>

lemma byte_at_within [simp]: "i < length r \<Longrightarrow> byte_at (pre @ r @ post) (length pre + i) = Inr (r ! i)"
  by (simp add: byte_at_def nth_append)

lemma byte_at_within0 [simp]: "r \<noteq> [] \<Longrightarrow> byte_at (pre @ r @ post) (length pre) = Inr (r ! 0)"
  using byte_at_within [of 0 r pre post] by simp

lemma nm_loop_within:
  "p + n \<le> length r \<Longrightarrow> nm_loop (pre @ r @ post) limit (length pre + p) n name = nm_loop r limit p n name"
proof (induction n arbitrary: p name rule: less_induct)
  case (less n)
  let ?len = "unat (r ! (p + 2))"
  have step: "nm_loop (pre @ r @ post) limit (length pre + (p + ?len)) (n - ?len) name = nm_loop r limit (p + ?len) (n - ?len) name"
    if "?len \<noteq> 0" "?len \<le> n" "\<not> n < 4" for name
    using that less.prems by (intro less.IH) auto
  show ?case
  proof (cases "n < 4")
    case False
    with less.prems have q: "p < length r" "Suc p < length r" "p + 2 < length r" "p + 3 < length r" by auto
    have b: "byte_at (pre @ r @ post) (length pre + p + k) = Inr (r ! (p + k))" if "p + k < length r" for k
      using byte_at_within [OF that, of pre post] by (simp add: add.assoc)
    have n: "nat_at (pre @ r @ post) (length pre + p + 2) = Inr ?len" using b [of 2] q by (simp add: nat_at_def)
    have d: "take k (drop (length pre + p + 5) (pre @ r @ post)) = take k (drop (p + 5) r)" if "p + 5 + k \<le> length r" for k
      using that by simp
    show ?thesis
      unfolding nm_loop.simps [of _ _ _ n] n using step False less.prems q b [of 3] b [of 1] b [of 0] b [of 4]
      by (simp add: Let_def add.assoc)
  next
    case True
    then show ?thesis unfolding nm_loop.simps [of _ _ _ n] by simp
  qed
qed

lemma iso_name_loop_within:
  "ENTRY_SIZE + n \<le> length r \<Longrightarrow> iso_name_loop (pre @ r @ post) (length pre) n j = iso_name_loop r 0 n j"
proof (induction "n - j" arbitrary: j rule: less_induct)
  case less
  show ?case
  proof (cases "j < n")
    case True
    then have s: "iso_name_loop (pre @ r @ post) (length pre) n (j + 1) = iso_name_loop r 0 n (j + 1)"
      using less by simp
    have b: "byte_at (pre @ r @ post) (length pre + ENTRY_SIZE + k) = Inr (r ! (ENTRY_SIZE + k))" if "k < n" for k
      using byte_at_within [of "ENTRY_SIZE + k" r pre post] that less.prems by (simp add: add.assoc)
    show ?thesis
      unfolding iso_name_loop.simps [of _ _ n j] s using True less.prems b [of j] b [of "j + 1"] by (simp add: add.assoc)
  next
    case False
    then show ?thesis unfolding iso_name_loop.simps [of _ _ n j] by simp
  qed
qed

definition record_bytes :: "u8 list \<Rightarrow> bool" where
  "record_bytes r \<longleftrightarrow> ENTRY_SIZE \<le> length r \<and> unat (r ! 0) = length r"

lemma load_name_within:
  assumes "record_bytes r"
  shows "load_name (pre @ r @ post) limit (length pre) = load_name r limit 0"
proof -
  have l: "r \<noteq> []" "32 < length r" "unat (r ! 0) = length r" "ENTRY_SIZE \<le> length r" using assms by (auto simp: record_bytes_def)
  have f: "nat_at (pre @ r @ post) (length pre) = Inr (length r)"
    "nat_at (pre @ r @ post) (length pre + 32) = Inr (unat (r ! 32))"
    "nat_at r 0 = Inr (length r)" "nat_at r (0 + 32) = Inr (unat (r ! 32))"
    using l byte_at_within0 [OF l(1), of pre post] byte_at_within [OF l(2), of pre post] by (simp_all add: nat_at_def)
  have i: "iso_name (pre @ r @ post) limit (length pre) (length r) k = iso_name r limit 0 (length r) k" for k
    using l(4) by (auto simp: iso_name_def iso_name_loop_within)
  have n: "nm_loop (pre @ r @ post) limit (length pre + a) (length r - a) None = nm_loop r limit (0 + a) (length r - a) None"
    if "a \<le> length r" for a using that by (simp add: nm_loop_within)
  show ?thesis
    unfolding load_name_def f attempt_simps i by (auto simp: Let_def n)
qed

text \<open>
  A directory is a list of sectors, a sector a list of records followed by zeros, and each
  record knows its length and has a name. Its records come with the offsets they stand at.
\<close>

definition record_ok :: "u8 list \<Rightarrow> bool" where
  "record_ok r \<longleftrightarrow> record_bytes r \<and> (case load_name r 256 0 of Inl _ \<Rightarrow> False | Inr _ \<Rightarrow> True)"

definition sector_ok :: "u8 list list \<Rightarrow> bool" where
  "sector_ok rs \<longleftrightarrow> (\<forall>r \<in> set rs. record_ok r) \<and> length (concat rs) \<le> 2048"

definition sector_bytes :: "u8 list list \<Rightarrow> u8 list" where
  "sector_bytes rs = concat rs @ replicate (2048 - length (concat rs)) 0"

definition directory_bytes :: "u8 list list list \<Rightarrow> u8 list" where
  "directory_bytes ss = concat (map sector_bytes ss)"

fun placed :: "nat \<Rightarrow> u8 list list \<Rightarrow> (nat \<times> u8 list) list" where
  "placed off [] = []"
| "placed off (r # rs) = (off, r) # placed (off + length r) rs"

fun directory_records :: "nat \<Rightarrow> u8 list list list \<Rightarrow> (nat \<times> u8 list) list" where
  "directory_records off [] = []"
| "directory_records off (rs # ss) = placed off rs @ directory_records (off + 2048) ss"

definition record_named :: "bool \<Rightarrow> string \<Rightarrow> u8 list \<Rightarrow> bool" where
  "record_named ci name r \<longleftrightarrow> (case load_name r 256 0 of Inl _ \<Rightarrow> False | Inr nm \<Rightarrow> name_matches ci name nm)"

definition first_named :: "bool \<Rightarrow> string \<Rightarrow> (nat \<times> u8 list) list \<Rightarrow> nat option" where
  "first_named ci name xs = map_option fst (List.find (\<lambda>(off, r). record_named ci name r) xs)"

lemma first_named_simps [simp]:
  "first_named ci name [] = None"
  "first_named ci name ((off, r) # xs) = (if record_named ci name r then Some off else first_named ci name xs)"
  by (simp_all add: first_named_def)

lemma first_named_append:
  "first_named ci name (xs @ ys) = (case first_named ci name xs of None \<Rightarrow> first_named ci name ys | Some e \<Rightarrow> Some e)"
  by (induction xs) auto

text \<open>The records of one sector; \<open>post\<close> is the rest of the buffer.\<close>

lemma find_records:
  assumes "\<forall>r \<in> set rs. record_ok r"
  shows "iso9660_find ci (pre @ concat rs @ post) name (length pre) (length (concat rs) + k) =
    (case first_named ci name (placed (length pre) rs) of
       Some e \<Rightarrow> Inr (Some e)
     | None \<Rightarrow> iso9660_find ci (pre @ concat rs @ post) name (length (pre @ concat rs)) k)"
  using assms
proof (induction rs arbitrary: pre)
  case (Cons r rs)
  let ?bs = "pre @ r @ concat rs @ post"
  obtain nm where nm: "load_name r 256 0 = Inr nm" and r: "record_bytes r"
    using Cons.prems by (auto simp: record_ok_def split: sum.splits)
  have l: "r \<noteq> []" "ENTRY_SIZE \<le> length r" "?bs ! length pre = r ! 0" "unat (r ! 0) = length r"
    using r by (auto simp: record_bytes_def nth_append)
  have "r ! 0 \<noteq> 0" using l by auto
  then have "iso9660_find ci ?bs name (length pre) (length r + (length (concat rs) + k)) =
    (if name_matches ci name nm then Inr (Some (length pre))
     else iso9660_find ci ?bs name (length pre + length r) (length (concat rs) + k))"
    using l load_name_within [OF r, of pre "concat rs @ post" 256] nm by (subst iso9660_find_entry) (simp_all add: l(3))
  moreover have "record_named ci name r \<longleftrightarrow> name_matches ci name nm" using nm by (simp add: record_named_def)
  moreover note Cons.IH [of "pre @ r"] Cons.prems
  ultimately show ?case by (simp add: add.assoc split: option.split)
qed simp

lemma directory_bytes_simps [simp]: "directory_bytes [] = []" "directory_bytes (rs # ss) = sector_bytes rs @ directory_bytes ss"
  by (simp_all add: directory_bytes_def)

lemma sector_bytes_length: "sector_ok rs \<Longrightarrow> length (sector_bytes rs) = 2048"
  by (simp add: sector_bytes_def sector_ok_def)

lemma directory_bytes_length: "\<forall>rs \<in> set ss. sector_ok rs \<Longrightarrow> length (directory_bytes ss) = 2048 * length ss"
  by (induction ss) (simp_all add: sector_bytes_length)

lemma to_next_sector_pad: "0 < p \<Longrightarrow> p \<le> 2048 \<Longrightarrow> to_next_sector (p + 2048 * m) = p"
  by (cases "p = 2048") (simp_all add: to_next_sector_def)

text \<open>From the end of a sector's records a search goes on at the next sector.\<close>

lemma find_padding:
  assumes "p \<le> 2048"
  shows "iso9660_find ci (pre @ replicate p 0 @ post) name (length pre) (p + 2048 * m) =
    (if m = 0 then Inr None else iso9660_find ci (pre @ replicate p 0 @ post) name (length pre + p) (2048 * m))"
proof (cases "p = 0")
  case False
  then show ?thesis
    using assms by (subst iso9660_find_pad) (auto simp: nth_append to_next_sector_pad)
qed simp

lemma find_directory_from:
  assumes "\<forall>rs \<in> set ss. sector_ok rs"
  shows "iso9660_find ci (pre @ directory_bytes ss) name (length pre) (length (directory_bytes ss)) =
    Inr (first_named ci name (directory_records (length pre) ss))"
  using assms
proof (induction ss arbitrary: pre)
  case (Cons rs ss)
  let ?p = "2048 - length (concat rs)"
  have ok: "sector_ok rs" "\<forall>rs \<in> set ss. sector_ok rs" using Cons.prems by simp_all
  have rs: "\<forall>r \<in> set rs. record_ok r" "length (concat rs) \<le> 2048" using ok(1) by (simp_all add: sector_ok_def)
  have bs: "pre @ directory_bytes (rs # ss) = pre @ concat rs @ replicate ?p 0 @ directory_bytes ss"
    by (simp add: sector_bytes_def)
  have len: "length (directory_bytes (rs # ss)) = length (concat rs) + (?p + 2048 * length ss)"
    using rs(2) ok directory_bytes_length [of ss] by (simp add: sector_bytes_def)
  have rest: "iso9660_find ci (pre @ directory_bytes (rs # ss)) name (length pre + 2048) (2048 * length ss) =
      Inr (first_named ci name (directory_records (length pre + 2048) ss))"
    using Cons.IH [OF ok(2), of "pre @ sector_bytes rs"] directory_bytes_length [OF ok(2)] sector_bytes_length [OF ok(1)] by simp
  have "iso9660_find ci (pre @ directory_bytes (rs # ss)) name (length (pre @ concat rs)) (?p + 2048 * length ss) =
      Inr (first_named ci name (directory_records (length pre + 2048) ss))"
    using find_padding [of ?p ci "pre @ concat rs" "directory_bytes ss" name "length ss"] rest rs(2)
    unfolding bs by (simp split: if_splits)
  then show ?case
    unfolding len unfolding bs
    using find_records [OF rs(1), of ci pre "replicate ?p 0 @ directory_bytes ss" name "?p + 2048 * length ss"]
    unfolding bs by (simp add: first_named_append split: option.split)
qed simp

lemma find_directory:
  assumes "\<forall>rs \<in> set ss. sector_ok rs"
  shows "iso9660_find ci (directory_bytes ss) name 0 (length (directory_bytes ss)) = Inr (first_named ci name (directory_records 0 ss))"
  using find_directory_from [OF assms, of ci "[]" name] by simp

end
