(* ===== verification/Iso9660_Files.thy ===== *)
theory Iso9660_Files
  imports Iso9660_Directory
begin

text \<open>
  Files of an ISO 9660 volume: reading delivers the bytes of the extents one after the other;
  the root directory is the one the first primary descriptor names; and an open file is the one
  its path leads to through the directories on the medium.
\<close>

section \<open>Reading\<close>

definition extent_bytes :: "(nat \<Rightarrow> u8) \<Rightarrow> vstate \<Rightarrow> iso9660_extent \<Rightarrow> u8 list" where
  "extent_bytes D st x = vol_bytes D st (unat (ext_lba x) * 2048) (unat (ext_size x))"

definition extents_bytes :: "(nat \<Rightarrow> u8) \<Rightarrow> vstate \<Rightarrow> iso9660_extent list \<Rightarrow> u8 list" where
  "extents_bytes D st xs = concat (map (extent_bytes D st) xs)"

lemma extent_bytes_length [simp]: "length (extent_bytes D st x) = unat (ext_size x)"
  by (simp add: extent_bytes_def)

lemma extents_bytes_simps [simp]:
  "extents_bytes D st [] = []" "extents_bytes D st (x # xs) = extent_bytes D st x @ extents_bytes D st xs"
  by (simp_all add: extents_bytes_def)

lemma stays_extents: "stays disk D st st' \<Longrightarrow> extents_bytes D st' xs = extents_bytes D st xs"
  by (induction xs) (simp_all add: extent_bytes_def stays_bytes)

text \<open>The part of one extent a read takes.\<close>

lemma extent_offset:
  fixes lba n :: u32 and k :: u64
  assumes "unat k \<le> unat n"
  shows "unat (ucast lba * 2048 + k :: u64) = unat lba * 2048 + unat k"
    and "unat lba * 2048 + unat n < 2 ^ 44"
proof -
  have l: "unat lba < 2 ^ 32" "unat n < 2 ^ 32" using unsigned_less [of lba] unsigned_less [of n] by simp_all
  then show "unat lba * 2048 + unat n < 2 ^ 44" by simp
  have "unat (ucast lba :: u64) = unat lba" by (simp add: unat_ucast_up)
  then show "unat (ucast lba * 2048 + k :: u64) = unat lba * 2048 + unat k"
    using l assms by (simp add: unat_word_ariths)
qed

lemma slice_across:
  "d \<le> length xs \<Longrightarrow> take n (drop d (xs @ ys)) = take (min n (length xs - d)) (drop d xs) @ take (n - min n (length xs - d)) ys"
  by (cases "n \<le> length xs - d") simp_all

lemma read_extents_ok:
  assumes "read_extents disk st xs start loc cnt = Inr (bs, st')" and "vol_ok disk D st"
    and "unat start + sum_list (map (\<lambda>x. unat (ext_size x)) xs) < 2 ^ 64" and "start \<le> loc \<or> cnt = 0"
  shows "stays disk D st st' \<and> bs = take (unat cnt) (drop (unat loc - unat start) (extents_bytes D st xs)) \<and>
    (cnt \<noteq> 0 \<longrightarrow> unat loc + unat cnt \<le> unat start + sum_list (map (\<lambda>x. unat (ext_size x)) xs))"
  using assms
proof (induction xs arbitrary: st start loc cnt bs)
  case Nil
  then show ?case by (auto simp: stays_refl word_gt_0 split: if_splits)
next
  case (Cons x xs)
  let ?n = "ucast (ext_size x) :: u64" and ?stop = "start + ucast (ext_size x)"
  have n: "unat ?n = unat (ext_size x)" by (simp add: unat_ucast_up)
  have stop: "unat ?stop = unat start + unat (ext_size x)" using Cons.prems(3) n by (simp add: unat_word_ariths)
  consider (zero) "cnt = 0" | (skip) "cnt \<noteq> 0" "\<not> loc < ?stop" | (here) "cnt \<noteq> 0" "loc < ?stop" by blast
  then show ?case
  proof cases
    case zero
    with Cons.prems show ?thesis by (simp add: stays_refl)
  next
    case skip
    then have "read_extents disk st xs ?stop loc cnt = Inr (bs, st')" using Cons.prems(1) by (simp add: word_gt_0)
    from Cons.IH [OF this Cons.prems(2)] Cons.prems(3) skip stop show ?thesis
      by (simp add: word_less_nat_alt word_le_nat_alt)
  next
    case here
    define d where "d = loc - start"
    define r where "r = (if cnt < ?n - d then cnt else ?n - d)"
    have le: "start \<le> loc" using Cons.prems(4) here by simp
    have d: "unat d = unat loc - unat start" "unat d < unat (ext_size x)"
      using le here(2) stop by (auto simp: d_def unat_sub word_less_nat_alt word_le_nat_alt)
    have off: "(if start < loc then loc - start else 0) = d" using le by (auto simp: d_def)
    have r: "unat r = min (unat cnt) (unat (ext_size x) - unat d)"
      using d(2) n by (simp add: r_def unat_sub word_less_nat_alt word_le_nat_alt)
    obtain b st1 rest where v: "vread disk st (ucast (ext_lba x) * 2048 + d) r = Inr (Some b, st1)"
      and rec: "read_extents disk st1 xs ?stop (loc + r) (cnt - r) = Inr (rest, st')" and bs: "bs = b @ rest"
      using Cons.prems(1) here off by (auto simp: word_gt_0 r_def Let_def elim!: bindo_InrE split: option.splits)
    have at: "unat (ucast (ext_lba x) * 2048 + d) = unat (ext_lba x) * 2048 + unat d"
      "unat (ext_lba x) * 2048 + unat (ext_size x) < 2 ^ 44"
      using extent_offset [of d "ext_size x" "ext_lba x"] d(2) by simp_all
    have "unat (ucast (ext_lba x) * 2048 + d) + unat r \<le> 2 ^ 64" using at r d(2) by simp
    note s1 = vread_stays [OF v Cons.prems(2) this]
    have b: "b = take (unat r) (drop (unat d) (extent_bytes D st x))"
      using s1(2) [OF refl] r unfolding at extent_bytes_def vol_bytes_slice by simp
    have l: "unat (loc + r) = unat loc + unat r" "unat (cnt - r) = unat cnt - unat r"
      using r d stop Cons.prems(3) le by (simp_all add: unat_word_ariths unat_sub word_le_nat_alt)
    have "unat start \<le> unat loc" using le by (simp add: word_le_nat_alt)
    then have q: "unat (loc + r) \<le> unat ?stop" "unat ?stop \<le> unat (loc + r) \<or> unat (cnt - r) = 0" "unat r \<le> unat cnt"
      using l r d stop by linarith+
    then have j: "unat (loc + r) - unat ?stop = 0" "?stop \<le> loc + r \<or> cnt - r = 0" "cnt - r = 0 \<Longrightarrow> unat cnt = unat r"
      using l(2) by (simp_all add: word_le_nat_alt unat_eq_0 [symmetric])
    have "unat ?stop + sum_list (map (\<lambda>x. unat (ext_size x)) xs) < 2 ^ 64" using Cons.prems(3) stop by simp
    note ih = Cons.IH [OF rec stays_ok [OF s1(1)] this j(2)]
    have rest: "rest = take (unat cnt - unat r) (extents_bytes D st xs)"
      using ih l(2) j(1) stays_extents [OF s1(1)] by simp
    have "take (unat cnt) (drop (unat d) (extent_bytes D st x @ extents_bytes D st xs)) = b @ rest"
      using slice_across [of "unat d" "extent_bytes D st x" "unat cnt" "extents_bytes D st xs"] d(2) r b rest by simp
    moreover have "unat loc + unat cnt \<le> unat start + (unat (ext_size x) + sum_list (map (\<lambda>x. unat (ext_size x)) xs))"
    proof (cases "cnt - r = 0")
      case True
      with j(3) r d \<open>unat start \<le> unat loc\<close> show ?thesis by linarith
    next
      case False
      with ih l stop q(3) show ?thesis by linarith
    qed
    moreover have "stays disk D st st'" using ih s1(1) stays_trans by blast
    ultimately show ?thesis by (simp add: bs d(1))
  qed
qed

section \<open>The root directory\<close>

text \<open>What the medium says its root directory is: the first primary descriptor, before which only others stand.\<close>

definition descriptor :: "(nat \<Rightarrow> u8) \<Rightarrow> vstate \<Rightarrow> nat \<Rightarrow> u8 list" where
  "descriptor D st k = vol_bytes D st (k * 2048) 2048"

definition descriptor_id :: "u8 list \<Rightarrow> bool" where
  "descriptor_id desc \<longleftrightarrow> take 5 (drop 1 desc) = [0x43, 0x44, 0x30, 0x30, 0x31]"

definition primary_at :: "(nat \<Rightarrow> u8) \<Rightarrow> vstate \<Rightarrow> nat \<Rightarrow> nat \<Rightarrow> bool" where
  "primary_at D st k0 k \<longleftrightarrow> descriptor_id (descriptor D st k) \<and> descriptor D st k ! 0 = 1 \<and> descriptor D st k ! 6 = 1 \<and>
     (\<forall>j. k0 \<le> j \<and> j < k \<longrightarrow> descriptor_id (descriptor D st j) \<and> descriptor D st j ! 0 \<noteq> 1 \<and> descriptor D st j ! 0 \<noteq> 255)"

lemma stays_descriptor: "stays disk D st st' \<Longrightarrow> descriptor D st' = descriptor D st"
  by (simp add: descriptor_def stays_bytes fun_eq_iff)

lemma stays_primary: "stays disk D st st' \<Longrightarrow> primary_at D st' = primary_at D st"
  by (simp add: primary_at_def stays_descriptor fun_eq_iff)

lemma sector_read:
  assumes "vread disk st (of_nat k * 2048) 2048 = Inr (r, st')" and "vol_ok disk D st" and "k < 272"
  shows "stays disk D st st'" and "r = Some desc \<Longrightarrow> desc = descriptor D st k"
proof -
  have u: "unat (of_nat k * 2048 :: u64) = k * 2048"
    using assms(3) by (simp add: unat_word_ariths unat_of_nat take_bit_nat_eq_self)
  show "stays disk D st st'" using vread_stays(1) [OF assms(1,2)] u assms(3) by simp
  show "r = Some desc \<Longrightarrow> desc = descriptor D st k"
    using vread_stays(2) [OF assms(1,2)] u assms(3) by (simp add: descriptor_def)
qed

lemma find_pvd_ok:
  assumes "find_pvd disk st [a..<b] = Inr (r, st')" and "vol_ok disk D st" and "b \<le> 272"
  shows "stays disk D st st' \<and> (\<forall>desc. r = Some desc \<longrightarrow> (\<exists>k. a \<le> k \<and> k < b \<and> primary_at D st a k \<and> desc = descriptor D st k))"
  using assms
proof (induction "b - a" arbitrary: a st)
  case 0
  then show ?case by (simp add: stays_refl)
next
  case (Suc n)
  then have ab: "[a..<b] = a # [Suc a..<b]" "a < 272" "n = b - Suc a" "a < b" by (simp_all add: upt_rec)
  from Suc.prems(1) [unfolded ab(1)] obtain x st1 where v: "vread disk st (of_nat a * 2048) 2048 = Inr (x, st1)"
    and k: "(case x of None \<Rightarrow> Inr (None, st1) | Some desc \<Rightarrow>
           if take 5 (drop 1 desc) \<noteq> [0x43, 0x44, 0x30, 0x30, 0x31] then Inr (None, st1)
           else if desc ! 0 = 1 then Inr (if desc ! 6 = 1 then Some desc else None, st1)
           else if desc ! 0 = 255 then Inr (None, st1)
           else find_pvd disk st1 [Suc a..<b]) = Inr (r, st')"
    by (auto elim: bindo_InrE)
  note s = sector_read [OF v Suc.prems(2) ab(2)]
  show ?case
  proof (cases "st' = st1 \<and> (r = None \<or> (\<exists>desc. x = Some desc \<and> r = Some desc \<and> descriptor_id desc \<and> desc ! 0 = 1 \<and> desc ! 6 = 1))")
    case True
    with s ab(4) show ?thesis by (auto simp: primary_at_def intro!: exI [of _ a])
  next
    case False
    with k obtain desc where x: "x = Some desc" "descriptor_id desc" "desc ! 0 \<noteq> 1" "desc ! 0 \<noteq> 255"
      and rec: "find_pvd disk st1 [Suc a..<b] = Inr (r, st')"
      by (auto simp: descriptor_id_def split: option.splits if_splits)
    note ih = Suc.hyps(1) [OF ab(3) rec stays_ok [OF s(1)] Suc.prems(3)]
    have "primary_at D st a k" if "primary_at D st (Suc a) k" for k
      using that x s(2) [OF x(1)] unfolding primary_at_def by (metis le_neq_implies_less Suc_leI)
    with ih s(1) stays_primary [OF s(1)] stays_descriptor [OF s(1)] show ?thesis
      by (auto intro: stays_trans) (blast dest: Suc_leD)
  qed
qed

lemma load_extent_ok:
  assumes "load_extent disk st lba n = Inr (r, st')" and "vol_ok disk D st"
  shows "stays disk D st st' \<and> (\<forall>p bs. r = Some (p, bs) \<longrightarrow> bs = vol_bytes D st (unat lba * 2048) (unat n))"
proof -
  have u: "unat (ucast lba * 2048 :: u64) = unat lba * 2048" "unat (ucast n :: u64) = unat n" "unat lba * 2048 + unat n < 2 ^ 44"
    using extent_offset [of 0 n lba] by (simp_all add: unat_ucast_up)
  from assms(1) obtain p st1 x st2 where a: "valloc st (ucast n) = Inr (p, st1)"
    and v: "vread disk st1 (ucast lba * 2048) (ucast n) = Inr (x, st2)"
    and k: "(case x of None \<Rightarrow> bindo (vfree st2 p (ucast n)) (\<lambda>_ st3. Inr (None, st3)) | Some bs \<Rightarrow> Inr (Some (p, bs), st2)) = Inr (r, st')"
    unfolding load_extent_def by (elim bindo_InrE)
  note s1 = valloc_stays [OF a assms(2)]
  have "unat (ucast lba * 2048 :: u64) + unat (ucast n :: u64) \<le> 2 ^ 64" using u by simp
  note s2 = vread_stays [OF v stays_ok [OF s1] this]
  have s12: "stays disk D st st2" using s1 s2(1) by (rule stays_trans)
  show ?thesis
  proof (cases x)
    case None
    with k obtain w where "vfree st2 p (ucast n) = Inr (w, st')" "r = None" by (auto elim!: bindo_InrE)
    with vfree_stays stays_ok [OF s12] s12 stays_trans show ?thesis by blast
  next
    case (Some bs)
    with k s2(2) [OF Some] s12 u stays_bytes [OF s1] show ?thesis by auto
  qed
qed

definition root_of :: "(nat \<Rightarrow> u8) \<Rightarrow> vstate \<Rightarrow> u8 list \<Rightarrow> bool" where
  "root_of D st bs \<longleftrightarrow> (\<exists>k. primary_at D st 16 k \<and> dir_size_ok (le32_at (descriptor D st k) 166) \<and>
     bs = vol_bytes D st (unat (le32_at (descriptor D st k) 158) * 2048) (unat (le32_at (descriptor D st k) 166)))"

lemma stays_root: "stays disk D st st' \<Longrightarrow> root_of D st' = root_of D st"
  by (simp add: root_of_def stays_primary stays_descriptor stays_bytes fun_eq_iff)

lemma iso9660_cache_root_ok:
  assumes "iso9660_cache_root disk st = Inr (r, st')" and "vol_ok disk D st"
  shows "stays disk D st st' \<and> (\<forall>p bs. r = Some (p, bs) \<longrightarrow> root_of D st bs)"
proof -
  from assms(1) obtain pv st1 where f: "find_pvd disk st [16..<272] = Inr (pv, st1)"
    and k: "(case pv of None \<Rightarrow> Inr (None, st1) | Some desc \<Rightarrow>
       if \<not> dir_size_ok (le32_at desc 166) then Inr (None, st1)
       else load_extent disk st1 (le32_at desc 158) (le32_at desc 166)) = Inr (r, st')"
    unfolding iso9660_cache_root_def iso9660_find_PVD_def by (elim bindo_InrE)
  note s = find_pvd_ok [OF f assms(2) order_refl]
  then have s1: "stays disk D st st1" by blast
  show ?thesis
  proof (cases "st' = st1 \<and> r = None")
    case False
    with k obtain desc where d: "pv = Some desc" "dir_size_ok (le32_at desc 166)"
      and l: "load_extent disk st1 (le32_at desc 158) (le32_at desc 166) = Inr (r, st')"
      by (auto split: option.splits if_splits)
    note s2 = load_extent_ok [OF l stays_ok [OF s1]]
    from s d(1) obtain k where "primary_at D st 16 k" "desc = descriptor D st k" by blast
    with s2 d(2) stays_bytes [OF s1] stays_trans [OF s1] show ?thesis by (auto simp: root_of_def)
  qed (use s1 in simp)
qed

definition contexts_ok :: "(nat \<Rightarrow> u8) \<Rightarrow> vstate \<Rightarrow> nat \<Rightarrow> iso9660_context list \<Rightarrow> bool" where
  "contexts_ok D st vol cs \<longleftrightarrow> (\<forall>c \<in> set cs. iso_vol c = vol \<longrightarrow> root_of D st (iso_root_bytes c))"

lemma iso9660_get_context_ok:
  assumes "iso9660_get_context disk vol cs st = Inr ((r, cs'), st')" and "vol_ok disk D st" and "contexts_ok D st vol cs"
  shows "stays disk D st st' \<and> contexts_ok D st vol cs' \<and> (\<forall>c. r = Some c \<longrightarrow> root_of D st (iso_root_bytes c))"
proof (cases "List.find (\<lambda>c. iso_vol c = vol) cs")
  case (Some c)
  then have "c \<in> set cs" "iso_vol c = vol" by (auto simp: find_Some_iff)
  with assms Some show ?thesis by (auto simp: iso9660_get_context_def contexts_ok_def stays_refl)
next
  case None
  with assms(1) obtain node st1 x st2 where a: "valloc st 32 = Inr (node, st1)"
    and c: "iso9660_cache_root disk st1 = Inr (x, st2)"
    and k: "(case x of None \<Rightarrow> bindo (vfree st2 node 32) (\<lambda>_ st3. Inr ((None, cs), st3))
        | Some (root, bs) \<Rightarrow> (let c = \<lparr>iso_vol = vol, iso_root = root, iso_root_bytes = bs\<rparr> in Inr ((Some c, c # cs), st2)))
      = Inr ((r, cs'), st')"
    by (auto simp: iso9660_get_context_def elim!: bindo_InrE)
  note s1 = valloc_stays [OF a assms(2)]
  note s2 = iso9660_cache_root_ok [OF c stays_ok [OF s1]]
  then have s12: "stays disk D st st2" using s1 stays_trans by blast
  show ?thesis
  proof (cases x)
    case None
    with k obtain w where "vfree st2 node 32 = Inr (w, st')" "r = None" "cs' = cs" by (auto elim!: bindo_InrE)
    with vfree_stays stays_ok [OF s12] s12 stays_trans assms(3) show ?thesis by blast
  next
    case (Some y)
    obtain root bs where y: "y = (root, bs)" by (cases y)
    with k Some have "r = Some \<lparr>iso_vol = vol, iso_root = root, iso_root_bytes = bs\<rparr>"
      "cs' = \<lparr>iso_vol = vol, iso_root = root, iso_root_bytes = bs\<rparr> # cs" "st' = st2" by (simp_all add: Let_def)
    with s2 s12 stays_root [OF s1] assms(3) Some y show ?thesis by (simp add: contexts_ok_def)
  qed
qed

section \<open>Opening\<close>

text \<open>
  Where a path leads from a directory: to an entry of the directory, or through the directory
  the next component names, read from the medium.
\<close>

abbreviation next_component :: "string \<Rightarrow> string" where
  "next_component path \<equiv> dropWhile (\<lambda>ch. ch = CHR ''/'') path"

abbreviation after_component :: "string \<Rightarrow> string" where
  "after_component path \<equiv> dropWhile (\<lambda>ch. ch \<noteq> CHR ''/'' \<and> ch \<noteq> NUL) (next_component path)"

inductive leads_to :: "(nat \<Rightarrow> u8) \<Rightarrow> vstate \<Rightarrow> bool \<Rightarrow> u8 list \<Rightarrow> string \<Rightarrow> u8 list \<Rightarrow> nat \<Rightarrow> bool" for D st ci where
  here: "\<lbrakk>deref (next_component path) \<noteq> NUL; iso_lookup ci bs (next_component path) = Inr (Some e);
          deref (after_component path) = NUL\<rbrakk> \<Longrightarrow> leads_to D st ci bs path bs e"
| down: "\<lbrakk>deref (next_component path) \<noteq> NUL; iso_lookup ci bs (next_component path) = Inr (Some e);
          deref (after_component path) \<noteq> NUL; bs ! (e + 25) AND 0x02 \<noteq> 0; x = extent_of bs e; dir_size_ok (ext_size x);
          leads_to D st ci (extent_bytes D st x) (tl (after_component path)) bs' e'\<rbrakk> \<Longrightarrow> leads_to D st ci bs path bs' e'"

lemma stays_leads:
  assumes "leads_to D st1 ci bs path bs' e" and "stays disk D st st1"
  shows "leads_to D st ci bs path bs' e"
  using assms(1)
proof induction
  case (down path bs e x bs' e')
  have "extent_bytes D st1 x = extent_bytes D st x" using stays_bytes [OF assms(2)] by (simp add: extent_bytes_def)
  with down.IH show ?case by (intro leads_to.down [OF down.hyps(1-6)]) simp
qed (rule leads_to.here)

lemma iso_lookup_ok:
  assumes "iso_lookup ci bs p = Inr (Some e)" shows "entry_ok bs e"
  using assms iso9660_find_in_bounds [of 0 "length bs" bs ci] by (auto simp: iso_lookup_def attempt_Inr)

lemma keeps_fail [volume_rules]: "vol_ok disk D st \<Longrightarrow> keeps_volume disk D st (iso_fail first cur bs fd st)"
  unfolding iso_fail_def by (auto intro!: volume_rules split: option.split prod.split)

lemma lift_pure_Inr: "lift_pure x st = Inr (a, st') \<longleftrightarrow> x = Inr a \<and> st' = st"
  by (cases x) (auto simp: lift_pure_def)

lemma iso_fail_Some [simp]: "iso_fail first cur bs fd st \<noteq> Inr (Some x, st')"
  by (auto simp: iso_fail_def elim!: bindo_InrE)

lemma keeps_lift [volume_rules]: "vol_ok disk D st \<Longrightarrow> keeps_volume disk D st (lift_pure x st)"
  by (auto simp: keeps_volume_def lift_pure_Inr stays_refl)

lemma keeps_load_extent [volume_rules]: "vol_ok disk D st \<Longrightarrow> keeps_volume disk D st (load_extent disk st lba n)"
  using load_extent_ok unfolding keeps_volume_def by blast

lemma keeps_descend [volume_rules]: "vol_ok disk D st \<Longrightarrow> keeps_volume disk D st (iso_descend disk fd first cur bs e st)"
  unfolding iso_descend_def by (auto intro!: volume_rules simp: lift_pure_Inr split: option.split prod.split)

lemma keeps_collect [volume_rules]: "vol_ok disk D st \<Longrightarrow> keeps_volume disk D st (collect_extents base bs e st fd)"
  unfolding collect_extents_def by (auto intro!: volume_rules simp: Let_def split: option.split prod.split)

lemma keeps_finish [volume_rules]: "vol_ok disk D st \<Longrightarrow> keeps_volume disk D st (iso_finish fd first cur bs e st)"
  unfolding iso_finish_def by (auto intro!: volume_rules split: option.split prod.split)

text \<open>The handle of the file at an entry: its extents are those of the entry and of the ones it continues in.\<close>

definition file_at :: "u8 list \<Rightarrow> nat \<Rightarrow> iso9660_file_handle \<Rightarrow> bool" where
  "file_at bs e f \<longleftrightarrow> (\<exists>base nm es. load_name bs 256 e = Inr nm \<and> more_extents base bs (snd nm) 65535 e = Inr es \<and>
     extents f = map (extent_of bs) (e # es) \<and>
     unat (total_size f) = sum_list (map (\<lambda>x. unat (ext_size x)) (extents f)) \<and> length (extents f) \<le> 65536)"

lemma unat_sum_sizes:
  "length xs \<le> 65536 \<Longrightarrow> unat (sum_list (map (\<lambda>x. ucast (ext_size x)) xs) :: u64) = sum_list (map (\<lambda>x. unat (ext_size x)) xs) \<and>
     sum_list (map (\<lambda>x. unat (ext_size x)) xs) \<le> length xs * 2 ^ 32"
proof (induction xs)
  case (Cons x xs)
  have "unat (ext_size x) < 2 ^ 32" using unsigned_less [of "ext_size x"] by simp
  with Cons show ?case by (simp add: unat_word_ariths unat_ucast_up)
qed simp

lemma collect_extents_ok:
  assumes "collect_extents base bs e st fd = Inr (f, st')"
  shows "file_at bs e f"
proof -
  from assms obtain nm es p st2 where n: "load_name bs 256 e = Inr nm" "more_extents base bs (snd nm) 65535 e = Inr es"
    and f: "f = \<lparr>iso_fd = fd, total_size = sum_list (map (\<lambda>x. ucast (ext_size x)) (map (extent_of bs) (e # es))),
      extents_at = p, extents = map (extent_of bs) (e # es)\<rparr>"
    unfolding collect_extents_def by (auto simp: Let_def lift_pure_Inr attempt_Inr elim!: bindo_InrE)
  have l: "length (map (extent_of bs) (e # es)) \<le> 65536" using more_extents_length [OF n(2)] by simp
  with n f unat_sum_sizes [OF l] show ?thesis unfolding file_at_def by auto
qed

lemma iso_descend_ok:
  assumes "iso_descend disk fd first cur bs e st = Inr (Some (cur', bs'), st')" and "vol_ok disk D st"
  shows "stays disk D st st' \<and> e + 25 < length bs \<and> bs ! (e + 25) AND 0x02 \<noteq> 0 \<and> dir_size_ok (ext_size (extent_of bs e)) \<and>
    bs' = extent_bytes D st (extent_of bs e)"
proof -
  from assms(1) obtain flags u st1 where f: "byte_at bs (e + 25) = Inr flags" "flags AND 0x02 \<noteq> 0"
    and a: "(if first then Inr ((), st) else vfree st cur (of_nat (length bs))) = Inr (u, st1)"
    and z: "dir_size_ok (ext_size (extent_of bs e))"
    and l: "load_extent disk st1 (ext_lba (extent_of bs e)) (ext_size (extent_of bs e)) = Inr (Some (cur', bs'), st')"
    unfolding iso_descend_def
    by (auto simp: lift_pure_Inr elim!: bindo_InrE split: if_splits option.splits)
  have s1: "stays disk D st st1" using a assms(2) by (auto simp: stays_refl intro: vfree_stays split: if_splits)
  from load_extent_ok [OF l stays_ok [OF s1]] f z stays_bytes [OF s1] stays_trans [OF s1] show ?thesis
    by (auto simp: byte_at_def extent_bytes_def split: if_splits)
qed

lemma after_component_shorter:
  assumes "deref (after_component path) \<noteq> NUL" shows "length (tl (after_component path)) < length path"
proof -
  have "0 < length (after_component path)" using assms by (rule deref_nonempty)
  moreover have "length (after_component path) \<le> length path" by (rule order_trans [OF length_dropWhile_le length_dropWhile_le])
  ultimately show ?thesis unfolding length_tl by linarith
qed

lemma iso_walk_ok:
  "iso_walk disk ci fd first cur bs st path = Inr (r, st') \<Longrightarrow> vol_ok disk D st \<Longrightarrow>
     stays disk D st st' \<and> (\<forall>f. r = Some f \<longrightarrow> (\<exists>bs' e. leads_to D st ci bs path bs' e \<and> entry_ok bs' e \<and> file_at bs' e f))"
proof (induction "length path" arbitrary: first cur bs st path rule: less_induct)
  case less
  let ?p = "next_component path" and ?rest = "after_component path"
  let ?goal = "stays disk D st st' \<and> (\<forall>f. r = Some f \<longrightarrow> (\<exists>bs' e. leads_to D st ci bs path bs' e \<and> entry_ok bs' e \<and> file_at bs' e f))"
  have fail: ?goal if i: "iso_fail first cur bs fd st = Inr (r, st')"
    using keeps_volumeD [OF keeps_fail [OF less.prems(2)] i] i by (cases r) simp_all
  show ?case
  proof (cases "iso_fail first cur bs fd st = Inr (r, st')")
    case False
    with less.prems(1) obtain e where p: "deref ?p \<noteq> NUL" "iso_lookup ci bs ?p = Inr (Some e)"
      and k: "(if deref ?rest = NUL then iso_finish fd first cur bs e st
         else bindo (iso_descend disk fd first cur bs e st) (\<lambda>r st2. case r of None \<Rightarrow> Inr (None, st2)
           | Some (cur', bs') \<Rightarrow> iso_walk disk ci fd False cur' bs' st2 (tl ?rest))) = Inr (r, st')"
      unfolding iso_walk.simps [of disk ci fd first cur bs st path] Let_def
      by (auto simp: lift_pure_Inr elim!: bindo_InrE split: if_splits option.splits)
    note eo = iso_lookup_ok [OF p(2)]
    show ?thesis
    proof (cases "deref ?rest = NUL")
      case True
      with k have f: "iso_finish fd first cur bs e st = Inr (r, st')" by simp
      then obtain f st1 where "r = Some f" "collect_extents cur bs e st fd = Inr (f, st1)"
        by (auto simp: iso_finish_def elim!: bindo_InrE)
      with collect_extents_ok keeps_volumeD [OF keeps_finish [OF less.prems(2)] f] leads_to.here [OF p True] eo
      show ?thesis by blast
    next
      case False
      with k obtain x st2 where d: "iso_descend disk fd first cur bs e st = Inr (x, st2)"
        and w: "(case x of None \<Rightarrow> Inr (None, st2) | Some (cur', bs') \<Rightarrow> iso_walk disk ci fd False cur' bs' st2 (tl ?rest)) = Inr (r, st')"
        by (auto elim!: bindo_InrE)
      have s1: "stays disk D st st2" using keeps_volumeD [OF keeps_descend [OF less.prems(2)] d] .
      show ?thesis
      proof (cases x)
        case (Some y)
        obtain cur' bs' where y: "y = (cur', bs')" by (cases y)
        note shorter = after_component_shorter [OF False]
        have ww: "iso_walk disk ci fd False cur' bs' st2 (tl ?rest) = Inr (r, st')" using w unfolding Some y by simp
        from less.hyps [OF shorter ww stays_ok [OF s1]]
        have ih: "stays disk D st2 st'" "\<And>f. r = Some f \<Longrightarrow> \<exists>b e. leads_to D st2 ci bs' (tl ?rest) b e \<and> entry_ok b e \<and> file_at b e f"
          by blast+
        note dd = iso_descend_ok [OF d [unfolded Some y] less.prems(2)]
        have "leads_to D st ci bs path b e'" if "leads_to D st2 ci bs' (tl ?rest) b e'" for b e'
          using stays_leads [OF that s1] dd by (intro leads_to.down [OF p False _ refl]) auto
        with ih stays_trans [OF s1] show ?thesis by blast
      qed (use w s1 in simp)
    qed
  qed (rule fail)
qed

text \<open>
  An open file: the one the path leads to from the root directory of the medium.
\<close>

definition opened :: "(nat \<Rightarrow> u8) \<Rightarrow> vstate \<Rightarrow> bool \<Rightarrow> u8 list \<Rightarrow> string \<Rightarrow> iso9660_file_handle \<Rightarrow> bool" where
  "opened D st ci root path f \<longleftrightarrow> (\<exists>bs e. leads_to D st ci root path bs e \<and> entry_ok bs e \<and> file_at bs e f)"

lemma stays_opened: "opened D st1 ci root path f \<Longrightarrow> stays disk D st st1 \<Longrightarrow> opened D st ci root path f"
  unfolding opened_def by (blast intro: stays_leads)

lemma iso_open_in_ok:
  assumes "iso_open_in disk ci fd ctx st path = Inr (r, st')" and "vol_ok disk D st"
  shows "stays disk D st st' \<and> (\<forall>h f. r = Some (h, f) \<longrightarrow> opened D st ci (iso_root_bytes ctx) path f)"
proof -
  from assms(1) obtain x st1 where w: "iso_walk disk ci fd True (iso_root ctx) (iso_root_bytes ctx) st path = Inr (x, st1)"
    and k: "(case x of None \<Rightarrow> Inr (None, st1)
      | Some handle \<Rightarrow> bindo (valloc st1 80) (\<lambda>h st2. Inr (Some (h, handle), st2))) = Inr (r, st')"
    unfolding iso_open_in_def by (elim bindo_InrE)
  note s = iso_walk_ok [OF w assms(2)]
  then have s1: "stays disk D st st1" by blast
  show ?thesis
  proof (cases x)
    case (Some handle)
    with k obtain h where "valloc st1 80 = Inr (h, st')" "r = Some (h, handle)" by (auto elim!: bindo_InrE)
    with valloc_stays stays_ok [OF s1] stays_trans [OF s1] s Some show ?thesis unfolding opened_def by blast
  qed (use k s in auto)
qed

lemma iso9660_open_ok:
  assumes "iso9660_open disk ci vol cs st path = Inr ((r, cs'), st')" and "vol_ok disk D st" and "contexts_ok D st vol cs"
  shows "stays disk D st st' \<and> contexts_ok D st vol cs' \<and>
    (\<forall>h f. r = Some (h, f) \<longrightarrow> (\<exists>root. root_of D st root \<and> opened D st ci root path f))"
proof -
  from assms(1) obtain x st1 where v: "vread disk st 32769 5 = Inr (x, st1)"
    and k: "(if map_option (\<lambda>b. strcmp (iso_chars b) ''CD001'') x \<noteq> Some 0 then Inr ((None, cs), st1)
       else bindo (valloc st1 SIZEOF_ISO9660_FILE_HANDLE) (\<lambda>fd st2.
         bindo (iso9660_get_context disk vol cs st2) (\<lambda>(c, contexts') st3.
           case c of
             None \<Rightarrow> bindo (vfree st3 fd SIZEOF_ISO9660_FILE_HANDLE) (\<lambda>_ st4. Inr ((None, contexts'), st4))
           | Some ctx \<Rightarrow> bindo (iso_open_in disk ci fd ctx st3 path) (\<lambda>f st4. Inr ((f, contexts'), st4))))) = Inr ((r, cs'), st')"
    unfolding iso9660_open_def by (elim bindo_InrE)
  have s1: "stays disk D st st1" using vread_stays(1) [OF v assms(2)] by simp
  show ?thesis
  proof (cases "r = None \<and> cs' = cs \<and> st' = st1")
    case False
    with k obtain fd st2 c contexts' st3 where a: "valloc st1 SIZEOF_ISO9660_FILE_HANDLE = Inr (fd, st2)"
      and g: "iso9660_get_context disk vol cs st2 = Inr ((c, contexts'), st3)"
      and k2: "(case c of None \<Rightarrow> bindo (vfree st3 fd SIZEOF_ISO9660_FILE_HANDLE) (\<lambda>_ st4. Inr ((None, contexts'), st4))
        | Some ctx \<Rightarrow> bindo (iso_open_in disk ci fd ctx st3 path) (\<lambda>f st4. Inr ((f, contexts'), st4))) = Inr ((r, cs'), st')"
      by (auto elim!: bindo_InrE split: if_splits)
    have s2: "stays disk D st st2" using valloc_stays [OF a stays_ok [OF s1]] s1 stays_trans by blast
    have "contexts_ok D st2 vol cs" using assms(3) by (simp add: contexts_ok_def stays_root [OF s2])
    note cx = iso9660_get_context_ok [OF g stays_ok [OF s2] this, unfolded contexts_ok_def stays_root [OF s2], folded contexts_ok_def]
    then have s3: "stays disk D st st3" using s2 stays_trans by blast
    show ?thesis
    proof (cases c)
      case None
      with k2 obtain u where "vfree st3 fd SIZEOF_ISO9660_FILE_HANDLE = Inr (u, st')" "r = None" "cs' = contexts'"
        by (auto elim!: bindo_InrE)
      with vfree_stays stays_ok [OF s3] stays_trans [OF s3] cx show ?thesis by blast
    next
      case (Some ctx)
      with k2 have w: "iso_open_in disk ci fd ctx st3 path = Inr (r, st')" and "cs' = contexts'" by (auto elim!: bindo_InrE)
      with iso_open_in_ok [OF w stays_ok [OF s3]] stays_opened [OF _ s3] stays_trans [OF s3] cx Some show ?thesis by blast
    qed
  qed (use s1 assms(3) in simp)
qed

end
