(* ===== verification/File.thy ===== *)
theory File
  imports Fat32_Correct Iso9660_Files
begin

text \<open>
  The generic file layer, \<^verbatim>\<open>src/common/fs/file.s2.c\<close>: the dispatch over the file systems. The
  function pointers of a handle are the constructor of its backing. \<open>tftp_open\<close> and what the
  network does are the argument \<open>tftp\<close>: the file it fetched into memory, if any.
\<close>

section \<open>Handles\<close>

datatype backing =
  Memfile (mem_at: u64) (mem_bytes: "u8 list")
| Iso_File iso9660_file_handle
| Fat_File fat32_file_handle

record file_handle =
  fh_at :: u64
  fh_backing :: backing
  fh_size :: u64
  fh_readall :: bool
  fh_path_at :: u64
  fh_path :: string
  fh_path_len :: u64

abbreviation SIZEOF_FILE_HANDLE :: u64 where "SIZEOF_FILE_HANDLE \<equiv> 80"

type_synonym tftp = "vstate \<Rightarrow> string \<Rightarrow> string \<Rightarrow> (file_handle option \<times> vstate) outcome"

text \<open>Which volume is meant, and the contexts of the ISO 9660 reader, go along with the volume's state.\<close>

definition fs_get_label :: "disk \<Rightarrow> vstate \<Rightarrow> (u8 list option \<times> vstate) outcome" where
  "fs_get_label disk st =
     bindo (fat32_get_label disk st) (\<lambda>r st1.
       case r of Some l \<Rightarrow> Inr (Some l, st1) | None \<Rightarrow> iso9660_get_label disk st1)"

definition fs_get_guid :: "vstate \<Rightarrow> bool" where
  "fs_get_guid st = False"

section \<open>Opening\<close>

definition rooted :: "string \<Rightarrow> string" where
  "rooted filename = (if deref filename \<noteq> CHR ''/'' then CHR ''/'' # filename else filename)"

text \<open>The handle of the file system that knows the path; a second one is only asked when the first declines.\<close>

definition try_filesystems ::
  "disk \<Rightarrow> bool \<Rightarrow> nat \<Rightarrow> iso9660_context list \<Rightarrow> vstate \<Rightarrow> string
     \<Rightarrow> (((u64 \<times> backing \<times> u64) option \<times> iso9660_context list) \<times> vstate) outcome" where
  "try_filesystems disk ci vol cs st filename =
     bindo (iso9660_open disk ci vol cs st filename) (\<lambda>(r, cs1) st1.
       case r of
         Some (h, f) \<Rightarrow> Inr ((Some (h, Iso_File f, total_size f), cs1), st1)
       | None \<Rightarrow>
           bindo (fat32_open disk ci st1 filename) (\<lambda>r st2.
             Inr ((map_option (\<lambda>(h, f). (h, Fat_File f, ucast (size_bytes f))) r, cs1), st2)))"

definition fopen ::
  "disk \<Rightarrow> tftp \<Rightarrow> bool \<Rightarrow> nat \<Rightarrow> iso9660_context list \<Rightarrow> vstate \<Rightarrow> string
     \<Rightarrow> ((file_handle option \<times> iso9660_context list) \<times> vstate) outcome" where
  "fopen disk tftp ci vol cs st filename =
     (let new_len = of_nat (length filename + 2); name = rooted filename
      in bindo (valloc st new_len) (\<lambda>p st1.
           if vpxe (snd st1) then
             bindo (tftp st1 '''' name) (\<lambda>r st2. bindo (vfree st2 p new_len) (\<lambda>_ st3. Inr ((r, cs), st3)))
           else
             bindo (try_filesystems disk ci vol cs st1 name) (\<lambda>(r, cs1) st2.
               case r of
                 None \<Rightarrow> bindo (vfree st2 p new_len) (\<lambda>_ st3. Inr ((None, cs1), st3))
               | Some (h, bk, sz) \<Rightarrow>
                   Inr ((Some \<lparr>fh_at = h, fh_backing = bk, fh_size = sz, fh_readall = False,
                               fh_path_at = p, fh_path = name, fh_path_len = new_len\<rparr>, cs1), st2))))"

section \<open>Reading and closing\<close>

definition fread :: "disk \<Rightarrow> file_handle \<Rightarrow> vstate \<Rightarrow> u64 \<Rightarrow> u64 \<Rightarrow> (u8 list \<times> vstate) outcome" where
  "fread disk fd st loc cnt =
     (if loc > fh_size fd \<or> cnt > fh_size fd - loc then Inl ''fread: attempted out of bounds read''
      else case fh_backing fd of
        Memfile p bs \<Rightarrow> Inr (take (unat cnt) (drop (unat loc) bs), st)
      | Iso_File f \<Rightarrow> iso9660_read disk f st loc cnt
      | Fat_File f \<Rightarrow> fat32_read disk f st loc cnt)"

definition fclose :: "file_handle \<Rightarrow> vstate \<Rightarrow> (unit \<times> vstate) outcome" where
  "fclose fd st =
     bindo (case fh_backing fd of
              Memfile p bs \<Rightarrow> if \<not> fh_readall fd then vfree st p (fh_size fd) else Inr ((), st)
            | Iso_File f \<Rightarrow> iso9660_close f st
            | Fat_File f \<Rightarrow> fat32_close f st) (\<lambda>_ st1.
       bindo (vfree st1 (fh_path_at fd) (fh_path_len fd)) (\<lambda>_ st2. vfree st2 (fh_at fd) SIZEOF_FILE_HANDLE))"

section \<open>The interface of a file system\<close>

text \<open>
  What the file layer relies on: a read inside the size delivers that part of the contents and
  leaves the volume alone, and the contents are as long as the size says.
\<close>

locale file_driver =
  fixes disk :: disk and D :: "nat \<Rightarrow> u8"
    and read :: "'f \<Rightarrow> vstate \<Rightarrow> u64 \<Rightarrow> u64 \<Rightarrow> (u8 list \<times> vstate) outcome"
    and ok :: "vstate \<Rightarrow> 'f \<Rightarrow> bool"
    and contents :: "vstate \<Rightarrow> 'f \<Rightarrow> u8 list"
    and size_of :: "'f \<Rightarrow> u64"
  assumes read_part: "\<lbrakk>read f st loc n = Inr (bs, st'); vol_ok disk D st; ok st f; unat loc + unat n \<le> unat (size_of f)\<rbrakk>
      \<Longrightarrow> stays disk D st st' \<and> bs = take (unat n) (drop (unat loc) (contents st f))"
    and contents_length: "ok st f \<Longrightarrow> length (contents st f) = unat (size_of f)"
    and stays_same: "stays disk D st st' \<Longrightarrow> ok st' f = ok st f \<and> contents st' f = contents st f"
begin

lemma read_length:
  assumes "read f st loc n = Inr (bs, st')" and "vol_ok disk D st" and "ok st f" and "unat loc + unat n \<le> unat (size_of f)"
  shows "length bs = unat n" and "ok st' f" and "vol_ok disk D st'"
  using read_part [OF assms] contents_length [OF assms(3)] stays_same [of st st' f] assms(3,4) by (auto dest: stays_ok)

text \<open>Two reads one after the other are one read.\<close>

lemma read_adjacent:
  assumes "read f st loc n = Inr (bs, st1)" and "read f st1 (loc + n) k = Inr (cs, st2)" and "vol_ok disk D st" and "ok st f"
    and "unat loc + unat n + unat k \<le> unat (size_of f)"
  shows "bs @ cs = take (unat n + unat k) (drop (unat loc) (contents st f))" and "stays disk D st st2"
proof -
  have u: "unat (loc + n) = unat loc + unat n"
    using assms(5) unsigned_less [of "size_of f", where 'a = nat] by (simp add: unat_word_ariths)
  have b: "unat loc + unat n \<le> unat (size_of f)" using assms(5) by simp
  note r1 = read_part [OF assms(1,3,4) b] read_length [OF assms(1,3,4) b]
  note r2 = read_part [OF assms(2) r1(4) r1(3)]
  from r1(1) r2 u assms(5) have "stays disk D st st1" "stays disk D st1 st2" by simp_all
  then show "stays disk D st st2" by (rule stays_trans)
  from r1(1) r2 u assms(5) stays_same [of st st1 f]
  have "bs = take (unat n) (drop (unat loc) (contents st f))" "cs = take (unat k) (drop (unat loc + unat n) (contents st f))"
    by simp_all
  then show "bs @ cs = take (unat n + unat k) (drop (unat loc) (contents st f))"
    using slice_append [of "unat n" "unat n + unat k" "unat loc" "contents st f"] by simp
qed

end

definition iso_file :: "iso9660_file_handle \<Rightarrow> bool" where
  "iso_file f \<longleftrightarrow> length (extents f) \<le> 65536 \<and> unat (total_size f) = sum_list (map (\<lambda>x. unat (ext_size x)) (extents f))"

lemma extents_bytes_length: "length (extents_bytes D st xs) = sum_list (map (\<lambda>x. unat (ext_size x)) xs)"
  by (induction xs) simp_all

interpretation iso: file_driver disk D "iso9660_read disk" "\<lambda>_. iso_file" "\<lambda>st f. extents_bytes D st (extents f)" total_size
  for disk D
proof
  fix f st loc n bs st'
  assume r: "iso9660_read disk f st loc n = Inr (bs, st')" and v: "vol_ok disk D st" and f: "iso_file f"
  have "unat (0 :: u64) + sum_list (map (\<lambda>x. unat (ext_size x)) (extents f)) < 2 ^ 64"
    using f unsigned_less [of "total_size f", where 'a = nat] by (simp add: iso_file_def)
  from read_extents_ok [OF r [unfolded iso9660_read_def] v this]
  show "stays disk D st st' \<and> bs = take (unat n) (drop (unat loc) (extents_bytes D st (extents f)))" by simp
qed (simp_all add: iso_file_def extents_bytes_length stays_extents)

interpretation fat: file_driver disk D "fat32_read disk" "fat_file D" "fat_contents D" "\<lambda>f. ucast (size_bytes f)" for disk D
proof
  fix f st loc n bs st'
  assume r: "fat32_read disk f st loc n = Inr (bs, st')" and v: "vol_ok disk D st" "fat_file D st f"
    and le: "unat loc + unat n \<le> unat (ucast (size_bytes f) :: u64)"
  have "unat loc + unat n \<le> unat (size_bytes f)" using le by (simp add: unat_ucast_up)
  from fat32_read_ok [OF r v this] show "stays disk D st st' \<and> bs = take (unat n) (drop (unat loc) (fat_contents D st f))" by blast
next
  fix st f assume "fat_file D st f"
  then show "length (fat_contents D st f) = unat (ucast (size_bytes f) :: u64)"
    by (simp add: fat_contents_def chain_bytes_length fat_file_def unat_ucast_up)
next
  fix st st' f assume s: "stays disk D st st'"
  then show "fat_file D st' f = fat_file D st f \<and> fat_contents D st' f = fat_contents D st f"
    by (simp add: stays_file fat_contents_def stays_chain_bytes)
qed

end
