(* ===== verification/Iso9660_Properties.thy ===== *)
theory Iso9660_Properties
  imports Iso9660_Files Small_Device
begin

text \<open>
  The properties of the ISO 9660 reader. The witnesses run on an image of twenty sectors of 2048
  bytes: the primary descriptor, a root directory of one sector, and a file of two extents.
\<close>

section \<open>A small image\<close>

definition iso_record :: "u8 \<Rightarrow> u8 \<Rightarrow> u8 list \<Rightarrow> u8 list" where
  "iso_record flags lba sz =
     [36, 0, lba, 0, 0, 0, 0, 0, 0, lba] @ sz @ [0, 0, 0, 0] @ replicate 7 0 @ [flags] @ replicate 6 0 @ [3, 0x4b, 0x3b, 0x31]"

definition iso_first :: "u8 list" where "iso_first = iso_record 0x80 18 [0, 8, 0, 0]"
definition iso_second :: "u8 list" where "iso_second = iso_record 0 19 [52, 0, 0, 0]"

definition iso_pvd :: "u8 list" where
  "iso_pvd = [1, 0x43, 0x44, 0x30, 0x30, 0x31, 1] @ replicate 149 0 @ [34, 0, 17, 0, 0, 0, 0, 0, 0, 17, 0, 8, 0, 0] @ replicate 1878 0"

definition iso_directory :: "u8 list" where
  "iso_directory = directory_bytes [[iso_first, iso_second]]"

definition iso_image :: "u8 list" where
  "iso_image = replicate 32768 0 @ iso_pvd @ iso_directory @ replicate 2048 0x41 @ replicate 52 0x42 @ replicate 1996 0"

lemma iso_names:
  "load_name iso_first 256 0 = Inr (False, [0x4b])" "load_name iso_second 256 0 = Inr (False, [0x4b])"
  by code_simp+

lemma iso_record_lengths [simp]: "length iso_first = 36" "length iso_second = 36" "iso_first ! 0 = 36" "iso_second ! 0 = 36"
  by (simp_all add: iso_first_def iso_second_def iso_record_def)

lemma iso_sector_ok: "sector_ok [iso_first, iso_second]"
  by (simp add: sector_ok_def record_ok_def record_bytes_def iso_names)

lemma iso_lengths [simp]: "length iso_pvd = 2048" "length iso_directory = 2048" "length iso_image = 40960"
  using directory_bytes_length [of "[[iso_first, iso_second]]"] iso_sector_ok
  by (simp_all add: iso_pvd_def iso_directory_def iso_image_def)

lemma iso_directory_eq: "iso_directory = iso_first @ iso_second @ replicate 1976 0"
  by (simp add: iso_directory_def sector_bytes_def)

lemma iso_named: "record_named ci ''K'' iso_first"
proof -
  have "iso_chars [0x4b] = ''K''" by code_simp
  then show ?thesis by (simp add: record_named_def iso_names name_matches_def) code_simp
qed

lemma iso_finds: "iso9660_find ci iso_directory ''K'' 0 2048 = Inr (Some 0)"
proof -
  have "sector_bytes [iso_first, iso_second] = iso_directory" by (simp add: iso_directory_def)
  then show ?thesis using find_directory [of "[[iso_first, iso_second]]" ci "''K''"] iso_sector_ok iso_named [of ci] by simp
qed

lemma iso_name_at:
  "load_name iso_directory 256 0 = Inr (False, [0x4b])" "load_name iso_directory 256 36 = Inr (False, [0x4b])"
  using load_name_within [of iso_first "[]" "iso_second @ replicate 1976 0" 256]
    load_name_within [of iso_second iso_first "replicate 1976 0" 256]
  by (simp_all add: iso_directory_eq iso_names record_bytes_def)

lemma iso_bytes_at:
  "iso_directory ! 0 = 36" "iso_directory ! 36 = 36" "iso_directory ! 25 = 0x80" "iso_directory ! 61 = 0"
  "extent_of iso_directory 0 = \<lparr>ext_lba = 18, ext_size = 2048\<rparr>" "extent_of iso_directory 36 = \<lparr>ext_lba = 19, ext_size = 52\<rparr>"
  by (simp_all add: iso_directory_eq iso_first_def iso_second_def iso_record_def extent_of_def le32_at_def nth_append)

lemma iso_continues: "more_extents base iso_directory [0x4b] 65535 0 = Inr [36]"
proof -
  have n: "iso9660_next_entry base iso_directory 0 = Inr (Some 36)"
    by (simp add: iso9660_next_entry_def iso_bytes_at)
  have stop: "more_extents base iso_directory [0x4b] 65534 36 = Inr []"
    using more_extents.simps(2) [of base iso_directory "[0x4b]" 65533 36] by (simp add: iso_bytes_at del: more_extents.simps)
  have c: "iso_chars [0x4b] = ''K''" by code_simp
  show ?thesis
    using more_extents.simps(2) [of base iso_directory "[0x4b]" 65534 0] stop
    by (simp add: n iso_name_at iso_bytes_at c del: more_extents.simps)
qed

section \<open>The image as a volume\<close>

abbreviation iso_vol_state :: "nat \<Rightarrow> (u64 \<Rightarrow> u8) \<Rightarrow> vstate" where
  "iso_vol_state n m \<equiv> (small_heap n m, cached_device 80 iso_image)"

lemma iso_vol_ok: "vol_ok (driver iso_image) (medium iso_image) (iso_vol_state n m)"
  using cached_device_ok [of iso_image 80] by (simp add: vol_ok_def driver_serves)

lemma iso_vread:
  assumes "0 < n" and "unat loc + unat n \<le> 40960"
  shows "vread disk (iso_vol_state k m) loc n = Inr (Some (take (unat n) (drop (unat loc) iso_image)), iso_vol_state k m)"
  using cached_read_volume [of iso_image 80 n loc] assms by (simp add: vread_def)

lemma iso_slices:
  "take 5 (drop 32769 iso_image) = [0x43, 0x44, 0x30, 0x30, 0x31]"
  "take 2048 (drop 32768 iso_image) = iso_pvd"
  "take 2048 (drop 34816 iso_image) = iso_directory"
  by (simp_all add: iso_image_def) (simp_all add: iso_pvd_def)

text \<open>The five pages an open takes, from the heap with \<open>n\<close> pages handed out on.\<close>

definition iso_pages :: "nat \<Rightarrow> u64 \<Rightarrow> u64 \<Rightarrow> u64 \<Rightarrow> u64 \<Rightarrow> u64 \<Rightarrow> bool" where
  "iso_pages n p1 p2 p3 p4 p5 \<longleftrightarrow>
     (\<forall>m. map_sum id (map_prod id forget) (ext_mem_alloc (small_heap n m) 32) = Inr (p1, small_heap (n + 1) (\<lambda>_. 0))) \<and>
     (\<forall>m. map_sum id (map_prod id forget) (ext_mem_alloc (small_heap (n + 1) m) 32) = Inr (p2, small_heap (n + 2) (\<lambda>_. 0))) \<and>
     (\<forall>m. map_sum id (map_prod id forget) (ext_mem_alloc (small_heap (n + 2) m) 2048) = Inr (p3, small_heap (n + 3) (\<lambda>_. 0))) \<and>
     (\<forall>m. map_sum id (map_prod id forget) (ext_mem_alloc (small_heap (n + 3) m) 16) = Inr (p4, small_heap (n + 4) (\<lambda>_. 0))) \<and>
     (\<forall>m. map_sum id (map_prod id forget) (ext_mem_alloc (small_heap (n + 4) m) 80) = Inr (p5, small_heap (n + 5) (\<lambda>_. 0)))"

lemma iso_pages_allocs:
  assumes "iso_pages n p1 p2 p3 p4 p5"
  shows "\<exists>m'. ext_mem_alloc (small_heap n m) 32 = Inr (p1, small_heap (n + 1) m')"
    "\<exists>m'. ext_mem_alloc (small_heap (n + 1) m) 32 = Inr (p2, small_heap (n + 2) m')"
    "\<exists>m'. ext_mem_alloc (small_heap (n + 2) m) 2048 = Inr (p3, small_heap (n + 3) m')"
    "\<exists>m'. ext_mem_alloc (small_heap (n + 3) m) 16 = Inr (p4, small_heap (n + 4) m')"
    "\<exists>m'. ext_mem_alloc (small_heap (n + 4) m) 80 = Inr (p5, small_heap (n + 5) m')"
  using assms unfolding iso_pages_def by (blast intro: allocated)+

lemma iso_pages_from:
  "map_sum id (map_prod id forget) (ext_mem_alloc (small_heap 0 m) 3) = Inr (0x1ff000, small_heap 1 (\<lambda>_. 0))"
  "iso_pages 0 0x1ff000 0x1fe000 0x1fd000 0x1fc000 0x1fb000"
  "iso_pages 1 0x1fe000 0x1fd000 0x1fc000 0x1fb000 0x1fa000"
proof -
  show "map_sum id (map_prod id forget) (ext_mem_alloc (small_heap 0 m) 3) = Inr (0x1ff000, small_heap 1 (\<lambda>_. 0))"
    by code_simp
  have s: "map_sum id (map_prod id forget) (ext_mem_alloc (small_heap 0 m) 32) = Inr (0x1ff000, small_heap 1 (\<lambda>_. 0))"
    "map_sum id (map_prod id forget) (ext_mem_alloc (small_heap 1 m) 32) = Inr (0x1fe000, small_heap 2 (\<lambda>_. 0))"
    "map_sum id (map_prod id forget) (ext_mem_alloc (small_heap 2 m) 32) = Inr (0x1fd000, small_heap 3 (\<lambda>_. 0))"
    "map_sum id (map_prod id forget) (ext_mem_alloc (small_heap 2 m) 2048) = Inr (0x1fd000, small_heap 3 (\<lambda>_. 0))"
    "map_sum id (map_prod id forget) (ext_mem_alloc (small_heap 3 m) 2048) = Inr (0x1fc000, small_heap 4 (\<lambda>_. 0))"
    "map_sum id (map_prod id forget) (ext_mem_alloc (small_heap 3 m) 16) = Inr (0x1fc000, small_heap 4 (\<lambda>_. 0))"
    "map_sum id (map_prod id forget) (ext_mem_alloc (small_heap 4 m) 16) = Inr (0x1fb000, small_heap 5 (\<lambda>_. 0))"
    "map_sum id (map_prod id forget) (ext_mem_alloc (small_heap 4 m) 80) = Inr (0x1fb000, small_heap 5 (\<lambda>_. 0))"
    "map_sum id (map_prod id forget) (ext_mem_alloc (small_heap 5 m) 80) = Inr (0x1fa000, small_heap 6 (\<lambda>_. 0))" for m
    by code_simp+
  show "iso_pages 0 0x1ff000 0x1fe000 0x1fd000 0x1fc000 0x1fb000" "iso_pages 1 0x1fe000 0x1fd000 0x1fc000 0x1fb000 0x1fa000"
    using s unfolding iso_pages_def by (simp_all add: numeral_eq_Suc)
qed

lemma iso_pvd_found: "iso9660_find_PVD disk (iso_vol_state n m) = Inr (Some iso_pvd, iso_vol_state n m)"
proof -
  have "[16..<272] = 16 # [17..<272]" by (simp add: upt_rec)
  moreover have "vread disk (iso_vol_state n m) (of_nat 16 * 2048) 2048 = Inr (Some iso_pvd, iso_vol_state n m)"
    by (simp add: iso_vread iso_slices)
  moreover have "take 5 (drop 1 iso_pvd) = [0x43, 0x44, 0x30, 0x30, 0x31]" "iso_pvd ! 0 = 1" "iso_pvd ! 6 = 1"
    by (simp_all add: iso_pvd_def)
  ultimately show ?thesis by (simp add: iso9660_find_PVD_def)
qed

lemma iso_pvd_fields: "le32_at iso_pvd 158 = 17" "le32_at iso_pvd 166 = 2048"
  by (simp_all add: iso_pvd_def le32_at_def nth_append)

lemma iso_mounts:
  assumes "iso_pages n p1 p2 p3 p4 p5"
  shows "\<exists>m'. iso9660_get_context disk 0 [] (iso_vol_state (n + 1) m) =
     Inr ((Some \<lparr>iso_vol = 0, iso_root = p3, iso_root_bytes = iso_directory\<rparr>,
           [\<lparr>iso_vol = 0, iso_root = p3, iso_root_bytes = iso_directory\<rparr>]), iso_vol_state (n + 3) m')"
proof -
  obtain m1 where a1: "ext_mem_alloc (small_heap (n + 1) m) 32 = Inr (p2, small_heap (n + 2) m1)"
    using iso_pages_allocs(2) [OF assms] by blast
  obtain m2 where a2: "ext_mem_alloc (small_heap (n + 2) m1) 2048 = Inr (p3, small_heap (n + 3) m2)"
    using iso_pages_allocs(3) [OF assms] by blast
  have "load_extent disk (iso_vol_state (n + 2) m1) 17 2048 = Inr (Some (p3, iso_directory), iso_vol_state (n + 3) m2)"
    using a2 by (simp add: load_extent_def valloc_def iso_vread iso_slices)
  then have "iso9660_cache_root disk (iso_vol_state (n + 2) m1) = Inr (Some (p3, iso_directory), iso_vol_state (n + 3) m2)"
    by (simp add: iso9660_cache_root_def iso_pvd_found iso_pvd_fields dir_size_ok_def)
  then show ?thesis using a1 by (auto simp: iso9660_get_context_def valloc_def Let_def)
qed

definition iso_handle :: "u64 \<Rightarrow> u64 \<Rightarrow> iso9660_file_handle" where
  "iso_handle p q = \<lparr>iso_fd = p, total_size = 2100, extents_at = q,
     extents = [\<lparr>ext_lba = 18, ext_size = 2048\<rparr>, \<lparr>ext_lba = 19, ext_size = 52\<rparr>]\<rparr>"

lemma iso_opens:
  assumes "iso_pages n p1 p2 p3 p4 p5"
  shows "\<exists>cs m'. iso9660_open disk ci 0 [] (iso_vol_state n m) ''/K'' = Inr ((Some (p5, iso_handle p1 p4), cs), iso_vol_state (n + 5) m')"
proof -
  obtain m1 where a1: "ext_mem_alloc (small_heap n m) 32 = Inr (p1, small_heap (n + 1) m1)"
    using iso_pages_allocs(1) [OF assms] by blast
  obtain m2 cs where mt: "iso9660_get_context disk 0 [] (iso_vol_state (n + 1) m1) =
     Inr ((Some \<lparr>iso_vol = 0, iso_root = p3, iso_root_bytes = iso_directory\<rparr>, cs), iso_vol_state (n + 3) m2)"
    using iso_mounts [OF assms] by blast
  obtain m3 where a2: "ext_mem_alloc (small_heap (n + 3) m2) 16 = Inr (p4, small_heap (n + 4) m3)"
    using iso_pages_allocs(4) [OF assms] by blast
  obtain m4 where a3: "ext_mem_alloc (small_heap (n + 4) m3) 80 = Inr (p5, small_heap (n + 5) m4)"
    using iso_pages_allocs(5) [OF assms] by blast
  have "iso_chars [0x43, 0x44, 0x30, 0x30, 0x31] = ''CD001''" by code_simp
  then have sig: "strcmp (iso_chars [0x43, 0x44, 0x30, 0x30, 0x31]) ''CD001'' = 0" by simp
  have col: "collect_extents p3 iso_directory 0 (iso_vol_state (n + 3) m2) p1 = Inr (iso_handle p1 p4, iso_vol_state (n + 4) m3)"
    using iso_continues a2
    by (simp add: collect_extents_def iso_name_at lift_pure_def iso_bytes_at valloc_counted_def ext_mem_alloc_counted_def
        CHECKED_MUL_def iso_handle_def)
  have look: "iso_lookup ci iso_directory ''K'' = Inr (Some 0)"
    by (simp add: iso_lookup_def iso_component_def iso_finds)
  have "iso_walk disk ci p1 True p3 iso_directory (iso_vol_state (n + 3) m2) ''/K'' = Inr (Some (iso_handle p1 p4), iso_vol_state (n + 4) m3)"
    by (simp add: iso_walk.simps [of _ _ _ _ _ _ _ "''/K''"] look lift_pure_def iso_finish_def col)
  then show ?thesis
    using sig mt a1 a3 by (auto simp: iso9660_open_def iso_vread iso_slices valloc_def iso_open_in_def)
qed

section \<open>Directories\<close>

text \<open>
  C29: whatever bytes a directory holds, looking a path component up reads no byte outside the
  buffer; the entry it finds lies wholly inside, and so neither taking its name nor following
  the file through its further entries leaves the buffer.
\<close>

theorem iso9660_no_overread:
  assumes "length bs < 2 ^ 64"
  shows "iso_lookup ci bs path \<noteq> Inl OVERREAD \<and>
    (\<forall>e. iso_lookup ci bs path = Inr (Some e) \<longrightarrow> ENTRY_SIZE \<le> unat (bs ! e) \<and> e + unat (bs ! e) \<le> length bs \<and>
       load_name bs limit e \<noteq> Inl OVERREAD \<and> more_extents base bs nm n e \<noteq> Inl OVERREAD)"
proof -
  have "in_bounds (iso_lookup ci bs path)"
    using iso9660_find_in_bounds [of 0 "length bs" bs ci]
    by (auto simp: iso_lookup_def iso_component_def Let_def intro!: in_bounds_attempt)
  moreover have "ENTRY_SIZE \<le> unat (bs ! e) \<and> e + unat (bs ! e) \<le> length bs \<and>
       load_name bs limit e \<noteq> Inl OVERREAD \<and> more_extents base bs nm n e \<noteq> Inl OVERREAD"
    if "iso_lookup ci bs path = Inr (Some e)" for e
    using load_name_in_bounds [OF iso_lookup_ok [OF that], of limit]
      more_extents_in_bounds [OF iso_lookup_ok [OF that] assms, of base nm n] iso_lookup_ok [OF that]
    by (simp add: in_bounds_def entry_ok_def)
  ultimately show ?thesis by (simp add: in_bounds_def)
qed

theorem iso9660_no_overread_witness:
  "iso_lookup False iso_directory ''K'' = Inr (Some 0) \<and> more_extents 0x1fd000 iso_directory [0x4b] 65535 0 \<noteq> Inl OVERREAD"
proof -
  have "iso_lookup False iso_directory ''K'' = Inr (Some 0)" by (simp add: iso_lookup_def iso_component_def iso_finds)
  with iso9660_no_overread [of iso_directory False "''K''"] show ?thesis by simp
qed

text \<open>
  C30: in a well-formed directory, sectors of records followed by zeros, a search returns the
  offset of the first record that carries the name, Rock Ridge names compared exactly and plain
  ones without regard to case, and nothing when no record carries it.
\<close>

theorem iso9660_find_first:
  assumes "\<forall>rs \<in> set ss. sector_ok rs"
  shows "iso9660_find ci (directory_bytes ss) name 0 (length (directory_bytes ss)) =
    Inr (map_option fst (List.find (\<lambda>(off, r). record_named ci name r) (directory_records 0 ss)))"
  using find_directory [OF assms] by (simp add: first_named_def)

theorem iso9660_find_first_witness:
  "iso9660_find False (directory_bytes [[iso_first], [iso_second]]) ''K'' 0 (length (directory_bytes [[iso_first], [iso_second]])) = Inr (Some 0)"
proof -
  have "\<forall>rs \<in> set [[iso_first], [iso_second]]. sector_ok rs" using iso_sector_ok by (simp add: sector_ok_def)
  from iso9660_find_first [OF this, of False "''K''"] iso_named show ?thesis by simp
qed

section \<open>Opening and reading\<close>

text \<open>
  C31: a file \<open>iso9660_open\<close> opens is the one the path leads to: through the directories on the
  medium, from the root directory of the first primary descriptor, to an entry whose extents,
  with those of the entries it continues in, are the handle's, their sizes adding up to the
  file's. The volume is left as it was but for its cache, and the remembered roots stay true.
\<close>

theorem iso9660_open_file:
  assumes "iso9660_open disk ci vol cs st path = Inr ((Some (h, f), cs'), st')" and "vol_ok disk D st" and "contexts_ok D st vol cs"
  shows "(\<exists>root bs e. root_of D st root \<and> leads_to D st ci root path bs e \<and> file_at bs e f) \<and>
    contexts_ok D st vol cs' \<and> vol_ok disk D st' \<and> vol_key st' = vol_key st"
  using iso9660_open_ok [OF assms] by (auto simp: stays_def opened_def)

theorem iso9660_open_file_witness:
  "\<exists>h f cs st' root bs e. iso9660_open (driver iso_image) False 0 [] (iso_vol_state 0 (\<lambda>_. 0)) ''/K'' = Inr ((Some (h, f), cs), st') \<and>
     leads_to (medium iso_image) (iso_vol_state 0 (\<lambda>_. 0)) False root ''/K'' bs e \<and> file_at bs e f \<and> total_size f = 2100"
proof -
  obtain cs m where o: "iso9660_open (driver iso_image) False 0 [] (iso_vol_state 0 (\<lambda>_. 0)) ''/K'' =
      Inr ((Some (0x1fb000, iso_handle 0x1ff000 0x1fc000), cs), iso_vol_state 5 m)"
    using iso_opens [OF iso_pages_from(2), of "driver iso_image" False "\<lambda>_. 0"] by auto
  have "contexts_ok (medium iso_image) (iso_vol_state 0 (\<lambda>_. 0)) 0 []" by (simp add: contexts_ok_def)
  moreover have "total_size (iso_handle 0x1ff000 0x1fc000) = 2100" by (simp add: iso_handle_def)
  ultimately show ?thesis using iso9660_open_file [OF o iso_vol_ok] o by blast
qed

text \<open>
  C32: reading an open file delivers exactly that part of its extents laid end to end, and a read
  that reaches past their end does not return: it panics.
\<close>

theorem iso9660_read_contents:
  assumes "iso9660_read disk f st loc cnt = Inr (bs, st')" and "vol_ok disk D st" and "length (extents f) \<le> 65536"
  shows "bs = take (unat cnt) (drop (unat loc) (extents_bytes D st (extents f))) \<and> length bs = unat cnt \<and>
    cnt \<in> {n. n = 0 \<or> unat loc + unat n \<le> length (extents_bytes D st (extents f))} \<and> vol_ok disk D st'"
proof -
  have l: "length (extents_bytes D st xs) = sum_list (map (\<lambda>x. unat (ext_size x)) xs)" for xs
    by (induction xs) simp_all
  have "sum_list (map (\<lambda>x. unat (ext_size x)) (extents f)) \<le> length (extents f) * 2 ^ 32"
    using unat_sum_sizes [OF assms(3)] by blast
  also have "\<dots> \<le> 65536 * 2 ^ 32" using assms(3) by (intro mult_right_mono) simp_all
  finally have "unat (0 :: u64) + sum_list (map (\<lambda>x. unat (ext_size x)) (extents f)) < 2 ^ 64" by simp
  from read_extents_ok [OF assms(1) [unfolded iso9660_read_def] assms(2) this] l [of "extents f"]
  show ?thesis
    by (cases "cnt = 0") (auto simp: min_absorb2 le_diff_conv2 dest: stays_ok)
qed

theorem iso9660_read_contents_witness:
  "\<exists>st'. iso9660_read (driver iso_image) (iso_handle 0 0) (iso_vol_state 0 (\<lambda>_. 0)) 2047 2 = Inr ([0x41, 0x42], st') \<and>
     [0x41, 0x42] = take 2 (drop 2047 (extents_bytes (medium iso_image) (iso_vol_state 0 (\<lambda>_. 0)) (extents (iso_handle 0 0))))"
proof -
  have d: "take 1 (drop 38911 iso_image) = [0x41]" "take 1 (drop 38912 iso_image) = [0x42]"
    by (simp_all add: iso_image_def)
  have r: "iso9660_read (driver iso_image) (iso_handle 0 0) (iso_vol_state 0 (\<lambda>_. 0)) 2047 2 = Inr ([0x41, 0x42], iso_vol_state 0 (\<lambda>_. 0))"
    using d by (simp add: iso9660_read_def iso_handle_def iso_vread Let_def)
  from iso9660_read_contents [OF r iso_vol_ok] r show ?thesis by (auto simp: iso_handle_def)
qed

end
