(* ===== verification/File_Properties.thy ===== *)
theory File_Properties
  imports File Fat32_Properties Iso9660_Properties
begin

text \<open>
  The file layer over both file systems: what is opened can be read, and a read delivers bytes of
  the file. The proofs rest on the facts of the two interpretations of \<open>file_driver\<close>.
\<close>

section \<open>Open files\<close>

definition file_ok :: "(nat \<Rightarrow> u8) \<Rightarrow> vstate \<Rightarrow> file_handle \<Rightarrow> bool" where
  "file_ok D st fd \<longleftrightarrow>
     (case fh_backing fd of
        Memfile p bs \<Rightarrow> fh_size fd = of_nat (length bs) \<and> length bs < 2 ^ 64
      | Iso_File f \<Rightarrow> iso_file f \<and> fh_size fd = total_size f
      | Fat_File f \<Rightarrow> fat_file D st f \<and> fh_size fd = ucast (size_bytes f))"

definition file_bytes :: "(nat \<Rightarrow> u8) \<Rightarrow> vstate \<Rightarrow> file_handle \<Rightarrow> u8 list" where
  "file_bytes D st fd =
     (case fh_backing fd of
        Memfile p bs \<Rightarrow> bs
      | Iso_File f \<Rightarrow> extents_bytes D st (extents f)
      | Fat_File f \<Rightarrow> fat_contents D st f)"

lemma stays_file_ok: "stays disk D st st' \<Longrightarrow> file_ok D st' fd = file_ok D st fd \<and> file_bytes D st' fd = file_bytes D st fd"
  using iso.stays_same [of disk D st st'] fat.stays_same [of disk D st st']
  by (simp add: file_ok_def file_bytes_def split: backing.split)

lemma file_bytes_length: "file_ok D st fd \<Longrightarrow> length (file_bytes D st fd) = unat (fh_size fd)"
  using iso.contents_length fat.contents_length
  by (auto simp: file_ok_def file_bytes_def unat_of_nat take_bit_nat_eq_self split: backing.splits)

lemma fread_ok:
  assumes "fread disk fd st loc cnt = Inr (bs, st')" and "vol_ok disk D st" and "file_ok D st fd"
  shows "unat loc + unat cnt \<le> unat (fh_size fd)" and "bs = take (unat cnt) (drop (unat loc) (file_bytes D st fd))"
    and "stays disk D st st'"
proof -
  from assms(1) have g: "\<not> loc > fh_size fd" "\<not> cnt > fh_size fd - loc" by (auto simp: fread_def split: if_splits)
  then have "unat (fh_size fd - loc) = unat (fh_size fd) - unat loc" by (simp add: unat_sub)
  with g show le: "unat loc + unat cnt \<le> unat (fh_size fd)" by (simp add: word_less_nat_alt not_less)
  have "bs = take (unat cnt) (drop (unat loc) (file_bytes D st fd)) \<and> stays disk D st st'"
  proof (cases "fh_backing fd")
    case (Memfile p m)
    then show ?thesis using assms(1,2) g by (simp add: fread_def file_bytes_def stays_refl)
  next
    case (Iso_File f)
    then have "iso9660_read disk f st loc cnt = Inr (bs, st')" "iso_file f" "unat loc + unat cnt \<le> unat (total_size f)"
      using assms(1,3) g le by (simp_all add: fread_def file_ok_def)
    with iso.read_part [OF this(1) assms(2)] Iso_File show ?thesis by (simp add: file_bytes_def)
  next
    case (Fat_File f)
    then have "fat32_read disk f st loc cnt = Inr (bs, st')" "fat_file D st f" "unat loc + unat cnt \<le> unat (ucast (size_bytes f) :: u64)"
      using assms(1,3) g le by (simp_all add: fread_def file_ok_def)
    with fat.read_part [OF this(1) assms(2)] Fat_File show ?thesis by (simp add: file_bytes_def)
  qed
  then show "bs = take (unat cnt) (drop (unat loc) (file_bytes D st fd))" and "stays disk D st st'" by blast+
qed

section \<open>Opening\<close>

lemma file_at_iso: "file_at bs e f \<Longrightarrow> iso_file f"
  by (auto simp: file_at_def iso_file_def)

lemma stays_vpxe: "stays disk D st st' \<Longrightarrow> vpxe (snd st') = vpxe (snd st)"
proof -
  assume "stays disk D st st'"
  then have "vpxe (uncached (snd st')) = vpxe (uncached (snd st))" by (simp add: stays_def vol_key_def)
  then show ?thesis by (simp add: uncached_def)
qed

lemma contexts_stay: "stays disk D st st' \<Longrightarrow> contexts_ok D st' vol cs = contexts_ok D st vol cs"
  by (simp add: contexts_ok_def stays_root)

lemma try_filesystems_ok:
  assumes "try_filesystems disk ci vol cs st name = Inr ((r, cs'), st')" and "vol_ok disk D st" and "contexts_ok D st vol cs"
  shows "stays disk D st st' \<and> contexts_ok D st vol cs' \<and>
    (\<forall>h bk sz. r = Some (h, bk, sz) \<longrightarrow> (case bk of
        Memfile p bs \<Rightarrow> False
      | Iso_File f \<Rightarrow> iso_file f \<and> sz = total_size f
      | Fat_File f \<Rightarrow> fat_file D st' f \<and> sz = ucast (size_bytes f)))"
proof -
  from assms(1) obtain ri cs1 st1 where o: "iso9660_open disk ci vol cs st name = Inr ((ri, cs1), st1)"
    and k: "(case ri of Some (h, f) \<Rightarrow> Inr ((Some (h, Iso_File f, total_size f), cs1), st1)
       | None \<Rightarrow> bindo (fat32_open disk ci st1 name) (\<lambda>r st2.
             Inr ((map_option (\<lambda>(h, f). (h, Fat_File f, ucast (size_bytes f))) r, cs1), st2))) = Inr ((r, cs'), st')"
    unfolding try_filesystems_def by (auto elim!: bindo_InrE)
  note i = iso9660_open_ok [OF o assms(2,3)]
  then have s1: "stays disk D st st1" by blast
  show ?thesis
  proof (cases ri)
    case (Some hf)
    obtain h f where hf: "hf = (h, f)" by (cases hf)
    with i Some have "iso_file f" unfolding opened_def using file_at_iso by blast
    with k Some hf i s1 show ?thesis by auto
  next
    case None
    with k obtain rf where f: "fat32_open disk ci st1 name = Inr (rf, st')"
      and r: "r = map_option (\<lambda>(h, f). (h, Fat_File f, ucast (size_bytes f))) rf" "cs' = cs1" by (auto elim!: bindo_InrE)
    note fk = fat32_open_ok [OF f stays_ok [OF s1]]
    then have "stays disk D st st'" using s1 stays_trans by blast
    with fk r i show ?thesis by (cases rf) auto
  qed
qed

lemma fopen_ok:
  assumes "fopen disk tftp ci vol cs st name = Inr ((r, cs'), st')" and "vol_ok disk D st" and "contexts_ok D st vol cs"
    and "\<not> vpxe (snd st)"
  shows "stays disk D st st' \<and> contexts_ok D st vol cs' \<and> (\<forall>fd. r = Some fd \<longrightarrow> file_ok D st' fd)"
proof -
  let ?n = "of_nat (length name + 2) :: u64"
  from assms(1) obtain p st1 where a: "valloc st ?n = Inr (p, st1)" unfolding fopen_def Let_def by (elim bindo_InrE)
  note s1 = valloc_stays [OF a assms(2)]
  have np: "\<not> vpxe (snd st1)" using stays_vpxe [OF s1] assms(4) by simp
  from assms(1) obtain x cs1 st2 where t: "try_filesystems disk ci vol cs st1 (rooted name) = Inr ((x, cs1), st2)"
    and k: "(case x of None \<Rightarrow> bindo (vfree st2 p ?n) (\<lambda>_ st3. Inr ((None, cs1), st3))
      | Some (h, bk, sz) \<Rightarrow> Inr ((Some \<lparr>fh_at = h, fh_backing = bk, fh_size = sz, fh_readall = False,
                               fh_path_at = p, fh_path = rooted name, fh_path_len = ?n\<rparr>, cs1), st2)) = Inr ((r, cs'), st')"
    unfolding fopen_def Let_def a bindo_simps using np by (auto elim!: bindo_InrE)
  have c1: "contexts_ok D st1 vol cs" using assms(3) contexts_stay [OF s1] by simp
  note tk = try_filesystems_ok [OF t stays_ok [OF s1] c1]
  then have s2: "stays disk D st st2" using s1 stays_trans by blast
  have c2: "contexts_ok D st vol cs1" using tk contexts_stay [OF s1] by simp
  show ?thesis
  proof (cases x)
    case None
    with k obtain u where "vfree st2 p ?n = Inr (u, st')" "r = None" "cs' = cs1" by (auto elim!: bindo_InrE)
    with vfree_stays stays_ok [OF s2] stays_trans [OF s2] c2 show ?thesis by blast
  next
    case (Some y)
    obtain h bk sz where y: "y = (h, bk, sz)" by (cases y)
    with k Some tk s2 c2 show ?thesis by (auto simp: file_ok_def split: backing.splits)
  qed
qed

section \<open>What an opened file reads\<close>

text \<open>
  C33: whichever file system takes the path, \<open>fopen\<close> returns a well-formed handle of it: the
  contents it stands for are exactly as long as the size recorded. A read that returns asked for
  a range inside that size and delivers that part of the contents, and it leaves the handle well
  formed, with the same contents, and the volume as it was.
\<close>

theorem fopen_well_formed:
  assumes "fopen disk tftp ci vol cs st name = Inr ((Some fd, cs'), st1)" and "vol_ok disk D st" and "contexts_ok D st vol cs"
    and "\<not> vpxe (snd st)" and "fread disk fd st1 loc cnt = Inr (bs, st2)"
  shows "length (file_bytes D st1 fd) = unat (fh_size fd) \<and> unat loc + unat cnt \<le> unat (fh_size fd) \<and>
    bs = take (unat cnt) (drop (unat loc) (file_bytes D st1 fd)) \<and>
    file_ok D st1 fd \<and> file_ok D st2 fd \<and> file_bytes D st2 fd = file_bytes D st1 fd \<and> vol_ok disk D st2"
proof -
  from fopen_ok [OF assms(1-4)] have s: "stays disk D st st1" and f: "file_ok D st1 fd" by blast+
  note r = fread_ok [OF assms(5) stays_ok [OF s] f]
  show ?thesis using file_bytes_length [OF f] f r stays_file_ok [OF r(3), of fd] stays_ok [OF r(3)] by blast
qed

definition k_handle :: file_handle where
  "k_handle = \<lparr>fh_at = 0x1fa000, fh_backing = Iso_File (iso_handle 0x1fe000 0x1fb000), fh_size = 2100, fh_readall = False,
     fh_path_at = 0x1ff000, fh_path = ''/K'', fh_path_len = 3\<rparr>"

lemma iso_fopen: "\<exists>cs m. fopen (driver iso_image) tftp False 0 [] (iso_vol_state 0 (\<lambda>_. 0)) ''K'' = Inr ((Some k_handle, cs), iso_vol_state 6 m)"
proof -
  obtain m1 where a: "ext_mem_alloc (small_heap 0 (\<lambda>_. 0)) 3 = Inr (0x1ff000, small_heap 1 m1)"
    using allocated [OF iso_pages_from(1)] by blast
  obtain cs m2 where o: "iso9660_open (driver iso_image) False 0 [] (iso_vol_state 1 m1) ''/K'' =
      Inr ((Some (0x1fa000, iso_handle 0x1fe000 0x1fb000), cs), iso_vol_state 6 m2)"
    using iso_opens [OF iso_pages_from(3), of "driver iso_image" False m1] by auto
  have "\<not> vpxe (cached_device 80 iso_image)" by (simp add: cached_device_def)
  then show ?thesis
    using a o by (auto simp: fopen_def valloc_def rooted_def try_filesystems_def k_handle_def iso_handle_def)
qed

theorem fopen_well_formed_witness:
  "\<exists>fd cs st1 st2. fopen (driver iso_image) (\<lambda>st _ _. Inr (None, st)) False 0 [] (iso_vol_state 0 (\<lambda>_. 0)) ''K'' = Inr ((Some fd, cs), st1) \<and>
     fread (driver iso_image) fd st1 2047 2 = Inr ([0x41, 0x42], st2) \<and> file_ok (medium iso_image) st2 fd \<and> fh_size fd = 2100"
proof -
  obtain cs m where o: "fopen (driver iso_image) (\<lambda>st _ _. Inr (None, st)) False 0 [] (iso_vol_state 0 (\<lambda>_. 0)) ''K'' =
      Inr ((Some k_handle, cs), iso_vol_state 6 m)" using iso_fopen by blast
  have d: "take 1 (drop 38911 iso_image) = [0x41]" "take 1 (drop 38912 iso_image) = [0x42]"
    by (simp_all add: iso_image_def)
  then have r: "fread (driver iso_image) k_handle (iso_vol_state 6 m) 2047 2 = Inr ([0x41, 0x42], iso_vol_state 6 m)"
    by (simp add: fread_def k_handle_def iso9660_read_def iso_handle_def iso_vread Let_def)
  have "contexts_ok (medium iso_image) (iso_vol_state 0 (\<lambda>_. 0)) 0 []" "\<not> vpxe (snd (iso_vol_state 0 (\<lambda>_. 0)))"
    by (simp_all add: contexts_ok_def cached_device_def)
  from fopen_well_formed [OF o iso_vol_ok this r] o r show ?thesis by (auto simp: k_handle_def)
qed

end
