(* ===== verification/Config.thy ===== *)
theory Config
  imports Cstring Reader
begin

text \<open>
  Looking things up in the text of the configuration, \<^verbatim>\<open>src/common/lib/config.c\<close>: entries
  (lines that start with a slash), values of keys, and pairs of values. The text is a list of
  characters; a zero or the end of the list is its end. A pointer into the text is an offset.
\<close>

definition char_at :: "string \<Rightarrow> nat \<Rightarrow> char" where
  "char_at c i = (if i < length c then c ! i else NUL)"

abbreviation NEWLINE :: char where "NEWLINE \<equiv> CHR 0x0A"

lemma char_at_deref: "char_at c i = deref (drop i c)"
  by (cases "drop i c") (auto simp: char_at_def drop_eq_Nil nth_via_drop)

lemma char_at_inside: "char_at c i \<noteq> NUL \<Longrightarrow> i < length c"
  by (simp add: char_at_def split: if_splits)

lemma char_at_slash: "char_at c i = CHR ''/'' \<Longrightarrow> i < length c"
  by (rule char_at_inside) simp

section \<open>Entries\<close>

text \<open>The place after the slash of the \<open>k\<close>-th line that starts with one.\<close>

function seek_entry :: "string \<Rightarrow> nat \<Rightarrow> nat \<Rightarrow> nat option" where
  "seek_entry c k p =
     (if char_at c p = NUL then None
      else if char_at c p \<noteq> CHR ''/'' then seek_entry c k (p + 1)
      else if p \<noteq> 0 \<and> char_at c (p - 1) \<noteq> NEWLINE then seek_entry c k (p + 1)
      else if k = 0 then Some (p + 1)
      else seek_entry c (k - 1) (p + 1))"
  by pat_completeness auto
termination
  by (relation "measure (\<lambda>(c, k, p). length c - p)") (auto dest: char_at_inside char_at_slash)

declare seek_entry.simps [simp del]

definition line_at :: "string \<Rightarrow> nat \<Rightarrow> string" where
  "line_at c p = takeWhile (\<lambda>ch. ch \<noteq> NEWLINE \<and> ch \<noteq> NUL) (drop p c)"

text \<open>The configuration: whether it is ready, and its text once there is one.\<close>

record config =
  config_ready :: bool
  config_text :: "string option"

definition entry_place :: "config \<Rightarrow> nat \<Rightarrow> nat option" where
  "entry_place cfg index =
     (if \<not> config_ready cfg then None else case config_text cfg of None \<Rightarrow> None | Some c \<Rightarrow> seek_entry c index 0)"

definition text_of :: "config \<Rightarrow> string" where
  "text_of cfg = (case config_text cfg of None \<Rightarrow> [] | Some c \<Rightarrow> c)"

text \<open>The name comes in a buffer of its own.\<close>

definition config_get_entry_name :: "config \<Rightarrow> nat \<Rightarrow> pmm_state \<Rightarrow> ((u64 \<times> string) option \<times> pmm_state) outcome" where
  "config_get_entry_name cfg index s =
     (case entry_place cfg index of
        None \<Rightarrow> Inr (None, s)
      | Some p \<Rightarrow>
          (let name = line_at (text_of cfg) (p - 1)
           in bindo (ext_mem_alloc s (of_nat (length name + 1))) (\<lambda>buf s1. Inr (Some (buf, name), s1))))"

text \<open>The end of the entry whose text starts at \<open>p\<close>: the next one, or the end of the text.\<close>

function entry_end :: "string \<Rightarrow> nat \<Rightarrow> nat" where
  "entry_end c p =
     (let q = p + length (takeWhile (\<lambda>ch. ch \<noteq> CHR ''/'' \<and> ch \<noteq> NUL) (drop p c))
      in if char_at c q \<noteq> NUL \<and> char_at c (q - 1) \<noteq> NEWLINE then entry_end c (q + 1) else q)"
  by pat_completeness auto
termination
  by (relation "measure (\<lambda>(c, p). length c - p)") (auto dest: char_at_inside)

declare entry_end.simps [simp del]

text \<open>
  The place and the size of the text of an entry. The first character after the slash is passed
  over without being looked at; when it is the end of the text this would leave the buffer.
\<close>

definition CONFIG_OVERREAD :: string where "CONFIG_OVERREAD = ''read outside the configuration''"

definition config_get_entry :: "config \<Rightarrow> nat \<Rightarrow> (nat \<times> nat) option outcome" where
  "config_get_entry cfg index =
     (case entry_place cfg index of
        None \<Rightarrow> Inr None
      | Some p \<Rightarrow>
          (let c = text_of cfg
           in if p \<ge> length c then Inl CONFIG_OVERREAD
              else (let ret = p + 1 + length (line_at c (p + 1)) in Inr (Some (ret, entry_end c ret - ret)))))"

section \<open>Values\<close>

abbreviation blank :: "char \<Rightarrow> bool" where
  "blank ch \<equiv> ch = CHR '' '' \<or> ch = CHR 0x09"

abbreviation CONFIG_VALUE_BUF_SIZE :: nat where "CONFIG_VALUE_BUF_SIZE \<equiv> 4096"

text \<open>
  The value of the \<open>index\<close>-th line with the key, from \<open>i\<close> on, with the place it was found at,
  which \<open>lastkey\<close> keeps.
\<close>

function value_from :: "string \<Rightarrow> string \<Rightarrow> nat \<Rightarrow> nat \<Rightarrow> (string \<times> nat) option" where
  "value_from c key index i =
     (if char_at c i = NUL then None
      else if strncasecmp (drop i c) key (strlen key) = 0 \<and> char_at c (i + strlen key) = CHR '':'' then
        (if i \<noteq> 0 \<and> char_at c (i - 1) \<noteq> NEWLINE then value_from c key index (i + 1)
         else if index \<noteq> 0 then value_from c key (index - 1) (i + 1)
         else (let j = i + strlen key + 1 + length (takeWhile blank (drop (i + strlen key + 1) c));
                   v = line_at c j
               in Some (if length v \<ge> CONFIG_VALUE_BUF_SIZE then take (CONFIG_VALUE_BUF_SIZE - 1) v else v, j)))
      else value_from c key index (i + 1))"
  by pat_completeness auto
termination
  by (relation "measure (\<lambda>(c, key, index, i). length c - i)") (auto dest: char_at_inside)

declare value_from.simps [simp del]

definition config_get_value :: "config \<Rightarrow> string option \<Rightarrow> nat \<Rightarrow> string option \<Rightarrow> (string \<times> nat) option" where
  "config_get_value cfg conf index key =
     (case key of
        None \<Rightarrow> None
      | Some k \<Rightarrow>
          if \<not> config_ready cfg then None
          else (case (case conf of None \<Rightarrow> config_text cfg | Some c \<Rightarrow> Some c) of
                  None \<Rightarrow> None
                | Some c \<Rightarrow> value_from c k index 0))"

record conf_tuple =
  value1 :: "string option"
  value2 :: "string option"

definition tuple_copy :: "string \<Rightarrow> string" where
  "tuple_copy v = (if length v \<ge> 4096 then take 4095 v else v)"

definition config_get_tuple :: "config \<Rightarrow> string option \<Rightarrow> nat \<Rightarrow> string \<Rightarrow> string \<Rightarrow> conf_tuple" where
  "config_get_tuple cfg conf index key1 key2 =
     (case config_get_value cfg conf index (Some key1) of
        None \<Rightarrow> \<lparr>value1 = None, value2 = None\<rparr>
      | Some (tmp, lk1) \<Rightarrow>
          (let c = (case conf of None \<Rightarrow> text_of cfg | Some c \<Rightarrow> c);
               second = config_get_value cfg (Some (drop lk1 c)) 0 (Some key2);
               lk2 = (case second of None \<Rightarrow> lk1 | Some (_, j) \<Rightarrow> lk1 + j);
               following = config_get_value cfg conf (index + 1) (Some key1);
               lk3 = (case following of None \<Rightarrow> lk2 | Some (_, j) \<Rightarrow> j);
               found = map_option (\<lambda>(v, _). tuple_copy v) second
           in \<lparr>value1 = Some (tuple_copy tmp),
               value2 = (if found \<noteq> None \<and> following \<noteq> None \<and> lk2 > lk3 then None else found)\<rparr>))"

end
