(* ===== verification/Config_Lookup.thy ===== *)
theory Config_Lookup
  imports Config
begin

text \<open>
  What the lookups in the configuration mean, stated over its lines: a value is that of the line
  with the given number among those with the key.
\<close>

section \<open>Lines\<close>

abbreviation in_line :: "char \<Rightarrow> bool" where
  "in_line ch \<equiv> ch \<noteq> NEWLINE"

function lines_of :: "string \<Rightarrow> string list" where
  "lines_of c = (if c = [] then [] else takeWhile in_line c # lines_of (tl (dropWhile in_line c)))"
  by pat_completeness auto
termination
proof (relation "measure length", goal_cases)
  case (2 c)
  then have "0 < length c" by simp
  moreover have "length (dropWhile in_line c) \<le> length c" by (rule length_dropWhile_le)
  ultimately show ?case unfolding in_measure length_tl by linarith
qed simp

declare lines_of.simps [simp del]

lemma tl_dropWhile: "tl (dropWhile P xs) = drop (length (takeWhile P xs) + 1) xs"
  by (simp add: dropWhile_eq_drop drop_Suc tl_drop)

lemma lines_of_drop:
  "i < length c \<Longrightarrow> lines_of (drop i c) =
     takeWhile in_line (drop i c) # lines_of (drop (i + length (takeWhile in_line (drop i c)) + 1) c)"
  by (subst lines_of.simps) (simp add: tl_dropWhile add_ac)

section \<open>Keys\<close>

lemma lower_not_NUL: "lower ch = NUL \<longleftrightarrow> ch = NUL"
  using code_lower [of ch] tolower_zero [OF code_bounds(1) [of ch]] by (metis code_zero)

lemma strncasecmp_eq_0:
  "cstr t \<Longrightarrow> strncasecmp s t (length t) = 0 \<longleftrightarrow> map lower (take (length t) s) = map lower t"
proof (induction t arbitrary: s)
  case (Cons a t)
  have l: "tolower (code x) = tolower (code y) \<longleftrightarrow> lower x = lower y" for x y
    by (metis code_lower code_inject)
  have "tolower (code a) \<noteq> tolower 0" using Cons.prems tolower_zero [OF code_bounds(1) [of a]] by (simp add: tolower_def)
  moreover have "lower NUL \<noteq> lower a" using lower_not_NUL [of a] lower_not_NUL [of NUL] Cons.prems by simp
  ultimately show ?case using Cons l
    by (cases s) (auto simp: Let_def three_way_def)
qed simp

text \<open>The value a line holds for a key.\<close>

definition line_value :: "string \<Rightarrow> string \<Rightarrow> string option" where
  "line_value key l =
     (if length key < length l \<and> map lower (take (length key) l) = map lower key \<and> l ! length key = CHR '':''
      then Some (take 4095 (dropWhile blank (drop (length key + 1) l))) else None)"

definition key_values :: "string \<Rightarrow> string \<Rightarrow> string list" where
  "key_values key c = List.map_filter (line_value key) (lines_of c)"

lemma lower_newline: "lower ch = lower NEWLINE \<Longrightarrow> ch = NEWLINE"
  using code_lower [of ch] code_lower [of NEWLINE] code_inject [of ch NEWLINE] by (auto simp: tolower_def split: if_splits)

lemma take_in_line:
  assumes "map lower (take n s) = map lower key" and "NEWLINE \<notin> set key" and "length key = n"
  shows "take n (takeWhile in_line s) = take n s"
proof -
  have "NEWLINE \<notin> set (take n s)"
  proof
    assume "NEWLINE \<in> set (take n s)"
    then have "lower NEWLINE \<in> set (map lower key)" unfolding assms(1) [symmetric] by (metis image_eqI set_map)
    then show False using lower_newline assms(2) by auto
  qed
  then have "takeWhile in_line (take n s @ drop n s) = take n s @ takeWhile in_line (drop n s)"
    by (intro takeWhile_append2) auto
  moreover have "length (take n s) = n" using arg_cong [OF assms(1), of length] assms(3) by simp
  ultimately show ?thesis by simp
qed

text \<open>The test of \<open>config_get_value\<close> at a place looks at the rest of the line only.\<close>

definition key_here :: "string \<Rightarrow> string \<Rightarrow> nat \<Rightarrow> bool" where
  "key_here c key i \<longleftrightarrow> strncasecmp (drop i c) key (strlen key) = 0 \<and> char_at c (i + strlen key) = CHR '':''"

lemma key_here_line:
  assumes "cstr key" and "NEWLINE \<notin> set key"
  shows "key_here c key i \<longleftrightarrow> line_value key (takeWhile in_line (drop i c)) \<noteq> None"
proof -
  let ?n = "length key" and ?s = "drop i c"
  let ?l = "takeWhile in_line ?s"
  have n: "strlen key = ?n" using assms(1) by (rule strlen_length)
  have "key_here c key i \<longleftrightarrow> map lower (take ?n ?s) = map lower key \<and> ?n < length ?s \<and> ?s ! ?n = CHR '':''"
    by (auto simp: key_here_def n strncasecmp_eq_0 [OF assms(1)] char_at_def)
  also have "\<dots> \<longleftrightarrow> map lower (take ?n ?l) = map lower key \<and> ?n < length ?l \<and> ?l ! ?n = CHR '':''"
  proof (cases "map lower (take ?n ?s) = map lower key")
    case True
    then have t: "take ?n ?l = take ?n ?s" using assms(2) by (rule take_in_line) simp
    have "?n < length ?l" if "?n < length ?s" "?s ! ?n = CHR '':''"
    proof -
      have "map lower (take (Suc ?n) ?s) = map lower (key @ '':'')"
        using that True by (simp add: take_Suc_conv_app_nth)
      then have "take (Suc ?n) ?l = take (Suc ?n) ?s" using assms(2) by (intro take_in_line [where key = "key @ '':''"]) simp_all
      then have "length (take (Suc ?n) ?l) = Suc ?n" using that by simp
      then show ?thesis by simp
    qed
    moreover have "?n < length ?l \<Longrightarrow> ?n < length ?s \<and> ?l ! ?n = ?s ! ?n"
      using length_takeWhile_le [of in_line ?s] takeWhile_nth [of ?n in_line ?s] by simp
    ultimately show ?thesis using t by auto
  next
    case False
    have "map lower (take ?n ?l) \<noteq> map lower key"
    proof
      assume m: "map lower (take ?n ?l) = map lower key"
      have "length (take ?n ?l) = ?n" using arg_cong [OF m, of length] by simp
      then have "?n \<le> length ?l" by simp
      then have "take ?n (take (length ?l) ?s) = take ?n ?s" by (simp only: take_take min_absorb1)
      then have "take ?n ?s = take ?n ?l" using takeWhile_eq_take [of in_line ?s] by simp
      with m False show False by simp
    qed
    with False show ?thesis by simp
  qed
  finally show ?thesis by (auto simp: line_value_def)
qed

section \<open>Values\<close>

lemma in_line_length: "i + length (takeWhile in_line (drop i c)) \<le> length c" if "i \<le> length c"
  using length_takeWhile_le [of in_line "drop i c"] that by simp

lemma end_of_line:
  assumes "i + length (takeWhile in_line (drop i c)) < length c"
  shows "c ! (i + length (takeWhile in_line (drop i c))) = NEWLINE"
  using nth_length_takeWhile [of in_line "drop i c"] assms by simp

lemma cstr_char_at: "cstr c \<Longrightarrow> i < length c \<Longrightarrow> char_at c i \<noteq> NUL"
  by (simp add: char_at_def cstr_nth)

lemma value_from_end: "length c \<le> i \<Longrightarrow> value_from c key k i = None"
  by (subst value_from.simps) (simp add: char_at_def)

lemma value_from_skip:
  assumes "char_at c i \<noteq> NUL" and "\<not> key_here c key i \<or> (i \<noteq> 0 \<and> char_at c (i - 1) \<noteq> NEWLINE)"
  shows "value_from c key k i = value_from c key k (i + 1)"
  using assms unfolding key_here_def by (subst value_from.simps) auto

lemma value_from_hit:
  assumes "char_at c i \<noteq> NUL" and "key_here c key i" and "i = 0 \<or> char_at c (i - 1) = NEWLINE"
  shows "value_from c key k i =
    (if k \<noteq> 0 then value_from c key (k - 1) (i + 1)
     else (let j = i + strlen key + 1 + length (takeWhile blank (drop (i + strlen key + 1) c)); v = line_at c j
           in Some (if length v \<ge> CONFIG_VALUE_BUF_SIZE then take (CONFIG_VALUE_BUF_SIZE - 1) v else v, j)))"
  using assms unfolding key_here_def by (subst value_from.simps) auto

text \<open>Inside a line nothing is found, so the search goes on at the next one.\<close>

lemma value_from_inside:
  assumes "cstr c" and "cstr key" and "NEWLINE \<notin> set key" and "i < length c" and "c ! i \<noteq> NEWLINE"
  shows "value_from c key k (i + 1) =
    value_from c key k (i + length (takeWhile in_line (drop i c)) + 1)"
  using assms(4,5)
proof (induction "length c - i" arbitrary: i rule: less_induct)
  case less
  let ?l = "takeWhile in_line (drop (i + 1) c)"
  have tw: "takeWhile in_line (drop i c) = c ! i # ?l" using less.prems by (simp add: Cons_nth_drop_Suc [symmetric])
  consider (stop) "length c \<le> i + 1" | (line) "i + 1 < length c" "c ! (i + 1) = NEWLINE" | (on) "i + 1 < length c" "c ! (i + 1) \<noteq> NEWLINE"
    by linarith
  then show ?case
  proof cases
    case stop
    then show ?thesis using tw by (simp add: value_from_end)
  next
    case line
    then have l: "?l = []" by (simp add: Cons_nth_drop_Suc [symmetric])
    have "\<not> key_here c key (i + 1)" unfolding key_here_line [OF assms(2,3)] l by (simp add: line_value_def)
    then have "value_from c key k (i + 1) = value_from c key k (i + 1 + 1)"
      using line(1) assms(1) by (intro value_from_skip cstr_char_at) simp_all
    then show ?thesis unfolding tw l by simp
  next
    case on
    have "char_at c (i + 1 - 1) \<noteq> NEWLINE" using less.prems by (simp add: char_at_def)
    then have "value_from c key k (i + 1) = value_from c key k (i + 1 + 1)"
      using on(1) assms(1) by (intro value_from_skip cstr_char_at) simp_all
    moreover have "value_from c key k (i + 1 + 1) = value_from c key k (i + 1 + length ?l + 1)"
      using on less.prems by (intro less.hyps) simp_all
    ultimately show ?thesis by (simp add: tw)
  qed
qed

lemma takeWhile_drop: "m \<le> length (takeWhile P xs) \<Longrightarrow> takeWhile P (drop m xs) = drop m (takeWhile P xs)"
proof (induction xs arbitrary: m)
  case (Cons x xs)
  then show ?case by (cases m) (auto split: if_splits)
qed simp

lemma dropWhile_blank_line: "dropWhile blank (takeWhile in_line s) = takeWhile in_line (dropWhile blank s)"
  by (induction s) auto

lemma hit_value:
  assumes "cstr c" and "m \<le> length (takeWhile in_line (drop i c))"
  shows "line_at c (i + m + length (takeWhile blank (drop (i + m) c))) = dropWhile blank (drop m (takeWhile in_line (drop i c)))"
proof -
  let ?r = "drop (i + m) c"
  have "takeWhile in_line ?r = drop m (takeWhile in_line (drop i c))"
    using takeWhile_drop [OF assms(2)] by (simp add: add.commute)
  moreover have "drop (i + m + length (takeWhile blank ?r)) c = dropWhile blank ?r"
    unfolding dropWhile_eq_drop by (simp add: add_ac)
  moreover have "takeWhile (\<lambda>ch. ch \<noteq> NEWLINE \<and> ch \<noteq> NUL) s = takeWhile in_line s" if "cstr s" for s
    using that by (intro takeWhile_cong) (auto simp: cstr_def)
  moreover have "cstr (dropWhile blank ?r)" using assms(1) by (auto simp: cstr_def dest: set_dropWhileD in_set_dropD)
  ultimately show ?thesis by (simp add: line_at_def dropWhile_blank_line [symmetric])
qed

text \<open>At the start of a line.\<close>

lemma value_from_line:
  assumes "cstr c" and "cstr key" and "NEWLINE \<notin> set key" and "i < length c" and "i = 0 \<or> c ! (i - 1) = NEWLINE"
  shows "map_option fst (value_from c key k i) =
    (let l = takeWhile in_line (drop i c); next_line = i + length l + 1
     in case line_value key l of
          None \<Rightarrow> map_option fst (value_from c key k next_line)
        | Some v \<Rightarrow> if k = 0 then Some v else map_option fst (value_from c key (k - 1) next_line))"
proof -
  let ?l = "takeWhile in_line (drop i c)"
  have nz: "char_at c i \<noteq> NUL" using assms(1,4) by (rule cstr_char_at)
  have start: "i = 0 \<or> char_at c (i - 1) = NEWLINE" using assms(4,5) by (auto simp: char_at_def)
  have skip: "value_from c key k' (i + 1) = value_from c key k' (i + length ?l + 1)" for k'
  proof (cases "c ! i = NEWLINE")
    case True
    then have "?l = []" using assms(4) by (simp add: Cons_nth_drop_Suc [symmetric])
    then show ?thesis by simp
  qed (rule value_from_inside [OF assms(1-4)])
  show ?thesis
  proof (cases "line_value key ?l")
    case None
    then have "\<not> key_here c key i" unfolding key_here_line [OF assms(2,3)] by simp
    then have "value_from c key k i = value_from c key k (i + 1)" using nz by (intro value_from_skip) simp_all
    then show ?thesis using skip [of k] None by (simp add: Let_def)
  next
    case (Some v)
    then have "key_here c key i" unfolding key_here_line [OF assms(2,3)] by simp
    note u = value_from_hit [OF nz this start, of k]
    show ?thesis
    proof (cases "k = 0")
      case True
      have "map_option fst (value_from c key 0 i) = Some (take 4095 (dropWhile blank (drop (length key + 1) ?l)))"
        using u True hit_value [OF assms(1), of "length key + 1" i] Some
        by (simp add: Let_def strlen_length [OF assms(2)] line_value_def add.assoc split: if_splits)
      with True Some show ?thesis by (auto simp: Let_def line_value_def split: if_splits)
    next
      case False
      then show ?thesis using u Some skip [of "k - 1"] by (simp add: Let_def)
    qed
  qed
qed

theorem value_from_lines:
  assumes "cstr c" and "cstr key" and "NEWLINE \<notin> set key" and "i \<le> length c" and "i = 0 \<or> c ! (i - 1) = NEWLINE"
  shows "map_option fst (value_from c key k i) =
    (let vs = key_values key (drop i c) in if k < length vs then Some (vs ! k) else None)"
  using assms(4,5)
proof (induction "length c - i" arbitrary: i k rule: less_induct)
  case less
  let ?l = "takeWhile in_line (drop i c)"
  let ?i = "i + length ?l + 1"
  show ?case
  proof (cases "i < length c")
    case True
    have kv: "key_values key (drop i c) = (case line_value key ?l of None \<Rightarrow> [] | Some v \<Rightarrow> [v]) @ key_values key (drop ?i c)"
      by (simp add: key_values_def lines_of_drop [OF True] map_filter_simps split: option.split)
    have ih: "map_option fst (value_from c key k' ?i) =
      (let vs = key_values key (drop ?i c) in if k' < length vs then Some (vs ! k') else None)" for k'
    proof (cases "?i \<le> length c")
      case True
      then have "c ! (?i - 1) = NEWLINE" using end_of_line [of i c] by simp
      with True show ?thesis by (intro less.hyps) simp_all
    next
      case False
      then show ?thesis by (simp add: value_from_end key_values_def lines_of.simps [of "[]"] map_filter_simps)
    qed
    show ?thesis
      unfolding value_from_line [OF assms(1-3) True less.prems(2)] kv Let_def ih
      by (auto simp: nth_Cons' split: option.split)
  next
    case False
    with less.prems show ?thesis by (simp add: value_from_end key_values_def lines_of.simps [of "[]"] map_filter_simps)
  qed
qed

end
