(* ===== verification/Config_Menu.thy ===== *)
theory Config_Menu
  imports Config_Lookup
begin

text \<open>
  The tree of menu entries, \<^verbatim>\<open>src/common/lib/config.c\<close>: \<open>is_child\<close>, \<open>is_directory\<close> and
  \<open>create_menu_tree\<close>. A linked list of entries is a list. Every buffer the code takes and gives
  back goes through the allocator.
\<close>

lemma bindo_cong [fundef_cong]:
  "x = x' \<Longrightarrow> (\<And>a s. x' = Inr (a, s) \<Longrightarrow> f a s = g a s) \<Longrightarrow> bindo x f = bindo x' g"
  by (cases x') (auto simp: bindo_def)

section \<open>The tree\<close>

datatype config_entry = ConfigEntry
  (centry_name: string) (centry_comment: "string option") (centry_body: string)
  (centry_sub: "config_entry list") (centry_expanded: bool)

datatype child = NOT_CHILD | DIRECT_CHILD | INDIRECT_CHILD

definition child_kind :: "nat \<Rightarrow> string \<Rightarrow> child" where
  "child_kind current_depth buf =
     (if length buf < current_depth + 1 then NOT_CHILD
      else if \<not> list_all (\<lambda>j. buf ! j = CHR ''/'') [0..<current_depth] then NOT_CHILD
      else if buf ! current_depth = CHR ''/'' then INDIRECT_CHILD
      else DIRECT_CHILD)"

definition sfree :: "pmm_state \<Rightarrow> u64 \<Rightarrow> u64 \<Rightarrow> (unit \<times> pmm_state) outcome" where
  "sfree s p n = map_sum id (Pair ()) (pmm_free s p n)"

definition strdup :: "pmm_state \<Rightarrow> string \<Rightarrow> (string \<times> pmm_state) outcome" where
  "strdup s str = bindo (ext_mem_alloc s (of_nat (length str + 1))) (\<lambda>_ s1. Inr (str, s1))"

definition is_child :: "config \<Rightarrow> nat \<Rightarrow> nat \<Rightarrow> pmm_state \<Rightarrow> (child \<times> pmm_state) outcome" where
  "is_child cfg current_depth index s =
     bindo (config_get_entry_name cfg index s) (\<lambda>r s1.
       case r of
         None \<Rightarrow> Inr (NOT_CHILD, s1)
       | Some (p, buf) \<Rightarrow> bindo (sfree s1 p (of_nat (length buf + 1))) (\<lambda>_ s2. Inr (child_kind current_depth buf, s2)))"

definition is_directory :: "config \<Rightarrow> nat \<Rightarrow> nat \<Rightarrow> pmm_state \<Rightarrow> (bool \<times> pmm_state) outcome" where
  "is_directory cfg current_depth index s =
     bindo (is_child cfg (current_depth + 1) (index + 1) s) (\<lambda>k s1.
       case k of
         NOT_CHILD \<Rightarrow> Inr (False, s1)
       | INDIRECT_CHILD \<Rightarrow> Inl ''config: Malformed config file. Parentless child.''
       | DIRECT_CHILD \<Rightarrow> Inr (True, s1))"

text \<open>The entry itself with its name, and whether it starts out expanded.\<close>

definition entry_header :: "config \<Rightarrow> nat \<Rightarrow> nat \<Rightarrow> pmm_state \<Rightarrow> ((string \<times> bool) \<times> pmm_state) outcome" where
  "entry_header cfg current_depth i s =
     bindo (ext_mem_alloc s 56) (\<lambda>_ s1.
       bindo (config_get_entry_name cfg i s1) (\<lambda>r s2.
         case r of
           None \<Rightarrow> Inl ''null pointer''
         | Some (p, name) \<Rightarrow>
             (let default_expanded = (char_at name current_depth = CHR ''+'');
                  n = dropWhile (\<lambda>ch. ch = CHR '' '') (drop (current_depth + (if default_expanded then 1 else 0)) name)
              in bindo (strdup s2 n) (\<lambda>n' s3.
                   bindo (sfree s3 p (of_nat (length name + 1))) (\<lambda>_ s4. Inr ((n', default_expanded), s4))))))"

definition entry_body :: "config \<Rightarrow> nat \<Rightarrow> pmm_state \<Rightarrow> (string \<times> pmm_state) outcome" where
  "entry_body cfg i s =
     (case config_get_entry cfg i of
        Inl e \<Rightarrow> Inl e
      | Inr None \<Rightarrow> Inl ''null pointer''
      | Inr (Some (ret, sz)) \<Rightarrow>
          bindo (ext_mem_alloc s (of_nat (sz + 1))) (\<lambda>_ s1. Inr (take sz (drop ret (text_of cfg)), s1)))"

definition entry_comment :: "config \<Rightarrow> string \<Rightarrow> pmm_state \<Rightarrow> (string option \<times> pmm_state) outcome" where
  "entry_comment cfg body s =
     (case config_get_value cfg (Some body) 0 (Some ''COMMENT'') of
        None \<Rightarrow> Inr (None, s)
      | Some (comment, _) \<Rightarrow> bindo (strdup s comment) (\<lambda>c s1. Inr (Some c, s1)))"

abbreviation MAX_MENU_NESTING :: nat where "MAX_MENU_NESTING \<equiv> 64"

text \<open>There are fewer entries than characters, so a level ends.\<close>

lemma seek_entry_place: "seek_entry c k p = Some q \<Longrightarrow> k + p < q \<and> q \<le> length c"
proof (induction c k p rule: seek_entry.induct)
  case (1 c k p)
  from 1(4) show ?case
    unfolding seek_entry.simps [of c k p]
    using 1(1-3) char_at_slash [of c p] by (auto simp: Suc_le_eq split: if_splits)
qed

lemma is_child_inside:
  assumes "is_child cfg d i s = Inr (k, s')" and "k \<noteq> NOT_CHILD" shows "i < length (text_of cfg)"
  using assms seek_entry_place [of "text_of cfg" i 0]
  by (fastforce simp: is_child_def config_get_entry_name_def entry_place_def text_of_def split: option.splits if_splits)

function create_menu_tree :: "config \<Rightarrow> nat \<Rightarrow> nat \<Rightarrow> pmm_state \<Rightarrow> (config_entry list \<times> pmm_state) outcome" where
  "create_menu_tree cfg current_depth i s =
     (if current_depth > MAX_MENU_NESTING then Inl ''config: Menu nesting too deep''
      else bindo (is_child cfg current_depth i s) (\<lambda>k s1.
        if k = NOT_CHILD then Inr ([], s1)
        else if k = INDIRECT_CHILD then create_menu_tree cfg current_depth (i + 1) s1
        else bindo (entry_header cfg current_depth i s1) (\<lambda>(name, default_expanded) s2.
          bindo (entry_body cfg i s2) (\<lambda>body s3.
            bindo (is_directory cfg current_depth i s3) (\<lambda>dir s4.
              bindo (if dir then create_menu_tree cfg (current_depth + 1) (i + 1) s4 else Inr ([], s4)) (\<lambda>sub s5.
                bindo (entry_comment cfg body s5) (\<lambda>comment s6.
                  bindo (create_menu_tree cfg current_depth (i + 1) s6) (\<lambda>rest s7.
                    Inr (ConfigEntry name comment body sub (dir \<and> default_expanded) # rest, s7)))))))))"
  by pat_completeness auto
termination
  by (relation "measure (\<lambda>(cfg, d, i, s). length (text_of cfg) - i)") (auto dest!: is_child_inside)

declare create_menu_tree.simps [simp del]

end
