(* ===== verification/Config_Tree.thy ===== *)
theory Config_Tree
  imports Config_Menu
begin

text \<open>
  The menu read back from a configuration that was written for it: the places of its entries, and
  the tree they are put together to.
\<close>

section \<open>Text without entries\<close>

text \<open>No entry starts in the text; the flag says whether it stands at the start of a line.\<close>

fun quiet :: "bool \<Rightarrow> string \<Rightarrow> bool" where
  "quiet nl [] = True"
| "quiet nl (ch # s) \<longleftrightarrow> ch \<noteq> NUL \<and> \<not> (nl \<and> ch = CHR ''/'') \<and> quiet (ch = NEWLINE) s"

definition after :: "bool \<Rightarrow> string \<Rightarrow> bool" where
  "after nl s = (if s = [] then nl else last s = NEWLINE)"

lemma after_simps [simp]: "after nl [] = nl" "after nl (ch # s) = after (ch = NEWLINE) s"
  by (simp_all add: after_def)

lemma after_append [simp]: "after nl (s @ t) = after (after nl s) t"
  by (simp add: after_def)

lemma quiet_append [simp]: "quiet nl (s @ t) \<longleftrightarrow> quiet nl s \<and> quiet (after nl s) t"
  by (induction s arbitrary: nl) auto

lemma quiet_inside: "NEWLINE \<notin> set s \<Longrightarrow> cstr s \<Longrightarrow> quiet False s"
  by (induction s) auto

lemma char_at_append [simp]: "char_at (s @ t) (length s) = char_at t 0" "char_at (ch # t) 0 = ch" "char_at [] i = NUL"
  by (simp_all add: char_at_def nth_append)

lemma before_start: "length pre \<noteq> 0 \<and> char_at (pre @ t) (length pre - 1) \<noteq> NEWLINE \<longleftrightarrow> \<not> after True pre"
  by (cases pre rule: rev_cases) (auto simp: after_def char_at_def nth_append)

lemma seek_pass:
  assumes "char_at c p \<noteq> NUL" and "char_at c p \<noteq> CHR ''/'' \<or> (p \<noteq> 0 \<and> char_at c (p - 1) \<noteq> NEWLINE)"
  shows "seek_entry c k p = seek_entry c k (p + 1)"
  using assms by (subst seek_entry.simps) auto

lemma seek_hit:
  assumes "char_at c p = CHR ''/''" and "\<not> (p \<noteq> 0 \<and> char_at c (p - 1) \<noteq> NEWLINE)"
  shows "seek_entry c k p = (if k = 0 then Some (p + 1) else seek_entry c (k - 1) (p + 1))"
  using assms by (subst seek_entry.simps) auto

lemma seek_quiet:
  "quiet (after True pre) t \<Longrightarrow> seek_entry (pre @ t @ rest) k (length pre) = seek_entry (pre @ t @ rest) k (length (pre @ t))"
proof (induction t arbitrary: pre)
  case (Cons ch t)
  have "seek_entry (pre @ ch # t @ rest) k (length pre) = seek_entry (pre @ ch # t @ rest) k (length pre + 1)"
    using Cons.prems unfolding before_start [of pre "ch # t @ rest", symmetric]
    by (intro seek_pass; (simp only: before_start char_at_append quiet.simps)?) auto
  with Cons.IH [of "pre @ [ch]"] Cons.prems show ?case by simp
qed simp

section \<open>Entries one after the other\<close>

text \<open>An entry is its first line and the text up to the next entry.\<close>

definition entry_text_ok :: "string \<times> string \<Rightarrow> bool" where
  "entry_text_ok e \<longleftrightarrow> (\<exists>x h b. fst e = CHR ''/'' # x # h \<and> NEWLINE \<notin> set (x # h) \<and> cstr (x # h) \<and>
     snd e = NEWLINE # b \<and> quiet False (snd e) \<and> after False (snd e))"

definition entries_text :: "(string \<times> string) list \<Rightarrow> string" where
  "entries_text es = concat (map (\<lambda>(h, b). h @ b) es)"

lemma entries_text_simps [simp]: "entries_text [] = []" "entries_text ((h, b) # es) = h @ b @ entries_text es"
  by (simp_all add: entries_text_def)

lemma entries_text_append [simp]: "entries_text (es @ fs) = entries_text es @ entries_text fs"
  by (simp add: entries_text_def)

lemma entry_parts:
  assumes "entry_text_ok (h, b)"
  obtains x h' where "h = CHR ''/'' # x # h'" "NEWLINE \<notin> set (x # h')" "cstr (x # h')" "quiet False (x # h' @ b)" "after False (x # h' @ b)"
proof -
  from assms obtain x h' b' where p: "h = CHR ''/'' # x # h'" "NEWLINE \<notin> set (x # h')" "cstr (x # h')" "b = NEWLINE # b'"
    "quiet False b" "after False b" by (auto simp: entry_text_ok_def)
  then have "quiet False (x # h')" "\<not> after False (x # h')"
    using quiet_inside [of "x # h'"] last_in_set [of "x # h'"] by (auto simp: after_def)
  then have "quiet False ((x # h') @ b)" "after False ((x # h') @ b)" using p by (simp_all only: quiet_append after_append)
  then have "quiet False (x # h' @ b)" "after False (x # h' @ b)" by (simp_all only: append_Cons)
  with that [OF p(1-3)] show thesis by blast
qed

lemma seek_entries:
  assumes "\<forall>e \<in> set es. entry_text_ok e" and "after True pre"
  shows "seek_entry (pre @ entries_text es) k (length pre) =
    (if k < length es then Some (length (pre @ entries_text (take k es)) + 1) else None)"
  using assms
proof (induction es arbitrary: pre k)
  case Nil
  then show ?case by (subst seek_entry.simps) (simp add: char_at_def)
next
  case (Cons e es)
  obtain h b where e: "e = (h, b)" by (cases e)
  with Cons.prems have "entry_text_ok (h, b)" by simp
  then obtain x h' where h: "h = CHR ''/'' # x # h'" "quiet False (x # h' @ b)" "after False (x # h' @ b)" by (rule entry_parts)
  let ?c = "pre @ entries_text (e # es)"
  have c: "?c = (pre @ [CHR ''/'']) @ (x # h' @ b) @ entries_text es" by (simp add: e h(1))
  have "seek_entry ?c k (length pre) = (if k = 0 then Some (length pre + 1) else seek_entry ?c (k - 1) (length pre + 1))"
    using Cons.prems(2) by (intro seek_hit) (simp add: e h(1), simp only: before_start simp_thms)
  moreover have "seek_entry ?c (k - 1) (length (pre @ [CHR ''/''])) =
      seek_entry ?c (k - 1) (length ((pre @ [CHR ''/'']) @ (x # h' @ b)))"
    unfolding c by (rule seek_quiet) (use h(2) in simp)
  moreover have "seek_entry ((pre @ h @ b) @ entries_text es) (k - 1) (length (pre @ h @ b)) =
      (if k - 1 < length es then Some (length ((pre @ h @ b) @ entries_text (take (k - 1) es)) + 1) else None)"
    using Cons.prems h by (intro Cons.IH) auto
  ultimately show ?case by (cases k) (simp_all add: e h(1) add_ac)
qed

text \<open>The text of an entry ends where the next one starts.\<close>

lemma entry_end_pass:
  assumes "char_at c p \<noteq> NUL" and "char_at c p \<noteq> CHR ''/'' \<or> char_at c (p - 1) \<noteq> NEWLINE"
  shows "entry_end c p = entry_end c (p + 1)"
proof -
  have p: "drop p c = char_at c p # drop (p + 1) c"
    using char_at_inside [OF assms(1)] by (simp add: char_at_def Cons_nth_drop_Suc)
  show ?thesis
  proof (cases "char_at c p = CHR ''/''")
    case True
    then have "takeWhile (\<lambda>ch. ch \<noteq> CHR ''/'' \<and> ch \<noteq> NUL) (drop p c) = []" unfolding p by simp
    then show ?thesis unfolding entry_end.simps [of c p] using assms True by (simp add: Let_def)
  next
    case False
    then have "takeWhile (\<lambda>ch. ch \<noteq> CHR ''/'' \<and> ch \<noteq> NUL) (drop p c) =
        char_at c p # takeWhile (\<lambda>ch. ch \<noteq> CHR ''/'' \<and> ch \<noteq> NUL) (drop (p + 1) c)"
      unfolding p using assms(1) by simp
    then show ?thesis unfolding entry_end.simps [of c p] entry_end.simps [of c "p + 1"] by (simp add: Let_def)
  qed
qed

lemma entry_end_stop:
  assumes "char_at c p = NUL \<or> (char_at c p = CHR ''/'' \<and> char_at c (p - 1) = NEWLINE)"
  shows "entry_end c p = p"
proof -
  have "takeWhile (\<lambda>ch. ch \<noteq> CHR ''/'' \<and> ch \<noteq> NUL) (drop p c) = []"
    using assms unfolding char_at_deref by (cases "drop p c") auto
  then show ?thesis unfolding entry_end.simps [of c p] using assms by (auto simp: Let_def)
qed

lemma char_before: "pre \<noteq> [] \<Longrightarrow> char_at (pre @ t) (length pre - 1) = last pre"
  by (cases pre rule: rev_cases) (auto simp: char_at_def nth_append)

lemma entry_end_quiet:
  assumes "pre \<noteq> []" and "quiet (last pre = NEWLINE) t" and "last (pre @ t) = NEWLINE" and "rest = [] \<or> hd rest = CHR ''/''"
  shows "entry_end (pre @ t @ rest) (length pre) = length (pre @ t)"
  using assms(1-3)
proof (induction t arbitrary: pre)
  case Nil
  then show ?case
    using assms(4) char_before [of pre rest] by (cases rest) (auto intro!: entry_end_stop simp: char_at_def nth_append)
next
  case (Cons ch t)
  have "entry_end (pre @ (ch # t) @ rest) (length pre) = entry_end (pre @ (ch # t) @ rest) (length pre + 1)"
    using Cons.prems char_before [of pre "(ch # t) @ rest"] by (intro entry_end_pass) auto
  with Cons.IH [of "pre @ [ch]"] Cons.prems show ?case by simp
qed

section \<open>Looking entries up by number\<close>

definition written :: "config \<Rightarrow> (string \<times> string) list \<Rightarrow> bool" where
  "written cfg es \<longleftrightarrow> config_ready cfg \<and> (\<forall>e \<in> set es. entry_text_ok e) \<and>
     (\<exists>globals. config_text cfg = Some (globals @ entries_text es) \<and> quiet True globals \<and> after True globals)"

lemma written_place:
  assumes "written cfg es"
  obtains globals where "text_of cfg = globals @ entries_text es"
    and "\<And>k. entry_place cfg k = (if k < length es then Some (length (globals @ entries_text (take k es)) + 1) else None)"
proof -
  from assms obtain globals where g: "config_text cfg = Some (globals @ entries_text es)" "quiet True globals" "after True globals"
    and es: "\<forall>e \<in> set es. entry_text_ok e" and r: "config_ready cfg"
    unfolding written_def by blast
  have "seek_entry (globals @ entries_text es) k 0 = seek_entry (globals @ entries_text es) k (length globals)" for k
    using seek_quiet [of "[]" globals "entries_text es" k] g(2) by simp
  then have "entry_place cfg k = (if k < length es then Some (length (globals @ entries_text (take k es)) + 1) else None)" for k
    using seek_entries [OF es g(3)] g(1) r by (simp add: entry_place_def)
  moreover have "text_of cfg = globals @ entries_text es" using g(1) by (simp add: text_of_def)
  ultimately show thesis by (rule that [rotated])
qed

lemma entries_text_split: "k < length es \<Longrightarrow> entries_text es =
    entries_text (take k es) @ fst (es ! k) @ snd (es ! k) @ entries_text (drop (k + 1) es)"
  by (subst id_take_nth_drop [of k es]) (auto simp: case_prod_beta entries_text_def)

lemma entries_text_start: "\<forall>e \<in> set es. entry_text_ok e \<Longrightarrow> entries_text es = [] \<or> hd (entries_text es) = CHR ''/''"
  by (cases es) (auto simp: entry_text_ok_def)

lemma line_of_header:
  assumes "NEWLINE \<notin> set h" and "cstr h"
  shows "line_at (pre @ h @ NEWLINE # t) (length pre) = h"
proof -
  have "\<forall>ch \<in> set h. ch \<noteq> NEWLINE \<and> ch \<noteq> NUL" using assms by (auto simp: cstr_def)
  then have "takeWhile (\<lambda>ch. ch \<noteq> NEWLINE \<and> ch \<noteq> NUL) (h @ NEWLINE # t) = h @ takeWhile (\<lambda>ch. ch \<noteq> NEWLINE \<and> ch \<noteq> NUL) (NEWLINE # t)"
    by (intro takeWhile_append2) simp
  then show ?thesis by (simp add: line_at_def)
qed

lemma written_entry:
  assumes "written cfg es" and "entry_place cfg k = Some p"
  shows "k < length es" and "line_at (text_of cfg) (p - 1) = fst (es ! k)"
    and "config_get_entry cfg k = Inr (Some (p - 1 + length (fst (es ! k)), length (snd (es ! k))))"
    and "take (length (snd (es ! k))) (drop (p - 1 + length (fst (es ! k))) (text_of cfg)) = snd (es ! k)"
proof -
  obtain globals where t: "text_of cfg = globals @ entries_text es"
    and pl: "\<And>k. entry_place cfg k = (if k < length es then Some (length (globals @ entries_text (take k es)) + 1) else None)"
    using written_place [OF assms(1)] by blast
  show k: "k < length es" using assms(2) pl [of k] by (simp split: if_splits)
  let ?pre = "globals @ entries_text (take k es)" and ?rest = "entries_text (drop (k + 1) es)"
  have p: "p = length ?pre + 1" using assms(2) pl [of k] k by simp
  obtain h b where e: "es ! k = (h, b)" by (cases "es ! k")
  have ok: "\<forall>e \<in> set es. entry_text_ok e" using assms(1) by (simp add: written_def)
  then have "entry_text_ok (h, b)" using k e by (metis nth_mem)
  then obtain x h' b' where h: "h = CHR ''/'' # x # h'" "NEWLINE \<notin> set (x # h')" "cstr (x # h')"
    and b: "b = NEWLINE # b'" "quiet False b" "after False b" unfolding entry_text_ok_def by auto
  have c: "text_of cfg = ?pre @ h @ b @ ?rest" using entries_text_split [OF k] e t by simp
  show "line_at (text_of cfg) (p - 1) = fst (es ! k)"
    using line_of_header [of h ?pre "b' @ ?rest"] h by (simp add: c p e b(1))
  have l: "line_at (text_of cfg) (p + 1) = h'"
    using line_of_header [of h' "?pre @ [CHR ''/'', x]" "b' @ ?rest"] h by (simp add: c p b(1))
  have "\<forall>e \<in> set (drop (k + 1) es). entry_text_ok e" using ok by (meson in_set_dropD)
  then have rest: "?rest = [] \<or> hd ?rest = CHR ''/''" by (rule entries_text_start)
  have "last (x # h') \<noteq> NEWLINE" using h(2) last_in_set [of "x # h'"] by auto
  then have f: "last (?pre @ h) \<noteq> NEWLINE" "?pre @ h \<noteq> []" by (simp_all add: h(1))
  have "last ((?pre @ h) @ b) = NEWLINE" using b by (simp add: after_def)
  then have en: "entry_end ((?pre @ h) @ b @ ?rest) (length (?pre @ h)) = length ((?pre @ h) @ b)"
    using f b(2) rest by (intro entry_end_quiet) simp_all
  have ret: "p + 1 + length h' = length (?pre @ h)" by (simp add: p h(1))
  have "\<not> p \<ge> length (text_of cfg)" by (simp add: c p h(1))
  then have "config_get_entry cfg k = Inr (Some (length (?pre @ h), length b))"
    using en unfolding config_get_entry_def assms(2) Let_def option.case l ret by (simp add: c)
  then show "config_get_entry cfg k = Inr (Some (p - 1 + length (fst (es ! k)), length (snd (es ! k))))"
    by (simp add: e p)
  show "take (length (snd (es ! k))) (drop (p - 1 + length (fst (es ! k))) (text_of cfg)) = snd (es ! k)"
    by (simp add: c p e)
qed

lemma written_none: "written cfg es \<Longrightarrow> length es \<le> k \<Longrightarrow> entry_place cfg k = None"
  using written_entry(1) [of cfg es k] by (cases "entry_place cfg k") (auto simp: not_less)

lemma written_some: "written cfg es \<Longrightarrow> k < length es \<Longrightarrow> \<exists>p. entry_place cfg k = Some p"
  by (elim written_place) auto

section \<open>Results up to the allocator\<close>

text \<open>A program yields a value when it returns it or panics in the allocator.\<close>

definition alloc_panic :: "string \<Rightarrow> bool" where
  "alloc_panic e \<longleftrightarrow> (\<exists>s n. ext_mem_alloc s n = Inl e) \<or> (\<exists>s p n. pmm_free s p n = Inl e)"

definition yields :: "('a \<times> pmm_state) outcome \<Rightarrow> ('a \<Rightarrow> bool) \<Rightarrow> bool" where
  "yields m P \<longleftrightarrow> (case m of Inl e \<Rightarrow> alloc_panic e | Inr (a, s) \<Rightarrow> P a)"

named_theorems yields_rules

lemma yields_return [yields_rules]: "P a \<Longrightarrow> yields (Inr (a, s)) P"
  by (simp add: yields_def)

lemma yields_bindo [yields_rules]:
  "yields m P \<Longrightarrow> (\<And>a s. P a \<Longrightarrow> yields (f a s) Q) \<Longrightarrow> yields (bindo m f) Q"
  by (cases m) (auto simp: yields_def)

lemma yields_alloc: "yields (ext_mem_alloc s n) (\<lambda>_. True)"
  by (auto simp: yields_def alloc_panic_def split: sum.split)

lemma yields_free: "yields (sfree s p n) (\<lambda>_. True)"
  by (cases "pmm_free s p n") (auto simp: yields_def alloc_panic_def sfree_def)

lemma yields_strdup: "yields (strdup s str) (\<lambda>x. x = str)"
  unfolding strdup_def by (rule yields_bindo [OF yields_alloc]) (simp add: yields_return)

lemma yields_name:
  assumes "written cfg es"
  shows "yields (config_get_entry_name cfg k s) (\<lambda>r. map_option snd r = (if k < length es then Some (fst (es ! k)) else None))"
proof (cases "entry_place cfg k")
  case None
  then have "\<not> k < length es" using written_some [OF assms] by fastforce
  with None show ?thesis by (simp add: config_get_entry_name_def yields_return)
next
  case (Some p)
  note w = written_entry [OF assms Some]
  show ?thesis
    unfolding config_get_entry_name_def Some Let_def option.case w(2)
    using w(1) by (intro yields_bindo [OF yields_alloc] yields_return) simp
qed

lemma yields_child:
  assumes "written cfg es"
  shows "yields (is_child cfg d k s) (\<lambda>r. r = (if k < length es then child_kind d (fst (es ! k)) else NOT_CHILD))"
  unfolding is_child_def
  by (rule yields_bindo [OF yields_name [OF assms]])
     (auto intro!: yields_bindo [OF yields_free] yields_return split: option.split if_splits)

lemma yields_header:
  assumes "written cfg es" and "k < length es"
  shows "yields (entry_header cfg d k s) (\<lambda>r. r = (let h = fst (es ! k); ex = (char_at h d = CHR ''+'')
     in (dropWhile (\<lambda>ch. ch = CHR '' '') (drop (d + (if ex then 1 else 0)) h), ex)))"
  unfolding entry_header_def
  by (rule yields_bindo [OF yields_alloc], rule yields_bindo [OF yields_name [OF assms(1)]])
     (auto simp: assms(2) Let_def intro!: yields_bindo [OF yields_strdup] yields_bindo [OF yields_free] yields_return split: option.split)

lemma yields_body:
  assumes "written cfg es" and "k < length es"
  shows "yields (entry_body cfg k s) (\<lambda>b. b = snd (es ! k))"
proof -
  obtain p where "entry_place cfg k = Some p" using written_some [OF assms] by blast
  from written_entry(3,4) [OF assms(1) this] show ?thesis by (auto simp: entry_body_def intro!: yields_bindo [OF yields_alloc] yields_return)
qed

lemma yields_comment:
  "yields (entry_comment cfg body s) (\<lambda>c. c = map_option fst (config_get_value cfg (Some body) 0 (Some ''COMMENT'')))"
  by (auto simp: entry_comment_def intro!: yields_bindo [OF yields_strdup] yields_return split: option.split)

section \<open>Writing a menu\<close>

definition header :: "nat \<Rightarrow> string \<Rightarrow> bool \<Rightarrow> string" where
  "header d n ex = replicate d (CHR ''/'') @ (if ex then ''+'' else []) @ n"

fun flat :: "nat \<Rightarrow> config_entry list \<Rightarrow> (string \<times> string) list" where
  "flat d [] = []"
| "flat d (ConfigEntry n c b sub ex # ts) = (header d n ex, b) # flat (d + 1) sub @ flat d ts"

definition name_ok :: "string \<Rightarrow> bool" where
  "name_ok n \<longleftrightarrow> n \<noteq> [] \<and> NEWLINE \<notin> set n \<and> cstr n \<and> hd n \<notin> {CHR ''/'', CHR ''+'', CHR '' ''}"

text \<open>The text of an entry starts and ends with a line break, and no line of it starts with a slash.\<close>

definition body_ok :: "string \<Rightarrow> bool" where
  "body_ok b \<longleftrightarrow> b \<noteq> [] \<and> hd b = NEWLINE \<and> last b = NEWLINE \<and> quiet False b"

text \<open>A menu that can be written: only directories are expanded, and the comment is the one in the text.\<close>

fun menu_ok :: "nat \<Rightarrow> config_entry list \<Rightarrow> bool" where
  "menu_ok d [] = True"
| "menu_ok d (ConfigEntry n c b sub ex # ts) \<longleftrightarrow>
     d \<le> MAX_MENU_NESTING \<and> name_ok n \<and> body_ok b \<and> c = map_option fst (value_from b ''COMMENT'' 0 0) \<and>
     (ex \<longrightarrow> sub \<noteq> []) \<and> menu_ok (d + 1) sub \<and> menu_ok d ts"

definition menu_text :: "config_entry list \<Rightarrow> string" where
  "menu_text t = entries_text (flat 1 t)"

lemma header_kind:
  assumes "name_ok n"
  shows "child_kind d (header d n ex) = DIRECT_CHILD" and "d < d' \<Longrightarrow> child_kind d (header d' n ex) = INDIRECT_CHILD"
    and "child_kind (d + 1) (header d n ex) = NOT_CHILD"
proof -
  obtain x n' where n: "n = x # n'" "x \<noteq> CHR ''/''" using assms by (cases n) (auto simp: name_ok_def)
  then show "child_kind d (header d n ex) = DIRECT_CHILD"
    by (auto simp: child_kind_def header_def nth_append list_all_iff)
  show "child_kind d (header d' n ex) = INDIRECT_CHILD" if "d < d'"
    using that n by (auto simp: child_kind_def header_def nth_append list_all_iff)
  show "child_kind (d + 1) (header d n ex) = NOT_CHILD"
    using n by (auto simp: child_kind_def header_def nth_append list_all_iff)
qed

lemma header_parse:
  assumes "name_ok n"
  shows "char_at (header d n ex) d = CHR ''+'' \<longleftrightarrow> ex"
    and "dropWhile (\<lambda>ch. ch = CHR '' '') (drop (d + (if ex then 1 else 0)) (header d n ex)) = n"
proof -
  obtain x n' where n: "n = x # n'" "x \<noteq> CHR ''+''" "x \<noteq> CHR '' ''" using assms by (cases n) (auto simp: name_ok_def)
  then show "char_at (header d n ex) d = CHR ''+'' \<longleftrightarrow> ex"
    by (auto simp: char_at_def header_def nth_append)
  show "dropWhile (\<lambda>ch. ch = CHR '' '') (drop (d + (if ex then 1 else 0)) (header d n ex)) = n"
    using n by (simp add: header_def)
qed

lemma header_ok:
  assumes "name_ok n" and "body_ok b" and "1 \<le> d"
  shows "entry_text_ok (header d n ex, b)"
proof -
  obtain d' where d: "d = Suc d'" using assms(3) by (cases d) auto
  obtain b' where b: "b = NEWLINE # b'" using assms(2) by (cases b) (auto simp: body_ok_def)
  let ?t = "replicate d' (CHR ''/'') @ (if ex then ''+'' else []) @ n"
  have "?t \<noteq> []" "NEWLINE \<notin> set ?t" "cstr ?t" using assms(1) by (auto simp: name_ok_def cstr_def)
  then obtain x h where "?t = x # h" "NEWLINE \<notin> set (x # h)" "cstr (x # h)" by (cases ?t) auto
  moreover have "header d n ex = CHR ''/'' # ?t" by (simp add: header_def d)
  moreover have "after False b" "quiet False b" using assms(2) by (simp_all add: body_ok_def after_def)
  ultimately show ?thesis using b by (auto simp: entry_text_ok_def)
qed

lemma flat_ok: "menu_ok d t \<Longrightarrow> 1 \<le> d \<Longrightarrow> \<forall>e \<in> set (flat d t). entry_text_ok e"
  by (induction d t rule: flat.induct) (auto intro: header_ok)

lemma flat_deeper: "menu_ok d' t \<Longrightarrow> d < d' \<Longrightarrow> \<forall>e \<in> set (flat d' t). child_kind d (fst e) = INDIRECT_CHILD"
  by (induction d' t rule: flat.induct) (auto simp: header_kind)

lemma not_child_deeper: "child_kind d h = NOT_CHILD \<Longrightarrow> child_kind (d + 1) h = NOT_CHILD"
  by (auto simp: child_kind_def list_all_iff split: if_splits)

section \<open>Reading it back\<close>

lemma yields_directory:
  assumes "written cfg es" and "i + 1 < length es \<Longrightarrow> child_kind (d + 1) (fst (es ! (i + 1))) \<noteq> INDIRECT_CHILD"
  shows "yields (is_directory cfg d i s) (\<lambda>r. r = (i + 1 < length es \<and> child_kind (d + 1) (fst (es ! (i + 1))) = DIRECT_CHILD))"
  unfolding is_directory_def
  by (rule yields_bindo [OF yields_child [OF assms(1)]])
     (use assms(2) in \<open>auto intro!: yields_return split: child.split if_splits\<close>)

lemma drop_step: "drop i es = x # xs \<Longrightarrow> i < length es \<and> es ! i = x \<and> drop (i + 1) es = xs"
  by (metis Cons_nth_drop_Suc Suc_eq_plus1 drop_eq_Nil list.distinct(1) list.inject not_le)

lemma next_kind:
  assumes "drop (i + 1) es = flat (d + 1) sub @ rest" and "menu_ok (d + 1) sub"
    and "rest = [] \<or> child_kind (d + 1) (fst (hd rest)) = NOT_CHILD"
  shows "(if i + 1 < length es then child_kind (d + 1) (fst (es ! (i + 1))) else NOT_CHILD) =
    (if sub = [] then NOT_CHILD else DIRECT_CHILD)"
proof (cases sub)
  case Nil
  show ?thesis
  proof (cases "i + 1 < length es")
    case True
    then have "rest \<noteq> []" "hd rest = es ! (i + 1)" using assms(1) Nil hd_drop_conv_nth [OF True] by auto
    with True Nil assms(3) show ?thesis by simp
  qed (simp add: Nil)
next
  case (Cons e ts)
  obtain n c b sb ex where e: "e = ConfigEntry n c b sb ex" by (cases e)
  with Cons assms(2) have "name_ok n" by simp
  from header_kind(1) [OF this, of "d + 1" ex] show ?thesis
    using drop_step [OF assms(1) [unfolded Cons e flat.simps append_Cons]] Cons by simp
qed

lemma create_yields:
  assumes "written cfg es"
  shows "\<lbrakk>1 \<le> d; d \<le> MAX_MENU_NESTING; drop i es = skips @ flat d t @ rest; \<forall>x \<in> set skips. child_kind d (fst x) = INDIRECT_CHILD;
    rest = [] \<or> child_kind d (fst (hd rest)) = NOT_CHILD; menu_ok d t\<rbrakk> \<Longrightarrow> yields (create_menu_tree cfg d i s) (\<lambda>r. r = t)"
proof (induction "length es - i" arbitrary: d i skips t rest s rule: less_induct)
  case less
  have d: "\<not> d > MAX_MENU_NESTING" using less.prems(2) by simp
  note child = yields_child [OF assms, of d i]
  consider (skip) x sk where "skips = x # sk" | (stop) "skips = []" "t = []"
    | (entry) n c b sub ex ts where "skips = []" "t = ConfigEntry n c b sub ex # ts"
    by (metis config_entry.exhaust neq_Nil_conv)
  then show ?case
  proof cases
    case skip
    then have i: "i < length es" "es ! i = x" "drop (i + 1) es = sk @ flat d t @ rest"
      using drop_step [of i es x "sk @ flat d t @ rest"] less.prems(3) by simp_all
    have "child_kind d (fst x) = INDIRECT_CHILD" using less.prems(4) skip by simp
    moreover have "yields (create_menu_tree cfg d (i + 1) s') (\<lambda>r. r = t)" for s'
      using less.prems i skip by (intro less.hyps [of "i + 1" d sk t rest]) auto
    ultimately show ?thesis
      unfolding create_menu_tree.simps [of cfg d i s] using d i by (auto intro!: yields_bindo [OF child])
  next
    case stop
    have "(if i < length es then child_kind d (fst (es ! i)) else NOT_CHILD) = NOT_CHILD"
    proof (cases "i < length es")
      case True
      then have "rest \<noteq> []" "hd rest = es ! i" using less.prems(3) stop by (auto simp: hd_drop_conv_nth)
      with True less.prems(5) show ?thesis by simp
    qed simp
    then show ?thesis
      unfolding create_menu_tree.simps [of cfg d i s] using d stop by (auto intro!: yields_bindo [OF child] yields_return)
  next
    case entry
    let ?after = "flat d ts @ rest"
    have ok: "name_ok n" "c = map_option fst (value_from b ''COMMENT'' 0 0)" "ex \<longrightarrow> sub \<noteq> []" "menu_ok (d + 1) sub" "menu_ok d ts"
      using less.prems(6) entry by simp_all
    have i: "i < length es" "es ! i = (header d n ex, b)" "drop (i + 1) es = flat (d + 1) sub @ ?after"
      using drop_step [of i es "(header d n ex, b)" "flat (d + 1) sub @ ?after"] less.prems(3) entry by simp_all
    have after: "?after = [] \<or> child_kind (d + 1) (fst (hd ?after)) = NOT_CHILD"
    proof (cases ts)
      case Nil
      then show ?thesis using less.prems(5) not_child_deeper by auto
    next
      case (Cons e ts')
      with ok(5) show ?thesis by (cases e) (auto simp: header_kind(3) [simplified])
    qed
    have dir: "(i + 1 < length es \<and> child_kind (d + 1) (fst (es ! (i + 1))) = DIRECT_CHILD) = (sub \<noteq> [])"
      "i + 1 < length es \<Longrightarrow> child_kind (d + 1) (fst (es ! (i + 1))) \<noteq> INDIRECT_CHILD"
      using next_kind [OF i(3) ok(4) after] by (auto split: if_split_asm)
    have tree: "yields (if sub \<noteq> [] then create_menu_tree cfg (d + 1) (i + 1) s' else Inr ([], s')) (\<lambda>r. r = sub)" for s'
    proof (cases "sub = []")
      case False
      with ok(4) have "d + 1 \<le> MAX_MENU_NESTING" by (cases sub; cases "hd sub") auto
      then have "yields (create_menu_tree cfg (d + 1) (i + 1) s') (\<lambda>r. r = sub)"
        using less.prems(1) i ok(4) after by (intro less.hyps [of "i + 1" "d + 1" "[]" sub ?after]) simp_all
      then show ?thesis using False by simp
    qed (simp add: yields_return)
    have more: "yields (create_menu_tree cfg d (i + 1) s') (\<lambda>r. r = ts)" for s'
      using less.prems(1,2,5) i ok flat_deeper [OF ok(4), of d] by (intro less.hyps [of "i + 1" d "flat (d + 1) sub" ts rest]) auto
    have head: "yields (entry_header cfg d i s') (\<lambda>r. r = (n, ex))" for s'
      using yields_header [OF assms i(1), of d s'] header_parse [OF ok(1), of d ex] i(2) by (simp add: Let_def)
    have body: "yields (entry_body cfg i s') (\<lambda>r. r = b)" for s' using yields_body [OF assms i(1)] i(2) by simp
    have comment: "yields (entry_comment cfg b s') (\<lambda>r. r = c)" for s'
      using yields_comment [of cfg b s'] ok(2) assms by (simp add: config_get_value_def written_def)
    have kind: "(if i < length es then child_kind d (fst (es ! i)) else NOT_CHILD) = DIRECT_CHILD"
      using i header_kind(1) [OF ok(1)] by simp
    show ?thesis
      unfolding create_menu_tree.simps [of cfg d i s] using d kind ok(3) entry(2)
      by (auto intro!: yields_bindo [OF child] yields_bindo [OF head] yields_bindo [OF body]
          yields_bindo [OF yields_directory [OF assms dir(2), unfolded dir(1)]] yields_bindo [OF tree] yields_bindo [OF comment]
          yields_bindo [OF more [simplified]] yields_return)
  qed
qed

lemma menu_written:
  assumes "config_ready cfg" and "config_text cfg = Some (globals @ menu_text t)" and "quiet True globals" and "after True globals"
    and "menu_ok 1 t"
  shows "written cfg (flat 1 t)"
  using assms flat_ok [OF assms(5)] by (auto simp: written_def menu_text_def)

lemma menu_read_back:
  assumes "written cfg (flat 1 t)" and "menu_ok 1 t"
  shows "yields (create_menu_tree cfg 1 0 s) (\<lambda>r. r = t)"
  using create_yields [OF assms(1), of 1 0 "[]" t "[]" s] assms(2) by simp

end
