(* ===== verification/Config_Init.thy ===== *)
theory Config_Init
  imports Config_Tree Blake2b Numparse
begin

text \<open>
  \<open>init_config\<close> of \<^verbatim>\<open>src/common/lib/config.c\<close>: the enrolled checksum, stripping of carriage returns
  and blanks, macros, the menu tree, and cutting the text down to the global options. The text is
  the buffer without the zero that ends it.
\<close>

section \<open>Stripping\<close>

text \<open>How many characters the loop removes at position \<open>i\<close>.\<close>

definition strip_skip :: "string \<Rightarrow> nat \<Rightarrow> nat" where
  "strip_skip c i =
     (let b = length (takeWhile blank (drop i c))
      in if 0 < b \<and> i + b < length c \<and> c ! (i + b) = NEWLINE then b
         else length (takeWhile (\<lambda>ch. ch = CHR 0x0D \<or> ((i = 0 \<or> c ! (i - 1) = NEWLINE) \<and> blank ch)) (drop i c)))"

lemma strip_skip_le: "i \<le> length c \<Longrightarrow> i + strip_skip c i \<le> length c"
  using length_takeWhile_le [of _ "drop i c"] by (auto simp: strip_skip_def Let_def le_diff_conv2 add.commute)

function strip_from :: "string \<Rightarrow> nat \<Rightarrow> string" where
  "strip_from c i =
     (if i \<ge> length c then c
      else if strip_skip c i > 0 then strip_from (take i c @ drop (i + strip_skip c i) c) i
      else strip_from c (i + 1))"
  by pat_completeness auto
termination
proof (relation "measure (\<lambda>(c, i). length c - i)", goal_cases)
  case (2 c i)
  then show ?case using strip_skip_le [of i c] by simp
next
  case (3 c i)
  then show ?case by simp
qed simp

declare strip_from.simps [simp del]

section \<open>Macros\<close>

record macro =
  macro_at :: u64
  macro_name :: string
  macro_value :: string

abbreviation SIZEOF_MACRO :: u64 where "SIZEOF_MACRO \<equiv> 3080"

text \<open>The start of a macro definition or use at the start of a line; the text ends with its zero here.\<close>

definition line_macro :: "string \<Rightarrow> nat \<Rightarrow> bool" where
  "line_macro c i \<longleftrightarrow>
     (length c - i \<ge> 3 \<and> take 3 (drop i c) = [NEWLINE, CHR ''$'', CHR ''{'']) \<or>
     (length c - i \<ge> 2 \<and> i = 0 \<and> take 2 c = ''${'')"

abbreviation value_chars :: "string \<Rightarrow> nat \<Rightarrow> string" where
  "value_chars c i \<equiv> takeWhile (\<lambda>ch. ch \<noteq> NEWLINE \<and> ch \<noteq> NUL) (drop i c)"

abbreviation name_chars :: "string \<Rightarrow> nat \<Rightarrow> string" where
  "name_chars c i \<equiv> takeWhile (\<lambda>ch. ch \<noteq> CHR ''}'' \<and> ch \<noteq> NEWLINE \<and> ch \<noteq> NUL) (drop i c)"

abbreviation after_marker :: "nat \<Rightarrow> nat" where
  "after_marker i \<equiv> i + (if i \<noteq> 0 then 3 else 2)"

function load_macros :: "string \<Rightarrow> nat \<Rightarrow> macro list \<Rightarrow> pmm_state \<Rightarrow> (macro list \<times> pmm_state) outcome" where
  "load_macros c i macros s =
     (if i \<ge> length c then Inr (macros, s)
      else if line_macro c i then
        bindo (ext_mem_alloc s SIZEOF_MACRO) (\<lambda>p s1.
          let name = name_chars c (after_marker i); i2 = after_marker i + length name
          in if length name > 1023 then Inl ''config: Macro name too long''
             else if char_at c i2 = NEWLINE \<or> char_at c i2 = NUL \<or> char_at c (i2 + 1) \<noteq> CHR ''='' then
               bindo (sfree s1 p SIZEOF_MACRO) (\<lambda>_ s2. load_macros c i2 macros s2)
             else (let val = value_chars c (i2 + 2)
                   in if length val > 2047 then Inl ''config: Macro value too long''
                      else load_macros c (i2 + 2 + length val) (\<lparr>macro_at = p, macro_name = name, macro_value = val\<rparr> # macros) s1))
      else load_macros c (i + 1) macros s)"
  by pat_completeness auto
termination
proof (relation "measure (\<lambda>(c, i, macros, s). length c - i)", goal_cases)
  case (2 c i macros s p s1 name i2)
  have "i < i2" using 2 by simp
  with 2(1) show ?case by simp
next
  case (3 c i macros s p s1 name i2 val)
  have "i < i2" using 3 by simp
  with 3(1) show ?case by simp
qed simp_all

definition find_macro :: "macro list \<Rightarrow> string \<Rightarrow> string" where
  "find_macro macros name =
     (case List.find (\<lambda>m. strcmp (macro_name m) name = 0) macros of None \<Rightarrow> '''' | Some m \<Rightarrow> macro_value m)"

text \<open>
  Where a definition at \<open>i\<close> ends: \<^const>\<open>None\<close> inside when there is no definition there.
\<close>

definition definition_end :: "string \<Rightarrow> nat \<Rightarrow> nat option outcome" where
  "definition_end c i =
     (let close = after_marker i + length (takeWhile (\<lambda>ch. ch \<noteq> CHR ''}'') (drop (after_marker i) c))
      in if close \<ge> length c then Inl ''config: Malformed macro usage''
         else if close + 1 \<ge> length c \<or> char_at c (close + 1) \<noteq> CHR ''='' then Inr None
         else (let k = close + 2 + length (value_chars c (close + 2))
               in if k \<ge> length c then Inl ''config: Malformed macro usage'' else Inr (Some k)))"

lemma definition_end_after: "definition_end c i = Inr (Some k) \<Longrightarrow> i < k \<and> k < length c"
  by (auto simp: definition_end_def Let_def split: if_splits)

function expand_macros :: "string \<Rightarrow> macro list \<Rightarrow> nat \<Rightarrow> nat \<Rightarrow> string \<Rightarrow> pmm_state \<Rightarrow> (string \<times> pmm_state) outcome" where
  "expand_macros c macros limit i out s =
     (if i \<ge> length c then Inr (out, s)
      else case (if line_macro c i then definition_end c i else Inr None) of
        Inl e \<Rightarrow> Inl e
      | Inr (Some k) \<Rightarrow> expand_macros c macros limit k out s
      | Inr None \<Rightarrow>
          if length c - i \<ge> 2 \<and> take 2 (drop i c) = ''${'' then
            bindo (ext_mem_alloc s 1024) (\<lambda>p s1.
              let name = take 1023 (name_chars c (i + 2)); i2 = i + 2 + length name
              in if char_at c i2 \<noteq> CHR ''}'' then Inl ''config: Malformed macro usage''
                 else bindo (sfree s1 p 1024) (\<lambda>_ s2.
                   if length out + length (find_macro macros name) > limit then Inl ''config: Macro-induced buffer overflow''
                   else expand_macros c macros limit (i2 + 1) (out @ find_macro macros name) s2))
          else if length out \<ge> limit then Inl ''config: Macro-induced buffer overflow''
          else expand_macros c macros limit (i + 1) (out @ [c ! i]) s)"
  by pat_completeness auto
termination
  by (relation "measure (\<lambda>(c, macros, limit, i, out, s). length c - i)")
     (auto dest!: definition_end_after split: if_splits)

declare load_macros.simps [simp del] expand_macros.simps [simp del]

section \<open>The enrolled checksum\<close>

definition CONFIG_B2SUM_EMPTY :: string where "CONFIG_B2SUM_EMPTY = replicate 128 (CHR ''0'')"

record boot_flags =
  secure_boot_active :: bool
  editor_enabled :: bool

definition hash_digits :: "string \<Rightarrow> u8 list outcome" where
  "hash_digits b2sum =
     (if list_ex (\<lambda>i. digit_to_int (b2sum ! (i * 2)) = -1 \<or> digit_to_int (b2sum ! (i * 2 + 1)) = -1) [0..<64]
      then Inl ''!!! INVALID CHARACTER IN CONFIG CHECKSUM !!!''
      else Inr (map (\<lambda>i. push_bit 4 (word_of_int (digit_to_int (b2sum ! (i * 2)))) OR
                         word_of_int (digit_to_int (b2sum ! (i * 2 + 1)))) [0..<64]))"

text \<open>\<open>b2sum\<close> is what follows the signature; \<open>data\<close> the bytes of the configuration file.\<close>

definition check_enrolled :: "string \<Rightarrow> boot_flags \<Rightarrow> u8 list \<Rightarrow> boot_flags outcome" where
  "check_enrolled b2sum flags data =
     (if take 128 b2sum = CONFIG_B2SUM_EMPTY then Inr (flags\<lparr>secure_boot_active := False\<rparr>)
      else case hash_digits b2sum of
        Inl e \<Rightarrow> Inl e
      | Inr hash_buf \<Rightarrow>
          if hash_buf \<noteq> blake2b data then Inl ''!!! CHECKSUM MISMATCH FOR CONFIG FILE !!!''
          else Inr (flags\<lparr>editor_enabled := False\<rparr>))"

section \<open>Setting the configuration up\<close>

definition file_text :: "u8 list \<Rightarrow> string" where
  "file_text data = map (\<lambda>b. char_of (unat b)) data"

definition push_macro :: "string \<Rightarrow> string \<Rightarrow> macro list \<Rightarrow> pmm_state \<Rightarrow> (macro list \<times> pmm_state) outcome" where
  "push_macro name val macros s =
     bindo (ext_mem_alloc s SIZEOF_MACRO) (\<lambda>p s1. Inr (\<lparr>macro_at = p, macro_name = name, macro_value = val\<rparr> # macros, s1))"

fun free_macros :: "macro list \<Rightarrow> pmm_state \<Rightarrow> (unit \<times> pmm_state) outcome" where
  "free_macros [] s = Inr ((), s)"
| "free_macros (m # macros) s = bindo (sfree s (macro_at m) SIZEOF_MACRO) (\<lambda>_ s1. free_macros macros s1)"

text \<open>Macros loaded and expanded; the old buffer at \<open>addr\<close> takes \<open>alloc_size\<close> bytes.\<close>

definition expand_config ::
  "string \<Rightarrow> string \<Rightarrow> string \<Rightarrow> u64 \<Rightarrow> u64 \<Rightarrow> string \<Rightarrow> pmm_state \<Rightarrow> (string \<times> pmm_state) outcome" where
  "expand_config arch fw_type loader_arch addr alloc_size c s =
     bindo (push_macro ''ARCH'' arch [] s) (\<lambda>m1 s1.
     bindo (push_macro ''FW_TYPE'' fw_type m1 s1) (\<lambda>m2 s2.
     bindo (push_macro ''LOADER_ARCH'' loader_arch m2 s2) (\<lambda>m3 s3.
     bindo (load_macros c 0 m3 s3) (\<lambda>macros s4.
       if length c > (2 ^ 64 - 1) div 4 then Inl ''config: Config file too large for macro expansion''
       else bindo (ext_mem_alloc s4 (of_nat (length c * 4))) (\<lambda>_ s5.
         bindo (expand_macros c macros (length c * 4) 0 [] s5) (\<lambda>out s6.
           bindo (sfree s6 addr alloc_size) (\<lambda>_ s7.
             bindo (free_macros macros s7) (\<lambda>_ s8. Inr (out, s8)))))))))"

text \<open>Back from \<open>p\<close> to the nearest slash, or to the start.\<close>

fun back_to_entry :: "string \<Rightarrow> nat \<Rightarrow> nat" where
  "back_to_entry c 0 = 0"
| "back_to_entry c (Suc p) = (if char_at c (Suc p) = CHR ''/'' then Suc p else back_to_entry c p)"

definition cut_text :: "config \<Rightarrow> config outcome" where
  "cut_text cfg =
     (case config_get_entry cfg 0 of
        Inl e \<Rightarrow> Inl e
      | Inr None \<Rightarrow> Inr cfg
      | Inr (Some (ret, _)) \<Rightarrow>
          (let c = text_of cfg; q = back_to_entry c ret
           in Inr (if char_at c q = CHR ''/'' \<and> q > 0 then cfg\<lparr>config_text := Some (c[q - 1 := NUL])\<rparr> else cfg)))"

definition init_config ::
  "string \<Rightarrow> string \<Rightarrow> string \<Rightarrow> string \<Rightarrow> boot_flags \<Rightarrow> u64 \<Rightarrow> u8 list \<Rightarrow> pmm_state
     \<Rightarrow> ((config \<times> config_entry list \<times> boot_flags) \<times> pmm_state) outcome" where
  "init_config arch fw_type loader_arch b2sum flags addr data s =
     (case check_enrolled b2sum flags data of
        Inl e \<Rightarrow> Inl e
      | Inr flags' \<Rightarrow>
          bindo (expand_config arch fw_type loader_arch addr (of_nat (length data + 2))
                   (strip_from (file_text data @ [NEWLINE, NUL]) 0) s) (\<lambda>out s1.
            let cfg = \<lparr>config_ready = True, config_text = Some (butlast out)\<rparr>
            in bindo (create_menu_tree cfg 1 0 s1) (\<lambda>tree s2.
                 case cut_text cfg of Inl e \<Rightarrow> Inl e | Inr cfg' \<Rightarrow> Inr ((cfg', tree, flags'), s2))))"

end
