(* ===== verification/Config_Setup.thy ===== *)
theory Config_Setup
  imports Config_Init
begin

text \<open>
  What \<open>init_config\<close> does to the text: stripping, the text that goes through the macros
  unchanged, and the global options that are left when the menu has been read.
\<close>

section \<open>Stripping\<close>

definition visible :: "char \<Rightarrow> bool" where
  "visible ch \<longleftrightarrow> ch \<noteq> CHR 0x0D \<and> \<not> blank ch"

text \<open>No carriage return, and no blank at the start of a line, up to position \<open>n\<close>.\<close>

definition tidy_to :: "nat \<Rightarrow> string \<Rightarrow> bool" where
  "tidy_to n c \<longleftrightarrow> (\<forall>j < n. c ! j \<noteq> CHR 0x0D \<and> (blank (c ! j) \<longrightarrow> 0 < j \<and> c ! (j - 1) \<noteq> NEWLINE))"

lemma strip_skip_0:
  assumes "strip_skip c i = 0" and "i < length c"
  shows "c ! i \<noteq> CHR 0x0D" and "blank (c ! i) \<Longrightarrow> 0 < i \<and> c ! (i - 1) \<noteq> NEWLINE"
proof -
  have d: "drop i c = c ! i # drop (i + 1) c" using assms(2) by (simp add: Cons_nth_drop_Suc)
  have "takeWhile (\<lambda>ch. ch = CHR 0x0D \<or> ((i = 0 \<or> c ! (i - 1) = NEWLINE) \<and> blank ch)) (drop i c) = []"
    using assms(1) by (auto simp: strip_skip_def Let_def split: if_splits)
  then have "\<not> (c ! i = CHR 0x0D \<or> ((i = 0 \<or> c ! (i - 1) = NEWLINE) \<and> blank (c ! i)))"
    unfolding d by (auto split: if_splits)
  then show "c ! i \<noteq> CHR 0x0D" and "blank (c ! i) \<Longrightarrow> 0 < i \<and> c ! (i - 1) \<noteq> NEWLINE" by auto
qed

lemma strip_skip_invisible: "filter visible (take (strip_skip c i) (drop i c)) = []"
proof -
  have f: "filter visible (takeWhile P xs) = []" if "\<And>x. P x \<Longrightarrow> \<not> visible x" for P :: "char \<Rightarrow> bool" and xs
    using that by (auto simp: filter_empty_conv dest: set_takeWhileD)
  have t: "take (length (takeWhile P xs)) xs = takeWhile P xs" for P :: "char \<Rightarrow> bool" and xs
    by (rule takeWhile_eq_take [symmetric])
  have "filter visible (takeWhile blank xs) = []" for xs by (rule f) (auto simp: visible_def)
  moreover have "filter visible (takeWhile (\<lambda>ch. ch = CHR 0x0D \<or> (b \<and> blank ch)) xs) = []" for b xs
    by (rule f) (auto simp: visible_def)
  ultimately show ?thesis unfolding strip_skip_def Let_def by (simp add: t)
qed

lemma strip_from_tidy:
  "tidy_to i c \<Longrightarrow> i \<le> length c \<Longrightarrow> tidy_to (length (strip_from c i)) (strip_from c i) \<and>
     filter visible (strip_from c i) = filter visible c"
proof (induction c i rule: strip_from.induct)
  case (1 c i)
  show ?case
  proof (cases "i \<ge> length c")
    case True
    then show ?thesis using 1(3,4) by (simp add: strip_from.simps [of c i])
  next
    case False
    show ?thesis
    proof (cases "strip_skip c i > 0")
      case True
      let ?c = "take i c @ drop (i + strip_skip c i) c"
      have "c = take i c @ take (strip_skip c i) (drop i c) @ drop (i + strip_skip c i) c"
        by (metis add.commute append_take_drop_id drop_drop)
      then have "filter visible c = filter visible ?c"
        using strip_skip_invisible [of c i] by (metis append_Nil filter_append)
      moreover have "tidy_to i ?c" using 1(3) False by (auto simp: tidy_to_def nth_append)
      ultimately show ?thesis
        using 1(1) [OF False True] False True by (simp add: strip_from.simps [of c i])
    next
      case skip: False
      then have "tidy_to (i + 1) c" using 1(3) strip_skip_0 [of c i] False by (auto simp: tidy_to_def less_Suc_eq)
      with 1(2) [OF False skip] False skip show ?thesis by (simp add: strip_from.simps [of c i])
    qed
  qed
qed

text \<open>Text that is left alone.\<close>

fun tidy :: "bool \<Rightarrow> string \<Rightarrow> bool" where
  "tidy nl [] = True"
| "tidy nl (ch # s) \<longleftrightarrow> ch \<noteq> CHR 0x0D \<and> (blank ch \<longrightarrow> \<not> nl \<and> deref s \<noteq> NEWLINE) \<and> tidy (ch = NEWLINE) s"

lemma tidy_at:
  "tidy nl c \<Longrightarrow> j < length c \<Longrightarrow> c ! j \<noteq> CHR 0x0D \<and>
     (blank (c ! j) \<longrightarrow> (if j = 0 then \<not> nl else c ! (j - 1) \<noteq> NEWLINE) \<and> char_at c (j + 1) \<noteq> NEWLINE)"
proof (induction nl c arbitrary: j rule: tidy.induct)
  case (2 nl ch s)
  show ?case
  proof (cases j)
    case 0
    then show ?thesis using 2(2) by (auto simp: char_at_deref)
  next
    case (Suc i)
    then have i: "i < length s" "tidy (ch = NEWLINE) s" using 2(2,3) by simp_all
    from 2(1) [OF i(2,1)] Suc show ?thesis by (cases i) (auto simp: char_at_def)
  qed
qed simp

lemma tidy_skip:
  assumes "tidy True c" and "i < length c" shows "strip_skip c i = 0"
proof -
  let ?b = "length (takeWhile blank (drop i c))"
  have d: "drop i c = c ! i # drop (i + 1) c" using assms(2) by (simp add: Cons_nth_drop_Suc)
  have "c ! (i + ?b) \<noteq> NEWLINE" if "0 < ?b" "i + ?b < length c"
  proof -
    have e: "takeWhile blank (drop i c) ! (?b - 1) = drop i c ! (?b - 1)" using that by (intro takeWhile_nth) simp
    have n: "drop i c ! (?b - 1) = c ! (i + (?b - 1))" using that by (intro nth_drop) simp
    have "takeWhile blank (drop i c) ! (?b - 1) \<in> set (takeWhile blank (drop i c))" using that by (intro nth_mem) simp
    then have "blank (takeWhile blank (drop i c) ! (?b - 1))" by (rule set_takeWhileD [THEN conjunct2])
    then have k: "blank (c ! (i + (?b - 1)))" unfolding e n .
    have l: "i + (?b - 1) < length c" "i + (?b - 1) + 1 = i + ?b" using that by simp_all
    have "char_at c (i + (?b - 1) + 1) \<noteq> NEWLINE" using tidy_at [OF assms(1) l(1)] k by blast
    then show ?thesis unfolding l(2) using that by (simp add: char_at_def)
  qed
  moreover have "\<not> (c ! i = CHR 0x0D \<or> ((i = 0 \<or> c ! (i - 1) = NEWLINE) \<and> blank (c ! i)))"
    using tidy_at [OF assms] by (auto split: if_splits)
  then have "takeWhile (\<lambda>ch. ch = CHR 0x0D \<or> ((i = 0 \<or> c ! (i - 1) = NEWLINE) \<and> blank ch)) (drop i c) = []"
    unfolding d by simp
  ultimately show ?thesis by (auto simp: strip_skip_def Let_def)
qed

lemma strip_tidy: "tidy True c \<Longrightarrow> strip_from c i = c"
proof (induction "length c - i" arbitrary: i)
  case 0
  then show ?case by (simp add: strip_from.simps [of c i])
next
  case (Suc n)
  then show ?case using tidy_skip [of c i] by (simp add: strip_from.simps [of c i])
qed

section \<open>Text without macros\<close>

fun no_macro :: "string \<Rightarrow> bool" where
  "no_macro [] = True"
| "no_macro (ch # s) \<longleftrightarrow> \<not> (ch = CHR ''$'' \<and> deref s = CHR ''{'') \<and> no_macro s"

lemma no_macro_at: "no_macro c \<Longrightarrow> j < length c \<Longrightarrow> \<not> (c ! j = CHR ''$'' \<and> char_at c (j + 1) = CHR ''{'')"
proof (induction c arbitrary: j rule: no_macro.induct)
  case (2 ch s)
  then show ?case by (cases j) (auto simp: char_at_deref)
qed simp

lemma no_macro_take: "no_macro c \<Longrightarrow> take 2 (drop j c) \<noteq> ''${''"
proof
  assume n: "no_macro c" and t: "take 2 (drop j c) = ''${''"
  have j: "j + 1 < length c" using arg_cong [OF t, of length] by simp
  then have "drop j c = c ! j # c ! (j + 1) # drop (j + 2) c" by (simp add: Cons_nth_drop_Suc)
  then have "c ! j = CHR ''$''" "c ! (j + 1) = CHR ''{''" using t by simp_all
  moreover have "char_at c (j + 1) = c ! (j + 1)" "j < length c" using j by (simp_all add: char_at_def)
  ultimately show False using no_macro_at [OF n, of j] by metis
qed

lemma no_macro_line:
  assumes "no_macro c" shows "\<not> line_macro c i"
proof
  assume "line_macro c i"
  then consider "take 3 (drop i c) = [NEWLINE, CHR ''$'', CHR ''{'']" | "take 2 (drop 0 c) = ''${''"
    by (auto simp: line_macro_def)
  then show False
  proof cases
    case 1
    then have "take 2 (drop 1 (take 3 (drop i c))) = ''${''" by simp
    then have "take 2 (drop (i + 1) c) = ''${''" by (simp add: drop_take add.commute)
    with no_macro_take [OF assms] show False by blast
  next
    case 2
    with no_macro_take [OF assms] show False by blast
  qed
qed

lemma load_no_macro: "no_macro c \<Longrightarrow> load_macros c i m s = Inr (m, s)"
proof (induction "length c - i" arbitrary: i)
  case 0
  then show ?case by (simp add: load_macros.simps [of c i])
next
  case (Suc n)
  then show ?case using no_macro_line [of c i] by (simp add: load_macros.simps [of c i])
qed

lemma expand_no_macro:
  "no_macro c \<Longrightarrow> length out + (length c - i) \<le> limit \<Longrightarrow> expand_macros c m limit i out s = Inr (out @ drop i c, s)"
proof (induction "length c - i" arbitrary: i out)
  case 0
  then show ?case by (simp add: expand_macros.simps [of c m limit i])
next
  case (Suc n)
  then have i: "i < length c" "\<not> length out \<ge> limit" by simp_all
  then have "expand_macros c m limit i out s = expand_macros c m limit (i + 1) (out @ [c ! i]) s"
    using no_macro_line [OF Suc.prems(1), of i] no_macro_take [OF Suc.prems(1), of i] Suc.prems(2)
    by (simp add: expand_macros.simps [of c m limit i])
  also have "\<dots> = Inr ((out @ [c ! i]) @ drop (i + 1) c, s)"
    using Suc i by (intro Suc.hyps) simp_all
  finally show ?case using i by (simp add: Cons_nth_drop_Suc)
qed

lemma yields_push: "yields (push_macro name val ms s) (\<lambda>_. True)"
  unfolding push_macro_def by (rule yields_bindo [OF yields_alloc]) (simp add: yields_return)

lemma yields_free_macros: "yields (free_macros ms s) (\<lambda>_. True)"
  by (induction ms arbitrary: s) (auto intro!: yields_return yields_bindo [OF yields_free])

lemma yields_expand:
  assumes "no_macro c" and "length c \<le> (2 ^ 64 - 1) div 4"
  shows "yields (expand_config arch fw ld addr n c s) (\<lambda>out. out = c)"
proof -
  have "expand_macros c m (length c * 4) 0 [] s' = Inr (c, s')" for m s'
    using expand_no_macro [OF assms(1), of "[]" 0 "length c * 4" m s'] by simp
  then show ?thesis
    unfolding expand_config_def using assms(2)
    by (intro yields_bindo [OF yields_push])
       (auto simp: load_no_macro [OF assms(1)] intro!: yields_bindo [OF yields_alloc] yields_bindo [OF yields_free]
         yields_bindo [OF yields_free_macros] yields_return)
qed

section \<open>The global options\<close>

text \<open>A zero ends the text for every lookup.\<close>

lemma same_prefix:
  assumes "cstr key"
  shows "strncasecmp (s @ NUL # r) key (length key) = 0 \<longleftrightarrow> strncasecmp s key (length key) = 0"
proof (cases "length key \<le> length s")
  case False
  have "map lower (take (length key) (s @ NUL # r)) \<noteq> map lower key"
  proof
    assume m: "map lower (take (length key) (s @ NUL # r)) = map lower key"
    have "NUL \<in> set (take (length key) (s @ NUL # r))" using False by (simp add: take_Cons')
    then have "lower NUL \<in> set (map lower key)" unfolding m [symmetric] by (metis image_eqI set_map)
    then obtain x where "x \<in> set key" "lower x = lower NUL" by auto
    then show False using assms lower_not_NUL [of x] lower_not_NUL [of NUL] by (auto simp: cstr_def)
  qed
  moreover have "map lower (take (length key) s) \<noteq> map lower key"
    using False by (auto dest: arg_cong [of _ _ length])
  ultimately show ?thesis by (simp add: strncasecmp_eq_0 [OF assms])
qed (simp add: strncasecmp_eq_0 [OF assms])

lemma takeWhile_stop: "\<not> P x \<Longrightarrow> takeWhile P (s @ x # r) = takeWhile P s"
  by (induction s) auto

lemma blanks_stop [simp]: "takeWhile blank (s @ NUL # r) = takeWhile blank s"
  by (rule takeWhile_stop) simp

lemma char_at_stop: "i \<le> length g \<Longrightarrow> char_at (g @ NUL # r) i = char_at g i"
  by (cases "i = length g") (simp_all add: char_at_def nth_append)

lemma line_at_stop: "j \<le> length g \<Longrightarrow> line_at (g @ NUL # r) j = line_at g j"
  unfolding line_at_def drop_append by (simp add: takeWhile_stop)

lemmas terminated = char_at_stop line_at_stop

lemma key_here_terminated:
  assumes "cstr key" and "i \<le> length g"
  shows "key_here (g @ NUL # r) key i \<longleftrightarrow> key_here g key i"
proof (cases "strncasecmp (drop i g) key (length key) = 0")
  case True
  then have "length (take (length key) (drop i g)) = length key"
    unfolding strncasecmp_eq_0 [OF assms(1)] by (auto dest: arg_cong [of _ _ length])
  then have "i + length key \<le> length g" using assms(2) by simp
  then show ?thesis
    using same_prefix [OF assms(1), of "drop i g" r] True assms(2)
    by (simp add: key_here_def strlen_length [OF assms(1)] terminated)
next
  case False
  then show ?thesis
    using same_prefix [OF assms(1), of "drop i g" r] assms(2) by (simp add: key_here_def strlen_length [OF assms(1)])
qed

lemma value_from_terminated:
  assumes "cstr g" and "cstr key" and "i \<le> length g"
  shows "value_from (g @ NUL # r) key k i = value_from g key k i"
  using assms(3)
proof (induction "length g - i" arbitrary: i k)
  case 0
  then have "i = length g" by simp
  then show ?case by (simp add: value_from.simps [of "g @ NUL # r"] value_from.simps [of g] terminated char_at_def)
next
  case (Suc m)
  then have i: "i < length g" by simp
  let ?c = "g @ NUL # r"
  have nz: "char_at g i \<noteq> NUL" "char_at ?c i \<noteq> NUL" using cstr_char_at [OF assms(1) i] i by (simp_all add: terminated)
  have pr: "char_at ?c (i - 1) = char_at g (i - 1)" using i by (simp add: terminated)
  have kh: "key_here ?c key i = key_here g key i" using key_here_terminated [OF assms(2), of i g r] i by simp
  have ih: "value_from ?c key k' (i + 1) = value_from g key k' (i + 1)" for k' using Suc i by simp
  show ?case
  proof (cases "key_here g key i \<and> (i = 0 \<or> char_at g (i - 1) = NEWLINE)")
    case True
    have n: "strlen key = length key" using assms(2) by (rule strlen_length)
    have "i + length key < length g"
      using True char_at_inside [of g "i + length key"] by (auto simp: key_here_def n)
    moreover from this have "i + length key + 1 + length (takeWhile blank (drop (i + length key + 1) g)) \<le> length g"
      using length_takeWhile_le [of blank "drop (i + length key + 1) g"] by simp
    ultimately show ?thesis
      using True ih value_from_hit [OF nz(1), of key k] value_from_hit [OF nz(2), of key k] kh pr
      by (simp add: n terminated Let_def)
  next
    case False
    then show ?thesis using value_from_skip [OF nz(1), of key k] value_from_skip [OF nz(2), of key k] kh pr ih by auto
  qed
qed

lemma back_to_entry_at:
  "\<lbrakk>q \<le> p; char_at c q = CHR ''/''; \<forall>j. q < j \<and> j \<le> p \<longrightarrow> char_at c j \<noteq> CHR ''/''\<rbrakk> \<Longrightarrow> back_to_entry c p = q"
  by (induction p) (auto simp: le_Suc_eq)

lemma char_at_mid: "length pre \<le> j \<Longrightarrow> j - length pre < length h \<Longrightarrow> char_at (pre @ h @ t) j = h ! (j - length pre)"
  by (auto simp: char_at_def nth_append)

text \<open>With global options before the first entry, the text is cut right before it.\<close>

lemma cut_written:
  assumes "written cfg (flat 1 t)" and "config_text cfg = Some (globals @ menu_text t)" and "globals \<noteq> []" and "after True globals"
    and "quiet True globals" and "t = ConfigEntry n cm b sub ex # ts" and "CHR ''/'' \<notin> set n"
  shows "cut_text cfg = Inr (cfg\<lparr>config_text := Some (butlast globals @ NUL # menu_text t)\<rparr>)"
proof -
  let ?c = "globals @ menu_text t" and ?h = "header 1 n ex"
  have r: "config_ready cfg" and ok: "\<forall>e \<in> set (flat 1 t). entry_text_ok e" using assms(1) by (simp_all add: written_def)
  have "seek_entry ?c 0 0 = Some (length globals + 1)"
    using seek_quiet [of "[]" globals "menu_text t" 0] seek_entries [OF ok assms(4), of 0] assms(5,6)
    by (simp add: menu_text_def)
  then have p: "entry_place cfg 0 = Some (length globals + 1)" using r assms(2) by (simp add: entry_place_def)
  have e0: "flat 1 t ! 0 = (?h, b)" by (simp add: assms(6))
  have ge: "config_get_entry cfg 0 = Inr (Some (length globals + length ?h, length b))"
    using written_entry(3) [OF assms(1) p] e0 by simp
  have c: "?c = globals @ ?h @ b @ entries_text (flat 2 sub @ flat 1 ts)"
    by (simp add: menu_text_def assms(6) numeral_2_eq_2)
  have h: "?h = CHR ''/'' # tl ?h" "CHR ''/'' \<notin> set (tl ?h)" using assms(7) by (auto simp: header_def)
  have "hd b = NEWLINE" "b \<noteq> []" using ok assms(6) by (auto simp: entry_text_ok_def)
  then have stop: "char_at ?c (length globals + length ?h) = NEWLINE"
    unfolding c by (cases b) (auto simp: char_at_def nth_append)
  have "char_at ?c j \<noteq> CHR ''/''" if "length globals < j" "j \<le> length globals + length ?h" for j
  proof (cases "j = length globals + length ?h")
    case False
    then have j: "j - length globals < length ?h" "0 < j - length globals" using that by linarith+
    have "char_at ?c j = ?h ! (j - length globals)" unfolding c using that j(1) by (intro char_at_mid) simp_all
    moreover have "?h ! (j - length globals) \<in> set (tl ?h)"
      using j by (metis Suc_diff_1 Suc_less_eq diff_Suc_1 h(1) length_Cons nth_Cons_Suc nth_mem)
    ultimately show ?thesis using h(2) by auto
  qed (use stop in simp)
  moreover have slash: "char_at ?c (length globals) = CHR ''/''" unfolding c by (subst h(1)) simp
  ultimately have q: "back_to_entry ?c (length globals + length ?h) = length globals" by (intro back_to_entry_at) auto
  have "?c[length globals - 1 := NUL] = butlast globals @ NUL # menu_text t"
    using assms(3) by (cases globals rule: rev_cases) (simp_all add: list_update_append)
  moreover have tx: "text_of cfg = ?c" using assms(2) by (simp add: text_of_def)
  ultimately show ?thesis
    using assms(3) slash unfolding cut_text_def ge sum.case option.case prod.case tx Let_def q by simp
qed

definition config_written :: "u8 list \<Rightarrow> string \<Rightarrow> config_entry list \<Rightarrow> bool" where
  "config_written data globals t \<longleftrightarrow>
     file_text data @ [NEWLINE] = globals @ menu_text t \<and> globals \<noteq> [] \<and> quiet True globals \<and> after True globals \<and>
     menu_ok 1 t \<and> t \<noteq> [] \<and> CHR ''/'' \<notin> set (centry_name (hd t)) \<and>
     tidy True (file_text data @ [NEWLINE, NUL]) \<and> no_macro (file_text data @ [NEWLINE, NUL]) \<and> length data < 2 ^ 32"

lemma quiet_cstr: "quiet nl s \<Longrightarrow> cstr s"
  by (induction s arbitrary: nl) auto

lemma init_config_yields:
  assumes "config_written data globals t" and "check_enrolled b2sum flags data = Inr flags'"
  shows "yields (init_config arch fw ld b2sum flags addr data s) (\<lambda>(cfg, tree, fl). tree = t \<and> fl = flags' \<and>
    (\<forall>key k. cstr key \<and> NEWLINE \<notin> set key \<longrightarrow>
       map_option fst (config_get_value cfg None k (Some key)) =
         (let vs = key_values key (butlast globals) in if k < length vs then Some (vs ! k) else None)))"
proof -
  let ?c = "file_text data @ [NEWLINE, NUL]"
  have w: "file_text data @ [NEWLINE] = globals @ menu_text t" "quiet True globals" "after True globals" "menu_ok 1 t" "globals \<noteq> []"
    and tidy: "tidy True ?c" and nm: "no_macro ?c" and len: "length data < 2 ^ 32" and t: "t \<noteq> []" "CHR ''/'' \<notin> set (centry_name (hd t))"
    using assms(1) by (simp_all add: config_written_def)
  have strip: "strip_from ?c 0 = ?c" using tidy by (rule strip_tidy)
  have "length ?c \<le> (2 ^ 64 - 1) div 4" using len by (simp add: file_text_def)
  note ex = yields_expand [OF nm this, of arch fw ld addr "of_nat (length data + 2)" s]
  define cfg where "cfg = \<lparr>config_ready = True, config_text = Some (butlast ?c)\<rparr>"
  have bl: "butlast ?c = globals @ menu_text t" using w(1) by (simp add: butlast_append)
  then have tx: "config_text cfg = Some (globals @ menu_text t)" "config_ready cfg" by (simp_all add: cfg_def)
  have wr: "written cfg (flat 1 t)" using menu_written [OF tx(2,1) w(2,3,4)] .
  obtain n cm b sub e ts where tt: "t = ConfigEntry n cm b sub e # ts" using t(1) by (metis config_entry.exhaust neq_Nil_conv)
  let ?cfg' = "cfg\<lparr>config_text := Some (butlast globals @ NUL # menu_text t)\<rparr>"
  have cut: "cut_text cfg = Inr ?cfg'" using cut_written [OF wr tx(1) w(5,3,2) tt] t(2) tt by simp
  have g: "cstr (butlast globals)" using quiet_cstr [OF w(2)] by (auto simp: cstr_def dest: in_set_butlastD)
  have look: "map_option fst (config_get_value ?cfg' None k (Some key)) =
         (let vs = key_values key (butlast globals) in if k < length vs then Some (vs ! k) else None)"
    if "cstr key" "NEWLINE \<notin> set key" for key k
    using value_from_terminated [OF g that(1), of 0 "menu_text t" k] value_from_lines [OF g that, of 0 k] tx(2)
    by (simp add: config_get_value_def)
  let ?P = "\<lambda>(cfg, tree, fl). tree = t \<and> fl = flags' \<and>
    (\<forall>key k. cstr key \<and> NEWLINE \<notin> set key \<longrightarrow>
       map_option fst (config_get_value cfg None k (Some key)) =
         (let vs = key_values key (butlast globals) in if k < length vs then Some (vs ! k) else None))"
  have "yields (bindo (create_menu_tree cfg 1 0 s1) (\<lambda>tree s2. Inr ((?cfg', tree, flags'), s2))) ?P" for s1
    using look by (intro yields_bindo [OF menu_read_back [OF wr w(4)]] yields_return) simp
  then have "yields (let cfg = \<lparr>config_ready = True, config_text = Some (butlast out)\<rparr>
      in bindo (create_menu_tree cfg 1 0 s1) (\<lambda>tree s2.
           case cut_text cfg of Inl e \<Rightarrow> Inl e | Inr cfg' \<Rightarrow> Inr ((cfg', tree, flags'), s2))) ?P" if "out = ?c" for out s1
    unfolding that Let_def cfg_def [symmetric] cut sum.case .
  then show ?thesis
    unfolding init_config_def assms(2) sum.case strip by (rule yields_bindo [OF ex])
qed

end
