(* ===== verification/Config_Properties.thy ===== *)
theory Config_Properties
  imports Config_Setup Small_Device
begin




section \<open>Values\<close>

text \<open>
  C35: a lookup yields the value of the \<open>k\<close>-th line, counted from zero, that starts with the key,
  in either case, and a colon: what follows the colon and the blanks after it, cut to 4095
  characters.
\<close>

theorem config_get_value_lines:
  assumes "config_ready cfg" and "cstr c" and "cstr key" and "NEWLINE \<notin> set key"
  shows "map_option fst (config_get_value cfg (Some c) k (Some key)) =
    (let vs = List.map_filter (line_value key) (lines_of c) in if k < length vs then Some (vs ! k) else None)"
  using value_from_lines [OF assms(2-4), of 0 k] assms(1) by (simp add: config_get_value_def key_values_def)

theorem config_get_value_lines_witness:
  "map_option fst (config_get_value \<lparr>config_ready = True, config_text = None\<rparr>
     (Some (''a: 1'' @ [NEWLINE] @ ''A: 2'')) 1 (Some ''a'')) = Some ''2''"
proof -
  have "(let vs = List.map_filter (line_value ''a'') (lines_of (''a: 1'' @ [NEWLINE] @ ''A: 2'')) in if 1 < length vs then Some (vs ! 1) else None) = Some ''2''"
    by code_simp
  with config_get_value_lines [of "\<lparr>config_ready = True, config_text = None\<rparr>" "''a: 1'' @ [NEWLINE] @ ''A: 2''" "''a''" 1]
  show ?thesis by simp
qed

section \<open>Setting up\<close>

text \<open>
  C36: stripping keeps every visible character in its order, and leaves no carriage return and
  no blank at the start of a line.
\<close>

theorem strip_config:
  "filter visible (strip_from c 0) = filter visible c \<and> tidy_to (length (strip_from c 0)) (strip_from c 0)"
  using strip_from_tidy [of 0 c] by (simp add: tidy_to_def)



text \<open>A blank before a carriage return at the end of a line is not stripped.\<close>

lemma strip_keeps_blank: "strip_from (''a '' @ [CHR 0x0D, NEWLINE, NUL]) 0 = ''a '' @ [NEWLINE, NUL]"
  by code_simp

text \<open>When the first entry starts the text, nothing is cut, and its options count as global.\<close>

lemma first_entry_leaks:
  "cut_text \<lparr>config_ready = True, config_text = Some (''/A'' @ [NEWLINE] @ ''x: 1'' @ [NEWLINE])\<rparr> =
     Inr \<lparr>config_ready = True, config_text = Some (''/A'' @ [NEWLINE] @ ''x: 1'' @ [NEWLINE])\<rparr>"
  by code_simp

end
