(* ===== verification/Page_Table.thy ===== *)
theory Page_Table
  imports Allocator Reader
begin

text \<open>
  Page tables in memory: 64-bit words in the bytes of \<^const>\<open>mem\<close>, the walk a processor takes
  through tables of 512 entries, and how storing one entry changes what the walk finds. What an
  entry looks like is a \<open>pt_format\<close>; \<open>page_format\<close> is the interface the walk relies on.
\<close>

unbundle bit_operations_syntax

section \<open>Words in memory\<close>

definition load64 :: "(u64 \<Rightarrow> u8) \<Rightarrow> u64 \<Rightarrow> u64" where
  "load64 mm a = ucast (mm a) OR push_bit 8 (ucast (mm (a + 1))) OR push_bit 16 (ucast (mm (a + 2))) OR
     push_bit 24 (ucast (mm (a + 3))) OR push_bit 32 (ucast (mm (a + 4))) OR push_bit 40 (ucast (mm (a + 5))) OR
     push_bit 48 (ucast (mm (a + 6))) OR push_bit 56 (ucast (mm (a + 7)))"

definition store64 :: "u64 \<Rightarrow> u64 \<Rightarrow> (u64 \<Rightarrow> u8) \<Rightarrow> u64 \<Rightarrow> u8" where
  "store64 a v mm = (\<lambda>b. if b - a < 8 then ucast (drop_bit (8 * unat (b - a)) v) else mm b)"

lemma load64_cong:
  assumes "\<And>i. i < 8 \<Longrightarrow> mm' (a + i) = mm (a + i)" shows "load64 mm' a = load64 mm a"
  using assms [of 0] assms [of 1] assms [of 2] assms [of 3] assms [of 4] assms [of 5] assms [of 6] assms [of 7]
  by (simp add: load64_def)

lemma join_byte: "take_bit m v OR push_bit m (ucast (ucast (drop_bit m v) :: u8)) = take_bit (m + 8) (v :: u64)"
  by (rule bit_word_eqI) (auto simp: bit_simps)

lemma load64_store64 [simp]: "load64 (store64 a v mm) a = v"
proof -
  have b: "store64 a v mm (a + i) = ucast (drop_bit (8 * unat i) v)" if "i < 8" for i
    using that by (simp add: store64_def)
  have "load64 (store64 a v mm) a = take_bit 8 v OR push_bit 8 (ucast (ucast (drop_bit 8 v) :: u8)) OR
     push_bit 16 (ucast (ucast (drop_bit 16 v) :: u8)) OR push_bit 24 (ucast (ucast (drop_bit 24 v) :: u8)) OR
     push_bit 32 (ucast (ucast (drop_bit 32 v) :: u8)) OR push_bit 40 (ucast (ucast (drop_bit 40 v) :: u8)) OR
     push_bit 48 (ucast (ucast (drop_bit 48 v) :: u8)) OR push_bit 56 (ucast (ucast (drop_bit 56 v) :: u8))"
    using b [of 0] b [of 1] b [of 2] b [of 3] b [of 4] b [of 5] b [of 6] b [of 7] join_byte [of 0 v]
    by (simp add: load64_def)
  also have "\<dots> = take_bit 64 v"
    using join_byte [of 8 v] join_byte [of 16 v] join_byte [of 24 v] join_byte [of 32 v] join_byte [of 40 v]
      join_byte [of 48 v] join_byte [of 56 v]
    by (simp add: or.assoc [symmetric])
  also have "\<dots> = v" by (rule bit_word_eqI) (simp add: bit_simps)
  finally show ?thesis .
qed

lemma load64_store64_other:
  assumes "8 \<le> b - a" and "8 \<le> a - b" shows "load64 (store64 a v mm) b = load64 mm b"
proof (rule load64_cong)
  fix i :: u64 assume "i < 8"
  with assms have "\<not> b + i - a < 8" by unat_arith
  then show "store64 a v mm (b + i) = mm (b + i)" by (simp add: store64_def)
qed

section \<open>Tables\<close>

text \<open>The address of entry \<open>i\<close> of a table, and the table an address lies in.\<close>

abbreviation slot :: "u64 \<Rightarrow> nat \<Rightarrow> u64" where
  "slot p i \<equiv> p + 8 * of_nat i"

abbreviation page_aligned_ptr :: "u64 \<Rightarrow> bool" where
  "page_aligned_ptr p \<equiv> take_bit 12 p = 0"

lemma aligned_apart:
  fixes a b :: u64
  assumes "take_bit 3 a = 0" and "take_bit 3 b = 0" and "a \<noteq> b" shows "8 \<le> b - a"
proof (rule ccontr)
  assume "\<not> 8 \<le> b - a"
  then have "b - a < 2 ^ 3" by simp
  then have "take_bit 3 (b - a) = b - a" by (simp add: word_unat_eq_iff unat_mask_mod word_less_nat_alt)
  moreover have "take_bit 3 (b - a) = 0" using assms(1,2) by (simp add: take_bit_eq_0_iff dvd_diff)
  ultimately show False using assms by simp
qed

lemma slot_bits:
  assumes "page_aligned_ptr p" and "i < 512"
  shows "take_bit 3 (slot p i) = 0" and "drop_bit 12 (slot p i) = drop_bit 12 p" and "take_bit 12 (slot p i) = 8 * of_nat i"
proof -
  have n: "k < 9" if "bit (of_nat i :: u64) k" for k
  proof -
    have "bit i k" using that by (simp add: bit_of_nat_iff)
    then have "i div 2 ^ k \<noteq> 0" by (auto simp: bit_iff_odd dest: odd_pos)
    with assms(2) have "(2 :: nat) ^ k < 2 ^ 9" by (simp add: div_eq_0_iff not_less)
    then show ?thesis by (rule power_less_imp_less_exp [rotated]) simp
  qed
  have m: "8 * of_nat i = push_bit 3 (of_nat i :: u64)" by (simp add: push_bit_eq_mult)
  moreover have "p + push_bit 3 (of_nat i) = p OR push_bit 3 (of_nat i)"
  proof (rule disjunctive_add_eq_or, rule bit_word_eqI)
    fix k assume "k < LENGTH(64)"
    have "bit (take_bit 12 p) k = False" using assms(1) by simp
    then show "bit (p AND push_bit 3 (of_nat i)) k = bit (0 :: u64) k"
      using n [of "k - 3"] by (auto simp: bit_simps)
  qed
  ultimately have s: "slot p i = p OR push_bit 3 (of_nat i)" by simp
  have z: "bit p k \<Longrightarrow> 12 \<le> k" for k
    using assms(1) bit_take_bit_iff [of 12 p k] by (auto simp: not_less)
  have nb: "\<not> bit i (9 + j)" if "9 + j < 64" for j using n [of "9 + j"] that by (auto simp: bit_simps)
  show "take_bit 3 (slot p i) = 0" "drop_bit 12 (slot p i) = drop_bit 12 p"
    using z nb unfolding s by (intro bit_word_eqI; auto simp: bit_simps dest: z)+
  have "take_bit 12 (p OR push_bit 3 (of_nat i)) = push_bit 3 (of_nat i)"
  proof (rule bit_word_eqI)
    fix j assume "j < LENGTH(64)"
    then show "bit (take_bit 12 (p OR push_bit 3 (of_nat i))) j = bit (push_bit 3 (of_nat i) :: u64) j"
      using z [of j] n [of "j - 3"] by (auto simp: bit_simps)
  qed
  then show "take_bit 12 (slot p i) = 8 * of_nat i" unfolding s unfolding m .
qed

lemma slot_inj:
  assumes "page_aligned_ptr p" and "page_aligned_ptr q" and "i < 512" and "j < 512"
  shows "slot p i = slot q j \<longleftrightarrow> p = q \<and> i = j"
proof
  assume e: "slot p i = slot q j"
  have "p = push_bit 12 (drop_bit 12 p)" "q = push_bit 12 (drop_bit 12 q)"
    using bits_ident [of 12 p] bits_ident [of 12 q] assms(1,2) by simp_all
  moreover have "drop_bit 12 p = drop_bit 12 q"
    using e slot_bits(2) [OF assms(1,3)] slot_bits(2) [OF assms(2,4)] by simp
  ultimately have "p = q" by simp
  moreover have "8 * of_nat i = (8 * of_nat j :: u64)" using e slot_bits(3) [OF assms(1,3)] slot_bits(3) [OF assms(2,4)] by simp
  then have "unat (8 * of_nat i :: u64) = unat (8 * of_nat j :: u64)" by simp
  with assms(3,4) have "i = j" by (simp add: unat_word_ariths unsigned_of_nat take_bit_nat_eq_self)
  ultimately show "p = q \<and> i = j" by simp
qed simp

lemma load64_other_slot:
  assumes "page_aligned_ptr p" and "page_aligned_ptr q" and "i < 512" and "j < 512" and "(q, j) \<noteq> (p, i)"
  shows "load64 (store64 (slot p i) v mm) (slot q j) = load64 mm (slot q j)"
  using assms slot_inj [of p q i j] slot_bits(1) [of p i] slot_bits(1) [of q j]
  by (intro load64_store64_other aligned_apart) auto

section \<open>The walk\<close>

text \<open>
  An entry refers to a table, is a page, or neither. At the last level, numbered zero, every
  present entry is a page.
\<close>

record pt_format =
  pf_present :: "u64 \<Rightarrow> bool"
  pf_table :: "u64 \<Rightarrow> bool"
  pf_large :: "u64 \<Rightarrow> bool"
  pf_addr :: "u64 \<Rightarrow> u64"

definition pt_index :: "nat \<Rightarrow> u64 \<Rightarrow> nat" where
  "pt_index level virt = unat (take_bit 9 (drop_bit (12 + 9 * level) virt))"

lemma pt_index_less [simp]: "pt_index level virt < 512"
  by (simp add: pt_index_def unat_mask_mod)

text \<open>What a processor finds that has come to the entry \<open>e\<close> of level \<open>l\<close>: the level and the page's entry.\<close>

fun entry_walk :: "pt_format \<Rightarrow> (u64 \<Rightarrow> u8) \<Rightarrow> nat \<Rightarrow> u64 \<Rightarrow> u64 \<Rightarrow> (nat \<times> u64) option" where
  "entry_walk fmt mm 0 e v = (if pf_present fmt e then Some (0, e) else None)"
| "entry_walk fmt mm (Suc l) e v =
     (if pf_table fmt e then entry_walk fmt mm l (load64 mm (slot (pf_addr fmt e) (pt_index l v))) v
      else if pf_large fmt e then Some (Suc l, e) else None)"

text \<open>The tables below an entry, and that they form a tree.\<close>

fun entry_tables :: "pt_format \<Rightarrow> (u64 \<Rightarrow> u8) \<Rightarrow> nat \<Rightarrow> u64 \<Rightarrow> u64 set" where
  "entry_tables fmt mm 0 e = {}"
| "entry_tables fmt mm (Suc l) e =
     (if pf_table fmt e
      then insert (pf_addr fmt e) (\<Union>i \<in> {..<512}. entry_tables fmt mm l (load64 mm (slot (pf_addr fmt e) i)))
      else {})"

fun entry_ok :: "pt_format \<Rightarrow> (u64 \<Rightarrow> u8) \<Rightarrow> nat \<Rightarrow> u64 \<Rightarrow> bool" where
  "entry_ok fmt mm 0 e = True"
| "entry_ok fmt mm (Suc l) e \<longleftrightarrow>
     (pf_table fmt e \<longrightarrow>
        page_aligned_ptr (pf_addr fmt e) \<and>
        (\<forall>i < 512. entry_ok fmt mm l (load64 mm (slot (pf_addr fmt e) i)) \<and>
           pf_addr fmt e \<notin> entry_tables fmt mm l (load64 mm (slot (pf_addr fmt e) i))) \<and>
        (\<forall>i < 512. \<forall>j < 512. i \<noteq> j \<longrightarrow>
           entry_tables fmt mm l (load64 mm (slot (pf_addr fmt e) i)) \<inter> entry_tables fmt mm l (load64 mm (slot (pf_addr fmt e) j)) = {}))"

text \<open>The table of level \<open>k\<close> on the way of \<open>v\<close> below the entry \<open>e\<close> of level \<open>l\<close>.\<close>

fun table_on :: "pt_format \<Rightarrow> (u64 \<Rightarrow> u8) \<Rightarrow> nat \<Rightarrow> u64 \<Rightarrow> u64 \<Rightarrow> nat \<Rightarrow> u64 option" where
  "table_on fmt mm 0 e v k = None"
| "table_on fmt mm (Suc l) e v k =
     (if \<not> pf_table fmt e then None
      else if k = l then Some (pf_addr fmt e)
      else table_on fmt mm l (load64 mm (slot (pf_addr fmt e) (pt_index l v))) v k)"

lemma table_on_member: "table_on fmt mm l e v k = Some b \<Longrightarrow> b \<in> entry_tables fmt mm l e \<and> k < l"
  by (induction fmt mm l e v k rule: table_on.induct) (auto split: if_splits)

lemma entry_tables_aligned: "\<lbrakk>entry_ok fmt mm l e; p \<in> entry_tables fmt mm l e\<rbrakk> \<Longrightarrow> page_aligned_ptr p"
  by (induction fmt mm l e rule: entry_tables.induct) (auto split: if_splits)

section \<open>Replacing an entry\<close>

text \<open>Two addresses take the same way through the entries of the levels from \<open>k\<close> up to \<open>l\<close>.\<close>

definition same_path :: "nat \<Rightarrow> nat \<Rightarrow> u64 \<Rightarrow> u64 \<Rightarrow> bool" where
  "same_path k l v v' \<longleftrightarrow> list_all (\<lambda>j. pt_index j v = pt_index j v') [k..<l]"

lemma same_path_Suc [simp]: "k \<le> l \<Longrightarrow> same_path k (Suc l) v v' \<longleftrightarrow> same_path k l v v' \<and> pt_index l v = pt_index l v'"
  by (simp add: same_path_def)

lemma same_path_step: "k < l \<Longrightarrow> same_path k l v v' \<longleftrightarrow> pt_index k v = pt_index k v' \<and> same_path (Suc k) l v v'"
  by (simp add: same_path_def upt_conv_Cons)

lemma same_path_refl [simp]: "same_path l l v v'" "same_path k l v v"
  by (simp_all add: same_path_def list_all_iff)

text \<open>What lies outside the tables below an entry has no part in them.\<close>

lemma entry_frame_all:
  assumes "\<forall>p \<in> entry_tables fmt mm l e. \<forall>i < 512. load64 mm' (slot p i) = load64 mm (slot p i)"
  shows "(\<forall>v. entry_walk fmt mm' l e v = entry_walk fmt mm l e v) \<and> entry_tables fmt mm' l e = entry_tables fmt mm l e \<and>
    entry_ok fmt mm' l e = entry_ok fmt mm l e \<and> (\<forall>v k. table_on fmt mm' l e v k = table_on fmt mm l e v k)"
  using assms
proof (induction l arbitrary: e)
  case (Suc l)
  show ?case
  proof (cases "pf_table fmt e")
    case True
    let ?a = "pf_addr fmt e"
    have same: "load64 mm' (slot ?a i) = load64 mm (slot ?a i)" if "i < 512" for i using Suc.prems True that by simp
    have sub: "\<forall>p \<in> entry_tables fmt mm l (load64 mm (slot ?a i)). \<forall>j < 512. load64 mm' (slot p j) = load64 mm (slot p j)" if "i < 512" for i
      using Suc.prems True that by auto
    show ?thesis using True same Suc.IH [OF sub] by simp
  qed simp
qed simp

lemmas entry_frame = entry_frame_all [THEN conjunct1, rule_format] entry_frame_all [THEN conjunct2, THEN conjunct1]
  entry_frame_all [THEN conjunct2, THEN conjunct2, THEN conjunct1]
  entry_frame_all [THEN conjunct2, THEN conjunct2, THEN conjunct2, rule_format]

lemma entry_replace:
  assumes "entry_ok fmt mm l e" and "table_on fmt mm l e v k = Some b"
    and "\<forall>p \<in> entry_tables fmt mm l e. \<forall>i < 512. (p, i) \<noteq> (b, pt_index k v) \<longrightarrow> load64 mm' (slot p i) = load64 mm (slot p i)"
    and "e' = load64 mm' (slot b (pt_index k v))" and "entry_ok fmt mm' k e'"
    and "entry_tables fmt mm' k e' \<inter> entry_tables fmt mm l e = {}"
  shows "entry_ok fmt mm' l e \<and> entry_tables fmt mm' l e \<subseteq> entry_tables fmt mm l e \<union> entry_tables fmt mm' k e' \<and>
    (\<forall>v'. entry_walk fmt mm' l e v' = (if same_path k l v v' then entry_walk fmt mm' k e' v' else entry_walk fmt mm l e v')) \<and>
    (\<forall>v' j c. k \<le> j \<longrightarrow> table_on fmt mm l e v' j = Some c \<longrightarrow> table_on fmt mm' l e v' j = Some c) \<and>
    (\<forall>v' j. same_path k l v v' \<longrightarrow> j < k \<longrightarrow> table_on fmt mm' l e v' j = table_on fmt mm' k e' v' j) \<and>
    (\<forall>v' j. \<not> same_path k l v v' \<longrightarrow> table_on fmt mm' l e v' j = table_on fmt mm l e v' j)"
  using assms
proof (induction l arbitrary: e)
  case (Suc l)
  let ?a = "pf_addr fmt e" and ?c = "pt_index l v"
  let ?E = "\<lambda>i. load64 mm (slot ?a i)"
  from Suc.prems(2) have t: "pf_table fmt e" by (simp split: if_splits)
  have k: "k \<le> l" using table_on_member [OF Suc.prems(2)] by simp
  have ok: "entry_ok fmt mm l (?E i)" "?a \<notin> entry_tables fmt mm l (?E i)" if "i < 512" for i
    using Suc.prems(1) t that by simp_all
  have dis: "entry_tables fmt mm l (?E i) \<inter> entry_tables fmt mm l (?E j) = {}" if "i < 512" "j < 512" "i \<noteq> j" for i j
    using Suc.prems(1) t that by simp
  have tabs: "entry_tables fmt mm (Suc l) e = insert ?a (\<Union>i \<in> {..<512}. entry_tables fmt mm l (?E i))" using t by simp
  have b: "b = ?a \<and> k = l \<or> k < l \<and> table_on fmt mm l (?E ?c) v k = Some b" using Suc.prems(2) t k by (auto split: if_splits)
  have bc: "b = ?a \<or> b \<in> entry_tables fmt mm l (?E ?c)" using b table_on_member by blast
  have other: "load64 mm' (slot ?a i) = ?E i \<and>
      (\<forall>p \<in> entry_tables fmt mm l (?E i). \<forall>j < 512. load64 mm' (slot p j) = load64 mm (slot p j))" if "i < 512" "i \<noteq> ?c" for i
  proof -
    have "b \<notin> entry_tables fmt mm l (?E i)" using bc ok(2) [OF that(1)] dis [OF that(1) pt_index_less that(2)] by blast
    moreover have "(?a, i) \<noteq> (b, pt_index k v)"
    proof
      assume e: "(?a, i) = (b, pt_index k v)"
      from b show False
      proof
        assume "k < l \<and> table_on fmt mm l (?E ?c) v k = Some b"
        with e ok(2) [OF pt_index_less] table_on_member show False by (metis Pair_inject)
      qed (use e that(2) in simp)
    qed
    ultimately have o: "b \<notin> entry_tables fmt mm l (?E i)" "(?a, i) \<noteq> (b, pt_index k v)" by blast+
    have "?a \<in> entry_tables fmt mm (Suc l) e" using tabs by simp
    then have "load64 mm' (slot ?a i) = ?E i" using Suc.prems(3) [rule_format, OF _ that(1) o(2)] by simp
    moreover have "load64 mm' (slot p j) = load64 mm (slot p j)" if "p \<in> entry_tables fmt mm l (?E i)" "j < 512" for p j
    proof -
      have "p \<in> entry_tables fmt mm (Suc l) e" using tabs \<open>i < 512\<close> that(1) by blast
      moreover have "(p, j) \<noteq> (b, pt_index k v)" using o(1) that(1) by blast
      ultimately show ?thesis by (rule Suc.prems(3) [rule_format, OF _ that(2)])
    qed
    ultimately show ?thesis by blast
  qed
  define E' where "E' = load64 mm' (slot ?a ?c)"
  have new: "entry_ok fmt mm' l E' \<and> entry_tables fmt mm' l E' \<subseteq> entry_tables fmt mm l (?E ?c) \<union> entry_tables fmt mm' k e' \<and>
    (\<forall>v'. entry_walk fmt mm' l E' v' = (if same_path k l v v' then entry_walk fmt mm' k e' v' else entry_walk fmt mm l (?E ?c) v')) \<and>
    (\<forall>v' j c. j < l \<longrightarrow> k \<le> j \<longrightarrow> table_on fmt mm l (?E ?c) v' j = Some c \<longrightarrow> table_on fmt mm' l E' v' j = Some c) \<and>
    (\<forall>v' j. same_path k l v v' \<longrightarrow> j < k \<longrightarrow> table_on fmt mm' l E' v' j = table_on fmt mm' k e' v' j) \<and>
    (\<forall>v' j. \<not> same_path k l v v' \<longrightarrow> table_on fmt mm' l E' v' j = table_on fmt mm l (?E ?c) v' j)"
  proof (cases "k = l")
    case True
    with b Suc.prems(4) have "E' = e'" by (simp add: E'_def)
    with True Suc.prems(5) show ?thesis by auto
  next
    case False
    with b k have bl: "table_on fmt mm l (?E ?c) v k = Some b" by blast
    have "(?a, ?c) \<noteq> (b, pt_index k v)" using ok(2) [OF pt_index_less] table_on_member [OF bl] by blast
    then have "E' = ?E ?c" using Suc.prems(3) [rule_format, of ?a ?c] tabs by (simp add: E'_def)
    moreover have "\<forall>p \<in> entry_tables fmt mm l (?E ?c). \<forall>i < 512. (p, i) \<noteq> (b, pt_index k v) \<longrightarrow> load64 mm' (slot p i) = load64 mm (slot p i)"
    proof (intro ballI allI impI)
      fix p i assume "p \<in> entry_tables fmt mm l (?E ?c)" and i: "i < 512" "(p, i) \<noteq> (b, pt_index k v)"
      then have "p \<in> entry_tables fmt mm (Suc l) e" using tabs pt_index_less by blast
      then show "load64 mm' (slot p i) = load64 mm (slot p i)" using i by (rule Suc.prems(3) [rule_format])
    qed
    moreover have "entry_tables fmt mm' k e' \<inter> entry_tables fmt mm l (?E ?c) = {}"
      using Suc.prems(6) unfolding tabs using pt_index_less [of l v] by blast
    ultimately show ?thesis using Suc.IH [OF ok(1) [OF pt_index_less] bl _ Suc.prems(4,5)] by simp
  qed
  have oth: "entry_ok fmt mm' l (load64 mm' (slot ?a i))" "entry_tables fmt mm' l (load64 mm' (slot ?a i)) = entry_tables fmt mm l (?E i)"
    "entry_walk fmt mm' l (load64 mm' (slot ?a i)) v' = entry_walk fmt mm l (?E i) v'"
    "table_on fmt mm' l (load64 mm' (slot ?a i)) v' j = table_on fmt mm l (?E i) v' j" if "i < 512" "i \<noteq> ?c" for i v' j
    using entry_frame [of fmt mm l "?E i" mm'] other [OF that] ok(1) [OF that(1)] by simp_all
  have ne: "?a \<notin> entry_tables fmt mm' k e'" "entry_tables fmt mm' k e' \<inter> entry_tables fmt mm l (?E i) = {}" if "i < 512" for i
    using Suc.prems(6) tabs that by auto
  have nt: "entry_tables fmt mm' l E' \<subseteq> entry_tables fmt mm l (?E ?c) \<union> entry_tables fmt mm' k e'" using new by blast
  have "entry_ok fmt mm' (Suc l) e"
  proof -
    have ok': "entry_ok fmt mm' l (load64 mm' (slot ?a i)) \<and> ?a \<notin> entry_tables fmt mm' l (load64 mm' (slot ?a i))" if "i < 512" for i
      using oth(1,2) [of i] ok(2) [OF that] that new nt ne(1) [OF that] ok(2) [OF pt_index_less]
      by (cases "i = ?c") (auto simp: E'_def)
    have dis': "entry_tables fmt mm' l (load64 mm' (slot ?a i)) \<inter> entry_tables fmt mm' l (load64 mm' (slot ?a j)) = {}"
      if "i < 512" "j < 512" "i \<noteq> j" for i j
      using that oth(2) [of i] oth(2) [of j] dis [of i j] nt ne(2) [of i] ne(2) [of j]
      by (cases "i = ?c"; cases "j = ?c") (auto simp: E'_def [symmetric])
    from ok' dis' Suc.prems(1) t show ?thesis by simp
  qed
  moreover have "entry_tables fmt mm' (Suc l) e \<subseteq> entry_tables fmt mm (Suc l) e \<union> entry_tables fmt mm' k e'"
  proof -
    have "entry_tables fmt mm' l (load64 mm' (slot ?a i)) \<subseteq> entry_tables fmt mm (Suc l) e \<union> entry_tables fmt mm' k e'" if "i < 512" for i
    proof -
      have sub: "entry_tables fmt mm l (?E j) \<subseteq> entry_tables fmt mm (Suc l) e" if "j < 512" for j using tabs that by auto
      show ?thesis
        using oth(2) [of i] nt that sub [OF that] sub [OF pt_index_less] by (cases "i = ?c") (auto simp: E'_def [symmetric] simp del: entry_tables.simps)
    qed
    then show ?thesis using t tabs by auto
  qed
  moreover have "entry_walk fmt mm' (Suc l) e v' = (if same_path k (Suc l) v v' then entry_walk fmt mm' k e' v' else entry_walk fmt mm (Suc l) e v')" for v'
    using t k new oth(3) [of "pt_index l v'" v'] by (cases "pt_index l v' = ?c") (auto simp: E'_def)
  moreover have "table_on fmt mm' (Suc l) e v' j = Some c" if "k \<le> j" "table_on fmt mm (Suc l) e v' j = Some c" for v' j c
    using that t new oth(4) [of "pt_index l v'" v' j] table_on_member [OF that(2)]
    by (cases "pt_index l v' = ?c") (auto simp: E'_def less_Suc_eq split: if_splits)
  moreover have "table_on fmt mm' (Suc l) e v' j = table_on fmt mm (Suc l) e v' j" if "\<not> same_path k (Suc l) v v'" for v' j
    using that t k new oth(4) [of "pt_index l v'" v' j] by (cases "pt_index l v' = ?c") (auto simp: E'_def)
  moreover have "table_on fmt mm' (Suc l) e v' j = table_on fmt mm' k e' v' j" if "same_path k (Suc l) v v'" "j < k" for v' j
    using that t k new by (auto simp: E'_def)
  ultimately show ?case by blast
qed simp

end
