(* ===== verification/Vmm.thy ===== *)
theory Vmm
  imports Page_Table
begin

text \<open>
  The page tables the loader builds, \<^verbatim>\<open>src/common/mm/vmm.c\<close> on an x86-64 build: \<open>new_pagemap\<close>,
  \<open>map_page\<close>, \<open>get_next_level\<close> and \<open>map_pages\<close>, over the memory of the allocator. What the
  processor says about itself, page attributes and 1 GiB pages, are arguments.
\<close>

unbundle bit_operations_syntax

section \<open>Entries\<close>

abbreviation PT_SIZE :: u64 where "PT_SIZE \<equiv> 0x1000"
abbreviation PT_FLAG_VALID :: u64 where "PT_FLAG_VALID \<equiv> 1"
abbreviation PT_FLAG_WRITE :: u64 where "PT_FLAG_WRITE \<equiv> 2"
abbreviation PT_FLAG_USER :: u64 where "PT_FLAG_USER \<equiv> 4"
abbreviation PT_FLAG_LARGE :: u64 where "PT_FLAG_LARGE \<equiv> 0x80"
abbreviation PT_FLAG_NX :: u64 where "PT_FLAG_NX \<equiv> 0x8000000000000000"
abbreviation PT_PADDR_MASK :: u64 where "PT_PADDR_MASK \<equiv> 0x0000FFFFFFFFF000"
abbreviation VMM_FLAG_FB :: u64 where "VMM_FLAG_FB \<equiv> 0x1008"
abbreviation VMM_MAX_LEVEL :: nat where "VMM_MAX_LEVEL \<equiv> 3"

definition PT_TABLE_FLAGS :: u64 where
  "PT_TABLE_FLAGS = PT_FLAG_VALID OR PT_FLAG_WRITE OR PT_FLAG_USER"

definition PT_IS_TABLE :: "u64 \<Rightarrow> bool" where
  "PT_IS_TABLE x \<longleftrightarrow> x AND (PT_FLAG_VALID OR PT_FLAG_LARGE) = PT_FLAG_VALID"

definition PT_IS_LARGE :: "u64 \<Rightarrow> bool" where
  "PT_IS_LARGE x \<longleftrightarrow> x AND (PT_FLAG_VALID OR PT_FLAG_LARGE) = PT_FLAG_VALID OR PT_FLAG_LARGE"

definition PT_TO_VMM_FLAGS :: "u64 \<Rightarrow> u64" where
  "PT_TO_VMM_FLAGS x = x AND (PT_FLAG_WRITE OR PT_FLAG_NX OR VMM_FLAG_FB)"

definition pte_new :: "u64 \<Rightarrow> u64 \<Rightarrow> u64" where
  "pte_new addr flags = addr OR flags"

definition pte_addr :: "u64 \<Rightarrow> u64" where
  "pte_addr pte = pte AND PT_PADDR_MASK"

datatype page_size = Size4KiB | Size2MiB | Size1GiB

primrec size_level :: "page_size \<Rightarrow> nat" where
  "size_level Size4KiB = 0"
| "size_level Size2MiB = 1"
| "size_level Size1GiB = 2"

definition page_sizes :: "u64 list" where
  "page_sizes = [0x1000, 0x200000, 0x40000000, 0x8000000000, 0x1000000000000]"

record pagemap =
  levels :: nat
  top_level :: u64

type_synonym 'a paging = "pmm_state \<Rightarrow> ('a \<times> pmm_state) outcome"
type_synonym page_mapper = "u64 \<Rightarrow> u64 \<Rightarrow> u64 \<Rightarrow> page_size \<Rightarrow> unit paging"

section \<open>Tables\<close>

definition new_pagemap :: "bool \<Rightarrow> pagemap paging" where
  "new_pagemap five_levels s =
     bindo (ext_mem_alloc s PT_SIZE) (\<lambda>p s1. Inr (\<lparr>levels = (if five_levels then 5 else 4), top_level = p\<rparr>, s1))"

text \<open>\<open>current_level[entry] = v\<close>\<close>

definition set_entry :: "u64 \<Rightarrow> u64 \<Rightarrow> u64 \<Rightarrow> pmm_state \<Rightarrow> pmm_state" where
  "set_entry table entry v s = s\<lparr>mem := store64 (table + 8 * entry) v (mem s)\<rparr>"

definition new_table :: "u64 \<Rightarrow> u64 \<Rightarrow> u64 paging" where
  "new_table current_level entry s =
     bindo (ext_mem_alloc s PT_SIZE) (\<lambda>ret s1. Inr (ret, set_entry current_level entry (pte_new ret PT_TABLE_FLAGS) s1))"

text \<open>\<open>for (i = 0; i < total; i += step)\<close>, for \<open>n\<close> rounds left.\<close>

fun each_page :: "(u64 \<Rightarrow> unit paging) \<Rightarrow> u64 \<Rightarrow> nat \<Rightarrow> u64 \<Rightarrow> unit paging" where
  "each_page f step 0 i s = Inr ((), s)"
| "each_page f step (Suc n) i s = bindo (f i s) (\<lambda>_ s1. each_page f step n (i + step) s1)"

definition get_next_level ::
  "page_mapper \<Rightarrow> u64 \<Rightarrow> u64 \<Rightarrow> page_size \<Rightarrow> nat \<Rightarrow> u64 \<Rightarrow> u64 paging" where
  "get_next_level map_page current_level virt desired_sz level_idx entry s =
     (let e = load64 (mem s) (current_level + 8 * entry)
      in if PT_IS_TABLE e then Inr (pte_addr e, s)
         else if PT_IS_LARGE e then
           if level_idx \<ge> VMM_MAX_LEVEL \<or> level_idx = 0 then Inl ''Unexpected level in get_next_level''
           else (let old_page_size = page_sizes ! level_idx; new_page_size = page_sizes ! size_level desired_sz;
                     old_flags = PT_TO_VMM_FLAGS e; old_phys = pte_addr e; old_virt = virt AND NOT (old_page_size - 1)
                 in if old_phys AND (old_page_size - 1) \<noteq> 0 then Inl ''Unexpected page table entry address in get_next_level''
                    else bindo (new_table current_level entry s) (\<lambda>ret s1.
                      bindo (each_page (\<lambda>i. map_page (old_virt + i) (old_phys + i) old_flags desired_sz)
                               new_page_size (unat (old_page_size div new_page_size)) 0 s1) (\<lambda>_ s2. Inr (ret, s2))))
         else new_table current_level entry s)"

text \<open>The index of a virtual address in the table of a level, \<open>(virt & (0x1ff << k)) >> k\<close>.\<close>

definition pt_entry :: "nat \<Rightarrow> u64 \<Rightarrow> u64" where
  "pt_entry level virt = drop_bit (12 + 9 * level) (virt AND push_bit (12 + 9 * level) 0x1ff)"

section \<open>Mapping\<close>

text \<open>
  \<open>map_page\<close> calls itself when a large page has to be split or emulated. \<open>map_step\<close> is its body
  with the function it calls as an argument; \<open>map_page\<close> bounds how deep the calls nest. A depth
  of three solves the recursion of the code, see \<open>map_page_recursion\<close>.
\<close>

definition map_step :: "page_mapper \<Rightarrow> bool \<Rightarrow> bool \<Rightarrow> pagemap \<Rightarrow> page_mapper" where
  "map_step map_page pat_supported gib_supported pagemap virt_addr phys_addr flags pg_size s =
     (let next = get_next_level map_page;
          flags1 = flags OR PT_FLAG_VALID;
          flags2 = (if flags1 AND VMM_FLAG_FB \<noteq> 0 \<and> \<not> pat_supported then flags1 AND NOT VMM_FLAG_FB else flags1)
      in bindo (if levels pagemap = 5 then next (top_level pagemap) virt_addr pg_size 4 (pt_entry 4 virt_addr) s
                else Inr (top_level pagemap, s)) (\<lambda>pml4 s1.
         bindo (next pml4 virt_addr pg_size 3 (pt_entry 3 virt_addr) s1) (\<lambda>pml3 s2.
           if pg_size = Size1GiB then
             if gib_supported then
               Inr ((), set_entry pml3 (pt_entry 2 virt_addr) (phys_addr OR flags2 OR PT_FLAG_LARGE) s2)
             else each_page (\<lambda>i. map_page (virt_addr + i) (phys_addr + i) flags2 Size2MiB) 0x200000 512 0 s2
           else bindo (next pml3 virt_addr pg_size 2 (pt_entry 2 virt_addr) s2) (\<lambda>pml2 s3.
             if pg_size = Size2MiB then
               Inr ((), set_entry pml2 (pt_entry 1 virt_addr) (phys_addr OR flags2 OR PT_FLAG_LARGE) s3)
             else bindo (next pml2 virt_addr pg_size 1 (pt_entry 1 virt_addr) s3) (\<lambda>pml1 s4.
               let flags3 = (if flags2 AND 0x1000 \<noteq> 0 then (flags2 AND NOT 0x1000) OR 0x80 else flags2)
               in Inr ((), set_entry pml1 (pt_entry 0 virt_addr) (phys_addr OR flags3) s4))))))"

definition TOO_DEEP :: string where "TOO_DEEP = ''map_page nested too deep''"

fun map_page :: "nat \<Rightarrow> bool \<Rightarrow> bool \<Rightarrow> pagemap \<Rightarrow> page_mapper" where
  "map_page 0 pat_supported gib_supported pagemap virt_addr phys_addr flags pg_size s = Inl TOO_DEEP"
| "map_page (Suc depth) pat_supported gib_supported pagemap virt_addr phys_addr flags pg_size s =
     map_step (map_page depth pat_supported gib_supported pagemap) pat_supported gib_supported pagemap virt_addr phys_addr flags pg_size s"

declare map_page.simps [simp del]

text \<open>The offset \<open>i\<close> stays below the cnt, a multiple of the page size, so it never wraps.\<close>

definition chunk_fits :: "u64 \<Rightarrow> u64 \<Rightarrow> u64 \<Rightarrow> u64 \<Rightarrow> u64 \<Rightarrow> bool" where
  "chunk_fits virt phys cnt i sz \<longleftrightarrow>
     phys + i \<noteq> 0 \<and> (phys + i) AND (sz - 1) = 0 \<and> (virt + i) AND (sz - 1) = 0 \<and> cnt - i \<ge> sz"

definition next_chunk :: "u64 \<Rightarrow> u64 \<Rightarrow> u64 \<Rightarrow> u64 \<Rightarrow> page_size" where
  "next_chunk virt phys cnt i =
     (if chunk_fits virt phys cnt i 0x40000000 then Size1GiB
      else if chunk_fits virt phys cnt i 0x200000 then Size2MiB else Size4KiB)"

function map_pages_from :: "bool \<Rightarrow> bool \<Rightarrow> pagemap \<Rightarrow> u64 \<Rightarrow> u64 \<Rightarrow> u64 \<Rightarrow> u64 \<Rightarrow> nat \<Rightarrow> unit paging" where
  "map_pages_from pat gib pagemap virt phys flags cnt i s =
     (if i \<ge> unat cnt then Inr ((), s)
      else let sz = next_chunk virt phys cnt (of_nat i)
           in bindo (map_page 3 pat gib pagemap (virt + of_nat i) (phys + of_nat i) flags sz s) (\<lambda>_ s1.
                map_pages_from pat gib pagemap virt phys flags cnt (i + unat (page_sizes ! size_level sz)) s1))"
  by pat_completeness auto
termination
proof (relation "measure (\<lambda>(pat, gib, pagemap, virt, phys, flags, cnt, i, s). unat cnt - i)", goal_cases)
  case (2 pat gib pagemap virt phys flags cnt i s sz u s1)
  have "0 < unat (page_sizes ! size_level sz)" by (cases sz) (simp_all add: page_sizes_def)
  with 2 show ?case by simp
qed simp

declare map_pages_from.simps [simp del]

definition map_pages :: "bool \<Rightarrow> bool \<Rightarrow> pagemap \<Rightarrow> u64 \<Rightarrow> u64 \<Rightarrow> u64 \<Rightarrow> u64 \<Rightarrow> unit paging" where
  "map_pages pat gib pagemap virt phys flags cnt s =
     (if virt mod 0x1000 \<noteq> 0 \<or> phys mod 0x1000 \<noteq> 0 \<or> cnt mod 0x1000 \<noteq> 0
      then Inl ''vmm: Misaligned call to map_pages()''
      else map_pages_from pat gib pagemap virt phys flags cnt 0 s)"

end
