(* ===== verification/Page_Alloc.thy ===== *)
theory Page_Alloc
  imports Page_Table
begin

text \<open>
  Page tables over the allocator: what storing a page's entry and what hooking in a fresh table do
  to the walk. \<open>page_format\<close> is the interface an architecture's entries provide.
\<close>

unbundle bit_operations_syntax

section \<open>Pages and bytes\<close>

lemma div_page: "(a :: nat) mod 4096 = 0 \<Longrightarrow> b < 4096 \<Longrightarrow> (a + b) div 4096 = a div 4096"
  by (auto simp: mod_eq_0_iff_dvd elim!: dvdE)

lemma unat_slot:
  assumes "page_aligned_ptr p" and "i < 512" and "j < 8"
  shows "unat (slot p i + of_nat j) = unat p + (8 * i + j)" and "drop_bit 12 (slot p i + of_nat j) = drop_bit 12 p"
proof -
  have m: "unat p mod 4096 = 0" using assms(1) unat_mask_mod [of 12 p] by simp
  then have le: "unat p + 4096 \<le> 2 ^ 64" using unsigned_less [of p, where 'a = nat] by (auto simp: mod_eq_0_iff_dvd dvd_def)
  have e: "slot p i + of_nat j = p + of_nat (8 * i + j)" by simp
  have b: "8 * i + j < 4096" using assms(2,3) by simp
  then have "unat (of_nat (8 * i + j) :: u64) = 8 * i + j" by (simp add: unsigned_of_nat take_bit_nat_eq_self del: of_nat_add of_nat_mult)
  with le b show u: "unat (slot p i + of_nat j) = unat p + (8 * i + j)" unfolding e by (subst unat_add_lem [THEN iffD1]) simp_all
  show "drop_bit 12 (slot p i + of_nat j) = drop_bit 12 p"
    using div_page [OF m b] by (simp add: word_unat_eq_iff unat_shift_div u del: of_nat_add of_nat_mult)
qed

lemma page_member:
  fixes a p :: u64
  assumes "page_aligned_ptr p" shows "a - p < 0x1000 \<longleftrightarrow> drop_bit 12 a = drop_bit 12 p"
proof
  assume l: "a - p < 0x1000"
  have m: "unat p mod 4096 = 0" using assms unat_mask_mod [of 12 p] by simp
  then have le: "unat p + 4096 \<le> 2 ^ 64" using unsigned_less [of p, where 'a = nat] by (auto simp: mod_eq_0_iff_dvd dvd_def)
  have b: "unat (a - p) < 4096" using l by (simp add: word_less_nat_alt)
  have "unat (p + (a - p)) = unat p + unat (a - p)" using le b by (subst unat_add_lem [THEN iffD1]) simp_all
  then have "unat a div 4096 = unat p div 4096" using div_page [OF m b] by simp
  then show "drop_bit 12 a = drop_bit 12 p" by (simp add: word_unat_eq_iff unat_shift_div)
next
  assume d: "drop_bit 12 a = drop_bit 12 p"
  have "a = push_bit 12 (drop_bit 12 a) + take_bit 12 a" "p = push_bit 12 (drop_bit 12 p)"
    using bits_ident [of 12 a] bits_ident [of 12 p] assms by simp_all
  with d have "a - p = take_bit 12 a" by (metis add_diff_cancel_left')
  then show "a - p < 0x1000" using unat_mask_mod [of 12 a] by (simp add: word_less_nat_alt)
qed

lemma load64_page:
  assumes "page_aligned_ptr p" and "i < 512" and "\<And>x. drop_bit 12 x = drop_bit 12 p \<Longrightarrow> mm' x = mm x"
  shows "load64 mm' (slot p i) = load64 mm (slot p i)"
proof (rule load64_cong)
  fix j :: u64 assume "j < 8"
  then have "unat j < 8" by (simp add: word_less_nat_alt)
  from unat_slot(2) [OF assms(1,2) this] show "mm' (slot p i + j) = mm (slot p i + j)" by (intro assms(3)) simp
qed

lemma load64_cleared:
  assumes "page_aligned_ptr p" and "i < 512" and "\<And>x. drop_bit 12 x = drop_bit 12 p \<Longrightarrow> mm x = 0"
  shows "load64 mm (slot p i) = 0"
  using load64_page [OF assms(1,2), of mm "\<lambda>_. 0"] assms(3) by (simp add: load64_def)

section \<open>The interface of an architecture's entries\<close>

text \<open>The tables hang below the entry \<open>e\<close> of level \<open>l\<close>, and the allocator does not offer them.\<close>

definition paging_ok :: "pt_format \<Rightarrow> nat \<Rightarrow> u64 \<Rightarrow> pmm_state \<Rightarrow> bool" where
  "paging_ok fmt l e s \<longleftrightarrow> pmm_ok s \<and> entry_ok fmt (mem s) l e \<and>
     (\<forall>p \<in> entry_tables fmt (mem s) l e. \<forall>x. drop_bit 12 x = drop_bit 12 p \<longrightarrow> x \<notin> avail s)"

text \<open>The tables there are down to level \<open>k\<close> stay where they are.\<close>

definition tables_stay :: "pt_format \<Rightarrow> nat \<Rightarrow> u64 \<Rightarrow> nat \<Rightarrow> pmm_state \<Rightarrow> pmm_state \<Rightarrow> bool" where
  "tables_stay fmt l e k s s' \<longleftrightarrow>
     (\<forall>v j c. k \<le> j \<longrightarrow> table_on fmt (mem s) l e v j = Some c \<longrightarrow> table_on fmt (mem s') l e v j = Some c)"

lemma tables_stay_refl [simp]: "tables_stay fmt l e k s s"
  by (simp add: tables_stay_def)

lemma tables_stay_trans: "tables_stay fmt l e k s s1 \<Longrightarrow> tables_stay fmt l e k s1 s2 \<Longrightarrow> tables_stay fmt l e k s s2"
  by (simp add: tables_stay_def)

lemma tables_stay_mono: "tables_stay fmt l e k s s' \<Longrightarrow> k \<le> j \<Longrightarrow> tables_stay fmt l e j s s'"
  by (auto simp: tables_stay_def)

lemma table_on_walk:
  "table_on fmt mm l e v k = Some b \<Longrightarrow> same_path (Suc k) l v v' \<Longrightarrow>
     entry_walk fmt mm l e v' = entry_walk fmt mm k (load64 mm (slot b (pt_index k v'))) v'"
proof (induction fmt mm l e v k rule: table_on.induct)
  case (2 fmt mm l e v k)
  then show ?case by (cases "Suc k \<le> l") (auto simp: not_le less_Suc_eq_le split: if_splits dest!: table_on_member)
qed simp

lemma table_on_below:
  "table_on fmt mm l e v k = Some b \<Longrightarrow> same_path (Suc k) l v v' \<Longrightarrow> j < k \<Longrightarrow>
     table_on fmt mm l e v' j = table_on fmt mm k (load64 mm (slot b (pt_index k v'))) v' j"
proof (induction fmt mm l e v k rule: table_on.induct)
  case (2 fmt mm l e v k)
  then show ?case by (cases "Suc k \<le> l") (auto simp: not_le less_Suc_eq_le split: if_splits dest!: table_on_member)
qed simp

locale page_format =
  fixes fmt :: pt_format and table_entry :: "u64 \<Rightarrow> u64"
  assumes zero_empty: "\<not> pf_table fmt 0" "\<not> pf_large fmt 0" "\<not> pf_present fmt 0"
    and table_entry: "page_aligned_ptr p \<Longrightarrow> p < 0x100000000 \<Longrightarrow> pf_table fmt (table_entry p) \<and> pf_addr fmt (table_entry p) = p"
    and addr_aligned: "page_aligned_ptr (pf_addr fmt e)"
begin

lemma empty_walk: "entry_walk fmt mm k 0 v = None" "entry_tables fmt mm k 0 = {}" "entry_ok fmt mm k 0"
  by (cases k; simp add: zero_empty)+

lemma store_entry:
  assumes "paging_ok fmt l e s" and "table_on fmt (mem s) l e v k = Some b" and "k = 0 \<or> \<not> pf_table fmt e'"
    and "s' = s\<lparr>mem := store64 (slot b (pt_index k v)) e' (mem s)\<rparr>"
  shows "paging_ok fmt l e s'" and "tables_stay fmt l e k s s'"
    and "entry_walk fmt (mem s') l e v' = (if same_path k l v v' then entry_walk fmt mm k e' v' else entry_walk fmt (mem s) l e v')"
proof -
  from assms(1) have ok: "entry_ok fmt (mem s) l e" by (simp add: paging_ok_def)
  have al: "page_aligned_ptr p" if "p \<in> entry_tables fmt (mem s) l e" for p using entry_tables_aligned [OF ok that] .
  have b: "page_aligned_ptr b" using al table_on_member [OF assms(2)] by blast
  have leaf: "entry_ok fmt (mem s') k e' \<and> entry_tables fmt (mem s') k e' = {} \<and> entry_walk fmt (mem s') k e' v' = entry_walk fmt mm k e' v'" for v'
    using assms(3) by (cases k) simp_all
  have o: "\<forall>p \<in> entry_tables fmt (mem s) l e. \<forall>i < 512. (p, i) \<noteq> (b, pt_index k v) \<longrightarrow> load64 (mem s') (slot p i) = load64 (mem s) (slot p i)"
    using load64_other_slot [OF b al pt_index_less] assms(4) by simp
  have n: "e' = load64 (mem s') (slot b (pt_index k v))" using assms(4) by simp
  have r: "entry_ok fmt (mem s') l e \<and> entry_tables fmt (mem s') l e \<subseteq> entry_tables fmt (mem s) l e \<and>
    (\<forall>v'. entry_walk fmt (mem s') l e v' = (if same_path k l v v' then entry_walk fmt (mem s') k e' v' else entry_walk fmt (mem s) l e v')) \<and>
    (\<forall>v' j c. k \<le> j \<longrightarrow> table_on fmt (mem s) l e v' j = Some c \<longrightarrow> table_on fmt (mem s') l e v' j = Some c)"
    using entry_replace [OF ok assms(2) o n] leaf by simp
  have a: "avail s' = avail s" "pmm_ok s' = pmm_ok s" using assms(4) by (simp_all add: pmm_ok_def)
  show "paging_ok fmt l e s'" using r assms(1) a by (auto simp: paging_ok_def)
  show "tables_stay fmt l e k s s'" using r by (simp add: tables_stay_def)
  show "entry_walk fmt (mem s') l e v' = (if same_path k l v v' then entry_walk fmt mm k e' v' else entry_walk fmt (mem s) l e v')"
    using r leaf by simp
qed

lemma add_table:
  assumes "paging_ok fmt l e s" and "table_on fmt (mem s) l e v (Suc k) = Some b"
    and "grants s ty p 0x1000 n s1" and "page_aligned_ptr p" and "p < 0x100000000" and "ty \<noteq> MEMMAP_USABLE"
    and "s2 = s1\<lparr>mem := store64 (slot b (pt_index (Suc k) v)) (table_entry p) (mem s1)\<rparr>"
    and "\<not> pf_table fmt (load64 (mem s) (slot b (pt_index (Suc k) v)))"
  shows "paging_ok fmt l e s2" and "tables_stay fmt l e 0 s s2" and "table_on fmt (mem s2) l e v k = Some p"
    and "entry_walk fmt (mem s2) l e v' = (if same_path (Suc k) l v v' then None else entry_walk fmt (mem s) l e v')"
proof -
  from assms(1) have ok: "entry_ok fmt (mem s) l e" by (simp add: paging_ok_def)
  have al: "page_aligned_ptr q" if "q \<in> entry_tables fmt (mem s) l e" for q using entry_tables_aligned [OF ok that] .
  have b: "b \<in> entry_tables fmt (mem s) l e" using table_on_member [OF assms(2)] by blast
  from assms(3) have g: "p \<le> p + n" "0x1000 \<le> n" "{p ..< p + n} \<subseteq> avail s" "mem s1 = memset0 p 0x1000 (mem s)" "pmm_ok s1"
    "avail s1 = avail s - {p ..< p + n}" by (simp_all add: grants_def)
  have page: "x \<in> {p ..< p + n}" if "drop_bit 12 x = drop_bit 12 p" for x
  proof -
    have "x - p < 0x1000" using page_member [OF assms(4)] that by simp
    with g(1,2) show ?thesis by (simp add: atLeastLessThan_iff) unat_arith
  qed
  have fresh: "drop_bit 12 q \<noteq> drop_bit 12 p" if "q \<in> entry_tables fmt (mem s) l e" for q
  proof
    assume "drop_bit 12 q = drop_bit 12 p"
    then have "p \<notin> avail s" using assms(1) that by (auto simp: paging_ok_def)
    with page [of p] g(3) show False by auto
  qed
  have m1: "mem s1 x = (if drop_bit 12 x = drop_bit 12 p then 0 else mem s x)" for x
    using page_member [OF assms(4), of x] by (simp add: g(4) memset0_def)
  have pb: "p \<noteq> b" using fresh [OF b] by auto
  let ?i = "pt_index (Suc k) v"
  have mem2: "mem s2 = store64 (slot b ?i) (table_entry p) (mem s1)" using assms(7) by simp
  have old: "load64 (mem s1) (slot q i) = load64 (mem s) (slot q i)" if "q \<in> entry_tables fmt (mem s) l e" "i < 512" for q i
    using m1 fresh [OF that(1)] by (intro load64_page [OF al [OF that(1)] that(2)]) simp
  have o: "\<forall>q \<in> entry_tables fmt (mem s) l e. \<forall>i < 512. (q, i) \<noteq> (b, ?i) \<longrightarrow> load64 (mem s2) (slot q i) = load64 (mem s) (slot q i)"
    using load64_other_slot [OF al [OF b] al pt_index_less] old by (simp add: mem2)
  have n: "table_entry p = load64 (mem s2) (slot b ?i)" by (simp add: mem2)
  note t = table_entry [OF assms(4,5)]
  have z: "load64 (mem s2) (slot p i) = 0" if "i < 512" for i
    using load64_other_slot [OF al [OF b] assms(4) pt_index_less that] load64_cleared [OF assms(4) that, of "mem s1"] m1 pb
    by (simp add: mem2)
  have new: "entry_ok fmt (mem s2) (Suc k) (table_entry p)" "entry_tables fmt (mem s2) (Suc k) (table_entry p) = {p}"
    "entry_walk fmt (mem s2) (Suc k) (table_entry p) v' = None" "table_on fmt (mem s2) (Suc k) (table_entry p) v' k = Some p" for v'
    using t z assms(4) by (simp_all add: empty_walk)
  have dis: "entry_tables fmt (mem s2) (Suc k) (table_entry p) \<inter> entry_tables fmt (mem s) l e = {}"
    using fresh [of p] unfolding new(2) by blast
  note r = entry_replace [OF ok assms(2) o n new(1) dis]
  show "tables_stay fmt l e 0 s s2" unfolding tables_stay_def
  proof (intro allI impI)
    fix v' j c assume c: "table_on fmt (mem s) l e v' j = Some c"
    show "table_on fmt (mem s2) l e v' j = Some c"
    proof (cases "same_path (Suc k) l v v' \<and> j < Suc k")
      case True
      then have "pt_index (Suc k) v = pt_index (Suc k) v'" "same_path (Suc (Suc k)) l v v'" "j < Suc k"
        using same_path_step [of "Suc k" l v v'] table_on_member [OF assms(2)] by simp_all
      with table_on_below [OF assms(2), of v' j] assms(8) have "table_on fmt (mem s) l e v' j = None" by simp
      with c show ?thesis by simp
    qed (use r c in \<open>auto simp: not_less\<close>)
  qed
  show "table_on fmt (mem s2) l e v k = Some p" using r new(4) by simp
  show "entry_walk fmt (mem s2) l e v' = (if same_path (Suc k) l v v' then None else entry_walk fmt (mem s) l e v')"
    using r new(3) by simp
  have a: "avail s2 = avail s - {p ..< p + n}" "pmm_ok s2" using assms(7) g(5,6) by (simp_all add: pmm_ok_def)
  have "entry_tables fmt (mem s2) l e \<subseteq> insert p (entry_tables fmt (mem s) l e)" using r new(2) by blast
  then have "x \<notin> avail s2" if "q \<in> entry_tables fmt (mem s2) l e" "drop_bit 12 x = drop_bit 12 q" for q x
    using that assms(1) page [of x] a(1) by (auto simp: paging_ok_def)
  with r a(2) show "paging_ok fmt l e s2" by (simp add: paging_ok_def)
qed

end

end
