(* ===== verification/Vmm_Correct.thy ===== *)
theory Vmm_Correct
  imports Vmm Page_Alloc
begin

text \<open>
  What the page tables translate to. \<open>translate\<close> is the address a processor finds with the
  attributes of the page; \<open>map_page\<close> changes it for the page asked for and nowhere else, and
  splitting a large page changes nothing.
\<close>

unbundle bit_operations_syntax

section \<open>Entries of x86-64\<close>

definition x86_format :: pt_format where
  "x86_format = \<lparr>pf_present = (\<lambda>e. bit e 0), pf_table = PT_IS_TABLE, pf_large = PT_IS_LARGE, pf_addr = pte_addr\<rparr>"

lemma bit_members: "filter (bit w) [0..<64] = ns \<Longrightarrow> bit (w :: u64) n \<longleftrightarrow> n \<in> set ns"
  using bit_imp_le_length [of w n] by auto

lemma word_eq_bits: "(x :: u64) = y \<longleftrightarrow> (\<forall>n. bit x n = bit y n)"
  by (auto intro: bit_word_eqI)

lemma mask_bits:
  "bit (PT_FLAG_VALID OR PT_FLAG_LARGE) n \<longleftrightarrow> n \<in> {0, 7}" "bit PT_TABLE_FLAGS n \<longleftrightarrow> n \<in> {0, 1, 2}"
  "bit (PT_FLAG_WRITE OR PT_FLAG_NX OR VMM_FLAG_FB) n \<longleftrightarrow> n \<in> {1, 3, 12, 63}" "bit PT_PADDR_MASK n \<longleftrightarrow> 12 \<le> n \<and> n < 48"
  "bit PT_FLAG_LARGE n \<longleftrightarrow> n \<in> {7}" "bit VMM_FLAG_FB n \<longleftrightarrow> n \<in> {3, 12}" "bit (0x1000 :: u64) n \<longleftrightarrow> n \<in> {12}"
proof -
  have f: "filter (bit (PT_FLAG_VALID OR PT_FLAG_LARGE)) [0..<64] = [0, 7]" "filter (bit PT_TABLE_FLAGS) [0..<64] = [0, 1, 2]"
    "filter (bit (PT_FLAG_WRITE OR PT_FLAG_NX OR VMM_FLAG_FB)) [0..<64] = [1, 3, 12, 63]" "filter (bit PT_PADDR_MASK) [0..<64] = [12..<48]"
    "filter (bit PT_FLAG_LARGE) [0..<64] = [7]" "filter (bit VMM_FLAG_FB) [0..<64] = [3, 12]" "filter (bit (0x1000 :: u64)) [0..<64] = [12]"
    by code_simp+
  show "bit (PT_FLAG_VALID OR PT_FLAG_LARGE) n \<longleftrightarrow> n \<in> {0, 7}" "bit PT_TABLE_FLAGS n \<longleftrightarrow> n \<in> {0, 1, 2}"
    "bit (PT_FLAG_WRITE OR PT_FLAG_NX OR VMM_FLAG_FB) n \<longleftrightarrow> n \<in> {1, 3, 12, 63}" "bit PT_PADDR_MASK n \<longleftrightarrow> 12 \<le> n \<and> n < 48"
    "bit PT_FLAG_LARGE n \<longleftrightarrow> n \<in> {7}" "bit VMM_FLAG_FB n \<longleftrightarrow> n \<in> {3, 12}" "bit (0x1000 :: u64) n \<longleftrightarrow> n \<in> {12}"
    using f [THEN bit_members, of n] by (simp_all only: list.set set_upt atLeastLessThan_iff)
qed

lemma bit_and: "bit (a AND b) n \<longleftrightarrow> bit a n \<and> bit (b :: u64) n"
  by (simp add: bit_simps)

lemma is_table_bits: "PT_IS_TABLE e \<longleftrightarrow> bit e 0 \<and> \<not> bit e 7"
  and is_large_bits: "PT_IS_LARGE e \<longleftrightarrow> bit e 0 \<and> bit e 7"
proof -
  have one: "bit (1 :: u64) n \<longleftrightarrow> n = 0" for n by (simp add: bit_1_iff)
  have "PT_IS_TABLE e \<longleftrightarrow> (\<forall>n. (bit e n \<and> n \<in> {0, 7}) = (n = 0))" "PT_IS_LARGE e \<longleftrightarrow> (\<forall>n. (bit e n \<and> n \<in> {0, 7}) = (n \<in> {0, 7}))"
    unfolding PT_IS_TABLE_def PT_IS_LARGE_def word_eq_bits bit_and mask_bits one by (rule refl)+
  moreover have "(\<forall>n. (Q n \<and> n \<in> {0, 7}) = (n = 0)) \<longleftrightarrow> Q 0 \<and> \<not> Q 7" "(\<forall>n. (Q n \<and> n \<in> {0, 7}) = (n \<in> {0, 7})) \<longleftrightarrow> Q 0 \<and> Q 7"
    for Q :: "nat \<Rightarrow> bool"
    by (metis empty_iff insert_iff zero_neq_numeral)+
  ultimately show "PT_IS_TABLE e \<longleftrightarrow> bit e 0 \<and> \<not> bit e 7" "PT_IS_LARGE e \<longleftrightarrow> bit e 0 \<and> bit e 7" by simp_all
qed

lemma pte_addr_bit: "bit (pte_addr e) n \<longleftrightarrow> bit e n \<and> 12 \<le> n \<and> n < 48"
  unfolding pte_addr_def bit_and mask_bits by auto

lemma vmm_flags_bit: "bit (PT_TO_VMM_FLAGS e) n \<longleftrightarrow> bit e n \<and> n \<in> {1, 3, 12, 63}"
  unfolding PT_TO_VMM_FLAGS_def bit_and mask_bits by simp

lemma aligned_bits: "take_bit k (p :: u64) = 0 \<longleftrightarrow> (\<forall>n. bit p n \<longrightarrow> k \<le> n)"
  by (auto simp: word_eq_bits bit_take_bit_iff not_less)

interpretation x86: page_format x86_format "\<lambda>p. pte_new p PT_TABLE_FLAGS"
proof
  show "\<not> pf_table x86_format 0" "\<not> pf_large x86_format 0" "\<not> pf_present x86_format 0"
    by (simp_all add: x86_format_def is_table_bits is_large_bits)
  fix e show "page_aligned_ptr (pf_addr x86_format e)" by (simp add: x86_format_def aligned_bits pte_addr_bit)
next
  fix p :: u64 assume a: "page_aligned_ptr p" and l: "p < 0x100000000"
  have b: "12 \<le> n \<and> n < 32" if "bit p n" for n
  proof -
    have "p = take_bit 32 p" using l by (simp add: word_unat_eq_iff unat_mask_mod word_less_nat_alt)
    then have "bit (take_bit 32 p) n" using that by simp
    with a that show ?thesis by (simp add: bit_take_bit_iff aligned_bits)
  qed
  have e: "bit (pte_new p PT_TABLE_FLAGS) n \<longleftrightarrow> bit p n \<or> n \<in> {0, 1, 2}" for n
    unfolding pte_new_def by (simp add: bit_or_iff mask_bits)
  have "pte_addr (pte_new p PT_TABLE_FLAGS) = p" by (rule bit_word_eqI) (use b e in \<open>fastforce simp: pte_addr_bit\<close>)
  moreover have "PT_IS_TABLE (pte_new p PT_TABLE_FLAGS)" using b [of 7] by (auto simp: is_table_bits e)
  ultimately show "pf_table x86_format (pte_new p PT_TABLE_FLAGS) \<and> pf_addr x86_format (pte_new p PT_TABLE_FLAGS) = p"
    by (simp add: x86_format_def)
qed

section \<open>Translation\<close>

text \<open>
  The frame and the attributes in a page's entry, with physical addresses of 48 bits. The page
  attribute bit of a small page is bit 7, of a large one bit 12.
\<close>

definition x86_frame :: "nat \<Rightarrow> u64 \<Rightarrow> u64" where
  "x86_frame k e = e AND push_bit (12 + 9 * k) (mask (36 - 9 * k))"

definition x86_attr :: "nat \<Rightarrow> u64 \<Rightarrow> u64" where
  "x86_attr k e = (e AND 0x800000000000000A) OR (if bit e (if k = 0 then 7 else 12) then 0x1000 else 0)"

definition cr3 :: "pagemap \<Rightarrow> u64" where
  "cr3 pm = pte_new (top_level pm) PT_TABLE_FLAGS"

definition translate :: "pagemap \<Rightarrow> pmm_state \<Rightarrow> u64 \<Rightarrow> (u64 \<times> u64) option" where
  "translate pm s v =
     map_option (\<lambda>(k, e). (x86_frame k e + take_bit (12 + 9 * k) v, x86_attr k e))
       (entry_walk x86_format (mem s) (levels pm) (cr3 pm) v)"

definition flags_ok :: "u64 \<Rightarrow> bool" where
  "flags_ok f \<longleftrightarrow> f AND 0x800000000000100B = f"

lemma more_bits:
  "bit (0x800000000000000A :: u64) n \<longleftrightarrow> n \<in> {1, 3, 63}" "bit (0x800000000000100B :: u64) n \<longleftrightarrow> n \<in> {0, 1, 3, 12, 63}"
proof -
  have f: "filter (bit (0x800000000000000A :: u64)) [0..<64] = [1, 3, 63]" "filter (bit (0x800000000000100B :: u64)) [0..<64] = [0, 1, 3, 12, 63]"
    by code_simp+
  show "bit (0x800000000000000A :: u64) n \<longleftrightarrow> n \<in> {1, 3, 63}" "bit (0x800000000000100B :: u64) n \<longleftrightarrow> n \<in> {0, 1, 3, 12, 63}"
    using f [THEN bit_members, of n] by (simp_all only: list.set)
qed

lemma flags_bits: "flags_ok f \<longleftrightarrow> (\<forall>n. bit f n \<longrightarrow> n \<in> {0, 1, 3, 12, 63})"
  unfolding flags_ok_def word_eq_bits bit_and more_bits by blast

lemma frame_bit: "bit (x86_frame k e) n \<longleftrightarrow> bit e n \<and> 12 + 9 * k \<le> n \<and> n < 48" if "k \<le> 2"
  using that by (auto simp: x86_frame_def bit_simps)

lemma attr_bit: "bit (x86_attr k e) n \<longleftrightarrow> bit e n \<and> n \<in> {1, 3, 63} \<or> n = 12 \<and> bit e (if k = 0 then 7 else 12)"
  unfolding x86_attr_def bit_or_iff bit_and more_bits
  by (cases "bit e (if k = 0 then 7 else 12)"; simp only: if_True if_False mask_bits) auto

lemma phys_bits:
  assumes "take_bit k p = 0" and "p < 2 ^ 48" and "bit (p :: u64) n" shows "k \<le> n" and "n < 48"
proof -
  show "k \<le> n" using assms(1,3) by (simp add: aligned_bits)
  have "p = take_bit 48 p" using assms(2) by (simp add: word_unat_eq_iff unat_mask_mod word_less_nat_alt)
  then show "n < 48" using assms(3) by (metis bit_take_bit_iff)
qed

lemma large_leaf:
  assumes "k \<in> {1, 2}" and "take_bit (12 + 9 * k) p = 0" and "p < 2 ^ 48" and "flags_ok f" and "bit f 0"
    and "e = p OR f OR PT_FLAG_LARGE"
  shows "PT_IS_LARGE e" and "\<not> PT_IS_TABLE e" and "x86_frame k e = p" and "x86_attr k e = PT_TO_VMM_FLAGS f"
proof -
  have b: "bit e n \<longleftrightarrow> bit p n \<or> bit f n \<or> n = 7" for n unfolding assms(6) bit_or_iff mask_bits by auto
  have p: "21 \<le> n \<and> n < 48" if "bit p n" for n using phys_bits [OF assms(2,3) that] assms(1) by auto
  have f: "n \<in> {0, 1, 3, 12, 63}" if "bit f n" for n using assms(4) that by (simp add: flags_bits)
  show "PT_IS_LARGE e" "\<not> PT_IS_TABLE e" using b assms(5) by (simp_all add: is_large_bits is_table_bits)
  show "x86_frame k e = p"
    unfolding word_eq_bits using assms(1) p f phys_bits [OF assms(2,3)] by (fastforce simp: frame_bit b)
  show "x86_attr k e = PT_TO_VMM_FLAGS f"
    unfolding word_eq_bits attr_bit vmm_flags_bit b using assms(1) p f by fastforce
qed

lemma small_leaf:
  assumes "take_bit 12 p = 0" and "p < 2 ^ 48" and "flags_ok f" and "bit f 0"
    and "e = p OR (if f AND 0x1000 \<noteq> 0 then (f AND NOT 0x1000) OR 0x80 else f)"
  shows "bit e 0" and "x86_frame 0 e = p" and "x86_attr 0 e = PT_TO_VMM_FLAGS f"
proof -
  have f: "n \<in> {0, 1, 3, 12, 63}" if "bit f n" for n using assms(3) that by (simp add: flags_bits)
  have p: "12 \<le> n \<and> n < 48" if "bit p n" for n using phys_bits [OF assms(1,2) that] by auto
  have z: "f AND 0x1000 \<noteq> 0 \<longleftrightarrow> bit f 12" unfolding word_eq_bits bit_and mask_bits by auto
  have b: "bit e n \<longleftrightarrow> bit p n \<or> bit f n \<and> n \<noteq> 12 \<or> n = 7 \<and> bit f 12" for n
    using f [of n] bit_imp_le_length [of f n] unfolding assms(5) z
    by (cases "bit f 12"; simp only: if_True if_False bit_or_iff bit_and bit_not_iff mask_bits) auto
  show "bit e 0" using b assms(4) by simp
  show "x86_frame 0 e = p" unfolding word_eq_bits using p f by (fastforce simp: frame_bit b)
  show "x86_attr 0 e = PT_TO_VMM_FLAGS f"
    unfolding word_eq_bits attr_bit vmm_flags_bit b using p f by fastforce
qed

section \<open>Regions\<close>

lemma interval_split:
  fixes a b c :: nat
  assumes "a \<le> b" and "b \<le> c"
  shows "(\<forall>n. a \<le> n \<and> n < c \<longrightarrow> P n) \<longleftrightarrow> (\<forall>n. a \<le> n \<and> n < b \<longrightarrow> P n) \<and> (\<forall>n. b \<le> n \<and> n < c \<longrightarrow> P n)"
  using assms by (meson le_trans less_le_trans not_less)

lemma pt_index_bits: "pt_index j v = pt_index j v' \<longleftrightarrow> (\<forall>n < 9. bit v (12 + 9 * j + n) = bit v' (12 + 9 * j + n))"
  by (auto simp: pt_index_def word_eq_bits bit_take_bit_iff bit_drop_bit_eq add.commute word_unat_eq_iff [symmetric])

lemma same_path_bits: "k \<le> l \<Longrightarrow> same_path k l v v' \<longleftrightarrow> (\<forall>n. 12 + 9 * k \<le> n \<and> n < 12 + 9 * l \<longrightarrow> bit v n = bit v' n)"
proof (induction l rule: dec_induct)
  case (step l)
  have "(\<forall>n < 9. bit v (12 + 9 * l + n) = bit v' (12 + 9 * l + n)) \<longleftrightarrow>
      (\<forall>n. 12 + 9 * l \<le> n \<and> n < 12 + 9 * Suc l \<longrightarrow> bit v n = bit v' n)" (is "?L = ?R")
  proof
    assume L: ?L
    show ?R
    proof (intro allI impI)
      fix n assume n: "12 + 9 * l \<le> n \<and> n < 12 + 9 * Suc l"
      then have "n - (12 + 9 * l) < 9" by arith
      with L [rule_format, of "n - (12 + 9 * l)"] n show "bit v n = bit v' n" by simp
    qed
  qed simp
  then have "same_path k (Suc l) v v' \<longleftrightarrow> (\<forall>n. 12 + 9 * k \<le> n \<and> n < 12 + 9 * l \<longrightarrow> bit v n = bit v' n) \<and>
      (\<forall>n. 12 + 9 * l \<le> n \<and> n < 12 + 9 * Suc l \<longrightarrow> bit v n = bit v' n)"
    using step by (simp add: pt_index_bits)
  also have "\<dots> \<longleftrightarrow> (\<forall>n. 12 + 9 * k \<le> n \<and> n < 12 + 9 * Suc l \<longrightarrow> bit v n = bit v' n)"
    using step.hyps by (intro interval_split [symmetric]) simp_all
  finally show ?case .
qed (auto simp: not_less)

text \<open>The pages of level \<open>z\<close> a page of level \<open>k\<close> consists of, and the number of the one an address is in.\<close>

definition subpage :: "nat \<Rightarrow> nat \<Rightarrow> u64 \<Rightarrow> nat" where
  "subpage z k v = unat (take_bit (9 * (k - z)) (drop_bit (12 + 9 * z) v))"

lemma subpage_less: "subpage z k v < 2 ^ (9 * (k - z))"
  by (simp add: subpage_def unat_mask_mod)

lemma low_bit:
  assumes "j < 2 ^ k" and "bit (j :: nat) n" shows "n < k"
proof -
  have "j div 2 ^ n \<noteq> 0" using assms(2) by (auto simp: bit_iff_odd dest: odd_pos)
  then have "2 ^ n \<le> j" by (simp add: div_eq_0_iff not_less)
  from le_less_trans [OF this assms(1)] show ?thesis by (rule power_less_imp_less_exp [rotated]) simp
qed

lemma add_subpage:
  assumes "take_bit (12 + 9 * k) ov = 0" and "j < 2 ^ (9 * (k - z))" and "z \<le> k" and "k \<le> 2"
  shows "bit (ov + of_nat j * 2 ^ (12 + 9 * z) :: u64) n \<longleftrightarrow>
    (if n < 12 + 9 * k then 12 + 9 * z \<le> n \<and> bit j (n - (12 + 9 * z)) else bit ov n)"
proof -
  have ov: "12 + 9 * k \<le> n" if "bit ov n" for n using assms(1) that by (simp add: aligned_bits)
  note j = low_bit [OF assms(2)]
  have p: "of_nat j * 2 ^ (12 + 9 * z) = (push_bit (12 + 9 * z) (of_nat j) :: u64)" by (simp add: push_bit_eq_mult)
  have b: "bit (push_bit (12 + 9 * z) (of_nat j) :: u64) n \<longleftrightarrow> 12 + 9 * z \<le> n \<and> bit j (n - (12 + 9 * z)) \<and> n < 64" for n
    by (auto simp: bit_push_bit_iff bit_of_nat_iff)
  have "ov + push_bit (12 + 9 * z) (of_nat j) = ov OR push_bit (12 + 9 * z) (of_nat j)"
  proof (rule disjunctive_add_eq_or)
    show "ov AND push_bit (12 + 9 * z) (of_nat j) = 0"
      unfolding word_eq_bits bit_and_iff b using ov j assms(3) by (fastforce simp: less_diff_conv2)
  qed
  moreover have "bit ov n \<Longrightarrow> n < 64" for n using bit_imp_le_length [of ov n] by simp
  ultimately show ?thesis
    unfolding p using ov [of n] j [of "n - (12 + 9 * z)"] assms(3,4) by (auto simp: bit_or_iff b)
qed

lemma same_subpage:
  assumes "take_bit (12 + 9 * k) ov = 0" and "j < 2 ^ (9 * (k - z))" and "z \<le> k" and "k \<le> 2" and "k \<le> l"
  shows "same_path z l (ov + of_nat j * 2 ^ (12 + 9 * z)) v' \<longleftrightarrow> same_path k l ov v' \<and> j = subpage z k v'"
proof -
  have j: "j = subpage z k v' \<longleftrightarrow> (\<forall>n < 9 * (k - z). bit j n = bit v' (12 + 9 * z + n))"
    unfolding bit_eq_iff using low_bit [OF assms(2)] low_bit [OF subpage_less [of z k v']] assms(3,4)
    by (auto simp: subpage_def bit_unsigned_iff bit_take_bit_iff bit_drop_bit_eq)
  have "(\<forall>n. 12 + 9 * z \<le> n \<and> n < 12 + 9 * l \<longrightarrow> bit (ov + of_nat j * 2 ^ (12 + 9 * z)) n = bit v' n) \<longleftrightarrow>
      (\<forall>n. 12 + 9 * z \<le> n \<and> n < 12 + 9 * k \<longrightarrow> bit j (n - (12 + 9 * z)) = bit v' n) \<and>
      (\<forall>n. 12 + 9 * k \<le> n \<and> n < 12 + 9 * l \<longrightarrow> bit ov n = bit v' n)"
  proof -
    have "(12 + 9 * z :: nat) \<le> 12 + 9 * k" "(12 + 9 * k :: nat) \<le> 12 + 9 * l" using assms(3,5) by simp_all
    from interval_split [OF this, of "\<lambda>n. bit (ov + of_nat j * 2 ^ (12 + 9 * z)) n = bit v' n"]
    show ?thesis by (simp add: add_subpage [OF assms(1-4)] cong: conj_cong)
  qed
  also have "(\<forall>n. 12 + 9 * z \<le> n \<and> n < 12 + 9 * k \<longrightarrow> bit j (n - (12 + 9 * z)) = bit v' n) \<longleftrightarrow>
      (\<forall>n < 9 * (k - z). bit j n = bit v' (12 + 9 * z + n))" (is "?L = ?R")
  proof
    assume L: ?L
    show ?R
    proof (intro allI impI)
      fix n assume "n < 9 * (k - z)"
      then have "12 + 9 * z + n < 12 + 9 * k" using assms(3) by (simp add: diff_mult_distrib2)
      with L [rule_format, of "12 + 9 * z + n"] show "bit j n = bit v' (12 + 9 * z + n)" by simp
    qed
  next
    assume R: ?R
    show ?L
    proof (intro allI impI)
      fix n assume n: "12 + 9 * z \<le> n \<and> n < 12 + 9 * k"
      then have "n - (12 + 9 * z) < 9 * (k - z)" using assms(3) by (simp add: diff_mult_distrib2) arith
      with R [rule_format, of "n - (12 + 9 * z)"] n show "bit j (n - (12 + 9 * z)) = bit v' n" by simp
    qed
  qed
  finally show ?thesis unfolding j using assms(3,5) by (auto simp: same_path_bits)
qed

lemma subpage_offset:
  assumes "z \<le> k"
  shows "of_nat (subpage z k v) * 2 ^ (12 + 9 * z) + take_bit (12 + 9 * z) v = (take_bit (12 + 9 * k) v :: u64)"
proof -
  let ?x = "take_bit (12 + 9 * k) v"
  have "?x = push_bit (12 + 9 * z) (drop_bit (12 + 9 * z) ?x) + take_bit (12 + 9 * z) ?x" by (rule bits_ident [symmetric])
  also have "drop_bit (12 + 9 * z) ?x = of_nat (subpage z k v)"
    using assms by (simp add: subpage_def drop_bit_take_bit diff_mult_distrib2)
  also have "take_bit (12 + 9 * z) ?x = take_bit (12 + 9 * z) v" using assms by (simp add: min_def)
  finally show ?thesis by (simp add: push_bit_eq_mult)
qed

section \<open>Mapping pages one after the other\<close>

abbreviation walk_ok :: "pagemap \<Rightarrow> pmm_state \<Rightarrow> bool" where
  "walk_ok pm s \<equiv> paging_ok x86_format (levels pm) (cr3 pm) s"

abbreviation table_at :: "pagemap \<Rightarrow> pmm_state \<Rightarrow> u64 \<Rightarrow> nat \<Rightarrow> u64 option" where
  "table_at pm s v k \<equiv> table_on x86_format (mem s) (levels pm) (cr3 pm) v k"

text \<open>No page on the way of \<open>v\<close> is larger than one of level \<open>k\<close>.\<close>

definition clear :: "pagemap \<Rightarrow> nat \<Rightarrow> pmm_state \<Rightarrow> u64 \<Rightarrow> bool" where
  "clear pm k s v \<longleftrightarrow> (\<forall>j e. entry_walk x86_format (mem s) (levels pm) (cr3 pm) v = Some (j, e) \<longrightarrow> j \<le> k)"

text \<open>Down to level \<open>k\<close> tables stay where they are and no larger page comes up.\<close>

definition stay :: "pagemap \<Rightarrow> nat \<Rightarrow> pmm_state \<Rightarrow> pmm_state \<Rightarrow> bool" where
  "stay pm k s s' \<longleftrightarrow> tables_stay x86_format (levels pm) (cr3 pm) k s s' \<and> (\<forall>v j. k \<le> j \<longrightarrow> clear pm j s v \<longrightarrow> clear pm j s' v)"

lemma stay_refl [simp]: "stay pm k s s"
  by (simp add: stay_def)

lemma stay_trans: "stay pm k s s1 \<Longrightarrow> stay pm k s1 s2 \<Longrightarrow> stay pm k s s2"
  using tables_stay_trans by (fastforce simp: stay_def)

lemma stay_mono: "stay pm k s s' \<Longrightarrow> k \<le> j \<Longrightarrow> stay pm j s s'"
  using tables_stay_mono by (fastforce simp: stay_def)

lemma stay_table: "stay pm k s s' \<Longrightarrow> k \<le> j \<Longrightarrow> table_at pm s v j = Some c \<Longrightarrow> table_at pm s' v j = Some c"
  by (simp add: stay_def tables_stay_def)

text \<open>What mapping a page promises: the new translation there, and the old one everywhere else.\<close>

definition maps_page :: "pagemap \<Rightarrow> page_size \<Rightarrow> u64 \<Rightarrow> u64 \<Rightarrow> u64 \<Rightarrow> pmm_state \<Rightarrow> pmm_state \<Rightarrow> bool" where
  "maps_page pm sz v p f s s' \<longleftrightarrow> walk_ok pm s' \<and> stay pm (size_level sz) s s' \<and>
     (\<forall>v'. translate pm s' v' =
        (if same_path (size_level sz) (levels pm) v v' then Some (p + take_bit (12 + 9 * size_level sz) v', PT_TO_VMM_FLAGS f)
         else translate pm s v'))"

lemma each_page_maps:
  assumes step: "\<And>j s s'. \<lbrakk>j < N; walk_ok pm s; F (of_nat j * st) s = Inr ((), s')\<rbrakk> \<Longrightarrow>
      maps_page pm sz (ov + of_nat j * st) (op + of_nat j * st) f s s'"
    and path: "\<And>j v'. j < N \<Longrightarrow> same_path (size_level sz) (levels pm) (ov + of_nat j * st) v' \<longleftrightarrow> R v' \<and> j = part v'"
    and off: "\<And>v'. op + of_nat (part v') * st + take_bit (12 + 9 * size_level sz) v' = op + T v'"
  shows "\<lbrakk>each_page F st n (of_nat (N - n) * st) s = Inr ((), s'); n \<le> N; walk_ok pm s\<rbrakk> \<Longrightarrow>
    walk_ok pm s' \<and> stay pm (size_level sz) s s' \<and>
    (\<forall>v'. translate pm s' v' =
       (if R v' \<and> N - n \<le> part v' \<and> part v' < N then Some (op + T v', PT_TO_VMM_FLAGS f) else translate pm s v'))"
proof (induction n arbitrary: s)
  case (Suc n)
  let ?j = "N - Suc n"
  from Suc.prems(1) obtain s1 where f: "F (of_nat ?j * st) s = Inr ((), s1)"
    and r: "each_page F st n (of_nat ?j * st + st) s1 = Inr ((), s')" by (auto elim!: bindo_InrE)
  have j: "?j < N" "Suc ?j = N - n" using Suc.prems(2) by simp_all
  note m = step [OF j(1) Suc.prems(3) f, unfolded maps_page_def]
  have "of_nat ?j * st + st = of_nat (Suc ?j) * st" by (simp add: algebra_simps)
  with r j(2) have "each_page F st n (of_nat (N - n) * st) s1 = Inr ((), s')" by simp
  from Suc.IH [OF this] m Suc.prems(2)
  have i: "walk_ok pm s'" "stay pm (size_level sz) s1 s'"
    "translate pm s' v' = (if R v' \<and> N - n \<le> part v' \<and> part v' < N then Some (op + T v', PT_TO_VMM_FLAGS f) else translate pm s1 v')" for v'
    by simp_all
  have t: "translate pm s1 v' = (if R v' \<and> ?j = part v' then Some (op + T v', PT_TO_VMM_FLAGS f) else translate pm s v')" for v'
    using m off [of v'] by (simp add: path [OF j(1)])
  have "translate pm s' v' = (if R v' \<and> ?j \<le> part v' \<and> part v' < N then Some (op + T v', PT_TO_VMM_FLAGS f) else translate pm s v')" for v'
    using j by (auto simp: i(3) t)
  with i m show ?case using stay_trans by blast
qed (auto simp: not_le)

lemma pt_entry_index: "pt_entry k v = of_nat (pt_index k v)" if "k \<le> 4"
proof -
  have "drop_bit (12 + 9 * k) (v AND push_bit (12 + 9 * k) 0x1ff) = take_bit 9 (drop_bit (12 + 9 * k) v)"
  proof -
    have m: "(0x1ff :: u64) = mask 9" by (simp add: mask_eq_exp_minus_1)
    show ?thesis unfolding m word_eq_bits using that bit_imp_le_length [of v]
      by (auto simp: bit_drop_bit_eq bit_and bit_push_bit_iff bit_mask_iff bit_take_bit_iff)
  qed
  then show ?thesis by (simp add: pt_entry_def pt_index_def)
qed

lemma page_alloc:
  assumes "ext_mem_alloc s PT_SIZE = Inr (p, s1)" and ok: "pmm_ok s"
  obtains n where "grants s MEMMAP_BOOTLOADER_RECLAIMABLE p 0x1000 n s1" and "page_aligned_ptr p" and "p < 0x100000000"
proof -
  have a': "ext_mem_alloc_type_aligned_mode s 0x1000 MEMMAP_BOOTLOADER_RECLAIMABLE 4096 False = Inr (p, s1)"
    using assms(1) by (simp add: ext_mem_alloc_def ext_mem_alloc_type_def ext_mem_alloc_type_aligned_def)
  obtain c n where
    g: "grants s MEMMAP_BOOTLOADER_RECLAIMABLE p c n s1" and d: "unat (4096 :: u64) dvd unat p" "p + n \<le> 0x100000000"
    and c: "c = ALIGN_DOWN ((if (0x1000 :: u64) = 0 then 1 else 0x1000) + (4096 - 1)) 4096"
  proof (rule ext_mem_alloc_mode_grants [OF a' ok])
    show "0 < (4096 :: u64)" "MEMMAP_BOOTLOADER_RECLAIMABLE \<noteq> MEMMAP_USABLE" by simp_all
  qed (blast intro: that)
  have c': "c = 0x1000" using c by (simp add: ALIGN_DOWN_def)
  have al: "page_aligned_ptr p" using d(1) by (simp add: word_unat_eq_iff unat_mask_mod mod_eq_0_iff_dvd)
  have "p \<le> p + n" "0x1000 \<le> n" using g c' by (simp_all add: grants_def)
  moreover from this(2) have "n \<noteq> 0" by auto
  ultimately have "p < p + n" by (simp add: order_less_le)
  from less_le_trans [OF this d(2)] have "p < 0x100000000" .
  with g c' al show thesis by (intro that) simp_all
qed

lemma new_table_ok:
  assumes "new_table b (of_nat (pt_index (Suc k) v)) s = Inr (ret, s')" and "walk_ok pm s" and "table_at pm s v (Suc k) = Some b"
    and "\<not> PT_IS_TABLE (load64 (mem s) (slot b (pt_index (Suc k) v)))"
  shows "walk_ok pm s'" and "stay pm 0 s s'" and "table_at pm s' v k = Some ret"
    and "entry_walk x86_format (mem s') (levels pm) (cr3 pm) v' =
      (if same_path (Suc k) (levels pm) v v' then None else entry_walk x86_format (mem s) (levels pm) (cr3 pm) v')"
proof -
  from assms(1) obtain s1 where a: "ext_mem_alloc s PT_SIZE = Inr (ret, s1)"
    and s': "s' = set_entry b (of_nat (pt_index (Suc k) v)) (pte_new ret PT_TABLE_FLAGS) s1"
    by (auto simp: new_table_def elim!: bindo_InrE)
  have "pmm_ok s" using assms(2) by (simp add: paging_ok_def)
  from a this obtain n where g: "grants s MEMMAP_BOOTLOADER_RECLAIMABLE ret 0x1000 n s1" "page_aligned_ptr ret" "ret < 0x100000000"
    by (rule page_alloc)
  have "s' = s1\<lparr>mem := store64 (slot b (pt_index (Suc k) v)) (pte_new ret PT_TABLE_FLAGS) (mem s1)\<rparr>"
    by (simp add: s' set_entry_def)
  note n = x86.add_table [OF assms(2,3) g _ this]
  have w: "walk_ok pm s'" "tables_stay x86_format (levels pm) (cr3 pm) 0 s s'" "table_at pm s' v k = Some ret"
    "\<And>v'. entry_walk x86_format (mem s') (levels pm) (cr3 pm) v' =
      (if same_path (Suc k) (levels pm) v v' then None else entry_walk x86_format (mem s) (levels pm) (cr3 pm) v')"
    using n assms(4) by (simp_all add: x86_format_def)
  show "stay pm 0 s s'" using w(2) by (auto simp: stay_def clear_def w(4))
  show "walk_ok pm s'" "table_at pm s' v k = Some ret"
    "entry_walk x86_format (mem s') (levels pm) (cr3 pm) v' =
      (if same_path (Suc k) (levels pm) v v' then None else entry_walk x86_format (mem s) (levels pm) (cr3 pm) v')"
    using w by simp_all
qed

section \<open>Going down a level\<close>

lemma below_48: "(\<And>n. bit p n \<Longrightarrow> n < 48) \<Longrightarrow> (p :: u64) < 2 ^ 48"
proof -
  assume "\<And>n. bit p n \<Longrightarrow> n < 48"
  then have "p = take_bit 48 p" unfolding word_eq_bits by (auto simp: bit_take_bit_iff)
  then have "unat p = unat p mod 2 ^ 48" by (metis unat_mask_mod)
  then have "unat p < 2 ^ 48" by (metis mod_less_divisor zero_less_numeral zero_less_power)
  then show ?thesis by (simp add: word_less_nat_alt)
qed

lemma page_sizes_nth: "k \<le> 2 \<Longrightarrow> page_sizes ! k = 2 ^ (12 + 9 * k)"
  by (auto simp: page_sizes_def le_Suc_eq numeral_2_eq_2 nth_Cons split: nat.splits)

lemma pages_in:
  assumes "z \<le> k" and "k \<le> 2" shows "unat (page_sizes ! k div page_sizes ! z) = 2 ^ (9 * (k - z))"
proof -
  have u: "unat ((2 :: u64) ^ (12 + 9 * j)) = 2 ^ (12 + 9 * j)" if "j \<le> 2" for j
  proof -
    have "(2 :: nat) ^ (12 + 9 * j) < 2 ^ 64" using that by (intro power_strict_increasing) simp_all
    then show ?thesis using unsigned_of_nat [of "2 ^ (12 + 9 * j)", where 'a = nat and 'b = 64] that by (simp add: take_bit_nat_eq_self)
  qed
  have "12 + 9 * k = 9 * (k - z) + (12 + 9 * z)" using assms(1) by (simp add: diff_mult_distrib2)
  then have "(2 :: nat) ^ (12 + 9 * k) = 2 ^ (9 * (k - z)) * 2 ^ (12 + 9 * z)" by (metis power_add)
  then show ?thesis using assms by (simp add: page_sizes_nth unat_div u)
qed

lemma not_mask_bits:
  assumes "k \<le> 2"
  shows "bit (v AND NOT (page_sizes ! k - 1)) n \<longleftrightarrow> bit v n \<and> 12 + 9 * k \<le> n"
    and "v AND (page_sizes ! k - 1) = take_bit (12 + 9 * k) v"
proof -
  have m: "page_sizes ! k - 1 = mask (12 + 9 * k)" using assms by (simp add: page_sizes_nth mask_eq_exp_minus_1)
  show "bit (v AND NOT (page_sizes ! k - 1)) n \<longleftrightarrow> bit v n \<and> 12 + 9 * k \<le> n"
    unfolding m using bit_imp_le_length [of v n] by (auto simp: bit_and_iff bit_not_iff bit_mask_iff not_less)
  show "v AND (page_sizes ! k - 1) = take_bit (12 + 9 * k) v" unfolding m by (simp add: take_bit_eq_mask)
qed

lemma walk_at_entry:
  assumes "table_at pm s v k = Some b" and "same_path k (levels pm) v v'"
  shows "entry_walk x86_format (mem s) (levels pm) (cr3 pm) v' = entry_walk x86_format (mem s) k (load64 (mem s) (slot b (pt_index k v))) v'"
proof -
  have "k < levels pm" using table_on_member [OF assms(1)] by blast
  with assms(2) have "pt_index k v = pt_index k v'" "same_path (Suc k) (levels pm) v v'" by (simp_all add: same_path_step)
  with table_on_walk [OF assms(1) this(2)] show ?thesis by simp
qed

lemma translate_cong:
  "entry_walk x86_format (mem s') (levels pm) (cr3 pm) v = entry_walk x86_format (mem s) (levels pm) (cr3 pm) v \<Longrightarrow>
     translate pm s' v = translate pm s v"
  by (simp add: translate_def)

lemma split_large:
  assumes "each_page (\<lambda>i. mp (ov + i) (op + i) fl sz) (page_sizes ! size_level sz) (unat (page_sizes ! k div page_sizes ! size_level sz)) 0 s = Inr ((), s')"
    and "walk_ok pm s" and "size_level sz < k" and "k \<le> 2" and "k \<le> levels pm"
    and "take_bit (12 + 9 * k) ov = 0" and "take_bit (12 + 9 * k) op = 0" and "op < 2 ^ 48" and "flags_ok fl"
    and mp: "\<And>v p f s s'. \<lbrakk>walk_ok pm s; take_bit (12 + 9 * size_level sz) v = 0; take_bit (12 + 9 * size_level sz) p = 0; p < 2 ^ 48; flags_ok f;
        mp v p f sz s = Inr ((), s')\<rbrakk>
      \<Longrightarrow> maps_page pm sz v p f s s'"
  shows "walk_ok pm s' \<and> stay pm (size_level sz) s s' \<and>
    (\<forall>v'. translate pm s' v' = (if same_path k (levels pm) ov v' then Some (op + take_bit (12 + 9 * k) v', PT_TO_VMM_FLAGS fl) else translate pm s v'))"
proof -
  let ?z = "size_level sz" and ?N = "2 ^ (9 * (k - size_level sz)) :: nat"
  have z: "?z \<le> k" "?z \<le> 2" using assms(3,4) by simp_all
  note N = pages_in [OF z(1) assms(4)] and st = page_sizes_nth [OF z(2)]
  have p: "take_bit (12 + 9 * ?z) (op + of_nat j * 2 ^ (12 + 9 * ?z)) = 0 \<and> op + of_nat j * 2 ^ (12 + 9 * ?z) < 2 ^ 48" if "j < ?N" for j
  proof -
    note b = add_subpage [OF assms(7) that z(1) assms(4)]
    have "12 + 9 * ?z \<le> n \<and> n < 48" if "bit (op + of_nat j * 2 ^ (12 + 9 * ?z)) n" for n
      using that phys_bits [OF assms(7,8), of n] z assms(3,4) unfolding b by (auto split: if_splits)
    then show ?thesis using below_48 [of "op + of_nat j * 2 ^ (12 + 9 * ?z)"] unfolding aligned_bits by blast
  qed
  have v: "take_bit (12 + 9 * ?z) (ov + of_nat j * 2 ^ (12 + 9 * ?z)) = 0" if "j < ?N" for j
    using z assms(6) unfolding aligned_bits by (auto simp: add_subpage [OF assms(6) that z(1) assms(4)])
  have run: "each_page (\<lambda>i. mp (ov + i) (op + i) fl sz) (2 ^ (12 + 9 * ?z)) ?N (of_nat (?N - ?N) * 2 ^ (12 + 9 * ?z)) s = Inr ((), s')"
    using assms(1) N st by simp
  have "walk_ok pm s' \<and> stay pm ?z s s' \<and>
    (\<forall>v'. translate pm s' v' = (if same_path k (levels pm) ov v' \<and> ?N - ?N \<le> subpage ?z k v' \<and> subpage ?z k v' < ?N
       then Some (op + take_bit (12 + 9 * k) v', PT_TO_VMM_FLAGS fl) else translate pm s v'))"
  proof (rule each_page_maps [OF _ _ _ run _ assms(2)])
    fix j t t' assume "j < ?N" "walk_ok pm t" "mp (ov + of_nat j * 2 ^ (12 + 9 * ?z)) (op + of_nat j * 2 ^ (12 + 9 * ?z)) fl sz t = Inr ((), t')"
    then show "maps_page pm sz (ov + of_nat j * 2 ^ (12 + 9 * ?z)) (op + of_nat j * 2 ^ (12 + 9 * ?z)) fl t t'"
      using p v assms(9) by (intro mp) simp_all
  next
    fix j v' assume "j < ?N"
    then show "same_path ?z (levels pm) (ov + of_nat j * 2 ^ (12 + 9 * ?z)) v' \<longleftrightarrow> same_path k (levels pm) ov v' \<and> j = subpage ?z k v'"
      by (rule same_subpage [OF assms(6) _ z(1) assms(4,5)])
  next
    fix v' show "op + of_nat (subpage ?z k v') * 2 ^ (12 + 9 * ?z) + take_bit (12 + 9 * ?z) v' = op + take_bit (12 + 9 * k) v'"
      by (simp only: add.assoc subpage_offset [OF z(1)])
  qed simp
  then show ?thesis using subpage_less [of ?z k] by simp
qed

lemma get_next_level_ok:
  assumes g: "get_next_level mp b virt sz k (pt_entry k virt) s = Inr (ret, s')"
    and ok: "walk_ok pm s" and b: "table_at pm s virt k = Some b" and k: "size_level sz < k" "k \<le> 4"
    and mp: "\<And>v p f s s'. \<lbrakk>walk_ok pm s; take_bit (12 + 9 * size_level sz) v = 0; take_bit (12 + 9 * size_level sz) p = 0; p < 2 ^ 48; flags_ok f;
        mp v p f sz s = Inr ((), s')\<rbrakk>
      \<Longrightarrow> maps_page pm sz v p f s s'"
  shows "walk_ok pm s'" and "stay pm (size_level sz) s s'" and "table_at pm s' virt (k - 1) = Some ret"
    and "translate pm s' v' = translate pm s v'"
proof -
  let ?e = "load64 (mem s) (slot b (pt_index k virt))"
  obtain k' where k': "k = Suc k'" using k(1) by (cases k) simp_all
  have kl: "k \<le> levels pm" using table_on_member [OF b] by simp
  have g': "(if PT_IS_TABLE ?e then Inr (pte_addr ?e, s)
       else if PT_IS_LARGE ?e then
         if k \<ge> VMM_MAX_LEVEL \<or> k = 0 then Inl ''Unexpected level in get_next_level''
         else (if pte_addr ?e AND (page_sizes ! k - 1) \<noteq> 0 then Inl ''Unexpected page table entry address in get_next_level''
               else bindo (new_table b (of_nat (pt_index k virt)) s) (\<lambda>ret s1.
                 bindo (each_page (\<lambda>i. mp ((virt AND NOT (page_sizes ! k - 1)) + i) (pte_addr ?e + i) (PT_TO_VMM_FLAGS ?e) sz)
                          (page_sizes ! size_level sz) (unat (page_sizes ! k div page_sizes ! size_level sz)) 0 s1) (\<lambda>_ s2. Inr (ret, s2))))
       else new_table b (of_nat (pt_index k virt)) s) = Inr (ret, s')"
    using g by (simp only: get_next_level_def Let_def pt_entry_index [OF k(2)])
  have "walk_ok pm s' \<and> stay pm (size_level sz) s s' \<and> table_at pm s' virt (k - 1) = Some ret \<and>
    (\<forall>v'. translate pm s' v' = translate pm s v')"
  proof (cases "PT_IS_TABLE ?e")
    case True
    then have "ret = pte_addr ?e" "s' = s" using g' by auto
    moreover have "table_at pm s virt k' = table_on x86_format (mem s) k ?e virt k'"
      using table_on_below [OF b, of virt k'] k' by simp
    ultimately show ?thesis using ok True k' by (simp add: x86_format_def)
  next
    case nt: False
    show ?thesis
    proof (cases "PT_IS_LARGE ?e")
      case False
      with g' nt have n: "new_table b (of_nat (pt_index (Suc k') virt)) s = Inr (ret, s')" by (simp add: k')
      note n' = new_table_ok [OF n ok b [unfolded k'] nt [unfolded k']]
      have "entry_walk x86_format (mem s) (levels pm) (cr3 pm) v' = None" if "same_path k (levels pm) virt v'" for v'
        using walk_at_entry [OF b that] nt False by (simp add: k' x86_format_def)
      then have "translate pm s' v' = translate pm s v'" for v'
        by (intro translate_cong) (simp add: n'(4) k')
      with n' k' show ?thesis using stay_mono [OF n'(2)] by simp
    next
      case large: True
      with g' nt have c: "k < VMM_MAX_LEVEL" "pte_addr ?e AND (page_sizes ! k - 1) = 0" by (auto simp: not_le split: if_splits)
      then have k2: "k \<le> 2" by simp
      from g' nt large c obtain s1 where n: "new_table b (of_nat (pt_index (Suc k') virt)) s = Inr (ret, s1)"
        and r: "each_page (\<lambda>i. mp ((virt AND NOT (page_sizes ! k - 1)) + i) (pte_addr ?e + i) (PT_TO_VMM_FLAGS ?e) sz)
                          (page_sizes ! size_level sz) (unat (page_sizes ! k div page_sizes ! size_level sz)) 0 s1 = Inr ((), s')"
        by (auto simp: k' elim!: bindo_InrE)
      note n' = new_table_ok [OF n ok b [unfolded k'] nt [unfolded k']]
      have low: "take_bit (12 + 9 * k) (pte_addr ?e) = 0" using c(2) not_mask_bits(2) [OF k2] by simp
      have ov: "take_bit (12 + 9 * k) (virt AND NOT (page_sizes ! k - 1)) = 0"
        unfolding aligned_bits not_mask_bits(1) [OF k2] by simp
      have p48: "pte_addr ?e < 2 ^ 48" by (rule below_48) (simp add: pte_addr_bit)
      have fl: "flags_ok (PT_TO_VMM_FLAGS ?e)" by (auto simp: flags_bits vmm_flags_bit)
      have sp: "walk_ok pm s' \<and> stay pm (size_level sz) s1 s' \<and>
        (\<forall>v'. translate pm s' v' = (if same_path k (levels pm) (virt AND NOT (page_sizes ! k - 1)) v'
           then Some (pte_addr ?e + take_bit (12 + 9 * k) v', PT_TO_VMM_FLAGS (PT_TO_VMM_FLAGS ?e)) else translate pm s1 v'))"
        by (rule split_large [where mp = mp and sz = sz, OF r n'(1) k(1) k2 kl ov low p48 fl]) (rule mp; assumption)
      have path: "same_path k (levels pm) (virt AND NOT (page_sizes ! k - 1)) v' \<longleftrightarrow> same_path k (levels pm) virt v'" for v'
        by (simp add: same_path_bits [OF kl] not_mask_bits(1) [OF k2] cong: conj_cong)
      have hi: "12 + 9 * k \<le> n" if "bit ?e n" "12 \<le> n" "n < 48" for n
        using low that by (simp add: aligned_bits pte_addr_bit)
      have fr: "x86_frame k ?e = pte_addr ?e"
        unfolding word_eq_bits frame_bit [OF k2] pte_addr_bit using hi by auto
      have at: "x86_attr k ?e = PT_TO_VMM_FLAGS (PT_TO_VMM_FLAGS ?e)"
        unfolding word_eq_bits attr_bit vmm_flags_bit using k' by auto
      have old: "translate pm s v' = Some (pte_addr ?e + take_bit (12 + 9 * k) v', PT_TO_VMM_FLAGS (PT_TO_VMM_FLAGS ?e))"
        if "same_path k (levels pm) virt v'" for v'
        using walk_at_entry [OF b that] nt large fr at by (simp add: translate_def k' x86_format_def)
      note tr = sp [THEN conjunct2, THEN conjunct2, rule_format]
      have "translate pm s' v' = translate pm s v'" for v'
      proof (cases "same_path k (levels pm) virt v'")
        case True
        have "same_path k (levels pm) (virt AND NOT (page_sizes ! k - 1)) v'" by (rule path [THEN iffD2, OF True])
        from trans [OF tr [of v'] if_P [OF this]] old [OF True] show ?thesis by (rule trans [OF _ sym])
      next
        case False
        then have "translate pm s1 v' = translate pm s v'" by (intro translate_cong) (simp add: n'(4) k')
        moreover have "\<not> same_path k (levels pm) (virt AND NOT (page_sizes ! k - 1)) v'" using False by (rule contrapos_nn) (erule path [THEN iffD1])
        note trans [OF tr [of v'] if_not_P [OF this]]
        ultimately show ?thesis by (rule trans [rotated])
      qed
      moreover have "table_at pm s' virt k' = Some ret"
      proof (rule stay_table [OF sp [THEN conjunct2, THEN conjunct1] _ n'(3)])
        show "size_level sz \<le> k'" using k(1) k' by simp
      qed
      moreover have "stay pm (size_level sz) s s'"
        by (rule stay_trans [OF stay_mono [OF n'(2) le0] sp [THEN conjunct2, THEN conjunct1]])
      moreover have "walk_ok pm s'" by (rule sp [THEN conjunct1])
      moreover have "k - 1 = k'" by (simp add: k')
      ultimately show ?thesis by simp
    qed
  qed
  then show "walk_ok pm s'" and "stay pm (size_level sz) s s'" and "table_at pm s' virt (k - 1) = Some ret"
    and "translate pm s' v' = translate pm s v'" by blast+
qed

section \<open>Mapping a page\<close>

lemma store_leaf:
  assumes "walk_ok pm s" and "table_at pm s v (size_level sz) = Some b"
    and "if size_level sz = 0 then bit e 0 else PT_IS_LARGE e \<and> \<not> PT_IS_TABLE e"
    and "x86_frame (size_level sz) e = p" and "x86_attr (size_level sz) e = PT_TO_VMM_FLAGS f"
  shows "maps_page pm sz v p f s (set_entry b (pt_entry (size_level sz) v) e s)"
proof -
  have z: "size_level sz \<le> 4" by (cases sz) simp_all
  have s': "set_entry b (pt_entry (size_level sz) v) e s = s\<lparr>mem := store64 (slot b (pt_index (size_level sz) v)) e (mem s)\<rparr>"
    by (simp add: set_entry_def pt_entry_index [OF z])
  have leaf: "size_level sz = 0 \<or> \<not> pf_table x86_format e" using assms(3) by (auto simp: x86_format_def)
  note st = x86.store_entry [OF assms(1,2) leaf s']
  have w: "entry_walk x86_format mm (size_level sz) e v' = Some (size_level sz, e)" for mm v'
    using assms(3) by (cases "size_level sz") (simp_all add: x86_format_def)
  have "translate pm (set_entry b (pt_entry (size_level sz) v) e s) v' =
      (if same_path (size_level sz) (levels pm) v v' then Some (p + take_bit (12 + 9 * size_level sz) v', PT_TO_VMM_FLAGS f) else translate pm s v')" for v'
    by (simp add: translate_def st(3) [where mm = "mem s"] w assms(4,5))
  moreover have "stay pm (size_level sz) s (set_entry b (pt_entry (size_level sz) v) e s)"
    using st(2) by (auto simp: stay_def clear_def st(3) [where mm = "mem s"] w split: if_splits)
  ultimately show ?thesis using st(1) by (simp add: maps_page_def)
qed

lemma maps_page_after:
  assumes "maps_page pm sz v p f s1 s'" and "stay pm (size_level sz) s s1" and "\<And>v'. translate pm s1 v' = translate pm s v'"
  shows "maps_page pm sz v p f s s'"
  using assms stay_trans by (auto simp: maps_page_def)

text \<open>The tables hang below a pagemap whose top table the allocator gave.\<close>

definition pagemap_ok :: "pagemap \<Rightarrow> pmm_state \<Rightarrow> bool" where
  "pagemap_ok pm s \<longleftrightarrow> levels pm \<in> {4, 5} \<and> page_aligned_ptr (top_level pm) \<and> top_level pm < 0x100000000 \<and> walk_ok pm s"

lemma top_table: "pagemap_ok pm s \<Longrightarrow> table_at pm s v (levels pm - 1) = Some (top_level pm)"
proof -
  assume "pagemap_ok pm s"
  then have "levels pm = Suc (levels pm - 1)" "pf_table x86_format (cr3 pm) \<and> pf_addr x86_format (cr3 pm) = top_level pm"
    using x86.table_entry [of "top_level pm"] by (auto simp: pagemap_ok_def cr3_def)
  then show ?thesis by (metis table_on.simps(2))
qed

lemma valid_flags:
  assumes "flags_ok f"
  shows "flags_ok (f OR PT_FLAG_VALID)" and "bit (f OR PT_FLAG_VALID) 0" and "PT_TO_VMM_FLAGS (f OR PT_FLAG_VALID) = PT_TO_VMM_FLAGS f"
proof -
  have b: "bit (f OR PT_FLAG_VALID) n \<longleftrightarrow> bit f n \<or> n = 0" for n by (auto simp: bit_or_iff bit_1_iff)
  show "flags_ok (f OR PT_FLAG_VALID)" using assms by (auto simp: flags_bits b)
  show "bit (f OR PT_FLAG_VALID) 0" by (simp add: b)
  show "PT_TO_VMM_FLAGS (f OR PT_FLAG_VALID) = PT_TO_VMM_FLAGS f" unfolding word_eq_bits vmm_flags_bit b by auto
qed

lemma map_page_ok:
  "\<lbrakk>map_page n True gib pm v p f sz s = Inr ((), s'); pagemap_ok pm s; take_bit (12 + 9 * size_level sz) v = 0;
     take_bit (12 + 9 * size_level sz) p = 0; p < 2 ^ 48; flags_ok f\<rbrakk> \<Longrightarrow> maps_page pm sz v p f s s'"
proof (induction n arbitrary: v p f sz s s')
  case (Suc n)
  let ?next = "get_next_level (map_page n True gib pm)" and ?z = "size_level sz" and ?f = "f OR PT_FLAG_VALID"
  note fl = valid_flags [OF Suc.prems(6)]
  have pm: "levels pm \<in> {4, 5}" "walk_ok pm s" and top: "pagemap_ok pm t \<longleftrightarrow> walk_ok pm t" for t
    using Suc.prems(2) by (auto simp: pagemap_ok_def)
  have mp: "maps_page pm sz' v p f s s'"
    if "walk_ok pm s" "take_bit (12 + 9 * size_level sz') v = 0" "take_bit (12 + 9 * size_level sz') p = 0" "p < 2 ^ 48" "flags_ok f"
      "map_page n True gib pm v p f sz' s = Inr ((), s')" for sz' v p f s s'
    using Suc.IH [OF that(6) _ that(2-5)] that(1) top by blast
  have z: "?z \<le> 2" by (cases sz) simp_all
  have nx: "walk_ok pm t' \<and> stay pm ?z t t' \<and> table_at pm t' v (k - 1) = Some ret \<and> (\<forall>v'. translate pm t' v' = translate pm t v')"
    if "?next b v sz k (pt_entry k v) t = Inr (ret, t')" "walk_ok pm t" "table_at pm t v k = Some b" "?z < k" "k \<le> 4" for b k t ret t'
    using get_next_level_ok [OF that] mp by blast
  note run = Suc.prems(1) [unfolded map_page.simps map_step_def Let_def simp_thms if_False]
  have "(if ?f AND VMM_FLAG_FB \<noteq> 0 \<and> False then ?f AND NOT VMM_FLAG_FB else ?f) = ?f" by simp
  from run obtain pml4 s1 pml3 s2 where
    r4: "(if levels pm = 5 then ?next (top_level pm) v sz 4 (pt_entry 4 v) s else Inr (top_level pm, s)) = Inr (pml4, s1)" and
    r3: "?next pml4 v sz 3 (pt_entry 3 v) s1 = Inr (pml3, s2)" and
    r: "(if sz = Size1GiB then
             if gib then Inr ((), set_entry pml3 (pt_entry 2 v) (p OR ?f OR PT_FLAG_LARGE) s2)
             else each_page (\<lambda>i. map_page n True gib pm (v + i) (p + i) ?f Size2MiB) 0x200000 512 0 s2
           else bindo (?next pml3 v sz 2 (pt_entry 2 v) s2) (\<lambda>pml2 s3.
             if sz = Size2MiB then Inr ((), set_entry pml2 (pt_entry 1 v) (p OR ?f OR PT_FLAG_LARGE) s3)
             else bindo (?next pml2 v sz 1 (pt_entry 1 v) s3) (\<lambda>pml1 s4.
               Inr ((), set_entry pml1 (pt_entry 0 v) (p OR (if ?f AND 0x1000 \<noteq> 0 then (?f AND NOT 0x1000) OR 0x80 else ?f)) s4)))) = Inr ((), s')"
    by (auto elim!: bindo_InrE)
  have a4: "walk_ok pm s1 \<and> stay pm ?z s s1 \<and> table_at pm s1 v 3 = Some pml4 \<and> (\<forall>v'. translate pm s1 v' = translate pm s v')"
  proof (cases "levels pm = 5")
    case True
    with nx [of "top_level pm" 4 s pml4 s1] r4 pm(2) top_table [OF Suc.prems(2), of v] z show ?thesis by simp
  next
    case False
    with r4 pm top_table [OF Suc.prems(2), of v] show ?thesis by simp
  qed
  then have b4: "walk_ok pm s1" "stay pm ?z s s1" "table_at pm s1 v 3 = Some pml4" "translate pm s1 v' = translate pm s v'" for v' by blast+
  from nx [OF r3 b4(1,3)] z have "walk_ok pm s2 \<and> stay pm ?z s1 s2 \<and> table_at pm s2 v 2 = Some pml3 \<and> (\<forall>v'. translate pm s2 v' = translate pm s1 v')" by simp
  with b4 have a3: "walk_ok pm s2" "stay pm ?z s s2" "table_at pm s2 v 2 = Some pml3" "translate pm s2 v' = translate pm s v'" for v'
    using stay_trans by auto
  show ?case
  proof (cases sz)
    case Size1GiB
    have al: "take_bit 30 p = 0" "take_bit 30 v = 0" using Suc.prems(3,4) Size1GiB by simp_all
    have "maps_page pm sz v p f s2 s'"
    proof (cases gib)
      case True
      with r Size1GiB have s': "s' = set_entry pml3 (pt_entry 2 v) (p OR ?f OR PT_FLAG_LARGE) s2" by simp
      note lf = large_leaf [of 2 p ?f, OF _ _ Suc.prems(5) fl(1,2) refl]
      show ?thesis using store_leaf [of pm s2 v Size1GiB pml3 "p OR ?f OR PT_FLAG_LARGE" p f] a3 lf al fl(3)
        by (simp add: s' Size1GiB)
    next
      case False
      with r Size1GiB have e: "each_page (\<lambda>i. map_page n True gib pm (v + i) (p + i) ?f Size2MiB) (page_sizes ! size_level Size2MiB)
          (unat (page_sizes ! 2 div page_sizes ! size_level Size2MiB)) 0 s2 = Inr ((), s')"
        by (simp add: page_sizes_def)
      have "2 \<le> levels pm" using pm by auto
      moreover have "size_level Size2MiB < 2" "(2 :: nat) \<le> 2" "take_bit (12 + 9 * 2) v = 0" "take_bit (12 + 9 * 2) p = 0" using al by simp_all
      ultimately have "walk_ok pm s' \<and> stay pm (size_level Size2MiB) s2 s' \<and>
        (\<forall>v'. translate pm s' v' = (if same_path 2 (levels pm) v v' then Some (p + take_bit (12 + 9 * 2) v', PT_TO_VMM_FLAGS ?f) else translate pm s2 v'))"
        by (intro split_large [where mp = "map_page n True gib pm" and sz = Size2MiB and k = 2, OF e a3(1) _ _ _ _ _ Suc.prems(5) fl(1)]) (assumption | rule mp)+
      moreover from this have "stay pm (size_level Size1GiB) s2 s'" using stay_mono [of pm "size_level Size2MiB" s2 s' 2] by simp
      ultimately show ?thesis unfolding maps_page_def Size1GiB size_level.simps fl(3) by blast
    qed
    from maps_page_after [OF this a3(2,4)] show ?thesis .
  next
    case Size2MiB
    have al: "take_bit 21 p = 0" using Suc.prems(4) Size2MiB by simp
    from r Size2MiB obtain pml2 s3 where r2: "?next pml3 v sz 2 (pt_entry 2 v) s2 = Inr (pml2, s3)"
      and s': "s' = set_entry pml2 (pt_entry 1 v) (p OR ?f OR PT_FLAG_LARGE) s3" by (auto elim!: bindo_InrE)
    from nx [OF r2 a3(1,3)] Size2MiB have a2: "walk_ok pm s3" "stay pm ?z s2 s3" "table_at pm s3 v 1 = Some pml2" "translate pm s3 v' = translate pm s2 v'" for v'
      by simp_all
    note lf = large_leaf [of 1 p ?f, OF _ _ Suc.prems(5) fl(1,2) refl]
    have "maps_page pm sz v p f s3 s'"
      using store_leaf [of pm s3 v Size2MiB pml2 "p OR ?f OR PT_FLAG_LARGE" p f] a2(1,3) lf al fl(3) by (simp add: s' Size2MiB)
    from maps_page_after [OF this a2(2,4)] maps_page_after [OF _ a3(2,4)] show ?thesis by blast
  next
    case Size4KiB
    define e where "e = p OR (if ?f AND 0x1000 \<noteq> 0 then (?f AND NOT 0x1000) OR 0x80 else ?f)"
    have al: "take_bit 12 p = 0" using Suc.prems(4) Size4KiB by simp
    from r Size4KiB obtain pml2 s3 pml1 s4 where r2: "?next pml3 v sz 2 (pt_entry 2 v) s2 = Inr (pml2, s3)"
      and r1: "?next pml2 v sz 1 (pt_entry 1 v) s3 = Inr (pml1, s4)" and s': "s' = set_entry pml1 (pt_entry 0 v) e s4" by (auto simp: e_def elim!: bindo_InrE)
    from nx [OF r2 a3(1,3)] Size4KiB have a2: "walk_ok pm s3" "stay pm ?z s2 s3" "table_at pm s3 v 1 = Some pml2" "translate pm s3 v' = translate pm s2 v'" for v'
      by simp_all
    from nx [OF r1 a2(1,3)] Size4KiB have a1: "walk_ok pm s4" "stay pm ?z s3 s4" "table_at pm s4 v 0 = Some pml1" "translate pm s4 v' = translate pm s3 v'" for v'
      by simp_all
    note lf = small_leaf [OF al Suc.prems(5) fl(1,2) e_def]
    have "maps_page pm sz v p f s4 s'"
      using store_leaf [of pm s4 v Size4KiB pml1 e p f] a1(1,3) lf fl(3) by (simp add: s' Size4KiB)
    from maps_page_after [OF this a1(2,4)] maps_page_after [OF _ a2(2,4)] maps_page_after [OF _ a3(2,4)] show ?thesis by blast
  qed
qed (simp add: map_page.simps)

end
