(* ===== verification/Vmm_Pages.thy ===== *)
theory Vmm_Pages
  imports Vmm_Correct
begin

text \<open>
  A run of pages: \<open>map_pages\<close> translates the whole range and leaves the rest alone; and the
  nesting of \<open>map_page\<close> in itself never reaches the depth given to it.
\<close>

unbundle bit_operations_syntax

section \<open>Distances\<close>

lemma uint_take_bit: "uint (take_bit k (w :: u64)) = uint w mod 2 ^ k"
  using unsigned_take_bit_eq [of k w, where 'a = int] by (simp add: take_bit_eq_mod [of k "uint w"])

lemma uint_take_bit_diff: "k \<le> 64 \<Longrightarrow> uint (take_bit k (a - b :: u64)) = (uint a - uint b) mod 2 ^ k"
  unfolding uint_take_bit uint_word_ariths by (intro mod_mod_cancel le_imp_power_dvd) simp

lemma uint_drop: "uint (drop_bit k (w :: u64)) = uint w div 2 ^ k"
proof -
  have "int (unat (drop_bit k w)) = int (unat w) div 2 ^ k" by (simp add: unat_shift_div zdiv_int)
  then show ?thesis by simp
qed

lemma block_arith:
  fixes A B v V :: int
  assumes "0 < A" and "0 < B" and "V mod A = 0"
  shows "(v div A) mod B = (V div A) mod B \<longleftrightarrow> (v - V) mod (A * B) < A"
    and "(v div A) mod B = (V div A) mod B \<Longrightarrow> v mod A = (v - V) mod (A * B)"
proof -
  have V: "V = A * (V div A)" using assms(3) by (metis add_0_right mult_div_mod_eq)
  then have "v - V = v + A * (- (V div A))" by simp
  moreover have "A \<noteq> 0" using assms(1) by simp
  ultimately have d: "(v - V) div A = v div A - V div A" and m: "(v - V) mod A = v mod A"
    using div_mult_self2 [of A v "- (V div A)"] mod_mult_self2 [of v A "- (V div A)"] by simp_all
  have e: "(v - V) mod (A * B) = A * ((v div A - V div A) mod B) + v mod A"
    using zmod_zmult2_eq [of B "v - V" A] assms(2) by (simp add: d m)
  have q: "(v div A) mod B = (V div A) mod B \<longleftrightarrow> (v div A - V div A) mod B = 0"
    by (simp add: mod_eq_dvd_iff dvd_eq_mod_eq_0)
  have r: "0 \<le> v mod A" "v mod A < A" "0 \<le> (v div A - V div A) mod B" using assms(1,2) by simp_all
  show "(v div A) mod B = (V div A) mod B \<Longrightarrow> v mod A = (v - V) mod (A * B)" unfolding q e by simp
  show "(v div A) mod B = (V div A) mod B \<longleftrightarrow> (v - V) mod (A * B) < A"
  proof
    assume l: "(v - V) mod (A * B) < A"
    show "(v div A) mod B = (V div A) mod B"
    proof (rule ccontr)
      assume "(v div A) mod B \<noteq> (V div A) mod B"
      then have "1 \<le> (v div A - V div A) mod B" unfolding q using r(3) by linarith
      then have "A * 1 \<le> A * ((v div A - V div A) mod B)" using assms(1) by (intro mult_left_mono) simp_all
      with l e r(1) show False by linarith
    qed
  qed (use r e q in simp)
qed

lemma in_page:
  assumes "take_bit (12 + 9 * z) V = 0" and "z \<le> l" and "l \<le> 5"
  shows "same_path z l V v \<longleftrightarrow> uint (take_bit (12 + 9 * l) (v - V)) < 2 ^ (12 + 9 * z)" (is "?S \<longleftrightarrow> ?D < _")
    and "same_path z l V v \<Longrightarrow> uint (take_bit (12 + 9 * z) v) = uint (take_bit (12 + 9 * l) (v - V))"
proof -
  let ?m = "12 + 9 * z" and ?L = "12 + 9 * l"
  have L: "?L \<le> 64" "?m \<le> ?L" using assms by simp_all
  have V: "uint V mod 2 ^ ?m = 0" using assms(1) uint_take_bit [of ?m V] by simp
  have path: "?S \<longleftrightarrow> take_bit (?L - ?m) (drop_bit ?m v) = take_bit (?L - ?m) (drop_bit ?m V)" (is "_ \<longleftrightarrow> ?T")
  proof
    assume ?S
    then have "bit V n = bit v n" if "?m \<le> n" "n < ?L" for n using that unfolding same_path_bits [OF assms(2)] by blast
    then show ?T unfolding word_eq_bits bit_take_bit_iff bit_drop_bit_eq comp_def by auto
  next
    assume T: ?T
    show ?S unfolding same_path_bits [OF assms(2)]
    proof (intro allI impI)
      fix n assume n: "?m \<le> n \<and> n < ?L"
      then have "n - ?m < ?L - ?m" by arith
      with n T [unfolded word_eq_bits bit_take_bit_iff bit_drop_bit_eq comp_def, rule_format, of "n - ?m"]
      show "bit V n = bit v n" by simp
    qed
  qed
  have u: "uint (take_bit (?L - ?m) (drop_bit ?m w)) = (uint w div 2 ^ ?m) mod 2 ^ (?L - ?m)" for w :: u64
    by (simp add: uint_take_bit uint_drop)
  have S: "?S \<longleftrightarrow> (uint v div 2 ^ ?m) mod 2 ^ (?L - ?m) = (uint V div 2 ^ ?m) mod 2 ^ (?L - ?m)"
    unfolding path word_uint_eq_iff u ..
  have "(2 :: int) ^ ?L = 2 ^ ?m * 2 ^ (?L - ?m)" using L(2) by (metis le_add_diff_inverse power_add)
  then have D: "?D = (uint v - uint V) mod (2 ^ ?m * 2 ^ (?L - ?m))" using uint_take_bit_diff [OF L(1)] by simp
  show "?S \<longleftrightarrow> ?D < 2 ^ ?m" unfolding S D by (rule block_arith(1) [OF _ _ V]) simp_all
  show "?S \<Longrightarrow> uint (take_bit ?m v) = ?D" unfolding S unfolding D unfolding uint_take_bit by (rule block_arith(2) [OF _ _ V]) simp_all
qed

section \<open>A run of pages\<close>

text \<open>How far an address lies behind the start of a range, in the address space of the pagemap.\<close>

definition distance :: "pagemap \<Rightarrow> u64 \<Rightarrow> u64 \<Rightarrow> nat" where
  "distance pm virt v = unat (take_bit (12 + 9 * levels pm) (v - virt))"

lemma maps_page_pagemap: "maps_page pm sz v p f s s' \<Longrightarrow> pagemap_ok pm s \<Longrightarrow> pagemap_ok pm s'"
  by (simp add: maps_page_def pagemap_ok_def)

lemma maps_page_range:
  assumes m: "maps_page pm sz (virt + of_nat i) (phys + of_nat i) f s s'" and pm: "pagemap_ok pm s"
    and al: "take_bit (12 + 9 * size_level sz) (virt + of_nat i) = 0"
    and fit: "i + 2 ^ (12 + 9 * size_level sz) \<le> 2 ^ (12 + 9 * levels pm)"
  shows "translate pm s' v =
    (if i \<le> distance pm virt v \<and> distance pm virt v < i + 2 ^ (12 + 9 * size_level sz)
     then Some (phys + of_nat (distance pm virt v), PT_TO_VMM_FLAGS f) else translate pm s v)"
proof -
  let ?z = "size_level sz" and ?L = "12 + 9 * levels pm" and ?d = "distance pm virt v"
  have l: "?z \<le> levels pm" "levels pm \<le> 5" using pm by (cases sz; auto simp: pagemap_ok_def)+
  then have L: "?L \<le> 64" by simp
  have i: "i < 2 ^ ?L" using fit by (metis add_leD1 le_neq_implies_less less_add_same_cancel1 not_less zero_less_numeral zero_less_power)
  moreover have "(2 :: nat) ^ ?L \<le> 2 ^ 64" using L by (rule power_increasing) simp
  ultimately have ui: "uint (of_nat i :: u64) = int i" by (simp add: unsigned_of_nat take_bit_nat_eq_self)
  have d: "int ?d = (uint v - uint virt) mod 2 ^ ?L" by (simp add: distance_def uint_take_bit_diff [OF L])
  have "uint (take_bit ?L (v - (virt + of_nat i))) = (uint (v - virt) - uint (of_nat i :: u64)) mod 2 ^ ?L"
    using uint_take_bit_diff [OF L, of "v - virt" "of_nat i"] by (simp add: diff_diff_eq)
  also have "\<dots> = (uint (v - virt) mod 2 ^ ?L - int i) mod 2 ^ ?L" by (simp add: ui mod_diff_left_eq)
  also have "uint (v - virt) mod 2 ^ ?L = int ?d" by (simp add: distance_def uint_take_bit)
  finally have D: "uint (take_bit ?L (v - (virt + of_nat i))) = (int ?d - int i) mod 2 ^ ?L" .
  have dl: "int ?d < 2 ^ ?L" using d by simp
  have "(int ?d - int i) mod 2 ^ ?L < 2 ^ (12 + 9 * ?z) \<longleftrightarrow> i \<le> ?d \<and> ?d < i + 2 ^ (12 + 9 * ?z)"
  proof (cases "i \<le> ?d")
    case True
    then have "(int ?d - int i) mod 2 ^ ?L = int ?d - int i" using dl by (intro mod_pos_pos_trivial) linarith+
    moreover have "int ?d < int (i + 2 ^ (12 + 9 * ?z)) \<longleftrightarrow> ?d < i + 2 ^ (12 + 9 * ?z)" by (rule of_nat_less_iff)
    moreover have "int (i + 2 ^ (12 + 9 * ?z)) = int i + 2 ^ (12 + 9 * ?z)" by simp
    ultimately show ?thesis using True by (intro iffI conjI; linarith)
  next
    case False
    moreover have "int i < 2 ^ ?L" using i by (metis of_nat_less_iff of_nat_numeral of_nat_power)
    ultimately have "(int ?d - int i + 2 ^ ?L) mod 2 ^ ?L = int ?d - int i + 2 ^ ?L" by (intro mod_pos_pos_trivial) linarith+
    then have "(int ?d - int i) mod 2 ^ ?L = int ?d - int i + 2 ^ ?L" by simp
    moreover have "int i + 2 ^ (12 + 9 * ?z) \<le> 2 ^ ?L" 
    proof -
      have "int (i + 2 ^ (12 + 9 * ?z)) \<le> int (2 ^ ?L)" using fit by (simp only: of_nat_le_iff)
      then show ?thesis by simp
    qed
    ultimately show ?thesis using False by linarith
  qed
  with in_page(1) [OF al l] D have S: "same_path ?z (levels pm) (virt + of_nat i) v \<longleftrightarrow> i \<le> ?d \<and> ?d < i + 2 ^ (12 + 9 * ?z)" by simp
  have "phys + of_nat i + take_bit (12 + 9 * ?z) v = phys + of_nat ?d" if "same_path ?z (levels pm) (virt + of_nat i) v"
  proof -
    have "i \<le> ?d" using S that by blast
    then have "(int ?d - int i) mod 2 ^ ?L = int ?d - int i" using dl by (intro mod_pos_pos_trivial) linarith+
    with \<open>i \<le> ?d\<close> have "(int ?d - int i) mod 2 ^ ?L = int (?d - i)" by (simp add: of_nat_diff)
    with in_page(2) [OF al l that] D have "uint (take_bit (12 + 9 * ?z) v) = int (?d - i)" by simp
    then have "of_int (uint (take_bit (12 + 9 * ?z) v)) = (of_int (int (?d - i)) :: u64)" by simp
    then have "take_bit (12 + 9 * ?z) v = of_nat (?d - i)" by simp
    with \<open>i \<le> ?d\<close> show ?thesis by (simp add: add.assoc of_nat_add [symmetric] del: of_nat_add)
  qed
  with m S show ?thesis by (auto simp: maps_page_def)
qed

lemma unat_page_sizes: "unat (page_sizes ! size_level sz) = 2 ^ (12 + 9 * size_level sz)"
  by (cases sz) (simp_all add: page_sizes_def)

lemma next_chunk_aligned:
  assumes "unat virt mod 4096 = 0" and "unat phys mod 4096 = 0" and "unat cnt mod 4096 = 0" and "i mod 4096 = 0" and "i < unat cnt"
    and "unat phys + unat cnt \<le> 2 ^ 48" and "sz = next_chunk virt phys cnt (of_nat i)"
  shows "take_bit (12 + 9 * size_level sz) (virt + of_nat i) = 0" and "take_bit (12 + 9 * size_level sz) (phys + of_nat i) = 0"
    and "i + 2 ^ (12 + 9 * size_level sz) \<le> unat cnt" and "phys + of_nat i < 2 ^ 48"
proof -
  have i64: "i < 2 ^ 64" using assms(5) unsigned_less [of cnt, where 'a = nat] by simp
  then have ui: "unat (of_nat i :: u64) = i" by (simp add: unsigned_of_nat take_bit_nat_eq_self)
  have ci: "unat (cnt - of_nat i) = unat cnt - i" using assms(5) ui by (simp add: unat_sub word_le_nat_alt)
  have "unat (phys + of_nat i) = unat phys + i" using assms(5,6) ui by (subst unat_add_lem [THEN iffD1]) simp_all
  then show "phys + of_nat i < 2 ^ 48" using assms(5,6) by (simp add: word_less_nat_alt)
  have big: "take_bit (12 + 9 * size_level z) (virt + of_nat i) = 0 \<and> take_bit (12 + 9 * size_level z) (phys + of_nat i) = 0 \<and>
      i + 2 ^ (12 + 9 * size_level z) \<le> unat cnt"
    if c: "chunk_fits virt phys cnt (of_nat i) (page_sizes ! size_level z)" for z
  proof -
    have k: "size_level z \<le> 2" by (cases z) simp_all
    have "page_sizes ! size_level z \<le> cnt - of_nat i" using c by (simp add: chunk_fits_def)
    then have "2 ^ (12 + 9 * size_level z) \<le> unat cnt - i" by (simp only: word_le_nat_alt ci unat_page_sizes)
    then show ?thesis using c not_mask_bits(2) [OF k] assms(5) by (simp add: chunk_fits_def)
  qed
  have small: "take_bit 12 (w + of_nat i) = 0" if "unat w mod 4096 = 0" for w :: u64
  proof -
    have "2 ^ 12 dvd w" "(2 :: u64) ^ 12 dvd of_nat i"
      using that assms(4) take_bit_eq_0_iff [of 12 w] unat_mask_mod [of 12 w] take_bit_eq_0_iff [of 12 "of_nat i :: u64"] unat_mask_mod [of 12 "of_nat i :: u64"] ui
      by (simp_all add: word_unat_eq_iff)
    then show ?thesis by (simp add: take_bit_eq_0_iff dvd_add)
  qed
  have "i + 4096 \<le> unat cnt" using assms(3-5) by (auto simp: mod_eq_0_iff_dvd elim!: dvdE)
  then have "take_bit (12 + 9 * size_level sz) (virt + of_nat i) = 0 \<and> take_bit (12 + 9 * size_level sz) (phys + of_nat i) = 0 \<and>
      i + 2 ^ (12 + 9 * size_level sz) \<le> unat cnt"
    using big [of Size1GiB] big [of Size2MiB] small [OF assms(1)] small [OF assms(2)]
    by (cases sz) (auto simp: assms(7) next_chunk_def page_sizes_def split: if_splits)
  then show "take_bit (12 + 9 * size_level sz) (virt + of_nat i) = 0" and "take_bit (12 + 9 * size_level sz) (phys + of_nat i) = 0"
    and "i + 2 ^ (12 + 9 * size_level sz) \<le> unat cnt" by blast+
qed

lemma map_pages_from_ok:
  assumes "unat virt mod 4096 = 0" and "unat phys mod 4096 = 0" and "unat cnt mod 4096 = 0" and "unat phys + unat cnt \<le> 2 ^ 48"
    and "flags_ok f"
  shows "\<lbrakk>map_pages_from True gib pm virt phys f cnt i s = Inr ((), s'); pagemap_ok pm s; i mod 4096 = 0; unat cnt \<le> 2 ^ (12 + 9 * levels pm)\<rbrakk> \<Longrightarrow>
    pagemap_ok pm s' \<and> (\<forall>v. translate pm s' v =
      (if i \<le> distance pm virt v \<and> distance pm virt v < unat cnt then Some (phys + of_nat (distance pm virt v), PT_TO_VMM_FLAGS f) else translate pm s v))"
proof (induction "unat cnt - i" arbitrary: i s rule: less_induct)
  case less
  show ?case
  proof (cases "i < unat cnt")
    case True
    define sz where "sz = next_chunk virt phys cnt (of_nat i)"
    let ?n = "2 ^ (12 + 9 * size_level sz) :: nat"
    from less.prems(1) True obtain s1 where m: "map_page 3 True gib pm (virt + of_nat i) (phys + of_nat i) f sz s = Inr ((), s1)"
      and r: "map_pages_from True gib pm virt phys f cnt (i + ?n) s1 = Inr ((), s')"
      unfolding map_pages_from.simps [of _ _ _ _ _ _ _ i] by (auto simp: sz_def [symmetric] Let_def unat_page_sizes elim!: bindo_InrE)
    note c = next_chunk_aligned [OF assms(1-3) less.prems(3) True assms(4) sz_def]
    note mp = map_page_ok [OF m less.prems(2) c(1,2,4) assms(5)]
    have fit: "i + ?n \<le> 2 ^ (12 + 9 * levels pm)" using c(3) less.prems(4) by (rule le_trans)
    note t = maps_page_range [OF mp less.prems(2) c(1) fit]
    have dec: "unat cnt - (i + ?n) < unat cnt - i" using True by (intro diff_less_mono2) simp_all
    have "(i + ?n) mod 4096 = 0" using less.prems(3) by (cases sz) (simp_all add: mod_eq_0_iff_dvd)
    from less.hyps [OF dec r maps_page_pagemap [OF mp less.prems(2)] this less.prems(4)]
    have ih: "pagemap_ok pm s'" "translate pm s' v =
        (if i + ?n \<le> distance pm virt v \<and> distance pm virt v < unat cnt then Some (phys + of_nat (distance pm virt v), PT_TO_VMM_FLAGS f) else translate pm s1 v)" for v
      by blast+
    have "translate pm s' v =
        (if i \<le> distance pm virt v \<and> distance pm virt v < unat cnt then Some (phys + of_nat (distance pm virt v), PT_TO_VMM_FLAGS f) else translate pm s v)" for v
      unfolding ih(2) t using c(3) by auto
    with ih(1) show ?thesis by blast
  next
    case False
    with less.prems(1,2) show ?thesis by (auto simp: map_pages_from.simps [of _ _ _ _ _ _ _ i])
  qed
qed

lemma subpage_aligned:
  assumes "take_bit (12 + 9 * k) op = 0" and "j < 2 ^ (9 * (k - z))" and "z \<le> k" and "k \<le> 2"
  shows "take_bit (12 + 9 * z) (op + of_nat j * 2 ^ (12 + 9 * z) :: u64) = 0"
  using assms(3) unfolding aligned_bits by (auto simp: add_subpage [OF assms])

lemma subpage_below:
  assumes "take_bit (12 + 9 * k) op = 0" and "op < (2 ^ 48 :: u64)" and "j < 2 ^ (9 * (k - z))" and "z \<le> k" and "k \<le> 2"
  shows "op + of_nat j * 2 ^ (12 + 9 * z) < (2 ^ 48 :: u64)"
  using assms(5) phys_bits [OF assms(1,2)] unfolding add_subpage [OF assms(1,3-5)]
  by (intro below_48) (auto simp: add_subpage [OF assms(1,3-5)] split: if_splits)

section \<open>The depth of the recursion\<close>

text \<open>Two depths do the same on the pages of a size: everywhere, or where no larger page is in the way.\<close>

definition mappable :: "pagemap \<Rightarrow> page_size \<Rightarrow> u64 \<Rightarrow> u64 \<Rightarrow> u64 \<Rightarrow> pmm_state \<Rightarrow> bool" where
  "mappable pm sz v p f s \<longleftrightarrow> pagemap_ok pm s \<and> take_bit (12 + 9 * size_level sz) v = 0 \<and>
     take_bit (12 + 9 * size_level sz) p = 0 \<and> p < 2 ^ 48 \<and> flags_ok f"

definition same_depth :: "bool \<Rightarrow> bool \<Rightarrow> pagemap \<Rightarrow> page_size \<Rightarrow> nat \<Rightarrow> nat \<Rightarrow> bool" where
  "same_depth any gib pm sz m n \<longleftrightarrow>
     (\<forall>v p f s. mappable pm sz v p f s \<and> (any \<or> clear pm (size_level sz) s v) \<longrightarrow>
        map_page m True gib pm v p f sz s = map_page n True gib pm v p f sz s)"

lemma mapped: "\<lbrakk>map_page n True gib pm v p f sz s = Inr ((), s'); mappable pm sz v p f s\<rbrakk> \<Longrightarrow> maps_page pm sz v p f s s'"
  using map_page_ok by (simp add: mappable_def)

lemma bindo_eq: "(\<And>a t. x = Inr (a, t) \<Longrightarrow> f a t = g a t) \<Longrightarrow> bindo x f = bindo x g"
  by (cases x) (auto simp: bindo_def)

lemma next_level:
  assumes "get_next_level (map_page m True gib pm) b v sz k (pt_entry k v) t = Inr (ret, t')" and "pagemap_ok pm t"
    and "table_at pm t v k = Some b" and "size_level sz < k" and "k \<le> 4"
  shows "pagemap_ok pm t' \<and> stay pm (size_level sz) t t' \<and> table_at pm t' v (k - 1) = Some ret"
proof -
  have mp: "maps_page pm sz v p f s s'"
    if "walk_ok pm s" "take_bit (12 + 9 * size_level sz) v = 0" "take_bit (12 + 9 * size_level sz) p = 0" "p < 2 ^ 48" "flags_ok f"
      "map_page m True gib pm v p f sz s = Inr ((), s')" for v p f s s'
    using map_page_ok [OF that(6) _ that(2-5)] that(1) assms(2) by (simp add: pagemap_ok_def)
  have "walk_ok pm t" using assms(2) by (simp add: pagemap_ok_def)
  note g = get_next_level_ok [OF assms(1) this assms(3-5)]
  have "walk_ok pm t'" "stay pm (size_level sz) t t'" "table_at pm t' v (k - 1) = Some ret" using g mp by blast+
  with assms(2) show ?thesis by (simp add: pagemap_ok_def)
qed

lemma each_page_eq:
  assumes "\<And>j s. \<lbrakk>j < N; Inv s\<rbrakk> \<Longrightarrow> F (of_nat j * st) s = G (of_nat j * st) s"
    and "\<And>j s s'. \<lbrakk>j < N; Inv s; F (of_nat j * st) s = Inr ((), s')\<rbrakk> \<Longrightarrow> Inv s'"
  shows "\<lbrakk>n \<le> N; Inv s\<rbrakk> \<Longrightarrow> each_page F st n (of_nat (N - n) * st) s = each_page G st n (of_nat (N - n) * st) s"
proof (induction n arbitrary: s)
  case (Suc n)
  let ?j = "N - Suc n"
  have j: "?j < N" "of_nat ?j * st + st = of_nat (N - n) * st"
    using Suc.prems(1) by (simp_all add: Suc_diff_Suc [symmetric] algebra_simps)
  have "bindo (F (of_nat ?j * st) s) (\<lambda>_ s1. each_page F st n (of_nat (N - n) * st) s1) =
      bindo (F (of_nat ?j * st) s) (\<lambda>_ s1. each_page G st n (of_nat (N - n) * st) s1)"
    using Suc.IH assms(2) [OF j(1) Suc.prems(2)] Suc.prems(1) by (intro bindo_eq) auto
  then show ?case using assms(1) [OF j(1) Suc.prems(2)] by (simp add: j(2))
qed simp

lemma next_level_eq:
  assumes pm: "pagemap_ok pm s" and b: "table_at pm s v k = Some b" and k: "size_level sz < k" "k \<le> 4"
    and c: "sz \<noteq> Size1GiB \<longrightarrow> clear pm (size_level sz) s v \<or> same_depth False gib pm sz m n"
  shows "get_next_level (map_page m True gib pm) b v sz k (pt_entry k v) s = get_next_level (map_page n True gib pm) b v sz k (pt_entry k v) s"
proof -
  let ?e = "load64 (mem s) (slot b (pt_index k v))" and ?z = "size_level sz"
  show ?thesis
  proof (cases "PT_IS_TABLE ?e \<or> \<not> PT_IS_LARGE ?e \<or> k \<ge> VMM_MAX_LEVEL \<or> pte_addr ?e AND (page_sizes ! k - 1) \<noteq> 0")
    case True
    then show ?thesis by (auto simp: get_next_level_def Let_def pt_entry_index [OF k(2)])
  next
    case False
    then have e: "\<not> PT_IS_TABLE ?e" "PT_IS_LARGE ?e" "k \<le> 2" "pte_addr ?e AND (page_sizes ! k - 1) = 0" by simp_all
    obtain k' where k': "k = Suc k'" using k(1) by (cases k) simp_all
    have "entry_walk x86_format (mem s) (levels pm) (cr3 pm) v = Some (k, ?e)"
      using walk_at_entry [OF b, of v] e by (simp add: k' x86_format_def)
    then have "\<not> clear pm ?z s v" using k(1) by (auto simp: clear_def)
    moreover have "sz \<noteq> Size1GiB" using k(1) e(3) by auto
    ultimately have eq: "map_page m True gib pm v p f sz t = map_page n True gib pm v p f sz t" if "mappable pm sz v p f t" "clear pm ?z t v" for v p f t
      using that c by (auto simp: same_depth_def)
    let ?ov = "v AND NOT (page_sizes ! k - 1)" and ?op = "pte_addr ?e" and ?N = "2 ^ (9 * (k - ?z)) :: nat" and ?st = "2 ^ (12 + 9 * ?z) :: u64"
    have z: "?z \<le> k" "?z \<le> 2" and kl: "k \<le> levels pm" using k e(3) table_on_member [OF b] by simp_all
    note N = pages_in [OF z(1) e(3)] and st = page_sizes_nth [OF z(2)]
    have ov: "take_bit (12 + 9 * k) ?ov = 0" unfolding aligned_bits not_mask_bits(1) [OF e(3)] by simp
    have op: "take_bit (12 + 9 * k) ?op = 0" using e(4) not_mask_bits(2) [OF e(3)] by simp
    have op48: "?op < 2 ^ 48" by (rule below_48) (simp add: pte_addr_bit)
    have fl: "flags_ok (PT_TO_VMM_FLAGS ?e)" by (auto simp: flags_bits vmm_flags_bit)
    have "each_page (\<lambda>i. map_page m True gib pm (?ov + i) (?op + i) (PT_TO_VMM_FLAGS ?e) sz) ?st ?N (of_nat (?N - ?N) * ?st) s1 =
        each_page (\<lambda>i. map_page n True gib pm (?ov + i) (?op + i) (PT_TO_VMM_FLAGS ?e) sz) ?st ?N (of_nat (?N - ?N) * ?st) s1"
      if nt: "new_table b (of_nat (pt_index k v)) s = Inr (ret, s1)" for ret s1
    proof (rule each_page_eq [where Inv = "\<lambda>t. pagemap_ok pm t \<and> (\<forall>j < ?N. clear pm ?z t (?ov + of_nat j * ?st))"])
      fix j t assume j: "j < ?N" and i: "pagemap_ok pm t \<and> (\<forall>j < ?N. clear pm ?z t (?ov + of_nat j * ?st))"
      have "mappable pm sz (?ov + of_nat j * ?st) (?op + of_nat j * ?st) (PT_TO_VMM_FLAGS ?e) t"
        using i j subpage_aligned [OF ov j z(1) e(3)] subpage_aligned [OF op j z(1) e(3)] subpage_below [OF op op48 j z(1) e(3)] fl
        by (simp add: mappable_def)
      note mt = this
      then show "map_page m True gib pm (?ov + of_nat j * ?st) (?op + of_nat j * ?st) (PT_TO_VMM_FLAGS ?e) sz t =
          map_page n True gib pm (?ov + of_nat j * ?st) (?op + of_nat j * ?st) (PT_TO_VMM_FLAGS ?e) sz t"
        using i j by (intro eq) simp_all
      fix t' assume "map_page m True gib pm (?ov + of_nat j * ?st) (?op + of_nat j * ?st) (PT_TO_VMM_FLAGS ?e) sz t = Inr ((), t')"
      note mp = mapped [OF this mt]
      then have "stay pm ?z t t'" by (simp add: maps_page_def)
      with i maps_page_pagemap [OF mp] show "pagemap_ok pm t' \<and> (\<forall>j < ?N. clear pm ?z t' (?ov + of_nat j * ?st))"
        by (simp add: stay_def)
    next
      have w: "walk_ok pm s" using pm by (simp add: pagemap_ok_def)
      note nt' = new_table_ok [OF nt [unfolded k'] w b [unfolded k'] e(1) [unfolded k']]
      have "clear pm ?z s1 (?ov + of_nat j * ?st)" if "j < ?N" for j
      proof -
        have "same_path k (levels pm) ?ov (?ov + of_nat j * ?st)"
          using same_subpage [OF ov that z(1) e(3) kl, of "?ov + of_nat j * ?st"] by simp
        moreover have "same_path k (levels pm) ?ov v' \<longleftrightarrow> same_path k (levels pm) v v'" for v'
          by (simp add: same_path_bits [OF kl] not_mask_bits(1) [OF e(3)] cong: conj_cong)
        ultimately show ?thesis by (simp add: clear_def nt'(4) k')
      qed
      with nt'(1) pm show "pagemap_ok pm s1 \<and> (\<forall>j < ?N. clear pm ?z s1 (?ov + of_nat j * ?st))" by (simp add: pagemap_ok_def)
    qed simp
    then show ?thesis using e k N st
      by (auto simp: get_next_level_def Let_def pt_entry_index [OF k(2)] simp del: power_Suc intro!: bindo_eq)
  qed
qed

lemma map_step_eq:
  assumes mt: "mappable pm sz v p f s" and c: "sz \<noteq> Size1GiB \<longrightarrow> clear pm (size_level sz) s v \<or> same_depth False gib pm sz m n"
    and big: "sz = Size1GiB \<longrightarrow> gib \<or> same_depth True gib pm Size2MiB m n"
  shows "map_page (Suc m) True gib pm v p f sz s = map_page (Suc n) True gib pm v p f sz s"
proof -
  let ?z = "size_level sz" and ?f = "f OR PT_FLAG_VALID"
  have z: "?z \<le> 2" by (cases sz) simp_all
  have pm: "pagemap_ok pm s" "levels pm \<in> {4, 5}" using mt by (simp_all add: mappable_def pagemap_ok_def)
  let ?M = "get_next_level (map_page m True gib pm)" and ?N = "get_next_level (map_page n True gib pm)"
  have keep: "sz \<noteq> Size1GiB \<longrightarrow> clear pm ?z t v \<or> same_depth False gib pm sz m n" if "stay pm ?z s t" for t
    using c that by (auto simp: stay_def)
  have nx: "?M b v sz k (pt_entry k v) t = ?N b v sz k (pt_entry k v) t \<and>
      (\<forall>ret t'. ?M b v sz k (pt_entry k v) t = Inr (ret, t') \<longrightarrow> pagemap_ok pm t' \<and> stay pm ?z s t' \<and> table_at pm t' v (k - 1) = Some ret)"
    if "pagemap_ok pm t" "stay pm ?z s t" "table_at pm t v k = Some b" "?z < k" "k \<le> 4" for b k t
    using next_level_eq [OF that(1,3,4,5) keep [OF that(2)]] next_level [OF _ that(1,3,4,5)] stay_trans [OF that(2)] by blast
  note tp = top_table [OF pm(1), of v]
  have top: "(if levels pm = 5 then ?M (top_level pm) v sz 4 (pt_entry 4 v) s else Inr (top_level pm, s)) =
      (if levels pm = 5 then ?N (top_level pm) v sz 4 (pt_entry 4 v) s else Inr (top_level pm, s))"
    "(if levels pm = 5 then ?M (top_level pm) v sz 4 (pt_entry 4 v) s else Inr (top_level pm, s)) = Inr (ret, t') \<Longrightarrow>
       pagemap_ok pm t' \<and> stay pm ?z s t' \<and> table_at pm t' v 3 = Some ret" for ret t'
  proof -
    show "(if levels pm = 5 then ?M (top_level pm) v sz 4 (pt_entry 4 v) s else Inr (top_level pm, s)) =
      (if levels pm = 5 then ?N (top_level pm) v sz 4 (pt_entry 4 v) s else Inr (top_level pm, s))"
      using nx [of s 4 "top_level pm"] tp pm(1) z by (cases "levels pm = 5") simp_all
    assume r: "(if levels pm = 5 then ?M (top_level pm) v sz 4 (pt_entry 4 v) s else Inr (top_level pm, s)) = Inr (ret, t')"
    show "pagemap_ok pm t' \<and> stay pm ?z s t' \<and> table_at pm t' v 3 = Some ret"
    proof (cases "levels pm = 5")
      case True
      then show ?thesis using nx [of s 4 "top_level pm"] r tp pm(1) z by simp
    next
      case False
      then show ?thesis using r tp pm by simp
    qed
  qed
  show ?thesis
    unfolding map_page.simps map_step_def Let_def simp_thms if_False top(1)
  proof (intro bindo_eq, goal_cases)
    case (1 pml4 s1)
    have t4: "pagemap_ok pm s1" "stay pm ?z s s1" "table_at pm s1 v 3 = Some pml4" using top(2) [unfolded top(1), OF 1] by blast+
    have n3: "?M pml4 v sz 3 (pt_entry 3 v) s1 = ?N pml4 v sz 3 (pt_entry 3 v) s1" using nx [OF t4] z by simp
    show ?case unfolding n3
    proof (intro bindo_eq, goal_cases)
      case (1 pml3 s2)
      then have t3: "pagemap_ok pm s2" "stay pm ?z s s2" "table_at pm s2 v 2 = Some pml3" using nx [OF t4] z n3 by auto
      show ?case
      proof (cases "sz = Size1GiB")
        case True
        show ?thesis
        proof (cases gib)
          case False
          with big True have eq: "same_depth True gib pm Size2MiB m n" by simp
          have al: "take_bit (12 + 9 * 2) v = 0" "take_bit (12 + 9 * 2) p = 0" "p < 2 ^ 48" "flags_ok ?f"
            using mt True valid_flags(1) by (simp_all add: mappable_def)
          have "each_page (\<lambda>i. map_page m True gib pm (v + i) (p + i) ?f Size2MiB) (2 ^ (12 + 9 * 1)) (2 ^ (9 * (2 - 1))) (of_nat (2 ^ (9 * (2 - 1)) - 2 ^ (9 * (2 - 1))) * 2 ^ (12 + 9 * 1)) s2 =
              each_page (\<lambda>i. map_page n True gib pm (v + i) (p + i) ?f Size2MiB) (2 ^ (12 + 9 * 1)) (2 ^ (9 * (2 - 1))) (of_nat (2 ^ (9 * (2 - 1)) - 2 ^ (9 * (2 - 1))) * 2 ^ (12 + 9 * 1)) s2"
          proof (rule each_page_eq [where Inv = "pagemap_ok pm"])
            fix j :: nat and t assume j: "j < 2 ^ (9 * (2 - 1))" and t: "pagemap_ok pm t"
            have mt': "mappable pm Size2MiB (v + of_nat j * 2 ^ (12 + 9 * 1)) (p + of_nat j * 2 ^ (12 + 9 * 1)) ?f t"
              using t subpage_aligned [OF al(1) j] subpage_aligned [OF al(2) j] subpage_below [OF al(2,3) j] al(4) by (simp add: mappable_def)
            then show "map_page m True gib pm (v + of_nat j * 2 ^ (12 + 9 * 1)) (p + of_nat j * 2 ^ (12 + 9 * 1)) ?f Size2MiB t =
                map_page n True gib pm (v + of_nat j * 2 ^ (12 + 9 * 1)) (p + of_nat j * 2 ^ (12 + 9 * 1)) ?f Size2MiB t"
              using eq by (simp only: same_depth_def) blast
            fix t' assume "map_page m True gib pm (v + of_nat j * 2 ^ (12 + 9 * 1)) (p + of_nat j * 2 ^ (12 + 9 * 1)) ?f Size2MiB t = Inr ((), t')"
            from maps_page_pagemap [OF mapped [OF this mt'] t] show "pagemap_ok pm t'" .
          qed (use t3(1) in simp_all)
          then show ?thesis using True False by simp
        qed (use True in simp)
      next
        case False
        then have z1: "?z < 2" by (cases sz) simp_all
        have n2: "?M pml3 v sz 2 (pt_entry 2 v) s2 = ?N pml3 v sz 2 (pt_entry 2 v) s2" using nx [OF t3] z1 by simp
        show ?thesis unfolding if_not_P [OF False] n2
        proof (intro bindo_eq, goal_cases)
          case (1 pml2 s3)
          then have t2: "pagemap_ok pm s3" "stay pm ?z s s3" "table_at pm s3 v 1 = Some pml2" using nx [OF t3] z1 n2 by auto
          show ?case
          proof (cases "sz = Size2MiB")
            case f2: False
            with False have "sz = Size4KiB" by (cases sz) simp_all
            then have "?M pml2 v sz 1 (pt_entry 1 v) s3 = ?N pml2 v sz 1 (pt_entry 1 v) s3" using nx [OF t2] by simp
            then show ?thesis by simp
          qed simp
        qed
      qed
    qed
  qed
qed

text \<open>Where nothing is in the way one call is enough; splitting takes one more, emulating one more again.\<close>

lemma depths: "same_depth False gib pm sz (Suc m) (Suc n)" if "sz \<noteq> Size1GiB"
  unfolding same_depth_def [of False gib pm sz "Suc m"]
proof (intro allI impI, elim conjE)
  fix v p f s assume "mappable pm sz v p f s" and c: "False \<or> clear pm (size_level sz) s v"
  then show "map_page (Suc m) True gib pm v p f sz s = map_page (Suc n) True gib pm v p f sz s"
  proof (intro map_step_eq)
    show "sz \<noteq> Size1GiB \<longrightarrow> clear pm (size_level sz) s v \<or> same_depth False gib pm sz m n" using c by blast
    show "sz = Size1GiB \<longrightarrow> gib \<or> same_depth True gib pm Size2MiB m n" using that by blast
  qed
qed

lemma depths_split: "same_depth True gib pm sz (Suc (Suc m)) (Suc (Suc n))" if "sz \<noteq> Size1GiB"
  unfolding same_depth_def [of True]
proof (intro allI impI, elim conjE)
  fix v p f s assume "mappable pm sz v p f s"
  then show "map_page (Suc (Suc m)) True gib pm v p f sz s = map_page (Suc (Suc n)) True gib pm v p f sz s"
  proof (rule map_step_eq)
    show "sz \<noteq> Size1GiB \<longrightarrow> clear pm (size_level sz) s v \<or> same_depth False gib pm sz (Suc m) (Suc n)"
      using depths [OF that] by blast
    show "sz = Size1GiB \<longrightarrow> gib \<or> same_depth True gib pm Size2MiB (Suc m) (Suc n)" using that by blast
  qed
qed

lemma map_page_depth:
  assumes "mappable pm sz v p f s"
  shows "map_page (Suc (Suc (Suc m))) True gib pm v p f sz s = map_page (Suc (Suc (Suc n))) True gib pm v p f sz s"
proof (cases "sz = Size1GiB")
  case True
  have "same_depth True gib pm Size2MiB (Suc (Suc m)) (Suc (Suc n))" by (rule depths_split) simp
  then show ?thesis using True by (intro map_step_eq [OF assms]) simp_all
next
  case False
  then show ?thesis using depths_split [OF False, of gib pm "Suc m" "Suc n"] assms by (simp add: same_depth_def)
qed

section \<open>A new pagemap\<close>

lemma new_pagemap_ok:
  assumes "new_pagemap five s = Inr (pm, s')" and "pmm_ok s"
  shows "pagemap_ok pm s'" and "translate pm s' v = None"
proof -
  from assms(1) obtain p where a: "ext_mem_alloc s PT_SIZE = Inr (p, s')" and pm: "pm = \<lparr>levels = (if five then 5 else 4), top_level = p\<rparr>"
    by (auto simp: new_pagemap_def elim!: bindo_InrE)
  from a assms(2) obtain n where g: "grants s MEMMAP_BOOTLOADER_RECLAIMABLE p 0x1000 n s'" "page_aligned_ptr p" "p < 0x100000000"
    by (rule page_alloc)
  from g(1) have m: "mem s' = memset0 p 0x1000 (mem s)" "pmm_ok s'" "avail s' = avail s - {p ..< p + n}" "p \<le> p + n" "0x1000 \<le> n"
    by (simp_all add: grants_def)
  have z: "load64 (mem s') (slot p i) = 0" if "i < 512" for i
    using page_member [OF g(2)] by (intro load64_cleared [OF g(2) that]) (simp add: m(1) memset0_def)
  define l where "l = levels pm - 1"
  have l: "levels pm = Suc l" by (simp add: l_def pm)
  have t: "pf_table x86_format (cr3 pm)" "pf_addr x86_format (cr3 pm) = p"
    using x86.table_entry [OF g(2,3)] by (simp_all add: cr3_def pm)
  have e: "entry_ok x86_format (mem s') (levels pm) (cr3 pm)" "entry_tables x86_format (mem s') (levels pm) (cr3 pm) = {p}"
    "entry_walk x86_format (mem s') (levels pm) (cr3 pm) v = None" for v
    unfolding l using t z g(2) by (simp_all add: x86.empty_walk)
  have "x \<notin> avail s'" if "drop_bit 12 x = drop_bit 12 p" for x
  proof -
    have "x - p < 0x1000" using page_member [OF g(2)] that by simp
    with m(4,5) have "x \<in> {p ..< p + n}" by (simp add: atLeastLessThan_iff) unat_arith
    then show ?thesis by (simp add: m(3))
  qed
  then have "walk_ok pm s'" using m(2) e(1,2) by (simp add: paging_ok_def)
  then show "pagemap_ok pm s'" using g(2,3) by (simp add: pagemap_ok_def pm)
  show "translate pm s' v = None" by (simp add: translate_def e(3))
qed

end
