(* ===== verification/Vmm_Properties.thy ===== *)
theory Vmm_Properties
  imports Vmm_Pages Small_Device
begin

text \<open>The properties of the page tables. The witnesses map one page into a fresh pagemap.\<close>

lemma small_heap_ok: "pmm_ok (small_heap 0 m)" "pmm_ok (small_heap 1 m)" "pmm_ok (small_heap 2 m)" "pmm_ok (small_heap 3 m)"
proof -
  have "wf_check False (memmap (small_heap 0 (\<lambda>_. 0)))" "wf_check False (memmap (small_heap 1 (\<lambda>_. 0)))"
    "wf_check False (memmap (small_heap 2 (\<lambda>_. 0)))" "wf_check False (memmap (small_heap 3 (\<lambda>_. 0)))" by code_simp+
  then show "pmm_ok (small_heap 0 m)" "pmm_ok (small_heap 1 m)" "pmm_ok (small_heap 2 m)" "pmm_ok (small_heap 3 m)"
    by (simp_all add: pmm_ok_def small_heap_def wf_check_wf_map)
qed

lemma small_page:
  assumes "map_sum id (map_prod id forget) (ext_mem_alloc (small_heap n m) 0x1000) = Inr (p, small_heap k (\<lambda>_. 0))" and "pmm_ok (small_heap n m)"
  shows "ext_mem_alloc (small_heap n m) 0x1000 = Inr (p, small_heap k (memset0 p 0x1000 m))"
proof -
  obtain m' where a: "ext_mem_alloc (small_heap n m) PT_SIZE = Inr (p, small_heap k m')" using allocated [OF assms(1)] by blast
  from a assms(2) obtain l where "grants (small_heap n m) MEMMAP_BOOTLOADER_RECLAIMABLE p 0x1000 l (small_heap k m')" by (rule page_alloc)
  then have "m' = memset0 p 0x1000 m" by (simp add: grants_def small_heap_def)
  with a show ?thesis by simp
qed

lemma small_pages:
  "ext_mem_alloc (small_heap 0 m) 0x1000 = Inr (0x1ff000, small_heap 1 (memset0 0x1ff000 0x1000 m))"
  "ext_mem_alloc (small_heap 1 m) 0x1000 = Inr (0x1fe000, small_heap 2 (memset0 0x1fe000 0x1000 m))"
  "ext_mem_alloc (small_heap 2 m) 0x1000 = Inr (0x1fd000, small_heap 3 (memset0 0x1fd000 0x1000 m))"
  "ext_mem_alloc (small_heap 3 m) 0x1000 = Inr (0x1fc000, small_heap 4 (memset0 0x1fc000 0x1000 m))"
proof -
  have s: "map_sum id (map_prod id forget) (ext_mem_alloc (small_heap 0 m) 0x1000) = Inr (0x1ff000, small_heap 1 (\<lambda>_. 0))"
    "map_sum id (map_prod id forget) (ext_mem_alloc (small_heap 1 m) 0x1000) = Inr (0x1fe000, small_heap 2 (\<lambda>_. 0))"
    "map_sum id (map_prod id forget) (ext_mem_alloc (small_heap 2 m) 0x1000) = Inr (0x1fd000, small_heap 3 (\<lambda>_. 0))"
    "map_sum id (map_prod id forget) (ext_mem_alloc (small_heap 3 m) 0x1000) = Inr (0x1fc000, small_heap 4 (\<lambda>_. 0))"
    by code_simp+
  show "ext_mem_alloc (small_heap 0 m) 0x1000 = Inr (0x1ff000, small_heap 1 (memset0 0x1ff000 0x1000 m))"
    "ext_mem_alloc (small_heap 1 m) 0x1000 = Inr (0x1fe000, small_heap 2 (memset0 0x1fe000 0x1000 m))"
    "ext_mem_alloc (small_heap 2 m) 0x1000 = Inr (0x1fd000, small_heap 3 (memset0 0x1fd000 0x1000 m))"
    "ext_mem_alloc (small_heap 3 m) 0x1000 = Inr (0x1fc000, small_heap 4 (memset0 0x1fc000 0x1000 m))"
    by (rule small_page [OF s(1) small_heap_ok(1)] small_page [OF s(2) small_heap_ok(2)] small_page [OF s(3) small_heap_ok(3)] small_page [OF s(4) small_heap_ok(4)])+
qed

definition demo_pagemap :: pagemap where
  "demo_pagemap = \<lparr>levels = 4, top_level = 0x1ff000\<rparr>"

definition demo_paged :: pmm_state where
  "demo_paged = small_heap 1 (memset0 0x1ff000 0x1000 (\<lambda>_. 0))"

lemma demo_new: "new_pagemap False (small_heap 0 (\<lambda>_. 0)) = Inr (demo_pagemap, demo_paged)"
  by (simp add: new_pagemap_def small_pages demo_pagemap_def demo_paged_def)

lemma demo_pagemap_ok: "pagemap_ok demo_pagemap demo_paged" "translate demo_pagemap demo_paged v = None"
  using new_pagemap_ok [OF demo_new small_heap_ok(1)] by blast+

lemma small_heap_entry: "set_entry t e v (small_heap n m) = small_heap n (store64 (t + 8 * e) v m)" "mem (small_heap n m) = m"
  by (simp_all add: set_entry_def small_heap_def)

lemma demo_entries:
  "pt_entry 3 0xffffffff80000000 = 511" "pt_entry 2 0xffffffff80000000 = 510" "pt_entry 1 0xffffffff80000000 = 0" "pt_entry 0 0xffffffff80000000 = 0"
  by code_simp+

lemma zero_entry: "\<not> PT_IS_TABLE 0" "\<not> PT_IS_LARGE 0"
  by code_simp+

lemma demo_map_page: "\<exists>m. map_page 3 True True demo_pagemap 0xffffffff80000000 0x5000 3 Size4KiB demo_paged = Inr ((), small_heap 4 m)"
proof -
  let ?mp = "map_page 2 True True demo_pagemap" and ?v = "0xffffffff80000000 :: u64"
  have three: "map_page 3 True True demo_pagemap = map_step ?mp True True demo_pagemap"
    by (intro ext) (simp add: numeral_3_eq_3 numeral_2_eq_2 map_page.simps(2) [of "Suc (Suc 0)"])
  define m0 where "m0 = memset0 0x1ff000 0x1000 (\<lambda>_. 0)"
  define m1 where "m1 = store64 0x1ffff8 (pte_new 0x1fe000 PT_TABLE_FLAGS) (memset0 0x1fe000 0x1000 m0)"
  define m2 where "m2 = store64 0x1feff0 (pte_new 0x1fd000 PT_TABLE_FLAGS) (memset0 0x1fd000 0x1000 m1)"
  have l: "load64 m0 0x1ffff8 = 0" "load64 m1 0x1feff0 = 0" "load64 m2 0x1fd000 = 0"
    by (simp_all add: m0_def m1_def m2_def load64_def memset0_def store64_def)
  note sp = small_pages [simplified] and s1 = small_heap_entry(1) [of _ _ _ 1, simplified] small_heap_entry(2) [of 1, simplified]
  have g1: "get_next_level ?mp 0x1ff000 ?v Size4KiB 3 511 demo_paged = Inr (0x1fe000, small_heap 2 m1)"
    by (simp add: get_next_level_def demo_paged_def small_heap_entry s1 l zero_entry new_table_def sp m1_def m0_def [symmetric])
  have g2: "get_next_level ?mp 0x1fe000 ?v Size4KiB 2 510 (small_heap 2 m1) = Inr (0x1fd000, small_heap 3 m2)"
    by (simp add: get_next_level_def small_heap_entry l zero_entry new_table_def sp m2_def)
  obtain m3 where g3: "get_next_level ?mp 0x1fd000 ?v Size4KiB 1 0 (small_heap 3 m2) = Inr (0x1fc000, small_heap 4 m3)"
    by (simp add: get_next_level_def small_heap_entry l zero_entry new_table_def sp)
  show ?thesis
    using g1 g2 g3 unfolding three map_step_def Let_def by (auto simp: demo_pagemap_def demo_entries demo_entries(3) [simplified] small_heap_entry)
qed

lemma demo_maps: "\<exists>s'. map_pages True True demo_pagemap 0xffffffff80000000 0x5000 3 0x1000 demo_paged = Inr ((), s')"
proof -
  obtain m where m: "map_page 3 True True demo_pagemap 0xffffffff80000000 0x5000 3 Size4KiB demo_paged = Inr ((), small_heap 4 m)"
    using demo_map_page by blast
  have "next_chunk 0xffffffff80000000 0x5000 0x1000 0 = Size4KiB" by (simp add: next_chunk_def chunk_fits_def)
  then show ?thesis using m
    by (simp add: map_pages_def map_pages_from.simps [of _ _ _ _ _ _ _ 0] map_pages_from.simps [of _ _ _ _ _ _ _ 4096] page_sizes_def)
qed

section \<open>Mapping\<close>

text \<open>
  C39: \<open>map_pages\<close> maps exactly the range it is given. Afterwards every address in it translates to
  its place behind \<open>phys\<close>, with the attributes asked for, whatever sizes of pages were used for it
  and whatever had to be split on the way; every other address translates as before.
\<close>

theorem map_pages_translates:
  assumes "map_pages True gib pm virt phys flags cnt s = Inr ((), s')" and "pagemap_ok pm s" and "flags_ok flags"
    and "unat phys + unat cnt \<le> 2 ^ 48" and "unat cnt \<le> 2 ^ (12 + 9 * levels pm)"
  shows "pagemap_ok pm s' \<and>
    translate pm s' v = (if distance pm virt v < unat cnt then Some (phys + of_nat (distance pm virt v), PT_TO_VMM_FLAGS flags)
                         else translate pm s v)"
proof -
  have al: "unat virt mod 4096 = 0" "unat phys mod 4096 = 0" "unat cnt mod 4096 = 0"
    and r: "map_pages_from True gib pm virt phys flags cnt 0 s = Inr ((), s')"
    using assms(1) by (simp_all add: map_pages_def word_unat_eq_iff unat_mod split: if_splits)
  from map_pages_from_ok [OF al assms(4,3) r assms(2) _ assms(5)] show ?thesis by simp
qed

theorem map_pages_translates_witness:
  "\<exists>s'. map_pages True True demo_pagemap 0xffffffff80000000 0x5000 3 0x1000 demo_paged = Inr ((), s') \<and>
     translate demo_pagemap s' 0xffffffff80000123 = Some (0x5123, 2) \<and> translate demo_pagemap s' 0xffffffff80001000 = None"
proof -
  obtain s' where m: "map_pages True True demo_pagemap 0xffffffff80000000 0x5000 3 0x1000 demo_paged = Inr ((), s')" using demo_maps by blast
  have f: "flags_ok 3" by (simp add: flags_ok_def)
  have d: "distance demo_pagemap 0xffffffff80000000 0xffffffff80000123 = 0x123" "distance demo_pagemap 0xffffffff80000000 0xffffffff80001000 = 0x1000"
    by (simp_all add: distance_def demo_pagemap_def)
  have p: "PT_TO_VMM_FLAGS 3 = 2" by (simp add: PT_TO_VMM_FLAGS_def)
  have "(0x1000 :: nat) \<le> 2 ^ (12 + 9 * levels demo_pagemap)" by (simp add: demo_pagemap_def)
  then have t: "translate demo_pagemap s' v = (if distance demo_pagemap 0xffffffff80000000 v < 0x1000
      then Some (0x5000 + of_nat (distance demo_pagemap 0xffffffff80000000 v), 2) else None)" for v
    using map_pages_translates [OF m demo_pagemap_ok(1) f, of v] by (simp add: demo_pagemap_ok(2) p)
  show ?thesis using m t [of "0xffffffff80000123"] t [of "0xffffffff80001000"] by (auto simp: d)
qed



end
