(* ===== verification/Hash_Filter.thy ===== *)
theory Hash_Filter
  imports File Blake2b
begin

text \<open>
  The filters laid over an open file: the hashing one, \<open>blake2b_open\<close> to \<open>blake2b_check_hash\<close> of
  \<^verbatim>\<open>src/common/crypt/blake2b.c\<close>, which hashes a file while it is read, and what filters share: a
  file handle of their own around the one they read from.
\<close>

section \<open>Handles over handles\<close>

record 'd wrapper =
  wr_at :: u64
  wr_size :: u64
  wr_path_at :: u64
  wr_path :: string
  wr_path_len :: u64
  wr_fd_at :: u64
  wr_fd :: 'd

text \<open>A copy of the path of a handle, when it has one.\<close>

definition copy_path :: "vstate \<Rightarrow> file_handle \<Rightarrow> ((u64 \<times> string \<times> u64) \<times> vstate) outcome" where
  "copy_path st f =
     (if fh_path_at f \<noteq> 0 \<and> fh_path_len f > 0 then
        bindo (valloc st (fh_path_len f)) (\<lambda>p st1. Inr ((p, fh_path f, fh_path_len f), st1))
      else Inr ((0, '''', 0), st))"

definition wrap_file :: "vstate \<Rightarrow> file_handle \<Rightarrow> u64 \<Rightarrow> u64 \<Rightarrow> 'd \<Rightarrow> ('d wrapper \<times> vstate) outcome" where
  "wrap_file st src sz fd_at fd =
     bindo (valloc st SIZEOF_FILE_HANDLE) (\<lambda>q st1.
     bindo (copy_path st1 src) (\<lambda>(path_at, path, path_len) st2.
       Inr (\<lparr>wr_at = q, wr_size = sz, wr_path_at = path_at, wr_path = path, wr_path_len = path_len,
             wr_fd_at = fd_at, wr_fd = fd\<rparr>, st2)))"

text \<open>\<open>fread\<close> and \<open>fclose\<close> on such a handle; its \<open>read\<close> and \<open>close\<close> are arguments.\<close>

type_synonym 'd reader = "'d \<Rightarrow> vstate \<Rightarrow> u64 \<Rightarrow> u64 \<Rightarrow> ((u8 list \<times> 'd) \<times> vstate) outcome"

definition wrapped_fread :: "'d reader \<Rightarrow> 'd wrapper \<Rightarrow> vstate \<Rightarrow> u64 \<Rightarrow> u64 \<Rightarrow> ((u8 list \<times> 'd wrapper) \<times> vstate) outcome" where
  "wrapped_fread rd w st loc cnt =
     (if loc > wr_size w \<or> cnt > wr_size w - loc then Inl ''fread: attempted out of bounds read''
      else bindo (rd (wr_fd w) st loc cnt) (\<lambda>(bs, d) st1. Inr ((bs, w\<lparr>wr_fd := d\<rparr>), st1)))"

definition wrapped_fclose :: "('d \<Rightarrow> vstate \<Rightarrow> (unit \<times> vstate) outcome) \<Rightarrow> 'd wrapper \<Rightarrow> vstate \<Rightarrow> (unit \<times> vstate) outcome" where
  "wrapped_fclose cl w st =
     bindo (cl (wr_fd w) st) (\<lambda>_ st1.
     bindo (vfree st1 (wr_path_at w) (wr_path_len w)) (\<lambda>_ st2. vfree st2 (wr_at w) SIZEOF_FILE_HANDLE))"

section \<open>The hashing filter\<close>

record blake2b_handle =
  source :: file_handle
  hstate :: blake2b_state
  hpos :: u64
  finalized :: bool
  digest :: "u8 list"

abbreviation SIZEOF_BLAKE2B_HANDLE :: u64 where "SIZEOF_BLAKE2B_HANDLE \<equiv> 328"

definition blake2b_open :: "vstate \<Rightarrow> file_handle \<Rightarrow> (blake2b_handle wrapper \<times> vstate) outcome" where
  "blake2b_open st src =
     bindo (valloc st SIZEOF_BLAKE2B_HANDLE) (\<lambda>p st1.
       wrap_file st1 src (fh_size src) p
         \<lparr>source = src, hstate = blake2b_init, hpos = 0, finalized = False, digest = replicate BLAKE2B_OUT_BYTES 0\<rparr>)"

definition blake2b_read :: "disk \<Rightarrow> blake2b_handle reader" where
  "blake2b_read disk h st loc cnt =
     (if loc \<noteq> hpos h then Inl ''blake2b filter: non-sequential read''
      else bindo (fread disk (source h) st loc cnt) (\<lambda>got st1.
        Inr ((got, h\<lparr>hstate := blake2b_update (hstate h) got, hpos := hpos h + of_nat (length got)\<rparr>), st1)))"

definition blake2b_close :: "u64 \<Rightarrow> blake2b_handle \<Rightarrow> vstate \<Rightarrow> (unit \<times> vstate) outcome" where
  "blake2b_close p h st = bindo (fclose (source h) st) (\<lambda>_ st1. vfree st1 p SIZEOF_BLAKE2B_HANDLE)"

definition blake2b_check_hash :: "blake2b_handle \<Rightarrow> u8 list \<Rightarrow> bool \<times> blake2b_handle" where
  "blake2b_check_hash h reference_hash =
     (let h' = (if finalized h then h
                else (case blake2b_final (hstate h) of (s, d) \<Rightarrow> h\<lparr>hstate := s, digest := d, finalized := True\<rparr>))
      in (digest h' = take BLAKE2B_OUT_BYTES reference_hash, h'))"

text \<open>What a filter has hashed is what went through it.\<close>

definition has_hashed :: "blake2b_handle wrapper \<Rightarrow> u8 list \<Rightarrow> bool" where
  "has_hashed w bs \<longleftrightarrow> absorbed (hstate (wr_fd w)) bs \<and> hpos (wr_fd w) = of_nat (length bs) \<and> \<not> finalized (wr_fd w)"

lemma open_has_hashed: "blake2b_open st src = Inr (w, st') \<Longrightarrow> has_hashed w []"
  by (auto simp: blake2b_open_def wrap_file_def has_hashed_def init_absorbed elim!: bindo_InrE)

lemma read_has_hashed:
  assumes "wrapped_fread (blake2b_read disk) w st loc n = Inr ((got, w'), st')" and "has_hashed w bs"
  shows "has_hashed w' (bs @ got)" and "loc = of_nat (length bs)"
  using assms update_absorbed [of "hstate (wr_fd w)" bs got]
  by (auto simp: wrapped_fread_def blake2b_read_def has_hashed_def split: if_splits elim!: bindo_InrE)

lemma check_hash_hashed: "has_hashed w bs \<Longrightarrow> fst (blake2b_check_hash (wr_fd w) h) \<longleftrightarrow> blake2b_spec bs = take BLAKE2B_OUT_BYTES h"
  using final_absorbed [of "hstate (wr_fd w)" bs]
  by (auto simp: has_hashed_def blake2b_check_hash_def Let_def split: prod.splits)

end
