(* ===== verification/Gzip.thy ===== *)
theory Gzip
  imports Hash_Filter
begin

text \<open>
  The decompressing filter, \<^verbatim>\<open>src/common/compress/gzip.c\<close>. The decoder it drives, \<open>pdgzip\<close>, is
  not part of the repository and is an argument: a state, and for each request an exchange in
  which the decoder pulls bytes through the callback it was given and ends with the bytes it
  produced, none at the end of the stream, or with an error.
\<close>

section \<open>The decoder\<close>

datatype 'z decoding = Pull nat "u8 list \<Rightarrow> 'z decoding" | Produced "u8 list" 'z | Corrupt

record 'z pdgzip =
  pdgzip_init :: 'z
  pdgzip_read :: "'z \<Rightarrow> nat \<Rightarrow> 'z decoding"
  pdgzip_state_size :: u64

section \<open>The filter\<close>

record 'z gzip_handle =
  gz_source :: file_handle
  gz_state :: 'z
  scratch :: u64
  src_pos :: u64
  dec_pos :: u64

abbreviation SIZEOF_GZIP_HANDLE :: u64 where "SIZEOF_GZIP_HANDLE \<equiv> 48"

definition gz_source_read :: "disk \<Rightarrow> 'z gzip_handle \<Rightarrow> vstate \<Rightarrow> nat \<Rightarrow> ((u8 list \<times> 'z gzip_handle) \<times> vstate) outcome" where
  "gz_source_read disk gh st len =
     (let avail = fh_size (gz_source gh) - src_pos gh;
          n = (if len > unat avail then avail else of_nat len)
      in if n = 0 then Inr (([], gh), st)
         else bindo (fread disk (gz_source gh) st (src_pos gh) n) (\<lambda>got st1.
           Inr ((got, gh\<lparr>src_pos := src_pos gh + of_nat (length got)\<rparr>), st1)))"

definition gz_reset :: "'z pdgzip \<Rightarrow> 'z gzip_handle \<Rightarrow> 'z gzip_handle" where
  "gz_reset pz gh = gh\<lparr>src_pos := 0, dec_pos := 0, gz_state := pdgzip_init pz\<rparr>"

text \<open>One call of the decoder; \<^const>\<open>None\<close> is an error. It never stores more than was asked for.\<close>

primrec run_decoder :: "'z decoding \<Rightarrow> disk \<Rightarrow> 'z gzip_handle \<Rightarrow> vstate \<Rightarrow> ((u8 list option \<times> 'z gzip_handle) \<times> vstate) outcome" where
  "run_decoder (Produced bs z) = (\<lambda>disk gh st. Inr ((Some bs, gh\<lparr>gz_state := z\<rparr>), st))"
| "run_decoder Corrupt = (\<lambda>disk gh st. Inr ((None, gh), st))"
| "run_decoder (Pull len k) = (\<lambda>disk gh st.
     bindo (gz_source_read disk gh st len) (\<lambda>(bs, gh1) st1. run_decoder (k bs) disk gh1 st1))"

definition decode_step :: "disk \<Rightarrow> 'z pdgzip \<Rightarrow> 'z gzip_handle \<Rightarrow> vstate \<Rightarrow> nat \<Rightarrow> ((u8 list option \<times> 'z gzip_handle) \<times> vstate) outcome" where
  "decode_step disk pz gh st chunk =
     bindo (run_decoder (pdgzip_read pz (gz_state gh) chunk) disk gh st) (\<lambda>(r, gh1) st1.
       Inr ((map_option (take chunk) r,
             gh1\<lparr>dec_pos := dec_pos gh + of_nat (case r of None \<Rightarrow> 0 | Some bs \<Rightarrow> length (take chunk bs))\<rparr>), st1))"

lemma decode_step_SomeD:
  assumes "decode_step disk pz gh st n = Inr ((Some bs, gh1), st1)"
  shows "length bs \<le> n" and "dec_pos gh1 = dec_pos gh + of_nat (length bs)"
  using assms by (auto simp: decode_step_def elim!: bindo_InrE)

text \<open>Skipping forward to an offset; the flag says whether the stream reaches it.\<close>

function skip_forward :: "disk \<Rightarrow> 'z pdgzip \<Rightarrow> 'z gzip_handle \<Rightarrow> vstate \<Rightarrow> u64 \<Rightarrow> ((bool \<times> 'z gzip_handle) \<times> vstate) outcome" where
  "skip_forward disk pz gh st loc =
     (if dec_pos gh \<ge> loc then Inr ((True, gh), st)
      else (case decode_step disk pz gh st (min 4096 (unat (loc - dec_pos gh))) of
              Inl e \<Rightarrow> Inl e
            | Inr ((None, gh1), st1) \<Rightarrow> Inl ''gzip: decompression error during seek''
            | Inr ((Some bs, gh1), st1) \<Rightarrow>
                if bs = [] then Inr ((False, gh1), st1) else skip_forward disk pz gh1 st1 loc))"
  by pat_completeness auto
termination
proof (relation "measure (\<lambda>(disk, pz, gh, st, loc). unat loc - unat (dec_pos gh))", goal_cases)
  case (2 disk pz gh st loc z y st1 ob gh1 bs)
  then have s: "decode_step disk pz gh st (min 4096 (unat (loc - dec_pos gh))) = Inr ((Some bs, gh1), st1)" by simp
  note d = decode_step_SomeD [OF s]
  have lt: "unat (dec_pos gh) < unat loc" using 2(1) by (simp add: word_less_nat_alt not_le)
  then have "unat (loc - dec_pos gh) = unat loc - unat (dec_pos gh)" by (simp add: unat_sub word_le_nat_alt)
  with d(1) have "length bs \<le> unat loc - unat (dec_pos gh)" by simp
  with lt have le: "unat (dec_pos gh) + length bs \<le> unat loc" by linarith
  then have l: "length bs < 2 ^ 64" "unat (dec_pos gh) + length bs < 2 ^ 64"
    using unsigned_less [of loc, where 'a = nat] by simp_all
  then have "unat (dec_pos gh1) = unat (dec_pos gh) + length bs"
    unfolding d(2) by (simp add: unat_word_ariths unat_of_nat take_bit_nat_eq_self)
  with le lt 2 show ?case by (cases bs) auto
qed simp

text \<open>Decompressing up to \<open>remaining\<close> bytes.\<close>

function decode_loop :: "disk \<Rightarrow> 'z pdgzip \<Rightarrow> 'z gzip_handle \<Rightarrow> vstate \<Rightarrow> nat \<Rightarrow> ((u8 list \<times> 'z gzip_handle) \<times> vstate) outcome" where
  "decode_loop disk pz gh st remaining =
     (if remaining = 0 then Inr (([], gh), st)
      else (case decode_step disk pz gh st (min 65536 remaining) of
              Inl e \<Rightarrow> Inl e
            | Inr ((None, gh1), st1) \<Rightarrow> Inl ''gzip: decompression error''
            | Inr ((Some bs, gh1), st1) \<Rightarrow>
                if bs = [] then Inr (([], gh1), st1)
                else bindo (decode_loop disk pz gh1 st1 (remaining - length bs)) (\<lambda>(cs, gh2) st2. Inr ((bs @ cs, gh2), st2))))"
  by pat_completeness auto
termination
  by (relation "measure (\<lambda>(disk, pz, gh, st, remaining). remaining)") auto

declare skip_forward.simps [simp del] decode_loop.simps [simp del]

definition gzip_read :: "disk \<Rightarrow> 'z pdgzip \<Rightarrow> 'z gzip_handle reader" where
  "gzip_read disk pz gh st loc cnt =
     bindo (skip_forward disk pz (if loc < dec_pos gh then gz_reset pz gh else gh) st loc) (\<lambda>(reached, gh1) st1.
       if \<not> reached then Inr (([], gh1), st1) else decode_loop disk pz gh1 st1 (unat cnt))"

definition gzip_close :: "'z pdgzip \<Rightarrow> u64 \<Rightarrow> 'z gzip_handle \<Rightarrow> vstate \<Rightarrow> (unit \<times> vstate) outcome" where
  "gzip_close pz p gh st =
     bindo (fclose (gz_source gh) st) (\<lambda>_ st1.
     bindo (vfree st1 (scratch gh) (pdgzip_state_size pz)) (\<lambda>_ st2. vfree st2 p SIZEOF_GZIP_HANDLE))"

definition gzip_open :: "'z pdgzip \<Rightarrow> vstate \<Rightarrow> file_handle \<Rightarrow> ('z gzip_handle wrapper \<times> vstate) outcome" where
  "gzip_open pz st compressed =
     bindo (valloc st SIZEOF_GZIP_HANDLE) (\<lambda>p st1.
     bindo (valloc st1 (pdgzip_state_size pz)) (\<lambda>q st2.
       wrap_file st2 compressed (-1) p
         (gz_reset pz \<lparr>gz_source = compressed, gz_state = pdgzip_init pz, scratch = q, src_pos = 0, dec_pos = 0\<rparr>)))"

text \<open>What the loop does when it goes on.\<close>

lemma decode_loop_cases:
  assumes "decode_loop disk pz gh st n = Inr ((bs, gh'), st')" and "n \<noteq> 0"
  obtains gh1 where "decode_step disk pz gh st (min 65536 n) = Inr ((Some [], gh1), st')" "bs = []" "gh' = gh1"
  | cs ds gh1 st1 where "decode_step disk pz gh st (min 65536 n) = Inr ((Some cs, gh1), st1)" "cs \<noteq> []"
      "decode_loop disk pz gh1 st1 (n - length cs) = Inr ((ds, gh'), st')" "bs = cs @ ds"
  using assms by (subst (asm) decode_loop.simps)
    (auto split: if_splits sum.splits option.splits prod.splits elim!: bindo_InrE)

lemma decode_loop_length:
  "decode_loop disk pz gh st n = Inr ((bs, gh'), st') \<Longrightarrow> length bs \<le> n"
proof (induction n arbitrary: gh st bs rule: less_induct)
  case (less n)
  show ?case
  proof (cases "n = 0")
    case True
    with less.prems show ?thesis by (simp add: decode_loop.simps)
  next
    case False
    from less.prems False show ?thesis
    proof (cases rule: decode_loop_cases)
      case (2 cs ds gh1 st1)
      from decode_step_SomeD(1) [OF 2(1)] have l: "length cs \<le> n" by simp
      with 2(2) have "n - length cs < n" using False by simp
      from less.IH [OF this 2(3)] l 2(4) show ?thesis by simp
    qed simp
  qed
qed

section \<open>Decoding a file in memory\<close>

text \<open>
  The reference: one call of the decoder fed from a list of bytes, and the outputs of a series of
  calls up to the one that produces nothing.
\<close>

primrec feed :: "'z decoding \<Rightarrow> u8 list \<Rightarrow> nat \<Rightarrow> (u8 list \<times> 'z) option \<times> nat" where
  "feed (Produced bs z) = (\<lambda>src pos. (Some (bs, z), pos))"
| "feed Corrupt = (\<lambda>src pos. (None, pos))"
| "feed (Pull len k) = (\<lambda>src pos. feed (k (take len (drop pos src))) src (min (length src) (pos + len)))"

inductive decodes :: "'z pdgzip \<Rightarrow> u8 list \<Rightarrow> 'z \<Rightarrow> nat \<Rightarrow> u8 list \<Rightarrow> bool" for pz src where
  finished: "feed (pdgzip_read pz z n) src pos = (Some ([], z'), pos') \<Longrightarrow> n > 0 \<Longrightarrow> decodes pz src z pos []"
| produced: "feed (pdgzip_read pz z n) src pos = (Some (bs, z'), pos') \<Longrightarrow> decodes pz src z' pos' rest
    \<Longrightarrow> decodes pz src z pos (take n bs @ rest)"

definition gunzips :: "'z pdgzip \<Rightarrow> u8 list \<Rightarrow> u8 list \<Rightarrow> bool" where
  "gunzips pz src out \<longleftrightarrow> decodes pz src (pdgzip_init pz) 0 out"

definition gz_at :: "'z gzip_handle \<Rightarrow> u8 list \<Rightarrow> nat \<Rightarrow> bool" where
  "gz_at gh src pos \<longleftrightarrow> (\<exists>a. fh_backing (gz_source gh) = Memfile a src) \<and> fh_size (gz_source gh) = of_nat (length src) \<and>
     length src < 2 ^ 64 \<and> src_pos gh = of_nat pos \<and> pos \<le> length src"

lemma gz_at_update [simp]: "gz_at (gh\<lparr>gz_state := z\<rparr>) src pos = gz_at gh src pos" "gz_at (gh\<lparr>dec_pos := d\<rparr>) src pos = gz_at gh src pos"
  by (simp_all add: gz_at_def)

lemma source_read_at:
  assumes "gz_source_read disk gh st len = Inr ((bs, gh1), st1)" and "gz_at gh src pos"
  shows "bs = take len (drop pos src)" and "gz_at gh1 src (min (length src) (pos + len))"
proof -
  have u: "unat (of_nat (length src) :: u64) = length src" "unat (of_nat pos :: u64) = pos"
    using assms(2) by (simp_all add: gz_at_def unat_of_nat take_bit_nat_eq_self)
  then have av: "unat (of_nat (length src) - of_nat pos :: u64) = length src - pos"
    using assms(2) by (simp add: gz_at_def unat_sub word_le_nat_alt)
  define n :: u64 where "n = (if len > length src - pos then of_nat (length src) - of_nat pos else of_nat len)"
  have n: "unat n = min len (length src - pos)"
    using av assms(2) by (auto simp: n_def gz_at_def unat_of_nat take_bit_nat_eq_self)
  have rd: "gz_source_read disk gh st len = (if n = 0 then Inr (([], gh), st)
      else bindo (fread disk (gz_source gh) st (of_nat pos) n) (\<lambda>got st1.
           Inr ((got, gh\<lparr>src_pos := of_nat pos + of_nat (length got)\<rparr>), st1)))"
    using assms(2) av unfolding gz_source_read_def Let_def n_def by (simp add: gz_at_def)
  have m: "take (unat n) (drop pos src) = take len (drop pos src)" by (simp add: n min_def)
  have st: "bs = take len (drop pos src) \<and> gh1 = gh\<lparr>src_pos := of_nat (pos + length bs)\<rparr>"
  proof (cases "n = 0")
    case True
    then have "take len (drop pos src) = []" using n by auto
    with assms True show ?thesis by (auto simp: rd gz_at_def)
  next
    case False
    from assms False obtain got where "fread disk (gz_source gh) st (of_nat pos) n = Inr (got, st1)"
      and g: "bs = got" "gh1 = gh\<lparr>src_pos := of_nat pos + of_nat (length got)\<rparr>"
      by (auto simp: rd elim!: bindo_InrE)
    then have "got = take (unat n) (drop pos src)"
      using assms(2) u by (auto simp: fread_def gz_at_def split: if_splits)
    with g m show ?thesis by simp
  qed
  then show "bs = take len (drop pos src)" by blast
  from st assms(2) show "gz_at gh1 src (min (length src) (pos + len))" by (auto simp: gz_at_def min_def)
qed

lemma run_decoder_at:
  "run_decoder d disk gh st = Inr ((r, gh1), st1) \<Longrightarrow> gz_at gh src pos \<Longrightarrow>
     \<exists>pos'. gz_at gh1 src pos' \<and> feed d src pos = (map_option (\<lambda>bs. (bs, gz_state gh1)) r, pos')"
proof (induction d arbitrary: gh st pos)
  case (Pull len k)
  from Pull.prems(1) obtain bs gh2 st2 where s: "gz_source_read disk gh st len = Inr ((bs, gh2), st2)"
    and k: "run_decoder (k bs) disk gh2 st2 = Inr ((r, gh1), st1)" by (auto elim!: bindo_InrE)
  from Pull.IH [OF _ k source_read_at(2) [OF s Pull.prems(2)]] source_read_at(1) [OF s Pull.prems(2)]
  show ?case by auto
qed auto

lemma decode_step_at:
  assumes "decode_step disk pz gh st n = Inr ((Some bs, gh1), st1)" and "gz_at gh src pos"
  shows "\<exists>bs' pos'. feed (pdgzip_read pz (gz_state gh) n) src pos = (Some (bs', gz_state gh1), pos') \<and> bs = take n bs' \<and> gz_at gh1 src pos'"
proof -
  from assms(1) obtain bs' gh2 where r: "run_decoder (pdgzip_read pz (gz_state gh) n) disk gh st = Inr ((Some bs', gh2), st1)"
    and b: "bs = take n bs'" "gh1 = gh2\<lparr>dec_pos := dec_pos gh + of_nat (length (take n bs'))\<rparr>"
    by (auto simp: decode_step_def elim!: bindo_InrE)
  from run_decoder_at [OF r assms(2)] b show ?thesis by auto
qed

lemma decode_loop_at:
  "decode_loop disk pz gh st n = Inr ((bs, gh'), st') \<Longrightarrow> gz_at gh src pos \<Longrightarrow>
     \<exists>pos'. gz_at gh' src pos' \<and> dec_pos gh' = dec_pos gh + of_nat (length bs) \<and>
       (\<forall>rest. decodes pz src (gz_state gh') pos' rest \<longrightarrow> decodes pz src (gz_state gh) pos (bs @ rest)) \<and>
       (bs = [] \<and> n > 0 \<longrightarrow> decodes pz src (gz_state gh) pos [])"
proof (induction n arbitrary: gh st bs pos rule: less_induct)
  case (less n)
  show ?case
  proof (cases "n = 0")
    case True
    with less.prems show ?thesis by (auto simp: decode_loop.simps)
  next
    case False
    let ?n = "min 65536 n"
    have n: "0 < ?n" using False by simp
    from less.prems(1) False show ?thesis
    proof (cases rule: decode_loop_cases)
      case (1 gh1)
      from decode_step_at [OF 1(1) less.prems(2)] obtain pos'
        where f: "feed (pdgzip_read pz (gz_state gh) ?n) src pos = (Some ([], gz_state gh1), pos')" and g: "gz_at gh1 src pos'"
        using n by auto
      from produced [OF f] finished [OF f n] g decode_step_SomeD(2) [OF 1(1)] 1 show ?thesis by auto
    next
      case (2 cs ds gh1 st1)
      from decode_step_SomeD(1) [OF 2(1)] 2(2) have lt: "n - length cs < n" using False by simp
      from decode_step_at [OF 2(1) less.prems(2)] obtain cs' pos1
        where f: "feed (pdgzip_read pz (gz_state gh) ?n) src pos = (Some (cs', gz_state gh1), pos1)"
          and c: "cs = take ?n cs'" and g: "gz_at gh1 src pos1" by blast
      from less.IH [OF lt 2(3) g] produced [OF f] c decode_step_SomeD(2) [OF 2(1)] 2(2,4) show ?thesis
        by (fastforce simp: add.assoc)
    qed
  qed
qed

text \<open>A read that goes on where the last one stopped.\<close>

lemma gzip_read_on:
  assumes "gzip_read disk pz gh st (dec_pos gh) cnt = Inr ((bs, gh'), st')"
  shows "decode_loop disk pz gh st (unat cnt) = Inr ((bs, gh'), st')"
  using assms by (simp add: gzip_read_def skip_forward.simps)

lemma gzip_read_length: "gzip_read disk pz gh st loc cnt = Inr ((bs, gh'), st') \<Longrightarrow> length bs \<le> unat cnt"
  by (auto simp: gzip_read_def split: if_splits elim!: bindo_InrE dest: decode_loop_length)

end
