(* ===== verification/Uri.thy ===== *)
theory Uri
  imports Gzip Guid Mbr Config
begin

text \<open>
  Opening a resource by its URI, \<^verbatim>\<open>src/common/lib/uri.c\<close> on an x86-64 build: taking the URI
  apart, the volume it names, and \<open>uri_open\<close>, which checks the file against the hash of the
  URI, decompresses it and leaves it in memory. \<open>tftp_open\<close>, the decoder, the key pressed at
  the mismatch prompt and the flags of the loader are arguments.
\<close>

section \<open>Taking a URI apart\<close>

abbreviation URI_BUF_SIZE :: nat where "URI_BUF_SIZE \<equiv> 4096"

fun split_resource :: "string \<Rightarrow> (string \<times> string) option" where
  "split_resource [] = None"
| "split_resource (c # cs) =
     (if strncmp (c # cs) ''('' 1 = 0 then Some ([], cs)
      else map_option (\<lambda>(r, rest). (c # r, rest)) (split_resource cs))"

fun split_root :: "string \<Rightarrow> (string \<times> string) option" where
  "split_root [] = None"
| "split_root (c # cs) =
     (if length (c # cs) < 3 then None
      else if strncmp (c # cs) ''):/'' 3 = 0 then Some ([], drop 3 (c # cs))
      else map_option (\<lambda>(r, rest). (c # r, rest)) (split_root cs))"

text \<open>The last \<open>#\<close> before an index.\<close>

fun last_hash :: "string \<Rightarrow> nat \<Rightarrow> nat option" where
  "last_hash uri 0 = None"
| "last_hash uri (Suc i) = (if uri ! i = CHR 0x23 then Some i else last_hash uri i)"

definition hex_char :: "char \<Rightarrow> bool" where
  "hex_char c \<longleftrightarrow> (code c \<ge> 0x30 \<and> code c \<le> 0x39) \<or> (code c \<ge> 0x61 \<and> code c \<le> 0x66) \<or> (code c \<ge> 0x41 \<and> code c \<le> 0x46)"

definition split_hash :: "string \<Rightarrow> (string \<times> string option) outcome" where
  "split_hash uri =
     (case last_hash uri (length uri) of
        None \<Rightarrow> Inr (uri, None)
      | Some i \<Rightarrow>
          (let hash = drop (i + 1) uri
           in if length hash \<noteq> 128 then Inl ''Blake2b hash must be 128 characters long''
              else if \<not> list_all hex_char hash then Inl ''Blake2b hash contains invalid character''
              else Inr (take i uri, Some hash)))"

record uri_parts =
  up_resource :: string
  up_root :: string
  up_path :: string
  up_hash :: "string option"

definition uri_resolve :: "string \<Rightarrow> uri_parts option outcome" where
  "uri_resolve uri =
     (if length uri + 1 > URI_BUF_SIZE then Inl ''uri_resolve: URI too long''
      else case split_resource uri of
        None \<Rightarrow> Inr None
      | Some (res, uri1) \<Rightarrow>
          (case split_root uri1 of
             None \<Rightarrow> Inr None
           | Some (rt, uri2) \<Rightarrow>
               if uri2 = [] then Inr None
               else (case split_hash uri2 of
                       Inl e \<Rightarrow> Inl e
                     | Inr (p, h) \<Rightarrow> Inr (Some \<lparr>up_resource = res, up_root = rt, up_path = p, up_hash = h\<rparr>))))"

definition hash_bytes :: "string \<Rightarrow> u8 list" where
  "hash_bytes h = map (\<lambda>i. word_of_int (push_bit 4 (digit_to_int (h ! (i * 2)))) OR word_of_int (digit_to_int (h ! (i * 2 + 1)))) [0..<BLAKE2B_OUT_BYTES]"

section \<open>The index of volumes\<close>

record indexed =
  ix_volume :: volume
  ix_guid :: "u8 list option"
  ix_fslabel :: "string option"

fun find_volume :: "('a \<Rightarrow> bool) \<Rightarrow> 'a list \<Rightarrow> nat option" where
  "find_volume P [] = None"
| "find_volume P (v # vs) = (if P v then Some 0 else map_option Suc (find_volume P vs))"

definition volume_get_by_guid :: "indexed list \<Rightarrow> u8 list \<Rightarrow> nat option" where
  "volume_get_by_guid volumes g =
     find_volume (\<lambda>x. ix_guid x = Some g \<or> (part_guid_valid (ix_volume x) \<and> part_guid (ix_volume x) = g)) volumes"

definition volume_get_by_fslabel :: "indexed list \<Rightarrow> string \<Rightarrow> nat option" where
  "volume_get_by_fslabel volumes label =
     find_volume (\<lambda>x. case ix_fslabel x of None \<Rightarrow> False | Some l \<Rightarrow> strcasecmp l label = 0) volumes"

definition volume_get_by_coord :: "indexed list \<Rightarrow> bool \<Rightarrow> int \<Rightarrow> int \<Rightarrow> nat option" where
  "volume_get_by_coord volumes optical drv number =
     find_volume (\<lambda>x. vindex (ix_volume x) = drv \<and> is_optical (ix_volume x) = optical \<and> partition (ix_volume x) = number) volumes"

definition volume_get_by_bios_drive :: "indexed list \<Rightarrow> int \<Rightarrow> nat option" where
  "volume_get_by_bios_drive volumes drv = find_volume (\<lambda>x. drive (ix_volume x) = drv) volumes"

section \<open>The loader's state\<close>

record 'z uri_env =
  udisk :: disk
  utftp :: tftp
  updgzip :: "'z pdgzip"
  case_insensitive_fopen :: bool
  secure_boot_active :: bool
  hash_mismatch_panic :: bool
  key_pressed :: char

text \<open>The volume to boot from may be one of the index; only the network, whose volume is not, changes it here.\<close>

record uri_state =
  upmm :: pmm_state
  volume_index :: "indexed list"
  iso_contexts :: "iso9660_context list"
  boot_volume :: volume

datatype volume_ref = Boot_Volume | Indexed nat

fun volume_state :: "uri_state \<Rightarrow> volume_ref \<Rightarrow> vstate" where
  "volume_state st Boot_Volume = (upmm st, boot_volume st)"
| "volume_state st (Indexed i) = (upmm st, ix_volume (volume_index st ! i))"

fun put_volume :: "uri_state \<Rightarrow> volume_ref \<Rightarrow> vstate \<Rightarrow> uri_state" where
  "put_volume st Boot_Volume (p, v) = st\<lparr>upmm := p, boot_volume := v\<rparr>"
| "put_volume st (Indexed i) (p, v) =
     st\<lparr>upmm := p, volume_index := (volume_index st)[i := (volume_index st ! i)\<lparr>ix_volume := v\<rparr>]\<rparr>"

section \<open>Which volume a URI names\<close>

type_synonym raw_file = "file_handle \<times> volume_ref"

definition open_on :: "'z uri_env \<Rightarrow> uri_state \<Rightarrow> nat option \<Rightarrow> string \<Rightarrow> (raw_file option \<times> uri_state) outcome" where
  "open_on env st vol path =
     (case vol of
        None \<Rightarrow> Inr (None, st)
      | Some i \<Rightarrow>
          (case fopen (udisk env) (utftp env) (case_insensitive_fopen env) i (iso_contexts st) (volume_state st (Indexed i)) path of
             Inl e \<Rightarrow> Inl e
           | Inr ((r, cs), vst) \<Rightarrow>
               Inr (map_option (\<lambda>f. (f, Indexed i)) r, (put_volume st (Indexed i) vst)\<lparr>iso_contexts := cs\<rparr>)))"

text \<open>\<open>drive:partition\<close>, without a colon \<^const>\<open>None\<close>.\<close>

fun split_colon :: "string \<Rightarrow> (string \<times> string) option" where
  "split_colon [] = None"
| "split_colon (c # cs) = (if c = CHR '':'' then Some ([], cs) else map_option (\<lambda>(d, p). (c # d, p)) (split_colon cs))"

definition parse_bios_partition :: "string \<Rightarrow> (int \<times> int) option outcome" where
  "parse_bios_partition loc =
     (case split_colon loc of
        None \<Rightarrow> Inr None
      | Some (d, p) \<Rightarrow>
          if d = [] then Inl ''Drive number cannot be omitted for hdd():/ and odd():/''
          else (let val = fst (strtoui d 10)
                in if val < 1 \<or> val > 256 then Inl ''Drive number outside range 1-256''
                   else (let number = fst (strtoui p 10)
                         in if number > 256 then Inl ''Partition number outside range 0-256''
                            else Inr (Some (uint val, uint number)))))"

definition uri_disk_dispatch :: "bool \<Rightarrow> 'z uri_env \<Rightarrow> uri_state \<Rightarrow> string \<Rightarrow> string \<Rightarrow> (raw_file option \<times> uri_state) outcome" where
  "uri_disk_dispatch optical env st loc path =
     (case parse_bios_partition loc of
        Inl e \<Rightarrow> Inl e
      | Inr None \<Rightarrow> Inr (None, st)
      | Inr (Some (drv, number)) \<Rightarrow> open_on env st (volume_get_by_coord (volume_index st) optical drv number) path)"

abbreviation "uri_hdd_dispatch \<equiv> uri_disk_dispatch False"
abbreviation "uri_odd_dispatch \<equiv> uri_disk_dispatch True"

definition uri_guid_dispatch :: "'z uri_env \<Rightarrow> uri_state \<Rightarrow> string \<Rightarrow> string \<Rightarrow> (raw_file option \<times> uri_state) outcome" where
  "uri_guid_dispatch env st guid_str path =
     (case string_to_guid_be (replicate 16 0) guid_str of
        None \<Rightarrow> Inr (None, st)
      | Some g \<Rightarrow>
          (case volume_get_by_guid (volume_index st) g of
             Some i \<Rightarrow> open_on env st (Some i) path
           | None \<Rightarrow>
               (case string_to_guid_mixed g guid_str of
                  None \<Rightarrow> Inr (None, st)
                | Some g' \<Rightarrow> open_on env st (volume_get_by_guid (volume_index st) g') path)))"

definition uri_fslabel_dispatch :: "'z uri_env \<Rightarrow> uri_state \<Rightarrow> string \<Rightarrow> string \<Rightarrow> (raw_file option \<times> uri_state) outcome" where
  "uri_fslabel_dispatch env st fslabel path = open_on env st (volume_get_by_fslabel (volume_index st) fslabel) path"

definition uri_tftp_dispatch :: "'z uri_env \<Rightarrow> uri_state \<Rightarrow> string \<Rightarrow> string \<Rightarrow> (raw_file option \<times> uri_state) outcome" where
  "uri_tftp_dispatch env st root path =
     (if strcmp root '''' \<noteq> 0 \<and> inet_pton root = None then Inl ''tftp: Invalid ipv4 address''
      else case utftp env (volume_state st Boot_Volume) root path of
             Inl e \<Rightarrow> Inl e
           | Inr (r, vst) \<Rightarrow> Inr (map_option (\<lambda>f. (f, Boot_Volume)) r, put_volume st Boot_Volume vst))"

definition uri_boot_dispatch :: "'z uri_env \<Rightarrow> uri_state \<Rightarrow> string \<Rightarrow> string \<Rightarrow> (raw_file option \<times> uri_state) outcome" where
  "uri_boot_dispatch env st s_part path =
     (if vpxe (boot_volume st) then uri_tftp_dispatch env st s_part path
      else (let val = fst (strtoui s_part 10)
            in if deref s_part \<noteq> NUL \<and> val > 256 then Inl ''Partition number outside range 0-256''
               else open_on env st (volume_get_by_coord (volume_index st) (is_optical (boot_volume st)) (vindex (boot_volume st))
                 (if deref s_part \<noteq> NUL then uint val else partition (boot_volume st))) path))"

definition uri_dispatch :: "'z uri_env \<Rightarrow> uri_state \<Rightarrow> string \<Rightarrow> string \<Rightarrow> string \<Rightarrow> (raw_file option \<times> uri_state) outcome" where
  "uri_dispatch env st resource root path =
     (if strcmp resource ''hdd'' = 0 then uri_hdd_dispatch env st root path
      else if strcmp resource ''odd'' = 0 then uri_odd_dispatch env st root path
      else if strcmp resource ''boot'' = 0 then uri_boot_dispatch env st root path
      else if strcmp resource ''guid'' = 0 then uri_guid_dispatch env st root path
      else if strcmp resource ''uuid'' = 0 then uri_guid_dispatch env st root path
      else if strcmp resource ''fslabel'' = 0 then uri_fslabel_dispatch env st root path
      else if strcmp resource ''tftp'' = 0 then uri_tftp_dispatch env st root path
      else Inl ''Resource not valid.'')"

section \<open>Memory for the payload\<close>

definition uri_alloc :: "vstate \<Rightarrow> u64 \<Rightarrow> u32 \<Rightarrow> bool \<Rightarrow> (u64 \<times> vstate) outcome" where
  "uri_alloc st cnt type allow_high_mem =
     (case ext_mem_alloc_type_aligned_mode (fst st) cnt type 4096 allow_high_mem of
        Inl e \<Rightarrow> Inl e | Inr (p, s) \<Rightarrow> Inr (p, s, snd st))"

definition uri_release_range :: "vstate \<Rightarrow> u64 \<Rightarrow> u64 \<Rightarrow> (unit \<times> vstate) outcome" where
  "uri_release_range st addr cnt =
     (case ALIGN_UP cnt 4096 of
        None \<Rightarrow> Inl ''uri: alignment overflow''
      | Some c \<Rightarrow> (case memmap_alloc_range (fst st) addr c MEMMAP_USABLE 0 False False True of
                    Inl e \<Rightarrow> Inl e | Inr (_, s) \<Rightarrow> Inr ((), s, snd st)))"

text \<open>The buffer grows downwards in place when the memory below it is free, or moves.\<close>

definition grow_buffer :: "vstate \<Rightarrow> u32 \<Rightarrow> bool \<Rightarrow> u64 \<Rightarrow> u64 \<Rightarrow> ((u64 \<times> u64) \<times> vstate) outcome" where
  "grow_buffer st type allow_high_mem addr cap =
     (let new_cap = (if cap < 0x4000000 then cap * 2 else cap + 0x4000000);
          delta = new_cap - cap
      in case (if addr \<ge> delta then memmap_alloc_range (fst st) (addr - delta) delta type MEMMAP_USABLE False False False
               else Inr (False, fst st)) of
           Inl e \<Rightarrow> Inl e
         | Inr (True, s) \<Rightarrow> Inr ((addr - delta, new_cap), s, snd st)
         | Inr (False, s) \<Rightarrow>
             bindo (uri_alloc (s, snd st) new_cap type allow_high_mem) (\<lambda>new_addr st1.
             bindo (uri_release_range st1 addr cap) (\<lambda>_ st2. Inr ((new_addr, new_cap), st2))))"

end
