(* ===== verification/Uri_Open.thy ===== *)
theory Uri_Open
  imports Uri
begin

text \<open>
  \<open>uri_open\<close> of \<^verbatim>\<open>src/common/lib/uri.c\<close>: the file a URI names, checked against the hash of the
  URI and left in memory. A compressed file with a hash is first copied to memory and checked
  there, and decoded from that copy; any other file with a hash is hashed while it is copied.
\<close>

section \<open>Checking\<close>

text \<open>\<open>menu(false)\<close> does not return.\<close>

definition uri_hash_mismatch :: "'z uri_env \<Rightarrow> 's \<Rightarrow> (unit \<times> 's) outcome" where
  "uri_hash_mismatch env st =
     (if hash_mismatch_panic env then Inl ''Blake2b hash for URI does not match!''
      else if key_pressed env \<noteq> CHR ''Y'' \<and> key_pressed env \<noteq> CHR ''y'' then Inl ''menu''
      else Inr ((), st))"

text \<open>A compressed file is held in memory, checked, and handed on as a file of its own.\<close>

definition check_compressed :: "'z uri_env \<Rightarrow> vstate \<Rightarrow> file_handle \<Rightarrow> u8 list \<Rightarrow> bool \<Rightarrow> (file_handle \<times> vstate) outcome" where
  "check_compressed env st raw hash_buf allow_high_mem =
     (let compressed_size = fh_size raw
      in bindo (uri_alloc st compressed_size MEMMAP_BOOTLOADER_RECLAIMABLE allow_high_mem) (\<lambda>compressed st1.
         bindo (fread (udisk env) raw st1 0 compressed_size) (\<lambda>got st2.
           if length got \<noteq> unat compressed_size then Inl ''uri: short read of compressed resource''
           else bindo (fclose raw st2) (\<lambda>_ st3.
                bindo (if blake2b got \<noteq> hash_buf then uri_hash_mismatch env st3 else Inr ((), st3)) (\<lambda>_ st4.
                bindo (valloc st4 SIZEOF_FILE_HANDLE) (\<lambda>q st5.
                  Inr (\<lparr>fh_at = q, fh_backing = Memfile compressed got, fh_size = compressed_size, fh_readall = False,
                        fh_path_at = 0, fh_path = '''', fh_path_len = 0\<rparr>, st5)))))))"

section \<open>Draining a file of known size\<close>

definition read_whole ::
  "('s \<Rightarrow> vstate \<Rightarrow> u64 \<Rightarrow> u64 \<Rightarrow> ((u8 list \<times> 's) \<times> vstate) outcome) \<Rightarrow> 's \<Rightarrow> vstate \<Rightarrow> u64 \<Rightarrow> u32 \<Rightarrow> bool
     \<Rightarrow> ((u64 \<times> u8 list \<times> 's) \<times> vstate) outcome" where
  "read_whole rd s st sz type allow_high_mem =
     bindo (uri_alloc st sz type allow_high_mem) (\<lambda>buf st1.
       if sz > 0 then
         bindo (rd s st1 0 sz) (\<lambda>(got, s1) st2.
           if length got \<noteq> unat sz then Inl ''uri: short read from non-gzip stream'' else Inr ((buf, got, s1), st2))
       else Inr ((buf, [], s), st1))"

definition deliver_plain :: "'z uri_env \<Rightarrow> vstate \<Rightarrow> file_handle \<Rightarrow> u8 list option \<Rightarrow> u32 \<Rightarrow> bool \<Rightarrow> ((u64 \<times> u8 list \<times> u64) \<times> vstate) outcome" where
  "deliver_plain env st raw hash_buf type allow_high_mem =
     (case hash_buf of
        None \<Rightarrow>
          bindo (read_whole (\<lambda>f st loc cnt. bindo (fread (udisk env) f st loc cnt) (\<lambda>got st1. Inr ((got, f), st1)))
                   raw st (fh_size raw) type allow_high_mem) (\<lambda>(buf, bs, top) st1.
          bindo (fclose top st1) (\<lambda>_ st2. Inr ((buf, bs, fh_size raw), st2)))
      | Some h \<Rightarrow>
          bindo (blake2b_open st raw) (\<lambda>hash_fh st1.
          bindo (read_whole (wrapped_fread (blake2b_read (udisk env))) hash_fh st1 (wr_size hash_fh) type allow_high_mem) (\<lambda>(buf, bs, top) st2.
          (let (ok, fd) = blake2b_check_hash (wr_fd top) h
           in bindo (if \<not> ok then uri_hash_mismatch env st2 else Inr ((), st2)) (\<lambda>_ st3.
              bindo (wrapped_fclose (blake2b_close (wr_fd_at top)) (top\<lparr>wr_fd := fd\<rparr>) st3) (\<lambda>_ st4.
                Inr ((buf, bs, wr_size hash_fh), st4)))))))"

section \<open>Draining a compressed file\<close>

text \<open>A read stays inside the size, so the end of what it delivers does not wrap around.\<close>

lemma gzip_read_end:
  assumes "wrapped_fread (gzip_read disk pz) w st loc cnt = Inr ((bs, w1), st1)"
  shows "unat (loc + of_nat (length bs)) = unat loc + length bs"
proof -
  from assms have g: "\<not> loc > wr_size w" "\<not> cnt > wr_size w - loc" and r: "\<exists>d. gzip_read disk pz (wr_fd w) st loc cnt = Inr ((bs, d), st1)"
    by (auto simp: wrapped_fread_def split: if_splits elim!: bindo_InrE)
  from g have "unat (wr_size w - loc) = unat (wr_size w) - unat loc" by (simp add: unat_sub)
  with g have "unat loc + unat cnt \<le> unat (wr_size w)" by (simp add: word_less_nat_alt not_less)
  with r gzip_read_length have "unat loc + length bs \<le> unat (wr_size w)" by fastforce
  then have "unat loc + length bs < 2 ^ 64" using unsigned_less [of "wr_size w", where 'a = nat] by simp
  then show ?thesis by (simp add: unat_word_ariths unat_of_nat take_bit_nat_eq_self)
qed

text \<open>
  The buffer grows until the decoder has nothing left; the result is the data, where it lies,
  the capacity and the length of the buffer, and the filter.
\<close>

function gzip_drain ::
  "disk \<Rightarrow> 'z pdgzip \<Rightarrow> u32 \<Rightarrow> bool \<Rightarrow> 'z gzip_handle wrapper \<Rightarrow> vstate \<Rightarrow> u64 \<Rightarrow> u64 \<Rightarrow> u64
     \<Rightarrow> ((u8 list \<times> u64 \<times> u64 \<times> u64 \<times> 'z gzip_handle wrapper) \<times> vstate) outcome" where
  "gzip_drain disk pz type high w st addr cap len =
     (case (if len = cap then grow_buffer st type high addr cap else Inr ((addr, cap), st)) of
        Inl e \<Rightarrow> Inl e
      | Inr ((addr1, cap1), st1) \<Rightarrow>
          (let want = (if cap1 - len > 65536 then 65536 else cap1 - len)
           in case wrapped_fread (gzip_read disk pz) w st1 len want of
                Inl e \<Rightarrow> Inl e
              | Inr ((bs, w1), st2) \<Rightarrow>
                  if bs = [] then Inr (([], addr1, cap1, len, w1), st2)
                  else bindo (gzip_drain disk pz type high w1 st2 addr1 cap1 (len + of_nat (length bs)))
                         (\<lambda>(cs, r) st3. Inr ((bs @ cs, r), st3))))"
  by pat_completeness auto
termination
proof (relation "measure (\<lambda>(disk, pz, type, high, w, st, addr, cap, len). 2 ^ 64 - unat len)", goal_cases)
  case (2 disk pz type high w st addr cap len y ac st1 addr1 cap1 want yb ad st2 bs w1)
  then have "wrapped_fread (gzip_read disk pz) w st1 len want = Inr ((bs, w1), st2)" by simp
  from gzip_read_end [OF this] have "unat (len + of_nat (length bs)) = unat len + length bs" .
  moreover have "unat (len + of_nat (length bs)) < 2 ^ 64"
    using unsigned_less [of "len + of_nat (length bs)", where 'a = nat] by simp
  ultimately show ?case using 2 by (cases bs) simp_all
qed simp

declare gzip_drain.simps [simp del]

definition deliver_gzip :: "'z uri_env \<Rightarrow> vstate \<Rightarrow> file_handle \<Rightarrow> u32 \<Rightarrow> bool \<Rightarrow> ((u64 \<times> u8 list \<times> u64) \<times> vstate) outcome" where
  "deliver_gzip env st src type allow_high_mem =
     bindo (gzip_open (updgzip env) st src) (\<lambda>top st1.
     bindo (uri_alloc st1 0x100000 type allow_high_mem) (\<lambda>buf st2.
     bindo (gzip_drain (udisk env) (updgzip env) type allow_high_mem top st2 buf 0x100000 0) (\<lambda>(bs, addr, cap, len, top1) st3.
       case ALIGN_UP len 4096 of
         None \<Rightarrow> Inl ''uri: alignment overflow''
       | Some aligned \<Rightarrow>
           (let kept = (if aligned = 0 then 4096 else aligned)
            in bindo (if kept < cap then uri_release_range st3 (addr + kept) (cap - kept) else Inr ((), st3)) (\<lambda>_ st4.
               bindo (wrapped_fclose (gzip_close (updgzip env) (wr_fd_at top1)) top1 st4) (\<lambda>_ st5.
                 Inr ((addr, bs, len), st5)))))))"

section \<open>\<open>uri_open\<close>\<close>

definition uri_deliver ::
  "'z uri_env \<Rightarrow> vstate \<Rightarrow> file_handle \<Rightarrow> bool \<Rightarrow> u8 list option \<Rightarrow> u32 \<Rightarrow> bool \<Rightarrow> (file_handle \<times> vstate) outcome" where
  "uri_deliver env st raw gz_compressed hash_buf type allow_high_mem =
     bindo (copy_path st raw) (\<lambda>(path_at, path, path_len) st1.
     bindo (if gz_compressed then
              bindo (case hash_buf of None \<Rightarrow> Inr (raw, st1) | Some h \<Rightarrow> check_compressed env st1 raw h allow_high_mem) (\<lambda>top st2.
                deliver_gzip env st2 top type allow_high_mem)
            else deliver_plain env st1 raw hash_buf type allow_high_mem) (\<lambda>(buf, bs, buf_len) st2.
     bindo (valloc st2 SIZEOF_FILE_HANDLE) (\<lambda>q st3.
       Inr (\<lparr>fh_at = q, fh_backing = Memfile buf bs, fh_size = buf_len, fh_readall = True,
             fh_path_at = path_at, fh_path = path, fh_path_len = path_len\<rparr>, st3))))"

definition uri_open :: "'z uri_env \<Rightarrow> uri_state \<Rightarrow> string \<Rightarrow> u32 \<Rightarrow> bool \<Rightarrow> (raw_file option \<times> uri_state) outcome" where
  "uri_open env st uri type allow_high_mem =
     (case uri_resolve uri of
        Inl e \<Rightarrow> Inl e
      | Inr None \<Rightarrow> Inr (None, st)
      | Inr (Some u) \<Rightarrow>
          (let gz_compressed = (deref (up_resource u) = CHR ''$'');
               resource = (if gz_compressed then tl (up_resource u) else up_resource u)
           in bindo (uri_dispatch env st resource (up_root u) (up_path u)) (\<lambda>raw st1.
                case raw of
                  None \<Rightarrow> Inr (None, st1)
                | Some (f, vol) \<Rightarrow>
                    if secure_boot_active env \<and> up_hash u = None then Inl ''Secure Boot is active and URI has no associated hash!''
                    else (case uri_deliver env (volume_state st1 vol) f gz_compressed (map_option hash_bytes (up_hash u)) type allow_high_mem of
                            Inl e \<Rightarrow> Inl e
                          | Inr (out, vst) \<Rightarrow> Inr (Some (out, vol), put_volume st1 vol vst)))))"

text \<open>What the menu makes of the configuration, \<^verbatim>\<open>src/common/menu.c\<close>.\<close>

definition hash_mismatch_setting :: "config \<Rightarrow> bool \<Rightarrow> bool" where
  "hash_mismatch_setting cfg secure_boot =
     (secure_boot \<or>
      (case config_get_value cfg None 0 (Some ''HASH_MISMATCH_PANIC'') of
         None \<Rightarrow> True
       | Some (value, _) \<Rightarrow> strcmp value ''yes'' = 0))"

end
