(* ===== verification/Uri_Correct.thy ===== *)
theory Uri_Correct
  imports Uri_Open
begin

text \<open>
  What \<open>uri_open\<close> leaves in memory was checked against the hash: the bytes that are hashed are
  the bytes delivered, or the bytes the decoder reads.
\<close>

section \<open>The check\<close>

lemma hash_bytes_length: "length (hash_bytes h) = 64"
  by (simp add: hash_bytes_def)

lemma blake2b_digest: "blake2b bs = blake2b_spec bs"
  using update_absorbed [OF init_absorbed, of bs] by (simp add: blake2b_def final_absorbed)

lemma mismatch_panics: "hash_mismatch_panic env \<Longrightarrow> uri_hash_mismatch env st = Inl ''Blake2b hash for URI does not match!''"
  by (simp add: uri_hash_mismatch_def)

lemma read_whole_hashed:
  assumes "read_whole (wrapped_fread (blake2b_read disk)) w st sz ty high = Inr ((a, bs, w'), st')" and "has_hashed w []"
  shows "has_hashed w' bs" and "length bs = unat sz"
  using assms read_has_hashed [of disk w _ 0 sz bs w' st' "[]"]
  by (auto simp: read_whole_def word_gt_0 split: if_splits elim!: bindo_InrE)

lemma deliver_plain_hashed:
  assumes "deliver_plain env st raw (Some h) ty high = Inr ((a, bs, n), st')" and "hash_mismatch_panic env" and "length h = 64"
  shows "blake2b_spec bs = h" and "n = of_nat (length bs)"
proof -
  from assms(1) obtain w st1 where o: "blake2b_open st raw = Inr (w, st1)" unfolding deliver_plain_def by (auto elim!: bindo_InrE)
  from assms(1) o obtain w1 st2 where r: "read_whole (wrapped_fread (blake2b_read (udisk env))) w st1 (wr_size w) ty high = Inr ((a, bs, w1), st2)"
    and ok: "fst (blake2b_check_hash (wr_fd w1) h)" and n: "n = wr_size w"
    by (auto simp: deliver_plain_def Let_def mismatch_panics assms(2) split: prod.splits if_splits elim!: bindo_InrE)
  note h = read_whole_hashed [OF r open_has_hashed [OF o]]
  show "blake2b_spec bs = h" using check_hash_hashed [OF h(1), of h] ok assms(3) by simp
  show "n = of_nat (length bs)" using h(2) n by simp
qed

lemma check_compressed_hashed:
  assumes "check_compressed env st raw h high = Inr (f, st')" and "hash_mismatch_panic env"
  shows "\<exists>a data. fh_backing f = Memfile a data \<and> blake2b_spec data = h \<and> fh_size f = of_nat (length data) \<and> length data < 2 ^ 64"
  using assms unsigned_less [of "fh_size raw", where 'a = nat]
  by (auto simp: check_compressed_def Let_def blake2b_digest mismatch_panics split: if_splits elim!: bindo_InrE)

section \<open>Decoding\<close>

lemma grown_cap: "grow_buffer st ty high addr cap = Inr ((addr1, cap1), st1) \<Longrightarrow> cap \<noteq> 0 \<Longrightarrow> cap1 - cap \<noteq> 0"
proof -
  assume g: "grow_buffer st ty high addr cap = Inr ((addr1, cap1), st1)" and c: "cap \<noteq> 0"
  from g have "cap1 = (if cap < 0x4000000 then cap * 2 else cap + 0x4000000)"
    by (auto simp: grow_buffer_def Let_def split: sum.splits bool.splits prod.splits elim!: bindo_InrE)
  with c show ?thesis by auto
qed

lemma gzip_drain_at:
  "gzip_drain disk pz ty high w st addr cap len = Inr ((bs, addr', cap', len', w'), st') \<Longrightarrow>
     gz_at (wr_fd w) src pos \<Longrightarrow> dec_pos (wr_fd w) = len \<Longrightarrow> cap \<noteq> 0 \<or> len \<noteq> 0 \<Longrightarrow>
     decodes pz src (gz_state (wr_fd w)) pos bs \<and> len' = len + of_nat (length bs)"
proof (induction disk pz ty high w st addr cap len arbitrary: bs pos rule: gzip_drain.induct)
  case (1 disk pz ty high w st addr cap len)
  let ?g = "if len = cap then grow_buffer st ty high addr cap else Inr ((addr, cap), st)"
  from "1.prems"(1) obtain addr1 cap1 st1 where g: "?g = Inr ((addr1, cap1), st1)"
    by (subst (asm) gzip_drain.simps) (cases ?g; auto)
  define want where "want = (if cap1 - len > 65536 then 65536 else cap1 - len)"
  have "cap1 - len \<noteq> 0" using g grown_cap [of st ty high addr cap addr1 cap1 st1] "1.prems"(4) by (auto split: if_splits)
  then have want: "0 < unat want" by (auto simp: want_def unat_gt_0)
  from "1.prems"(1) g obtain cs w1 st2 where r: "wrapped_fread (gzip_read disk pz) w st1 len want = Inr ((cs, w1), st2)"
    and k: "(if cs = [] then Inr (([], addr1, cap1, len, w1), st2)
       else bindo (gzip_drain disk pz ty high w1 st2 addr1 cap1 (len + of_nat (length cs)))
              (\<lambda>(ds, r) st3. Inr ((cs @ ds, r), st3))) = Inr ((bs, addr', cap', len', w'), st')"
    by (subst (asm) gzip_drain.simps) (auto simp: want_def Let_def split: sum.splits)
  from r "1.prems"(3) have "gzip_read disk pz (wr_fd w) st1 (dec_pos (wr_fd w)) want = Inr ((cs, wr_fd w1), st2)"
    by (auto simp: wrapped_fread_def split: if_splits elim!: bindo_InrE)
  from decode_loop_at [OF gzip_read_on [OF this] "1.prems"(2)] want obtain pos1
    where p: "gz_at (wr_fd w1) src pos1" "dec_pos (wr_fd w1) = len + of_nat (length cs)"
      "\<And>rest. decodes pz src (gz_state (wr_fd w1)) pos1 rest \<Longrightarrow> decodes pz src (gz_state (wr_fd w)) pos (cs @ rest)"
      "cs = [] \<Longrightarrow> decodes pz src (gz_state (wr_fd w)) pos []" using "1.prems"(3) by auto
  show ?case
  proof (cases "cs = []")
    case True
    with k p(4) show ?thesis by simp
  next
    case False
    from k False obtain ds where d: "gzip_drain disk pz ty high w1 st2 addr1 cap1 (len + of_nat (length cs)) = Inr ((ds, addr', cap', len', w'), st')"
      and bs: "bs = cs @ ds" by (auto elim!: bindo_InrE)
    have "cap1 \<noteq> 0 \<or> len + of_nat (length cs) \<noteq> 0" using gzip_read_end [OF r] False by (auto simp: unat_eq_0 [symmetric])
    from "1.IH" [OF g refl refl want_def r refl refl False d p(1,2) this] p(3) bs show ?thesis by simp
  qed
qed

lemma gz_at_start:
  assumes "fh_backing f = Memfile a data" and "fh_size f = of_nat (length data)" and "length data < 2 ^ 64" and "gz_source gh = f"
  shows "gz_at (gz_reset pz gh) data 0"
  using assms by (simp add: gz_at_def gz_reset_def)

lemma deliver_gzip_decodes:
  assumes "deliver_gzip env st f ty high = Inr ((a, bs, n), st')"
    and "fh_backing f = Memfile b data" and "fh_size f = of_nat (length data)" and "length data < 2 ^ 64"
  shows "gunzips (updgzip env) data bs" and "n = of_nat (length bs)"
proof -
  let ?pz = "updgzip env"
  from assms(1) obtain w st1 st2 buf addr cap w1 st3 where o: "gzip_open ?pz st f = Inr (w, st1)"
    and d: "gzip_drain (udisk env) ?pz ty high w st2 buf 0x100000 0 = Inr ((bs, addr, cap, n, w1), st3)"
    by (auto simp: deliver_gzip_def Let_def split: option.splits elim!: bindo_InrE)
  from o obtain gh where w: "wr_fd w = gz_reset ?pz gh" "gz_source gh = f"
    by (auto simp: gzip_open_def wrap_file_def elim!: bindo_InrE)
  from gzip_drain_at [OF d, of data 0] gz_at_start [OF assms(2-4) w(2), of ?pz]
  show "gunzips ?pz data bs" and "n = of_nat (length bs)" by (simp_all add: w gunzips_def gz_reset_def)
qed

section \<open>The whole\<close>

definition checked_payload :: "'z uri_env \<Rightarrow> bool \<Rightarrow> u8 list \<Rightarrow> u8 list \<Rightarrow> bool" where
  "checked_payload env gz_compressed h bs \<longleftrightarrow>
     (\<exists>data. blake2b_spec data = h \<and> (if gz_compressed then gunzips (updgzip env) data bs else bs = data))"

lemma uri_deliver_checked:
  assumes "uri_deliver env st raw gz (Some h) ty high = Inr (out, st')" and "hash_mismatch_panic env" and "length h = 64"
  shows "\<exists>a bs. fh_backing out = Memfile a bs \<and> fh_size out = of_nat (length bs) \<and> checked_payload env gz h bs"
proof (cases gz)
  case True
  with assms(1) obtain st1 f st2 a bs n st3 where c: "check_compressed env st1 raw h high = Inr (f, st2)"
    and d: "deliver_gzip env st2 f ty high = Inr ((a, bs, n), st3)" and o: "fh_backing out = Memfile a bs" "fh_size out = n"
    by (auto simp: uri_deliver_def elim!: bindo_InrE)
  from check_compressed_hashed [OF c assms(2)] obtain b data where f: "fh_backing f = Memfile b data" "blake2b_spec data = h"
    "fh_size f = of_nat (length data)" "length data < 2 ^ 64" by blast
  from deliver_gzip_decodes [OF d f(1,3,4)] f(2) o True show ?thesis by (auto simp: checked_payload_def)
next
  case False
  with assms(1) obtain st1 a bs n st2 where d: "deliver_plain env st1 raw (Some h) ty high = Inr ((a, bs, n), st2)"
    and o: "fh_backing out = Memfile a bs" "fh_size out = n"
    by (auto simp: uri_deliver_def elim!: bindo_InrE)
  from deliver_plain_hashed [OF d assms(2,3)] o False show ?thesis by (auto simp: checked_payload_def)
qed

lemma uri_open_steps:
  assumes "uri_open env st uri ty high = Inr (Some (out, vol), st')"
  obtains u f st1 vst where "uri_resolve uri = Inr (Some u)"
    and "uri_dispatch env st (if deref (up_resource u) = CHR ''$'' then tl (up_resource u) else up_resource u) (up_root u) (up_path u) = Inr (Some (f, vol), st1)"
    and "secure_boot_active env \<longrightarrow> up_hash u \<noteq> None"
    and "uri_deliver env (volume_state st1 vol) f (deref (up_resource u) = CHR ''$'') (map_option hash_bytes (up_hash u)) ty high = Inr (out, vst)"
  using assms unfolding uri_open_def Let_def
  by (auto split: sum.splits option.splits if_splits elim!: bindo_InrE)

end
