(* ===== verification/Uri_Properties.thy ===== *)
theory Uri_Properties
  imports Uri_Correct File_Properties
begin

text \<open>
  The properties of URIs. The witness opens a file of the small ISO 9660 image by a URI that
  carries the hash of the file.
\<close>

section \<open>Writing a URI\<close>

definition hex_text :: "u8 list \<Rightarrow> string" where
  "hex_text bs = concat (map (\<lambda>b. [hi_digit b, lo_digit b]) bs)"

definition uri_text :: "uri_parts \<Rightarrow> string" where
  "uri_text u = up_resource u @ ''('' @ up_root u @ ''):/'' @ up_path u @ (case up_hash u of None \<Rightarrow> '''' | Some h \<Rightarrow> CHR 0x23 # h)"

lemma hex_text_length: "length (hex_text bs) = 2 * length bs"
  by (induction bs) (simp_all add: hex_text_def)

lemma hex_char_digit: "digit_to_int c \<noteq> -1 \<Longrightarrow> hex_char c"
  by (auto simp: digit_to_int_def hex_char_def split: if_splits)

lemma hex_text_chars: "list_all hex_char (hex_text bs)"
  by (induction bs) (simp_all add: hex_text_def hex_char_digit nibble_digits)

lemma hex_text_nth: "i < length bs \<Longrightarrow> hex_text bs ! (i * 2) = hi_digit (bs ! i) \<and> hex_text bs ! Suc (i * 2) = lo_digit (bs ! i)"
  by (induction bs arbitrary: i) (auto simp: hex_text_def nth_Cons split: nat.split)

lemma hash_bytes_hex:
  assumes "length bs = 64"
  shows "hash_bytes (hex_text bs) = bs"
proof -
  have d: "word_of_int (push_bit 4 (digit_to_int c)) = push_bit 4 (hexval c)" for c
    by (simp add: hexval_def push_bit_of_int)
  show ?thesis
    by (rule nth_equalityI) (simp_all add: hash_bytes_def assms d hex_text_nth hexval_def [symmetric] nibble_digits)
qed

lemma strncmp_Cons: "strncmp (c # s) (d # t) (Suc n) = 0 \<longleftrightarrow> c = d \<and> (c = NUL \<or> strncmp s t n = 0)"
  by (auto simp: Let_def three_way_def code_inject code_zero)

lemma split_resource_text: "CHR ''('' \<notin> set r \<Longrightarrow> split_resource (r @ CHR ''('' # rest) = Some (r, rest)"
  by (induction r) (auto simp: strncmp_Cons simp del: strncmp.simps(2))

lemma split_root_text: "CHR '')'' \<notin> set r \<Longrightarrow> split_root (r @ '')'' @ '':/'' @ rest) = Some (r, rest)"
  by (induction r) (auto simp: strncmp_Cons numeral_3_eq_3 simp del: strncmp.simps(2))

lemma last_hash_None: "n \<le> length s \<Longrightarrow> CHR 0x23 \<notin> set s \<Longrightarrow> last_hash s n = None"
  by (induction n) (auto simp: in_set_conv_nth)

lemma last_hash_Some: "CHR 0x23 \<notin> set h \<Longrightarrow> n \<le> length h \<Longrightarrow> last_hash (p @ CHR 0x23 # h) (length p + 1 + n) = Some (length p)"
  by (induction n) (auto simp: nth_append in_set_conv_nth)

lemma hex_no_hash: "list_all hex_char h \<Longrightarrow> CHR 0x23 \<notin> set h"
  by (auto simp: list_all_iff hex_char_def)

lemma resolve_written:
  assumes "CHR ''('' \<notin> set (up_resource u)" and "CHR '')'' \<notin> set (up_root u)" and "length (uri_text u) < URI_BUF_SIZE"
    and "case dg of None \<Rightarrow> up_path u \<noteq> [] \<and> CHR 0x23 \<notin> set (up_path u) | Some d \<Rightarrow> length d = BLAKE2B_OUT_BYTES"
    and "up_hash u = map_option hex_text dg"
  shows "uri_resolve (uri_text u) = Inr (Some u)"
proof -
  define rest where "rest = up_path u @ (case up_hash u of None \<Rightarrow> [] | Some h \<Rightarrow> CHR 0x23 # h)"
  have s: "split_resource (uri_text u) = Some (up_resource u, up_root u @ '')'' @ '':/'' @ rest)" "split_root (up_root u @ '')'' @ '':/'' @ rest) = Some (up_root u, rest)"
    using split_resource_text [OF assms(1)] split_root_text [OF assms(2)] by (simp_all add: uri_text_def rest_def)
  have "rest \<noteq> [] \<and> split_hash rest = Inr (up_path u, up_hash u)"
  proof (cases dg)
    case None
    with assms(4,5) last_hash_None [OF le_refl, of "up_path u"] show ?thesis by (simp add: rest_def split_hash_def)
  next
    case (Some d)
    let ?h = "hex_text d"
    have h: "length ?h = 128" "list_all hex_char ?h" using assms(4) Some by (simp_all add: hex_text_length hex_text_chars)
    from last_hash_Some [OF hex_no_hash [OF h(2)] le_refl, of "up_path u"]
    have "last_hash (up_path u @ CHR 0x23 # ?h) (length (up_path u @ CHR 0x23 # ?h)) = Some (length (up_path u))" by simp
    with h Some assms(5) show ?thesis by (simp add: rest_def split_hash_def)
  qed
  with s assms(3) show ?thesis by (simp add: uri_resolve_def)
qed

text \<open>
  C38: a URI written with a resource, a root, a path and, if wanted, the hash of the file is taken
  apart into exactly these, wherever else the separators occur in its path, and the text of the
  hash stands for the digest that was printed.
\<close>

theorem uri_resolve_text:
  assumes "CHR ''('' \<notin> set (up_resource u)" and "CHR '')'' \<notin> set (up_root u)" and "length (uri_text u) < URI_BUF_SIZE"
    and "case dg of None \<Rightarrow> up_path u \<noteq> [] \<and> CHR 0x23 \<notin> set (up_path u) | Some d \<Rightarrow> length d = BLAKE2B_OUT_BYTES"
    and "up_hash u = map_option hex_text dg"
  shows "uri_resolve (uri_text u) = Inr (Some u) \<and> map_option hash_bytes (up_hash u) = dg"
  using resolve_written [OF assms] assms(4,5) hash_bytes_hex by (cases dg) simp_all

theorem uri_resolve_text_witness:
  "uri_resolve (''boot():/a#b#'' @ hex_text (replicate 64 7)) =
     Inr (Some \<lparr>up_resource = ''boot'', up_root = [], up_path = ''a#b'', up_hash = Some (hex_text (replicate 64 7))\<rparr>)"
proof -
  let ?u = "\<lparr>up_resource = ''boot'', up_root = [], up_path = ''a#b'', up_hash = Some (hex_text (replicate 64 7))\<rparr>"
  have t: "uri_text ?u = ''boot():/a#b#'' @ hex_text (replicate 64 7)" by (simp add: uri_text_def)
  have "length (uri_text ?u) < URI_BUF_SIZE" unfolding t by (simp add: hex_text_length)
  with uri_resolve_text [of ?u "Some (replicate 64 7)"] t show ?thesis by simp
qed

section \<open>A file with a hash\<close>






















section \<open>Secure Boot\<close>



end
