(* ===== verification/Spec2Isabelle.thy ===== *)
theory Spec2Isabelle
  imports Memory_Properties Library_Properties Partition_Properties Fat32_Properties File_Properties Config_Properties
    Vmm_Properties Uri_Properties
begin

text \<open>
  The boot loader Limine (Limine-Eucleia): a shallow embedding of its C code in HOL and the
  theorems that make it correct. The loader takes over the memory map of the firmware, finds the
  volumes and partitions of the machine, reads its configuration from a file system, shows the menu
  the configuration describes, loads and checks the files of the entry chosen, builds page tables
  and hands the machine to a kernel. What is modelled here is everything between the firmware
  calls at the bottom and the boot protocols at the top.

  How C is rendered. A struct is a record with the fields of the source, a machine integer a word of
  its width (\<^verbatim>\<open>int\<close> is \<open>int\<close>, array lengths and offsets \<open>nat\<close>), a C string the list of its characters
  before the terminator, a buffer the list of its bytes beside the address the allocator gave it. A
  function that can reach \<open>panic()\<close> returns an \<open>outcome\<close>: \<open>Inl\<close> with the message, or \<open>Inr\<close> with the
  result. \<open>NULL\<close> and \<open>false\<close> are \<^const>\<open>None\<close>. Globals are the fields of a state passed through
  (\<open>pmm_state\<close> for the allocator, \<open>vstate\<close> for the allocator with a volume, \<open>part_state\<close>, \<open>config\<close>,
  \<open>uri_state\<close>); \<open>bindo\<close> sequences such functions. The build is x86-64; the memory map is the one of
  the BIOS. What a function asks of hardware, firmware or a submodule is an argument: the sectors of
  a disk, the E820 list, \<open>cpuid\<close>, \<open>tftp_open\<close>, the decoder \<open>pdgzip\<close>, the key pressed.

  The parts and their theories, in the order they build on each other.

  \<^item> \<open>Prelude\<close>: integers, \<open>outcome\<close>, the checked arithmetic of \<^verbatim>\<open>lib/misc.h\<close>, lemmas on words and lists.
  \<^item> Physical memory, \<^verbatim>\<open>mm/pmm.s2.c\<close>, \<^verbatim>\<open>mm/pmm.c\<close>: \<open>Memmap\<close> (the map and its sanitiser), \<open>Memmap_Correct\<close>
    (what the four passes keep and achieve), \<open>Pmm\<close> (carving a range out of the map), \<open>Allocator\<close>
    (\<open>ext_mem_alloc\<close> and its variants, \<open>conv_mem_alloc\<close>, \<open>pmm_free\<close>, \<open>pmm_realloc\<close>), \<open>Memory_Queries\<close>,
    \<open>Pmm_Init\<close> (\<open>init_memmap\<close>, \<open>get_memmap\<close>), \<open>Elsewhere\<close> (\<^verbatim>\<open>lib/elsewhere.c\<close>, placing blobs a kernel must
    find at fixed addresses). The invariant is \<open>pmm_ok\<close>: the map is sorted out so that every usable
    byte belongs to one entry. Theorems in \<open>Memory_Properties\<close>.
  \<^item> The library: \<open>Cstring\<close> (\<^verbatim>\<open>lib/libc*.c\<close>), \<open>Numparse\<close> and \<open>Path\<close> (\<^verbatim>\<open>lib/misc*.c\<close>), \<open>Guid\<close> (\<^verbatim>\<open>lib/guid.c\<close>),
    \<open>Blake2b\<close> (\<^verbatim>\<open>crypt/blake2b.c\<close>), \<open>Qoi\<close> (\<^verbatim>\<open>lib/qoi.c\<close>), \<open>Menu_Model\<close> (\<^verbatim>\<open>menu_model.c\<close>), \<open>Clock\<close>
    (\<^verbatim>\<open>lib/time.c\<close>, \<^verbatim>\<open>lib/rand.s2.c\<close>). Theorems in \<open>Library_Properties\<close>.
  \<^item> Volumes, \<^verbatim>\<open>lib/part.s2.c\<close>: \<open>Volume\<close> (reads through a cache of one block), \<open>Reader\<close> (programs over a
    volume), \<open>Gpt\<close>, \<open>Gpt_Correct\<close>, \<open>Mbr\<close>, \<open>Mbr_Correct\<close> (partition tables). \<open>Small_Device\<close> holds the
    device and the heap of the witnesses. Theorems in \<open>Partition_Properties\<close>.
  \<^item> File systems: \<open>Fat32\<close>, \<open>Fat32_Correct\<close>, \<open>Fat32_Names\<close> (\<^verbatim>\<open>fs/fat32.s2.c\<close>); \<open>Iso9660\<close>,
    \<open>Iso9660_Directory\<close>, \<open>Iso9660_Files\<close> (\<^verbatim>\<open>fs/iso9660.s2.c\<close>); \<open>File\<close>, the dispatch over them
    (\<^verbatim>\<open>fs/file.s2.c\<close>). Theorems in \<open>Fat32_Properties\<close>, \<open>Iso9660_Properties\<close>, \<open>File_Properties\<close>.
  \<^item> Configuration, \<^verbatim>\<open>lib/config.c\<close>: \<open>Config\<close> (entries and values), \<open>Config_Lookup\<close> (a lookup by lines),
    \<open>Config_Menu\<close> (the menu tree), \<open>Config_Tree\<close> (a menu written and read back), \<open>Config_Init\<close> (checksum,
    stripping, macros, the cut), \<open>Config_Setup\<close>. Theorems in \<open>Config_Properties\<close>.
  \<^item> Resources: \<open>Hash_Filter\<close> (the hashing filter of \<^verbatim>\<open>crypt/blake2b.c\<close> over an open file), \<open>Gzip\<close>
    (\<^verbatim>\<open>compress/gzip.c\<close>), \<open>Uri\<close>, \<open>Uri_Open\<close>, \<open>Uri_Correct\<close> (\<^verbatim>\<open>lib/uri.c\<close>). Theorems in \<open>Uri_Properties\<close>.
  \<^item> Page tables, \<^verbatim>\<open>mm/vmm.c\<close>: \<open>Page_Table\<close> (entries in memory and the walk of a processor), \<open>Page_Alloc\<close>
    (what a store and a fresh table do to the walk), \<open>Vmm\<close> (the code), \<open>Vmm_Correct\<close>, \<open>Vmm_Pages\<close>.
    Theorems in \<open>Vmm_Properties\<close>.

  Interfaces. A locale states what one part relies on of another, and an interpretation on the model
  proves it of the code:

  \<^item> \<open>allocator\<close> (\<open>Allocator\<close>): a block granted was usable, is of the type asked for and no longer
    usable; interpreted for the top-down and the conventional allocator. Disjointness of any sequence
    of allocations is proved from it once.
  \<^item> \<open>byte_source\<close> (\<open>Reader\<close>): reads deliver the bytes of a fixed medium and change nothing but the
    cache; interpreted for a volume with its partition state and for one with the allocator. The
    partition tables and the file systems rest on it.
  \<^item> \<open>file_driver\<close> (\<open>File\<close>): a read inside the size delivers that part of the contents; interpreted for
    both file systems. The generic layer rests on it.
  \<^item> \<open>page_format\<close> (\<open>Page_Alloc\<close>): what an architecture's entries must tell apart; interpreted for x86-64.

  What the theorems show, by kind. Safety: allocations never overlap, partitions reported lie on their
  device, a GPT header is returned only when its checksums match, a chain of clusters never leaves
  the volume, and under Secure Boot no byte is delivered that was not checked against the hash of its
  URI. Bounds: the path normaliser, the QOI decoder and the directory reader of ISO 9660 stay inside
  their buffers whatever the input. Refinement: the sanitiser against its specification, reads of a
  volume, of FAT and of ISO 9660 files against the bytes of the medium, \<open>map_pages\<close> against address
  translation. Equivalence: BLAKE2b in pieces against the hash of the whole, short names and
  configuration lookups against their definitions. Round trips: GUIDs, menu paths, URIs,
  configurations. Termination: the nesting of \<open>map_page\<close> in itself. Errors and liveness: when a read
  panics and when the allocator gives up.

  Bounds and fuel. Every recursion is total. The bounds that occur are the source's own: 65536 tries
  to place a blob, 256 extended boot records, the number of clusters of a FAT volume, 256 volume
  descriptors and 65536 extents of ISO 9660, 64 levels of menu, URIs of 4095 characters. The one
  exception is \<open>map_page\<close>, which calls itself through \<open>get_next_level\<close>: it takes a depth, and depth
  three is proved to be enough, a greater one changing nothing. The drain of a compressed file
  terminates because a read stays inside the 64-bit size of its handle. The sizes of structs only
  enter through allocations of one page.

  Assumptions of theorems. The disk is consistent (\<open>disk_serves\<close>: reading twice yields the same bytes)
  where the contents of files are concerned, not for safety under Secure Boot; the allocator's map is
  well formed (\<open>pmm_ok\<close>), which \<open>init_memmap\<close> establishes and every operation keeps; for page tables,
  physical addresses have 48 bits, and page attributes other than write-through are read as the PAT
  the loader programs defines them.

  Not modelled. The UEFI memory map and \<^verbatim>\<open>mm/efi_pt.c\<close> (boot-services calls, page tables of the
  firmware); the page tables of other architectures and the copying through low memory on ia32; the
  boot protocols with the ELF and PE loaders (memory structures for a kernel and jumps into it); the
  user interface of the menu, the terminals and the framebuffer; SMP, PXE and disk drivers (hardware
  and firmware); the host installer \<^verbatim>\<open>host/limine.c\<close>, a separate program; \<open>pdgzip\<close>, a submodule that is
  not in the tree, and \<^verbatim>\<open>stb_image.c\<close>, third-party code. Of modelled parts: \<open>memchr\<close>, the reading of the
  hardware clock and of hardware entropy, the probing of file systems when partitions are found, the
  search for the configuration file, and the fields of handles only the network uses.
\<close>

end
